(* ===== verification/Prelude.thy ===== *)
theory Prelude
  imports Main "HOL-Library.Word"
begin

text \<open>
  Shared vocabulary of the development: the machine types of the C++ sources
  (\<open>src/lib/platform_common/qstdint.h\<close>, \<open>src/src/platform/m256.h\<close>), the index masks
  \<open>x & (CAPACITY - 1)\<close> of the power-of-two tables, and the generic list lemmas that
  the components use.
\<close>

unbundle bit_operations_syntax

section \<open>Machine types\<close>

type_synonym u8 = "8 word"
type_synonym u16 = "16 word"
type_synonym u32 = "32 word"
type_synonym u64 = "64 word"

text \<open>A signed 64-bit value is kept as its bit pattern and read with \<^const>\<open>sint\<close>.\<close>

type_synonym i64 = "64 word"

text \<open>
  The union \<open>m256i\<close>: 32 bytes, little endian, so \<open>m256i_u32[0]\<close> are the low 32 bits.
\<close>

type_synonym m256i = "256 word"

definition m256i_u32 :: "m256i \<Rightarrow> nat \<Rightarrow> u32" where
  "m256i_u32 x i = ucast (drop_bit (32 * i) x)"

definition m256i_u64 :: "m256i \<Rightarrow> nat \<Rightarrow> u64" where
  "m256i_u64 x i = ucast (drop_bit (64 * i) x)"

definition isZero :: "m256i \<Rightarrow> bool" where
  "isZero x \<longleftrightarrow> x = 0"

text \<open>The lemmas that turn masks and shifts of the code into arithmetic.\<close>

named_theorems mask_simps

lemma and_pow2_mask [mask_simps]: "(n::nat) AND (2 ^ d - 1) = n mod 2 ^ d"
  by (metis mask_nat_def take_bit_eq_mask take_bit_eq_mod)

lemma and_pow2_mask_Suc [mask_simps]: "(n::nat) AND (2 ^ d - Suc 0) = n mod 2 ^ d"
  using and_pow2_mask by simp

section \<open>Counting leading and trailing zeros\<close>

text \<open>The instructions \<open>lzcnt\<close> and \<open>tzcnt\<close>, 64 on zero.\<close>

definition lzcnt64 :: "u64 \<Rightarrow> nat" where
  "lzcnt64 x = length (takeWhile (\<lambda>i. \<not> bit x i) (rev [0..<64]))"

definition tzcnt64 :: "u64 \<Rightarrow> nat" where
  "tzcnt64 x = length (takeWhile (\<lambda>i. \<not> bit x i) [0..<64])"

lemma bit_nat_le: "bit (n::nat) i \<Longrightarrow> 2 ^ i \<le> n"
  by (metis bit_iff_odd div_less even_zero linorder_not_le)

lemma bit_word_le: "bit (x::'a::len word) i \<Longrightarrow> 2 ^ i \<le> unat x"
  by (intro bit_nat_le) (simp add: bit_unsigned_iff)

lemma word_less_exp_bits:
  assumes "\<And>i. n \<le> i \<Longrightarrow> \<not> bit (x::'a::len word) i"
  shows "unat x < 2 ^ n"
proof -
  have "bit (take_bit n x) i = bit x i" for i
    by (cases "i < n") (auto simp: bit_take_bit_iff assms)
  then have "take_bit n x = x" by (simp add: bit_eq_iff)
  then have "take_bit n (unat x) = unat x" by (metis unsigned_take_bit_eq)
  then show ?thesis by (metis take_bit_nat_less_exp)
qed

lemma lzcnt64_bounds:
  assumes "x \<noteq> 0"
  shows "lzcnt64 x < 64" and "2 ^ (63 - lzcnt64 x) \<le> unat x" and "unat x < 2 ^ (64 - lzcnt64 x)"
proof -
  let ?l = "rev [0..<64::nat]" and ?n = "lzcnt64 x"
  have nth: "?l ! m = 63 - m" if "m < 64" for m using that by (simp add: rev_nth)
  have low: "\<not> bit x (63 - m)" if "m < ?n" for m
  proof -
    have "?n \<le> 64" using length_takeWhile_le [of "\<lambda>i. \<not> bit x i" ?l] by (simp add: lzcnt64_def)
    moreover have "takeWhile (\<lambda>i. \<not> bit x i) ?l ! m = ?l ! m"
      using that by (simp add: lzcnt64_def takeWhile_nth)
    moreover have "\<not> bit x (takeWhile (\<lambda>i. \<not> bit x i) ?l ! m)"
      using that by (metis lzcnt64_def nth_mem set_takeWhileD)
    ultimately show ?thesis using nth that by simp
  qed
  show n: "?n < 64"
  proof (rule ccontr)
    assume "\<not> ?n < 64"
    then have "\<not> bit x i" for i
      using low [of "63 - i"] bit_imp_le_length [of x i] by (cases "i < 64") auto
    then have "x = 0" by (auto intro: bit_eqI)
    with assms show False by simp
  qed
  have "bit x (?l ! ?n)"
    using n nth_length_takeWhile [of "\<lambda>i. \<not> bit x i" ?l] by (simp add: lzcnt64_def)
  with n nth have "bit x (63 - ?n)" by simp
  then show "2 ^ (63 - ?n) \<le> unat x" by (rule bit_word_le)
  show "unat x < 2 ^ (64 - ?n)"
  proof (rule word_less_exp_bits)
    fix i
    assume "64 - ?n \<le> i"
    then show "\<not> bit x i"
      using low [of "63 - i"] bit_imp_le_length [of x i] by (cases "i < 64") auto
  qed
qed

lemma takeWhile_prefix_not:
  "m < length (takeWhile P xs) \<Longrightarrow> P (xs ! m)"
  by (metis nth_mem set_takeWhileD takeWhile_nth)

lemma tzcnt64_zeros: "m < tzcnt64 x \<Longrightarrow> \<not> bit x m"
  using takeWhile_prefix_not [of m "\<lambda>i. \<not> bit x i" "[0..<64]"] length_takeWhile_le [of "\<lambda>i. \<not> bit x i" "[0..<64]"]
  by (simp add: tzcnt64_def)

lemma tzcnt64_le: "tzcnt64 x \<le> 64"
  using length_takeWhile_le [of "\<lambda>i. \<not> bit x i" "[0..<64]"] by (simp add: tzcnt64_def)

lemma lzcnt64_le: "lzcnt64 x \<le> 64"
  using length_takeWhile_le [of "\<lambda>i. \<not> bit x i" "rev [0..<64]"] by (simp add: lzcnt64_def)

lemma lzcnt64_zeros:
  assumes "64 - lzcnt64 x \<le> m"
  shows "\<not> bit x m"
proof (cases "m < 64")
  case True
  then have m: "63 - m < lzcnt64 x" using assms lzcnt64_le [of x] by linarith
  have "rev [0..<64] ! (63 - m) = m" using True by (simp add: rev_nth)
  with takeWhile_prefix_not [of "63 - m" "\<lambda>i. \<not> bit x i" "rev [0..<64]"] m show ?thesis
    by (simp add: lzcnt64_def)
next
  case False
  then show ?thesis using bit_imp_le_length [of x m] by auto
qed

text \<open>\<open>n & 0xFE\<close> clears the lowest bit of a byte.\<close>

lemma and_FE: "n < 256 \<Longrightarrow> n AND 0xFE = 2 * (n div 2)" for n :: nat
proof (rule bit_eqI)
  fix k
  assume n: "n < 256"
  have "(0xFE::nat) = push_bit 1 (mask 7)" by (simp add: mask_eq_exp_minus_1)
  then have fe: "bit (0xFE::nat) k \<longleftrightarrow> 1 \<le> k \<and> k < 8"
    by (simp only: bit_push_bit_iff bit_mask_iff) auto
  have "k < 8" if "bit n k"
  proof -
    have "2 ^ k \<le> n" using that by (rule bit_nat_le)
    also have "\<dots> < 2 ^ 8" using n by simp
    finally show ?thesis using power_less_imp_less_exp [of "2::nat" k 8] by simp
  qed
  moreover have "bit (2 * (n div 2)) k \<longleftrightarrow> 1 \<le> k \<and> bit n k"
    by (cases k) (auto simp: bit_0 bit_double_iff bit_Suc)
  ultimately show "bit (n AND 0xFE) k \<longleftrightarrow> bit (2 * (n div 2)) k"
    by (auto simp: bit_and_iff fe simp del: bit_double_iff)
qed

lemma unat_less_64: "unat (x::u64) < 2 ^ 64"
  using unsigned_less [of x] by simp

lemma unat_drop_bit: "unat (drop_bit n (x::'a::len word)) = unat x div 2 ^ n"
  by (simp only: unat_drop_bit_eq) (simp only: drop_bit_eq_div)

lemma unat_push_bit_64: "unat (push_bit n (x::u64)) = unat x * 2 ^ n mod 2 ^ 64"
  by (simp only: unsigned_push_bit_eq) (simp add: push_bit_eq_mult take_bit_eq_mod)

lemma unat_add_64: "unat (a + b :: u64) = (unat a + unat b) mod 2 ^ 64"
  by (simp add: unat_word_ariths)

lemma unat_add_small_64: "unat a + unat b < 2 ^ 64 \<Longrightarrow> unat (a + b :: u64) = unat a + unat b"
  by (simp add: unat_add_64)

lemma unat_mult_64: "unat (a * b :: u64) = (unat a * unat b) mod 2 ^ 64"
  by (simp add: unat_word_ariths)

section \<open>Lists updated at an index\<close>

lemma sum_list_update_int:
  fixes f :: "'a \<Rightarrow> int"
  assumes "j < length xs"
  shows "(\<Sum>e\<leftarrow>xs[j := x]. f e) = (\<Sum>e\<leftarrow>xs. f e) - f (xs ! j) + f x"
  using assms
  by (induction xs arbitrary: j) (auto split: nat.splits)

lemma length_filter_sum: "int (length (filter P xs)) = (\<Sum>e\<leftarrow>xs. if P e then 1 else 0)"
  by (induction xs) auto

lemma length_filter_update:
  assumes "j < length xs"
  shows "int (length (filter P (xs[j := x]))) =
    int (length (filter P xs)) - (if P (xs ! j) then 1 else 0) + (if P x then 1 else 0)"
  unfolding length_filter_sum by (rule sum_list_update_int [OF assms])

section \<open>Signed arithmetic without overflow\<close>

named_theorems signed_simps

lemma sint_add_exact [signed_simps]:
  fixes a b :: u64
  assumes "- (2 ^ 63) \<le> sint a + sint b" and "sint a + sint b < 2 ^ 63"
  shows "sint (a + b) = sint a + sint b"
  using assms by (simp add: sint_word_ariths signed_take_bit_int_eq_self)

lemma sint_diff_exact [signed_simps]:
  fixes a b :: u64
  assumes "- (2 ^ 63) \<le> sint a - sint b" and "sint a - sint b < 2 ^ 63"
  shows "sint (a - b) = sint a - sint b"
  using assms by (simp add: sint_word_ariths signed_take_bit_int_eq_self)

lemma uint_eq_sint: "0 \<le> sint (a::u64) \<Longrightarrow> uint a = sint a"
  using sint_lt [of a] by (simp add: uint_sint take_bit_int_eq_self)

lemma uint_add_sint:
  fixes t a :: u64
  assumes "0 \<le> sint a" and "uint t + sint a < 2 ^ 64"
  shows "uint (t + a) = uint t + sint a"
  using assms by (simp add: uint_word_ariths uint_eq_sint [symmetric])

lemma uint_diff_sint:
  fixes t a :: u64
  assumes "0 \<le> sint a" and "sint a \<le> uint t"
  shows "uint (t - a) = uint t - sint a"
proof -
  from assms have "uint a \<le> uint t" by (simp add: uint_eq_sint)
  then have "uint (t - a) = uint t - uint a"
    by (simp add: uint_sub_lem)
  with assms(1) show ?thesis by (simp add: uint_eq_sint)
qed

lemma unat_less_32: "unat (x::u32) < 2 ^ 32"
  using unsigned_less [of x] by simp

lemma unat_ucast_32: "unat (ucast (a::u32) :: u64) = unat a"
  using unat_less_32 [of a] by (simp add: unsigned_ucast_eq take_bit_nat_eq_self)

lemma unat_of_nat_32: "n < 2 ^ 32 \<Longrightarrow> unat (of_nat n :: u32) = n"
  by (simp add: unsigned_of_nat take_bit_nat_eq_self)

lemma bit_unat: "bit (unat w) n = bit w n" for w :: "'a::len word"
  by transfer (simp add: bit_simps)

end
