(* ===== verification/Linear_Probing.thy ===== *)
theory Linear_Probing
  imports Prelude "HOL-Library.Multiset"
begin

text \<open>
  Open addressing with linear probing, the search loop shared by the spectrum, the
  universe of assets, the table of frozen addresses and the containers of contracts.
\<close>

section \<open>The probing loop\<close>

text \<open>
  \<^verbatim>\<open>
  iteration:
    if (stop(index)) { ... }
    else { index = (index + 1) & (CAPACITY - 1); goto iteration; }
  \<close>
  The table does not change while the loop runs, so a loop that has not stopped after
  \<open>CAPACITY\<close> steps never does. \<open>fuel\<close> counts the steps left and \<^const>\<open>None\<close> is
  \<open>has not stopped\<close>; lemma \<open>probe_fuel\<close> shows that \<open>CAPACITY\<close> units decide it.
\<close>

fun probe :: "nat \<Rightarrow> (nat \<Rightarrow> bool) \<Rightarrow> nat \<Rightarrow> nat \<Rightarrow> nat option" where
  "probe cap stop 0 index = None"
| "probe cap stop (Suc fuel) index =
     (if stop index then Some index else probe cap stop fuel ((index + 1) AND (cap - 1)))"

lemma probe_numeral [simp]:
  "probe cap stop (numeral k) index =
     (if stop index then Some index else probe cap stop (pred_numeral k) ((index + 1) AND (cap - 1)))"
  by (simp add: numeral_eq_Suc)

lemma probe_SomeD:
  assumes "probe (2 ^ d) stop fuel i = Some j" and "i < 2 ^ d"
  shows "\<exists>n<fuel. j = (i + n) mod 2 ^ d \<and> stop j \<and> (\<forall>m<n. \<not> stop ((i + m) mod 2 ^ d))"
  using assms
proof (induction fuel arbitrary: i)
  case 0
  then show ?case by simp
next
  case (Suc fuel)
  show ?case
  proof (cases "stop i")
    case True
    with Suc.prems show ?thesis by (intro exI [of _ 0]) auto
  next
    case False
    let ?i' = "Suc i mod 2 ^ d"
    from False Suc.prems have "probe (2 ^ d) stop fuel ?i' = Some j"
      by (simp add: mask_simps)
    from Suc.IH [OF this] obtain n where n: "n < fuel" "j = (?i' + n) mod 2 ^ d" "stop j"
      "\<And>m. m < n \<Longrightarrow> \<not> stop ((?i' + m) mod 2 ^ d)"
      by auto
    have "\<not> stop ((i + m) mod 2 ^ d)" if "m < Suc n" for m
    proof (cases m)
      case 0
      with False Suc.prems show ?thesis by simp
    next
      case (Suc k)
      with that n(4) [of k] show ?thesis by (simp add: mod_simps)
    qed
    with n(1-3) show ?thesis
      by (intro exI [of _ "Suc n"]) (auto simp: mod_simps)
  qed
qed

lemma probe_NoneD:
  assumes "probe (2 ^ d) stop fuel i = None" and "i < 2 ^ d" and "n < fuel"
  shows "\<not> stop ((i + n) mod 2 ^ d)"
  using assms
proof (induction fuel arbitrary: i n)
  case 0
  then show ?case by simp
next
  case (Suc fuel)
  from Suc.prems(1) have ns: "\<not> stop i" by (auto split: if_splits)
  let ?i' = "Suc i mod 2 ^ d"
  from ns Suc.prems(1) have p: "probe (2 ^ d) stop fuel ?i' = None"
    by (simp add: mask_simps)
  show ?case
  proof (cases n)
    case 0
    with ns Suc.prems(2) show ?thesis by simp
  next
    case (Suc k)
    with Suc.IH [OF p, of k] Suc.prems(3) show ?thesis by (simp add: mod_simps)
  qed
qed

text \<open>Every slot is \<open>n\<close> steps away from the start for some \<open>n < CAPACITY\<close>.\<close>

definition steps_to :: "nat \<Rightarrow> nat \<Rightarrow> nat \<Rightarrow> nat" where
  "steps_to cap i j = (j + cap - i) mod cap"

lemma steps_to_less: "0 < cap \<Longrightarrow> steps_to cap i j < cap"
  by (simp add: steps_to_def)

lemma steps_to_reaches: "i < cap \<Longrightarrow> j < cap \<Longrightarrow> (i + steps_to cap i j) mod cap = j"
  by (simp add: steps_to_def mod_simps)

lemma steps_to_unique:
  assumes "i < cap" "n < cap"
  shows "steps_to cap i ((i + n) mod cap) = n"
proof (cases "i + n < cap")
  case True
  then show ?thesis using assms by (simp add: steps_to_def)
next
  case False
  then have "(i + n) mod cap = i + n - cap"
    using assms by (simp add: mod_if)
  with False assms show ?thesis by (simp add: steps_to_def)
qed

lemma probe_total:
  assumes "i < 2 ^ d" and "k < 2 ^ d" and "stop k"
  shows "\<exists>j. probe (2 ^ d) stop (2 ^ d) i = Some j"
proof (rule ccontr)
  assume "\<not> ?thesis"
  then have "probe (2 ^ d) stop (2 ^ d) i = None" by (cases "probe (2 ^ d) stop (2 ^ d) i") auto
  from probe_NoneD [OF this assms(1), of "steps_to (2 ^ d) i k"] show False
    using assms by (simp add: steps_to_less steps_to_reaches)
qed

lemma probe_less:
  assumes "probe (2 ^ d) stop fuel i = Some j" and "i < 2 ^ d"
  shows "j < 2 ^ d" and "stop j"
  using probe_SomeD [OF assms] by auto

text \<open>The slot that is found is the first one that stops the loop.\<close>

lemma probe_first:
  assumes p: "probe (2 ^ d) stop fuel i = Some j" and i: "i < 2 ^ d" and fuel: "fuel \<le> 2 ^ d"
    and k: "k < 2 ^ d" and less: "steps_to (2 ^ d) i k < steps_to (2 ^ d) i j"
  shows "\<not> stop k"
proof -
  obtain n where n: "n < fuel" "j = (i + n) mod 2 ^ d" "\<forall>m<n. \<not> stop ((i + m) mod 2 ^ d)"
    using probe_SomeD [OF p i] by auto
  with i fuel have "steps_to (2 ^ d) i j = n" by (simp add: steps_to_unique)
  with less n(3) have "\<not> stop ((i + steps_to (2 ^ d) i k) mod 2 ^ d)" by simp
  then show ?thesis by (simp add: steps_to_reaches i k)
qed

lemma probe_fuel:
  assumes "probe (2 ^ d) stop (2 ^ d) i = None" and "i < 2 ^ d"
  shows "probe (2 ^ d) stop fuel i = None"
proof (cases "probe (2 ^ d) stop fuel i")
  case (Some j)
  from probe_less [OF Some assms(2)] have "j < 2 ^ d" "stop j" by auto
  with probe_total [OF assms(2)] assms(1) show ?thesis by fastforce
qed

lemma probe_cong:
  assumes "\<And>i. i < 2 ^ d \<Longrightarrow> stop i = stop' i" and "i < 2 ^ d"
  shows "probe (2 ^ d) stop fuel i = probe (2 ^ d) stop' fuel i"
  using assms(2)
  by (induction fuel arbitrary: i) (simp_all add: assms(1) mask_simps)

lemma probe_stronger:
  assumes "probe cap P n i = Some t" and "\<And>i. Q i \<Longrightarrow> P i" and "Q t"
  shows "probe cap Q n i = Some t"
  using assms(1) by (induction n arbitrary: i) (auto split: if_splits simp: assms(2,3) dest: assms(2))

text \<open>Slots known not to stop the loop may be skipped.\<close>

lemma probe_skip:
  assumes h: "h < 2 ^ d" and n: "n < 2 ^ d" and ns: "\<And>m. m \<le> n \<Longrightarrow> \<not> stop ((h + m) mod 2 ^ d)"
  shows "probe (2 ^ d) stop (2 ^ d) ((h + n + 1) mod 2 ^ d) = probe (2 ^ d) stop (2 ^ d) h"
proof -
  let ?h = "(h + n + 1) mod 2 ^ d"
  have h': "?h < 2 ^ d" by simp
  show ?thesis
  proof (cases "probe (2 ^ d) stop (2 ^ d) h")
    case None
    then have "\<not> stop k" if "k < 2 ^ d" for k using probe_total [OF h that, of stop] by auto
    then have "probe (2 ^ d) stop (2 ^ d) ?h \<noteq> Some j" for j using probe_less [OF _ h'] by blast
    then show ?thesis using None by (cases "probe (2 ^ d) stop (2 ^ d) ?h") auto
  next
    case (Some j)
    from probe_SomeD [OF Some h] obtain a where a: "a < 2 ^ d" "j = (h + a) mod 2 ^ d" "stop j"
      "\<And>m. m < a \<Longrightarrow> \<not> stop ((h + m) mod 2 ^ d)" by auto
    have na: "n < a" using a(2,3) ns by (meson not_less)
    obtain j' where j': "probe (2 ^ d) stop (2 ^ d) ?h = Some j'"
      using probe_total [OF h', of j] a by auto
    from probe_SomeD [OF j' h'] obtain b where b: "b < 2 ^ d" "j' = (?h + b) mod 2 ^ d" "stop j'"
      "\<And>m. m < b \<Longrightarrow> \<not> stop ((?h + m) mod 2 ^ d)" by auto
    have shift: "(?h + m) mod 2 ^ d = (h + (n + 1 + m)) mod 2 ^ d" for m by (simp add: mod_simps add.assoc)
    have e: "n + 1 + (a - n - 1) = a" using na by simp
    have "\<not> a - n - 1 < b" using b(4) [of "a - n - 1", unfolded shift e] a(2,3) by blast
    moreover have "\<not> n + 1 + b < a" using a(4) [of "n + 1 + b", folded shift] b(2,3) by blast
    ultimately have "n + 1 + b = a" using na by simp
    then have "j' = j" using a(2) b(2) by (simp only: shift)
    then show ?thesis using Some j' by simp
  qed
qed

text \<open>The home slot of a public key, \<open>publicKey.m256i_u32[0] & (CAPACITY - 1)\<close>.\<close>

definition home_slot :: "nat \<Rightarrow> m256i \<Rightarrow> nat" where
  "home_slot cap pk = unat (m256i_u32 pk 0) AND (cap - 1)"

lemma home_slot_less: "home_slot (2 ^ d) pk < 2 ^ d"
  by (simp add: home_slot_def mask_simps)

section \<open>Tables kept by linear probing\<close>

text \<open>
  \<open>vacant\<close> marks a slot that was never used, \<open>live\<close> a slot that holds an entry; a slot
  marked for removal is neither. Every live entry is reachable from the home slot of its
  key without crossing a vacant slot, and no key occurs twice.
\<close>

definition chained ::
  "('e \<Rightarrow> bool) \<Rightarrow> ('e \<Rightarrow> bool) \<Rightarrow> ('e \<Rightarrow> 'k) \<Rightarrow> (nat \<Rightarrow> 'k \<Rightarrow> nat) \<Rightarrow> 'e list \<Rightarrow> bool" where
  "chained vacant live key home tbl \<longleftrightarrow>
     (\<forall>i<length tbl. live (tbl ! i) \<longrightarrow>
        (\<forall>k<length tbl.
           steps_to (length tbl) (home (length tbl) (key (tbl ! i))) k
             < steps_to (length tbl) (home (length tbl) (key (tbl ! i))) i
           \<longrightarrow> \<not> vacant (tbl ! k)))"

definition keys_unique :: "('e \<Rightarrow> bool) \<Rightarrow> ('e \<Rightarrow> 'k) \<Rightarrow> 'e list \<Rightarrow> bool" where
  "keys_unique live key tbl \<longleftrightarrow>
     (\<forall>i<length tbl. \<forall>j<length tbl.
        live (tbl ! i) \<and> live (tbl ! j) \<and> key (tbl ! i) = key (tbl ! j) \<longrightarrow> i = j)"

text \<open>The finite map that a table stands for.\<close>

definition table_map :: "('e \<Rightarrow> bool) \<Rightarrow> ('e \<Rightarrow> 'k) \<Rightarrow> 'e list \<Rightarrow> 'k \<rightharpoonup> 'e" where
  "table_map live key tbl = map_of (map (\<lambda>e. (key e, e)) (filter live tbl))"

text \<open>The loop that searches a key: it stops at the key or at the first vacant slot.\<close>

definition find_slot ::
  "('e \<Rightarrow> bool) \<Rightarrow> ('e \<Rightarrow> bool) \<Rightarrow> ('e \<Rightarrow> 'k) \<Rightarrow> (nat \<Rightarrow> 'k \<Rightarrow> nat) \<Rightarrow> 'e list \<Rightarrow> 'k
     \<Rightarrow> nat option" where
  "find_slot vacant live key home tbl k =
     probe (length tbl) (\<lambda>i. vacant (tbl ! i) \<or> live (tbl ! i) \<and> key (tbl ! i) = k)
       (length tbl) (home (length tbl) k)"

lemma find_slot_home:
  assumes "vacant (tbl ! home (length tbl) k)" and "tbl \<noteq> []"
  shows "find_slot vacant live key home tbl k = Some (home (length tbl) k)"
  using assms by (cases "length tbl") (simp_all add: find_slot_def)

lemma table_map_None_iff:
  "table_map live key tbl k = None \<longleftrightarrow> (\<forall>i<length tbl. live (tbl ! i) \<longrightarrow> key (tbl ! i) \<noteq> k)"
  by (auto simp: table_map_def map_of_eq_None_iff image_iff in_set_conv_nth)

lemma table_map_SomeD:
  assumes "table_map live key tbl k = Some e"
  shows "\<exists>i<length tbl. tbl ! i = e \<and> live e \<and> key e = k"
  using map_of_SomeD [OF assms [unfolded table_map_def]] by (auto simp: in_set_conv_nth)

lemma table_map_live:
  assumes "keys_unique live key tbl" and "i < length tbl" and "live (tbl ! i)"
  shows "table_map live key tbl (key (tbl ! i)) = Some (tbl ! i)"
proof -
  have "table_map live key tbl (key (tbl ! i)) \<noteq> None"
    using assms(2,3) by (auto simp: table_map_None_iff)
  then obtain e where e: "table_map live key tbl (key (tbl ! i)) = Some e" by auto
  from table_map_SomeD [OF this] obtain j where
    "j < length tbl" "tbl ! j = e" "live e" "key e = key (tbl ! i)" by auto
  with assms have "j = i" by (auto simp: keys_unique_def)
  with e \<open>tbl ! j = e\<close> show ?thesis by simp
qed

lemma table_map_eqI:
  assumes u: "keys_unique live key tbl" and u': "keys_unique live key tbl'"
    and "\<And>e. live e \<Longrightarrow> e \<in> set tbl \<longleftrightarrow> e \<in> set tbl'"
  shows "table_map live key tbl = table_map live key tbl'"
proof
  fix k
  have *: "table_map live key t k = Some e \<longleftrightarrow> e \<in> set t \<and> live e \<and> key e = k"
    if "keys_unique live key t" for t e
    using table_map_SomeD [of live key t k e] table_map_live [OF that]
    by (auto simp: in_set_conv_nth)
  show "table_map live key tbl k = table_map live key tbl' k"
    using *[OF u] *[OF u'] assms(3) by (metis not_None_eq)
qed

lemma keys_unique_update:
  assumes u: "keys_unique live key tbl" and j: "j < length tbl"
    and fresh: "\<And>i. live e \<Longrightarrow> i < length tbl \<Longrightarrow> i \<noteq> j \<Longrightarrow> live (tbl ! i) \<Longrightarrow> key (tbl ! i) \<noteq> key e"
  shows "keys_unique live key (tbl[j := e])"
  unfolding keys_unique_def
proof (intro allI impI)
  fix i k
  assume a: "i < length (tbl[j := e])" "k < length (tbl[j := e])"
    "live (tbl[j := e] ! i) \<and> live (tbl[j := e] ! k) \<and> key (tbl[j := e] ! i) = key (tbl[j := e] ! k)"
  consider "i = j" "k = j" | "i = j" "k \<noteq> j" | "i \<noteq> j" "k = j" | "i \<noteq> j" "k \<noteq> j" by blast
  then show "i = k"
  proof cases
    case 2
    with a j fresh [of k] show ?thesis by simp
  next
    case 3
    with a j fresh [of i] show ?thesis by simp
  next
    case 4
    with a u show ?thesis by (simp add: keys_unique_def)
  qed simp
qed

lemma option_eqI: "(\<And>x. a = Some x \<longleftrightarrow> b = Some x) \<Longrightarrow> a = b"
  by (cases a; cases b) auto

lemma table_map_update:
  assumes u: "keys_unique live key tbl" and u': "keys_unique live key (tbl[j := e])"
    and j: "j < length tbl"
  shows "table_map live key (tbl[j := e]) k =
    (if live e \<and> k = key e then Some e
     else if live (tbl ! j) \<and> k = key (tbl ! j) then None else table_map live key tbl k)"
proof (cases "live e \<and> k = key e")
  case True
  then show ?thesis using table_map_live [OF u', of j] j by simp
next
  case False
  show ?thesis
  proof (cases "live (tbl ! j) \<and> k = key (tbl ! j)")
    case True
    have "table_map live key (tbl[j := e]) k = None"
      unfolding table_map_None_iff
    proof (intro allI impI notI)
      fix i
      assume "i < length (tbl[j := e])" "live (tbl[j := e] ! i)" "key (tbl[j := e] ! i) = k"
      with False True u j show False by (cases "i = j") (auto simp: keys_unique_def)
    qed
    with False True show ?thesis by simp
  next
    case noold: False
    have *: "table_map live key (tbl[j := e]) k = Some x \<longleftrightarrow> table_map live key tbl k = Some x" for x
    proof
      assume "table_map live key (tbl[j := e]) k = Some x"
      from table_map_SomeD [OF this] False j obtain i where
        "i < length tbl" "tbl ! i = x" "live x" "key x = k"
        by (auto simp: nth_list_update split: if_splits)
      with table_map_live [OF u] show "table_map live key tbl k = Some x" by metis
    next
      assume "table_map live key tbl k = Some x"
      from table_map_SomeD [OF this] noold obtain i where
        "i < length tbl" "tbl ! i = x" "live x" "key x = k" "i \<noteq> j"
        by auto
      with table_map_live [OF u', of i] show "table_map live key (tbl[j := e]) k = Some x"
        by simp
    qed
    have "table_map live key (tbl[j := e]) k = table_map live key tbl k"
      by (rule option_eqI) (rule *)
    with False noold show ?thesis by auto
  qed
qed

text \<open>
  Rebuilding a table: every element goes to the first vacant slot from its home slot on.
\<close>

fun rehash :: "('e \<Rightarrow> bool) \<Rightarrow> ('e \<Rightarrow> 'k) \<Rightarrow> (nat \<Rightarrow> 'k \<Rightarrow> nat) \<Rightarrow> 'e list \<Rightarrow> 'e list \<Rightarrow> 'e list option" where
  "rehash vacant key home [] tbl = Some tbl"
| "rehash vacant key home (e # es) tbl =
     (case probe (length tbl) (\<lambda>i. vacant (tbl ! i)) (length tbl) (home (length tbl) (key e)) of
        None \<Rightarrow> None
      | Some i \<Rightarrow> rehash vacant key home es (tbl[i := e]))"

lemma mset_filter_update:
  assumes "i < length xs" and "\<not> P (xs ! i)" and "P x"
  shows "mset (filter P (xs[i := x])) = add_mset x (mset (filter P xs))"
  using assms by (induction xs arbitrary: i) (auto split: nat.splits)

lemma keys_unique_Cons: "keys_unique live key (e # es) \<Longrightarrow> keys_unique live key es"
  unfolding keys_unique_def
proof (intro allI impI)
  fix i j
  assume u: "\<forall>i<length (e # es). \<forall>j<length (e # es).
      live ((e # es) ! i) \<and> live ((e # es) ! j) \<and> key ((e # es) ! i) = key ((e # es) ! j) \<longrightarrow> i = j"
    and "i < length es" "j < length es" "live (es ! i) \<and> live (es ! j) \<and> key (es ! i) = key (es ! j)"
  with u [rule_format, of "Suc i" "Suc j"] show "i = j" by simp
qed

lemma keys_unique_distinct: "keys_unique live key es \<Longrightarrow> distinct (map key (filter live es))"
proof (induction es)
  case (Cons e es)
  have "key e \<noteq> key x" if "live e" "x \<in> set es" "live x" for x
  proof -
    from that obtain j where "j < length es" "es ! j = x" by (auto simp: in_set_conv_nth)
    with that Cons.prems [unfolded keys_unique_def, rule_format, of 0 "Suc j"] show ?thesis by auto
  qed
  with Cons.IH [OF keys_unique_Cons [OF Cons.prems]] show ?case by auto
qed simp

locale probing_table =
  fixes vacant :: "'e \<Rightarrow> bool" and live :: "'e \<Rightarrow> bool"
    and key :: "'e \<Rightarrow> 'k" and home :: "nat \<Rightarrow> 'k \<Rightarrow> nat"
  assumes live_not_vacant: "live e \<Longrightarrow> \<not> vacant e"
    and home_less: "home (2 ^ d) k < 2 ^ d"
begin

text \<open>
  A search that stops at a vacant slot has seen every entry of its home slot, and no vacant slot before.
\<close>

lemma probe_vacant:
  assumes len: "length tbl = 2 ^ d" and c: "chained vacant live key home tbl"
    and p: "probe (2 ^ d) (\<lambda>i. vacant (tbl ! i) \<or> match (tbl ! i)) (2 ^ d) h = Some j"
    and h: "h < 2 ^ d" and v: "vacant (tbl ! j)"
  shows "i < length tbl \<Longrightarrow> live (tbl ! i) \<Longrightarrow> home (2 ^ d) (key (tbl ! i)) = h \<Longrightarrow> \<not> match (tbl ! i)"
    and "k < 2 ^ d \<Longrightarrow> steps_to (2 ^ d) h k < steps_to (2 ^ d) h j \<Longrightarrow> \<not> vacant (tbl ! k)"
proof -
  let ?s = "steps_to (2 ^ d) h"
  note j = probe_less(1) [OF p h]
  show "\<not> vacant (tbl ! k)" if "k < 2 ^ d" "?s k < ?s j" for k
    using probe_first [OF p h order_refl that] by simp
  show "\<not> match (tbl ! i)" if i: "i < length tbl" "live (tbl ! i)" "home (2 ^ d) (key (tbl ! i)) = h"
  proof
    assume m: "match (tbl ! i)"
    have "\<not> ?s j < ?s i" using c i len v j by (auto simp: chained_def)
    moreover have "\<not> ?s i < ?s j" using probe_first [OF p h order_refl, of i] i(1) m len by auto
    ultimately have "?s i = ?s j" by simp
    then have "i = j" using steps_to_reaches [OF h] i(1) j len by metis
    with v i(2) live_not_vacant show False by blast
  qed
qed

lemma find_slot_SomeD:
  assumes len: "length tbl = 2 ^ d" and c: "chained vacant live key home tbl"
    and f: "find_slot vacant live key home tbl k = Some j"
  shows "j < length tbl"
    and "live (tbl ! j) \<and> key (tbl ! j) = k \<or> vacant (tbl ! j) \<and> table_map live key tbl k = None"
proof -
  from f have p: "probe (2 ^ d) (\<lambda>i. vacant (tbl ! i) \<or> live (tbl ! i) \<and> key (tbl ! i) = k)
      (2 ^ d) (home (2 ^ d) k) = Some j"
    by (simp add: find_slot_def len)
  note less = probe_less [OF p home_less]
  show "j < length tbl" using less len by simp
  show "live (tbl ! j) \<and> key (tbl ! j) = k \<or> vacant (tbl ! j) \<and> table_map live key tbl k = None"
    using less(2) probe_vacant(1) [OF len c p home_less] by (auto simp: table_map_None_iff)
qed

text \<open>A table with a vacant slot answers every search.\<close>

lemma find_slot_total:
  assumes "length tbl = 2 ^ d" and "i < length tbl" and "vacant (tbl ! i)"
  shows "\<exists>j. find_slot vacant live key home tbl k = Some j"
  unfolding find_slot_def assms(1)
  by (rule probe_total [OF home_less]) (use assms in auto)

lemma find_slot_live:
  assumes "length tbl = 2 ^ d" and c: "chained vacant live key home tbl"
    and u: "keys_unique live key tbl" and i: "i < length tbl" "live (tbl ! i)"
  shows "find_slot vacant live key home tbl (key (tbl ! i)) = Some i"
proof -
  let ?k = "key (tbl ! i)"
  have "\<exists>j. find_slot vacant live key home tbl ?k = Some j"
    unfolding find_slot_def assms(1)
    by (rule probe_total [OF home_less]) (use assms in auto)
  then obtain j where j: "find_slot vacant live key home tbl ?k = Some j" ..
  have "table_map live key tbl ?k \<noteq> None"
    using i by (auto simp: table_map_None_iff)
  with find_slot_SomeD [OF assms(1) c j] have "j < length tbl" "live (tbl ! j)" "key (tbl ! j) = ?k"
    by auto
  with u i have "j = i" by (auto simp: keys_unique_def)
  with j show ?thesis by simp
qed

text \<open>Overwriting a live slot by an entry of the same key keeps the table.\<close>

lemma overwrite:
  assumes len: "length tbl = 2 ^ d" and c: "chained vacant live key home tbl"
    and u: "keys_unique live key tbl" and j: "j < length tbl" "live (tbl ! j)"
    and e: "live e" "key e = key (tbl ! j)"
  shows "chained vacant live key home (tbl[j := e])" and "keys_unique live key (tbl[j := e])"
    and "table_map live key (tbl[j := e]) = (table_map live key tbl)(key e \<mapsto> e)"
proof -
  have nv: "\<not> vacant (tbl ! j)" "\<not> vacant e" using j e live_not_vacant by auto
  show "chained vacant live key home (tbl[j := e])"
    unfolding chained_def
  proof (intro allI impI)
    fix i k
    assume i: "i < length (tbl[j := e])" "live (tbl[j := e] ! i)"
      and k: "k < length (tbl[j := e])"
      and s: "steps_to (length (tbl[j := e])) (home (length (tbl[j := e])) (key (tbl[j := e] ! i))) k
        < steps_to (length (tbl[j := e])) (home (length (tbl[j := e])) (key (tbl[j := e] ! i))) i"
    have "key (tbl[j := e] ! i) = key (tbl ! i)" "live (tbl ! i)"
      using i j e by (cases "i = j"; simp)+
    with c i k s have "\<not> vacant (tbl ! k)" by (auto simp: chained_def)
    then show "\<not> vacant (tbl[j := e] ! k)" using nv j by (auto simp: nth_list_update)
  qed
  show u': "keys_unique live key (tbl[j := e])"
    using u j e by (intro keys_unique_update) (auto simp: keys_unique_def)
  show "table_map live key (tbl[j := e]) = (table_map live key tbl)(key e \<mapsto> e)"
    using e j by (auto simp: table_map_update [OF u u' j(1)] fun_eq_iff)
qed

text \<open>
  Filling a slot that holds no entry, before which there is no vacant slot on the path of the
  key, keeps the table: the vacant slot where the search stopped, or one marked for removal.
\<close>

lemma fill:
  assumes len: "length tbl = 2 ^ d" and c: "chained vacant live key home tbl"
    and u: "keys_unique live key tbl" and j: "j < length tbl" and nl: "\<not> live (tbl ! j)"
    and absent: "table_map live key tbl (key e) = None" and e: "live e"
    and path: "\<And>k. k < 2 ^ d \<Longrightarrow> steps_to (2 ^ d) (home (2 ^ d) (key e)) k
      < steps_to (2 ^ d) (home (2 ^ d) (key e)) j \<Longrightarrow> \<not> vacant (tbl ! k)"
  shows "chained vacant live key home (tbl[j := e])" and "keys_unique live key (tbl[j := e])"
    and "table_map live key (tbl[j := e]) = (table_map live key tbl)(key e \<mapsto> e)"
proof -
  have fresh: "key (tbl ! i) \<noteq> key e" if "i < length tbl" "live (tbl ! i)" for i
    using absent that by (auto simp: table_map_None_iff)
  show "chained vacant live key home (tbl[j := e])"
    unfolding chained_def
  proof (intro allI impI)
    fix i k
    assume i: "i < length (tbl[j := e])" "live (tbl[j := e] ! i)"
      and k: "k < length (tbl[j := e])"
      and s: "steps_to (length (tbl[j := e])) (home (length (tbl[j := e])) (key (tbl[j := e] ! i))) k
        < steps_to (length (tbl[j := e])) (home (length (tbl[j := e])) (key (tbl[j := e] ! i))) i"
    have "\<not> vacant (tbl ! k)" if "k \<noteq> j"
    proof (cases "i = j")
      case True
      with path [of k] k s len j show ?thesis by auto
    next
      case False
      with c i k s show ?thesis by (auto simp: chained_def)
    qed
    then show "\<not> vacant (tbl[j := e] ! k)"
      using e live_not_vacant k by (cases "k = j") auto
  qed
  show u': "keys_unique live key (tbl[j := e])"
    using u fresh j by (intro keys_unique_update) auto
  show "table_map live key (tbl[j := e]) = (table_map live key tbl)(key e \<mapsto> e)"
    using e nl by (auto simp: table_map_update [OF u u' j] fun_eq_iff)
qed

lemma insert:
  assumes len: "length tbl = 2 ^ d" and c: "chained vacant live key home tbl"
    and u: "keys_unique live key tbl"
    and f: "find_slot vacant live key home tbl (key e) = Some j" and v: "vacant (tbl ! j)"
    and e: "live e"
  shows "chained vacant live key home (tbl[j := e])" and "keys_unique live key (tbl[j := e])"
    and "table_map live key (tbl[j := e]) = (table_map live key tbl)(key e \<mapsto> e)"
proof -
  note j = find_slot_SomeD [OF len c f]
  have nl: "\<not> live (tbl ! j)" using v live_not_vacant by blast
  with j(2) have absent: "table_map live key tbl (key e) = None" by simp
  from f have p: "probe (2 ^ d) (\<lambda>i. vacant (tbl ! i) \<or> live (tbl ! i) \<and> key (tbl ! i) = key e)
      (2 ^ d) (home (2 ^ d) (key e)) = Some j"
    by (simp add: find_slot_def len)
  have path: "\<not> vacant (tbl ! k)" if "k < 2 ^ d" "steps_to (2 ^ d) (home (2 ^ d) (key e)) k
      < steps_to (2 ^ d) (home (2 ^ d) (key e)) j" for k
    using probe_first [OF p home_less order_refl that(1)] that(2) by simp
  note F = fill [OF len c u j(1) nl absent e path]
  show "chained vacant live key home (tbl[j := e])" "keys_unique live key (tbl[j := e])"
    "table_map live key (tbl[j := e]) = (table_map live key tbl)(key e \<mapsto> e)" using F by simp_all
qed

text \<open>
  Rebuilding terminates with a table of the old entries and the new elements, as long as they
  have different keys and fit.
\<close>

lemma rehash_correct:
  assumes "length tbl = 2 ^ d" and "chained vacant live key home tbl" and "keys_unique live key tbl"
    and "\<And>e. e \<in> set es \<Longrightarrow> live e" and "distinct (map key es)"
    and "\<And>e e'. e \<in> set es \<Longrightarrow> e' \<in> set tbl \<Longrightarrow> live e' \<Longrightarrow> key e' \<noteq> key e"
    and "\<And>e. e \<in> set tbl \<Longrightarrow> live e \<or> vacant e"
    and "length (filter live tbl) + length es \<le> 2 ^ d"
  shows "\<exists>tbl'. rehash vacant key home es tbl = Some tbl' \<and> length tbl' = 2 ^ d \<and>
    chained vacant live key home tbl' \<and> keys_unique live key tbl' \<and>
    (\<forall>e\<in>set tbl'. live e \<or> vacant e \<and> e \<in> set tbl) \<and>
    mset (filter live tbl') = mset (filter live tbl) + mset es"
  using assms
proof (induction es arbitrary: tbl)
  case Nil
  then show ?case by auto
next
  case (Cons e es)
  note len = Cons.prems(1)
  have e: "live e" using Cons.prems(4) by simp
  have absent: "table_map live key tbl (key e) = None"
    using Cons.prems(6) [of e] by (auto simp: table_map_None_iff)
  then have search: "probe (2 ^ d) (\<lambda>i. vacant (tbl ! i)) (2 ^ d) (home (2 ^ d) (key e))
      = find_slot vacant live key home tbl (key e)"
    unfolding find_slot_def len
    by (intro probe_cong home_less) (auto simp: table_map_None_iff len)
  have "length (filter live tbl) < length tbl" using Cons.prems(8) len by simp
  then obtain k where k: "k < length tbl" "\<not> live (tbl ! k)"
    by (metis filter_True in_set_conv_nth less_irrefl)
  with Cons.prems(7) [of "tbl ! k"] have "vacant (tbl ! k)" by simp
  with find_slot_total [OF len k(1)] obtain i where
    i: "find_slot vacant live key home tbl (key e) = Some i" by blast
  note fs = find_slot_SomeD [OF len Cons.prems(2) i]
  have v: "vacant (tbl ! i)" using fs absent by (auto simp: table_map_None_iff)
  then have nl: "\<not> live (tbl ! i)" using live_not_vacant by blast
  note ins = insert [OF len Cons.prems(2,3) i v e]
  note ms = mset_filter_update [of i tbl live e, OF fs(1) nl e]
  have sub: "set (tbl[i := e]) \<subseteq> insert e (set tbl)" by (rule set_update_subset_insert)
  have "\<exists>tbl'. rehash vacant key home es (tbl[i := e]) = Some tbl' \<and> length tbl' = 2 ^ d \<and>
    chained vacant live key home tbl' \<and> keys_unique live key tbl' \<and>
    (\<forall>x\<in>set tbl'. live x \<or> vacant x \<and> x \<in> set (tbl[i := e])) \<and>
    mset (filter live tbl') = mset (filter live (tbl[i := e])) + mset es"
  proof (rule Cons.IH)
    show "key x' \<noteq> key x" if "x \<in> set es" "x' \<in> set (tbl[i := e])" "live x'" for x x'
      using that sub Cons.prems(5,6) by fastforce
    show "live x \<or> vacant x" if "x \<in> set (tbl[i := e])" for x
      using that sub Cons.prems(7) e by auto
    have "length (filter live (tbl[i := e])) = Suc (length (filter live tbl))"
      using ms by (metis size_add_mset size_mset)
    then show "length (filter live (tbl[i := e])) + length es \<le> 2 ^ d"
      using Cons.prems(8) by simp
  qed (use Cons.prems(4,5) len ins in auto)
  then obtain tbl' where t: "rehash vacant key home es (tbl[i := e]) = Some tbl'" "length tbl' = 2 ^ d"
    "chained vacant live key home tbl'" "keys_unique live key tbl'"
    "\<forall>x\<in>set tbl'. live x \<or> vacant x \<and> x \<in> set (tbl[i := e])"
    "mset (filter live tbl') = mset (filter live (tbl[i := e])) + mset es" by blast
  have "live x \<or> vacant x \<and> x \<in> set tbl" if "x \<in> set tbl'" for x
    using t(5) that sub e by auto
  with t ms show ?case using search i len by simp
qed

text \<open>Marking a live slot for removal keeps the table and drops its key.\<close>

lemma mark_removed:
  assumes len: "length tbl = 2 ^ d" and c: "chained vacant live key home tbl"
    and u: "keys_unique live key tbl" and j: "j < length tbl" "live (tbl ! j)"
    and e: "\<not> live e" "\<not> vacant e"
  shows "chained vacant live key home (tbl[j := e])" and "keys_unique live key (tbl[j := e])"
    and "table_map live key (tbl[j := e]) = (table_map live key tbl)(key (tbl ! j) := None)"
proof -
  show "chained vacant live key home (tbl[j := e])"
    unfolding chained_def
  proof (intro allI impI)
    fix i k
    assume i: "i < length (tbl[j := e])" "live (tbl[j := e] ! i)"
      and k: "k < length (tbl[j := e])"
      and s: "steps_to (length (tbl[j := e])) (home (length (tbl[j := e])) (key (tbl[j := e] ! i))) k
        < steps_to (length (tbl[j := e])) (home (length (tbl[j := e])) (key (tbl[j := e] ! i))) i"
    from i e j have "i \<noteq> j" by auto
    with c i k s have "\<not> vacant (tbl ! k)" by (auto simp: chained_def)
    then show "\<not> vacant (tbl[j := e] ! k)" using e by (cases "k = j") (simp_all add: j)
  qed
  show u': "keys_unique live key (tbl[j := e])"
    using u e j by (intro keys_unique_update) auto
  show "table_map live key (tbl[j := e]) = (table_map live key tbl)(key (tbl ! j) := None)"
    using e j by (auto simp: table_map_update [OF u u' j(1)] fun_eq_iff)
qed

end

end
