(* ===== verification/Bit_Flags.thy ===== *)
theory Bit_Flags
  imports Prelude
begin

text \<open>
  Arrays of 64-bit words used as bit sets: the change flags of the Merkle trees, the
  occupied flags of \<open>LinkedList\<close>, the tick flags of the action tracker.
\<close>

text \<open>\<open>flags[i >> 6] |= (1ULL << (i & 63))\<close>\<close>

definition setFlag :: "u64 list \<Rightarrow> nat \<Rightarrow> u64 list" where
  "setFlag flags i = flags[drop_bit 6 i := flags ! drop_bit 6 i OR push_bit (i AND 63) 1]"

text \<open>\<open>flags[i >> 6] &= ~(1ULL << (i & 63))\<close>\<close>

definition clearFlag :: "u64 list \<Rightarrow> nat \<Rightarrow> u64 list" where
  "clearFlag flags i = flags[drop_bit 6 i := flags ! drop_bit 6 i AND NOT (push_bit (i AND 63) 1)]"

text \<open>\<open>(flags[i >> 6] & (1ULL << (i & 63))) != 0\<close>\<close>

definition testFlag :: "u64 list \<Rightarrow> nat \<Rightarrow> bool" where
  "testFlag flags i \<longleftrightarrow> flags ! drop_bit 6 i AND push_bit (i AND 63) 1 \<noteq> 0"

text \<open>The bit \<open>i\<close> of the set.\<close>

definition flagBit :: "u64 list \<Rightarrow> nat \<Rightarrow> bool" where
  "flagBit flags i \<longleftrightarrow> bit (flags ! (i div 64)) (i mod 64)"

lemma flag_index: "drop_bit 6 i = i div 64" "i AND 63 = i mod (64::nat)"
  using and_pow2_mask [of i 6] by (simp_all add: drop_bit_eq_div)

lemma flag_pos_eq: "k div 64 = i div 64 \<Longrightarrow> k mod 64 = i mod 64 \<Longrightarrow> k = (i::nat)"
  by (metis div_mult_mod_eq)

lemma setFlag_length [simp]: "length (setFlag flags i) = length flags"
  by (simp add: setFlag_def)

lemma flagBit_setFlag:
  assumes "i < 64 * length flags"
  shows "flagBit (setFlag flags i) k \<longleftrightarrow> k = i \<or> flagBit flags k"
proof (cases "k div 64 = i div 64")
  case True
  have "i div 64 < length flags" using assms by (simp add: less_mult_imp_div_less mult.commute)
  then have "flagBit (setFlag flags i) k \<longleftrightarrow> bit (flags ! (i div 64)) (k mod 64) \<or> k mod 64 = i mod 64"
    using True by (auto simp: flagBit_def setFlag_def flag_index bit_or_iff bit_exp_iff)
  then show ?thesis using True flag_pos_eq [OF True] by (auto simp: flagBit_def)
next
  case False
  then show ?thesis by (auto simp: flagBit_def setFlag_def flag_index)
qed

lemma clearFlag_length [simp]: "length (clearFlag flags i) = length flags"
  by (simp add: clearFlag_def)

lemma flagBit_clearFlag:
  assumes "i < 64 * length flags"
  shows "flagBit (clearFlag flags i) k \<longleftrightarrow> k \<noteq> i \<and> flagBit flags k"
proof (cases "k div 64 = i div 64")
  case True
  have "i div 64 < length flags" using assms by (simp add: less_mult_imp_div_less mult.commute)
  then have "flagBit (clearFlag flags i) k \<longleftrightarrow> bit (flags ! (i div 64)) (k mod 64) \<and> k mod 64 \<noteq> i mod 64"
    using True by (auto simp: flagBit_def clearFlag_def flag_index bit_and_iff bit_not_iff bit_exp_iff)
  then show ?thesis using True flag_pos_eq [OF True] by (auto simp: flagBit_def)
next
  case False
  then show ?thesis by (auto simp: flagBit_def clearFlag_def flag_index)
qed

lemma testFlag_iff [simp]: "testFlag flags i \<longleftrightarrow> flagBit flags i"
proof -
  have "testFlag flags i \<longleftrightarrow> (\<exists>n. bit (flags ! (i div 64) AND push_bit (i mod 64) 1) n)"
    unfolding testFlag_def flag_index by (metis bit_0_eq bit_eqI bot_apply bot_bool_def)
  then show ?thesis by (auto simp: flagBit_def bit_and_iff bit_exp_iff)
qed

end
