(* ===== verification/Merkle.thy ===== *)
theory Merkle
  imports Bit_Flags
begin

text \<open>
  The Merkle trees of the spectrum and of the universe: an array of \<open>2 * CAPACITY - 1\<close>
  digests, leaves first, rebuilt level by level (\<open>reorganizeSpectrum\<close>) or updated along
  the paths that a bit array of change flags marks (\<open>getSpectrumDigest\<close>,
  \<open>getUniverseDigest\<close>), and the sibling paths sent to clients (\<open>getSiblings\<close>).
  The hash \<open>KangarooTwelve64To32\<close> of two digests is a parameter.
\<close>

section \<open>Rebuilding\<close>

definition digest_words :: "m256i \<Rightarrow> m256i \<Rightarrow> u64 list" where
  "digest_words a b = map (m256i_u64 a) [0, 1, 2, 3] @ map (m256i_u64 b) [0, 1, 2, 3]"

text \<open>One level: the node \<open>digestIndex + i\<close> is the hash of two nodes of the level below.\<close>

definition hashLevel :: "(u64 list \<Rightarrow> m256i) \<Rightarrow> nat \<Rightarrow> nat \<Rightarrow> nat \<Rightarrow> m256i list \<Rightarrow> m256i list" where
  "hashLevel k12 previousLevelBeginning digestIndex numberOfLeafs ds =
     foldl (\<lambda>ds i. ds[digestIndex + i :=
              k12 (digest_words (ds ! (previousLevelBeginning + 2 * i))
                                (ds ! (previousLevelBeginning + 2 * i + 1)))])
       ds [0..<numberOfLeafs div 2]"

fun hashLevels :: "(u64 list \<Rightarrow> m256i) \<Rightarrow> nat \<Rightarrow> nat \<Rightarrow> nat \<Rightarrow> m256i list \<Rightarrow> m256i list" where
  "hashLevels k12 previousLevelBeginning digestIndex numberOfLeafs ds =
     (if 1 < numberOfLeafs
      then hashLevels k12 (previousLevelBeginning + numberOfLeafs)
             (digestIndex + numberOfLeafs div 2) (numberOfLeafs div 2)
             (hashLevel k12 previousLevelBeginning digestIndex numberOfLeafs ds)
      else ds)"

declare hashLevels.simps [simp del]

section \<open>Change flags\<close>

text \<open>\<open>flags[i >> 6] & (3ULL << (i & 63))\<close>\<close>

definition pairFlagged :: "u64 list \<Rightarrow> nat \<Rightarrow> bool" where
  "pairFlagged flags i \<longleftrightarrow> flags ! drop_bit 6 i AND push_bit (i AND 63) 3 \<noteq> 0"

text \<open>\<open>flags[i >> 6] &= ~(3ULL << (i & 63))\<close>\<close>

definition clearPair :: "u64 list \<Rightarrow> nat \<Rightarrow> u64 list" where
  "clearPair flags i = flags[drop_bit 6 i := flags ! drop_bit 6 i AND NOT (push_bit (i AND 63) 3)]"

section \<open>Updating the flagged paths\<close>

text \<open>The body of the inner loop, for the pair \<open>i = 2 * j\<close> of a level.\<close>

definition climbPair ::
  "(u64 list \<Rightarrow> m256i) \<Rightarrow> nat \<Rightarrow> nat \<Rightarrow> m256i list \<times> u64 list \<Rightarrow> nat \<Rightarrow> m256i list \<times> u64 list" where
  "climbPair k12 previousLevelBeginning digestIndex = (\<lambda>(ds, flags) j.
     let i = 2 * j
     in if pairFlagged flags i
        then (ds[digestIndex + j := k12 (digest_words (ds ! (previousLevelBeginning + i))
                                                      (ds ! (previousLevelBeginning + i + 1)))],
              setFlag (clearPair flags i) (drop_bit 1 i))
        else (ds, flags))"

definition climbLevel ::
  "(u64 list \<Rightarrow> m256i) \<Rightarrow> nat \<Rightarrow> nat \<Rightarrow> nat \<Rightarrow> m256i list \<times> u64 list \<Rightarrow> m256i list \<times> u64 list" where
  "climbLevel k12 previousLevelBeginning digestIndex numberOfLeafs df =
     foldl (climbPair k12 previousLevelBeginning digestIndex) df [0..<numberOfLeafs div 2]"

fun climbLevels ::
  "(u64 list \<Rightarrow> m256i) \<Rightarrow> nat \<Rightarrow> nat \<Rightarrow> nat \<Rightarrow> m256i list \<times> u64 list \<Rightarrow> m256i list \<times> u64 list" where
  "climbLevels k12 previousLevelBeginning digestIndex numberOfLeafs df =
     (if 1 < numberOfLeafs
      then climbLevels k12 (previousLevelBeginning + numberOfLeafs)
             (digestIndex + numberOfLeafs div 2) (numberOfLeafs div 2)
             (climbLevel k12 previousLevelBeginning digestIndex numberOfLeafs df)
      else df)"

declare climbLevels.simps [simp del]

section \<open>Sibling paths\<close>

text \<open>\<open>getSiblings<depth>\<close>: the digests beside the path from a leaf to the root.\<close>

fun getSiblingsLoop :: "nat \<Rightarrow> nat \<Rightarrow> nat \<Rightarrow> nat \<Rightarrow> m256i list \<Rightarrow> m256i list" where
  "getSiblingsLoop cap 0 siblingIndex digestOffset ds = []"
| "getSiblingsLoop cap (Suc levels) siblingIndex digestOffset ds =
     ds ! (digestOffset + (siblingIndex XOR 1)) #
     getSiblingsLoop (drop_bit 1 cap) levels (drop_bit 1 siblingIndex) (digestOffset + cap) ds"

definition getSiblings :: "nat \<Rightarrow> nat \<Rightarrow> m256i list \<Rightarrow> m256i list" where
  "getSiblings depth digestIndex ds = getSiblingsLoop (2 ^ depth) depth digestIndex 0 ds"

section \<open>Specification\<close>

text \<open>The root of a list of leaves, by pairing.\<close>

fun pairUp :: "(u64 list \<Rightarrow> m256i) \<Rightarrow> m256i list \<Rightarrow> m256i list" where
  "pairUp k12 (a # b # xs) = k12 (digest_words a b) # pairUp k12 xs"
| "pairUp k12 xs = xs"

fun merkleRoot :: "(u64 list \<Rightarrow> m256i) \<Rightarrow> nat \<Rightarrow> m256i list \<Rightarrow> m256i" where
  "merkleRoot k12 0 xs = hd xs"
| "merkleRoot k12 (Suc d) xs = merkleRoot k12 d (pairUp k12 xs)"

text \<open>Level \<open>l\<close> of a tree of depth \<open>d\<close> starts at this index.\<close>

definition levelStart :: "nat \<Rightarrow> nat \<Rightarrow> nat" where
  "levelStart d l = 2 ^ (d + 1) - 2 ^ (d + 1 - l)"

definition nodes_ok :: "(u64 list \<Rightarrow> m256i) \<Rightarrow> nat \<Rightarrow> nat \<Rightarrow> m256i list \<Rightarrow> bool" where
  "nodes_ok k12 d l ds \<longleftrightarrow> (\<forall>j<2 ^ (d - l - 1). ds ! (levelStart d (Suc l) + j) =
     k12 (digest_words (ds ! (levelStart d l + 2 * j)) (ds ! (levelStart d l + 2 * j + 1))))"

definition tree_ok :: "(u64 list \<Rightarrow> m256i) \<Rightarrow> nat \<Rightarrow> m256i list \<Rightarrow> m256i list \<Rightarrow> bool" where
  "tree_ok k12 d leaves ds \<longleftrightarrow> length ds = 2 ^ (d + 1) - 1 \<and> length leaves = 2 ^ d \<and>
     (\<forall>i<2 ^ d. ds ! i = leaves ! i) \<and> (\<forall>l<d. nodes_ok k12 d l ds)"

text \<open>How a client recomputes the root from a leaf and its sibling path.\<close>

fun pathRoot :: "(u64 list \<Rightarrow> m256i) \<Rightarrow> nat \<Rightarrow> m256i \<Rightarrow> m256i list \<Rightarrow> m256i" where
  "pathRoot k12 i node [] = node"
| "pathRoot k12 i node (sibling # siblings) =
     pathRoot k12 (i div 2) (k12 (if even i then digest_words node sibling else digest_words sibling node)) siblings"

section \<open>Arithmetic of the levels\<close>

lemma levelStart_0 [simp]: "levelStart d 0 = 0"
  by (simp add: levelStart_def)

lemma levelStart_Suc:
  assumes "l \<le> d"
  shows "levelStart d (Suc l) = levelStart d l + 2 ^ (d - l)"
proof -
  obtain k where k: "d = l + k" using assms le_Suc_ex by blast
  have "(2::nat) ^ k \<le> 2 ^ (l + k + 1)" by (intro power_increasing) auto
  then show ?thesis by (simp add: levelStart_def k Suc_diff_le)
qed

lemma levelStart_end:
  assumes "l \<le> d"
  shows "levelStart d l + 2 ^ (d - l) \<le> 2 ^ (d + 1) - 1"
proof -
  obtain k where k: "d = l + k" using assms le_Suc_ex by blast
  have "2 * (2::nat) ^ k \<le> 2 * 2 ^ (l + k)" "0 < (2::nat) ^ k" by simp_all
  then have "2 * 2 ^ (l + k) - 2 * 2 ^ k + 2 ^ k \<le> 2 * (2::nat) ^ (l + k) - 1" by linarith
  then show ?thesis by (simp add: levelStart_def k Suc_diff_le)
qed

lemma levelStart_top: "levelStart d d = 2 ^ d * 2 - 1 - 1"
  by (simp add: levelStart_def)

section \<open>Rebuilding gives a correct tree\<close>

lemma hashLevel_step:
  "m \<le> n div 2 \<Longrightarrow> p + n \<le> dI \<Longrightarrow> dI + n div 2 \<le> length ds \<Longrightarrow>
   (let ds' = foldl (\<lambda>ds i. ds[dI + i := k12 (digest_words (ds ! (p + 2 * i)) (ds ! (p + 2 * i + 1)))]) ds [0..<m]
    in length ds' = length ds \<and>
       (\<forall>k<m. ds' ! (dI + k) = k12 (digest_words (ds ! (p + 2 * k)) (ds ! (p + 2 * k + 1)))) \<and>
       (\<forall>k. k < dI \<or> dI + m \<le> k \<longrightarrow> ds' ! k = ds ! k))"
  by (induction m) (auto simp: Let_def nth_list_update less_Suc_eq)

lemma hashLevel_nth:
  assumes "p + n \<le> dI" and "dI + n div 2 \<le> length ds"
  shows "length (hashLevel k12 p dI n ds) = length ds"
    and "k < n div 2 \<Longrightarrow> hashLevel k12 p dI n ds ! (dI + k) =
      k12 (digest_words (ds ! (p + 2 * k)) (ds ! (p + 2 * k + 1)))"
    and "k < dI \<or> dI + n div 2 \<le> k \<Longrightarrow> hashLevel k12 p dI n ds ! k = ds ! k"
  using hashLevel_step [of "n div 2" n p dI ds k12] assms by (auto simp: hashLevel_def Let_def)

lemma level_bounds:
  assumes "l < d"
  shows "levelStart d l + 2 ^ (d - l) = levelStart d (Suc l)"
    and "(2::nat) ^ (d - l) div 2 = 2 ^ (d - l - 1)"
    and "levelStart d (Suc l) + 2 ^ (d - l) div 2 = levelStart d (Suc (Suc l))"
    and "levelStart d (Suc (Suc l)) \<le> 2 ^ (d + 1) - 1"
proof -
  show 1: "levelStart d l + 2 ^ (d - l) = levelStart d (Suc l)" using levelStart_Suc [of l d] assms by simp
  show 2: "(2::nat) ^ (d - l) div 2 = 2 ^ (d - l - 1)" using assms by (cases "d - l") auto
  show 3: "levelStart d (Suc l) + 2 ^ (d - l) div 2 = levelStart d (Suc (Suc l))"
    using levelStart_Suc [of "Suc l" d] assms 2 by simp
  show "levelStart d (Suc (Suc l)) \<le> 2 ^ (d + 1) - 1"
    using levelStart_end [of "Suc l" d] assms 3 2 by simp
qed

lemma nodes_ok_cong:
  assumes "\<And>k. k < levelStart d (Suc (Suc l)) \<Longrightarrow> ds' ! k = ds ! k" and "l < d"
  shows "nodes_ok k12 d l ds' = nodes_ok k12 d l ds"
proof -
  have "levelStart d (Suc l) + j < levelStart d (Suc (Suc l)) \<and>
      levelStart d l + 2 * j < levelStart d (Suc (Suc l)) \<and>
      levelStart d l + 2 * j + 1 < levelStart d (Suc (Suc l))" if "j < 2 ^ (d - l - 1)" for j
    using level_bounds [OF assms(2)] that by linarith
  then show ?thesis unfolding nodes_ok_def using assms(1) by simp
qed

lemma hashLevels_ok:
  assumes "l \<le> d" and "length ds = 2 ^ (d + 1) - 1" and "\<forall>k<l. nodes_ok k12 d k ds"
  shows "let ds' = hashLevels k12 (levelStart d l) (levelStart d (Suc l)) (2 ^ (d - l)) ds
    in length ds' = length ds \<and> (\<forall>k<levelStart d (Suc l). ds' ! k = ds ! k) \<and> (\<forall>k<d. nodes_ok k12 d k ds')"
  using assms
proof (induction "d - l" arbitrary: l ds)
  case 0
  then show ?case by (simp add: hashLevels.simps)
next
  case (Suc n)
  then have l: "l < d" by simp
  note B = level_bounds [OF l]
  let ?ds1 = "hashLevel k12 (levelStart d l) (levelStart d (Suc l)) (2 ^ (d - l)) ds"
  have pre: "levelStart d l + 2 ^ (d - l) \<le> levelStart d (Suc l)"
    "levelStart d (Suc l) + 2 ^ (d - l) div 2 \<le> length ds"
    using B Suc.prems(2) by simp_all
  note H = hashLevel_nth [OF pre]
  have low: "?ds1 ! k = ds ! k" if "k < levelStart d (Suc l)" for k
    using H(3) that by simp
  have ok1: "nodes_ok k12 d l ?ds1"
    unfolding nodes_ok_def
  proof (intro allI impI)
    fix j
    assume j: "j < (2::nat) ^ (d - l - 1)"
    then have "levelStart d l + 2 * j + 1 < levelStart d (Suc l)" using B by linarith
    then show "?ds1 ! (levelStart d (Suc l) + j) =
      k12 (digest_words (?ds1 ! (levelStart d l + 2 * j)) (?ds1 ! (levelStart d l + 2 * j + 1)))"
      using H(2) [of j] j B(2) low by simp
  qed
  have "nodes_ok k12 d k ?ds1" if "k < Suc l" for k
  proof (cases "k = l")
    case True
    with ok1 show ?thesis by simp
  next
    case False
    then have k: "k < l" using that by simp
    have "levelStart d (Suc (Suc k)) \<le> levelStart d (Suc l)"
      unfolding levelStart_def using k by (intro diff_le_mono2 power_increasing) auto
    then have "nodes_ok k12 d k ?ds1 = nodes_ok k12 d k ds"
      using k l low by (intro nodes_ok_cong) auto
    with Suc.prems(3) k show ?thesis by simp
  qed
  with Suc.hyps(1) [of "Suc l" ?ds1] Suc.hyps(2) Suc.prems l H(1)
  have IH: "let ds' = hashLevels k12 (levelStart d (Suc l)) (levelStart d (Suc (Suc l))) (2 ^ (d - Suc l)) ?ds1
    in length ds' = length ds \<and> (\<forall>k<levelStart d (Suc (Suc l)). ds' ! k = ?ds1 ! k) \<and> (\<forall>k<d. nodes_ok k12 d k ds')"
    by simp
  have "1 < (2::nat) ^ (d - l)" using l by (intro one_less_power) auto
  then have eq: "hashLevels k12 (levelStart d l) (levelStart d (Suc l)) (2 ^ (d - l)) ds =
    hashLevels k12 (levelStart d (Suc l)) (levelStart d (Suc (Suc l))) (2 ^ (d - Suc l)) ?ds1"
    by (subst hashLevels.simps) (simp add: B(1) B(2) [simplified] B(3) [unfolded B(2), simplified])
  have "levelStart d (Suc l) \<le> levelStart d (Suc (Suc l))" using B(3) by simp
  then show ?case using IH low unfolding eq by (auto simp: Let_def)
qed

section \<open>Flags as a bit set\<close>

lemma bit_three: "bit (3::int) j \<longleftrightarrow> j = 0 \<or> j = 1"
proof -
  have 3: "(3::int) = mask 2" by (simp add: mask_eq_exp_minus_1)
  show ?thesis unfolding 3 bit_mask_iff by auto
qed

lemma even_pair:
  assumes "even (i::nat)"
  shows "Suc i div 64 = i div 64" "Suc i mod 64 = Suc (i mod 64)" "i mod 64 < 63"
proof -
  have d: "k div 64 = k div 2 div 32" for k :: nat by (simp add: div_mult2_eq [symmetric])
  show 1: "Suc i div 64 = i div 64" unfolding d using assms by simp
  have "Suc i = Suc i div 64 * 64 + Suc i mod 64" "i = i div 64 * 64 + i mod 64"
    by (simp_all only: div_mult_mod_eq)
  with 1 show 2: "Suc i mod 64 = Suc (i mod 64)" by linarith
  have "Suc i mod 64 < 64" by simp
  with 2 show "i mod 64 < 63" by simp
qed

lemma clearPair_length [simp]: "length (clearPair flags i) = length flags"
  by (simp add: clearPair_def)

lemma flagBit_clearPair:
  assumes "i < 64 * length flags" and "even i"
  shows "flagBit (clearPair flags i) k \<longleftrightarrow> k \<noteq> i \<and> k \<noteq> Suc i \<and> flagBit flags k"
proof (cases "k div 64 = i div 64")
  case True
  have l: "i div 64 < length flags" using assms by (simp add: less_mult_imp_div_less mult.commute)
  have eq: "k mod 64 = i mod 64 \<longleftrightarrow> k = i" "k mod 64 = Suc (i mod 64) \<longleftrightarrow> k = Suc i"
    using flag_pos_eq [OF True] flag_pos_eq [of k "Suc i"] True even_pair [OF assms(2)] by auto
  have "flagBit (clearPair flags i) k \<longleftrightarrow> bit (flags ! (i div 64)) (k mod 64) \<and>
      \<not> (i mod 64 \<le> k mod 64 \<and> (k mod 64 - i mod 64 = 0 \<or> k mod 64 - i mod 64 = 1))"
    using True l by (auto simp: flagBit_def clearPair_def flag_index bit_and_iff bit_not_iff
        bit_push_bit_iff bit_three)
  also have "(i mod 64 \<le> k mod 64 \<and> (k mod 64 - i mod 64 = 0 \<or> k mod 64 - i mod 64 = 1)) \<longleftrightarrow>
      k mod 64 = i mod 64 \<or> k mod 64 = Suc (i mod 64)" by linarith
  finally show ?thesis using True eq by (auto simp: flagBit_def)
next
  case False
  then have "k \<noteq> i" "k \<noteq> Suc i" using even_pair(1) [OF assms(2)] by auto
  with False show ?thesis by (auto simp: flagBit_def clearPair_def flag_index)
qed

lemma pairFlagged_iff:
  assumes "even i"
  shows "pairFlagged flags i \<longleftrightarrow> flagBit flags i \<or> flagBit flags (Suc i)"
proof -
  let ?w = "flags ! (i div 64)" and ?m = "i mod 64"
  have "pairFlagged flags i \<longleftrightarrow> (\<exists>n. bit (?w AND push_bit ?m 3) n)"
    unfolding pairFlagged_def flag_index by (metis bit_0_eq bit_eqI bot_apply bot_bool_def)
  also have "\<dots> \<longleftrightarrow> (\<exists>n. bit ?w n \<and> (n = ?m \<or> n = Suc ?m))"
  proof -
    have "?m < 63" by (rule even_pair(3) [OF assms])
    then have "bit (push_bit ?m 3 :: u64) n \<longleftrightarrow> n = ?m \<or> n = Suc ?m" for n
      by (auto simp: bit_push_bit_iff bit_three)
    then show ?thesis by (simp add: bit_and_iff)
  qed
  finally show ?thesis using even_pair [OF assms] by (auto simp: flagBit_def)
qed

section \<open>Climbing one level\<close>

lemma climb_flags:
  assumes "length fl' = length fl" and "2 * m + 2 \<le> 64 * length fl"
    and "\<And>b. flagBit fl' b \<longleftrightarrow> (if b < m then flagBit fl (2 * b) \<or> flagBit fl (Suc (2 * b))
      else 2 * m \<le> b \<and> flagBit fl b)"
  shows "flagBit (if pairFlagged fl' (2 * m) then setFlag (clearPair fl' (2 * m)) m else fl') b \<longleftrightarrow>
    (if b < Suc m then flagBit fl (2 * b) \<or> flagBit fl (Suc (2 * b)) else 2 * Suc m \<le> b \<and> flagBit fl b)"
proof -
  have pf: "pairFlagged fl' (2 * m) \<longleftrightarrow> flagBit fl (2 * m) \<or> flagBit fl (Suc (2 * m))"
    by (subst pairFlagged_iff) (auto simp: assms(3))
  have upd: "flagBit (setFlag (clearPair fl' (2 * m)) m) b \<longleftrightarrow>
      b = m \<or> b \<noteq> 2 * m \<and> b \<noteq> Suc (2 * m) \<and> flagBit fl' b"
    using assms(1,2) by (simp add: flagBit_setFlag flagBit_clearPair)
  have "b < m \<or> b = m \<or> m < b \<and> b < 2 * m \<or> m < b \<and> b = 2 * m \<or> m < b \<and> b = Suc (2 * m)
    \<or> m < b \<and> 2 * Suc m \<le> b" by arith
  then show ?thesis using pf upd assms(3) by (elim disjE conjE) auto
qed

lemma climbLevel_step:
  assumes "p + n \<le> dI" and "dI + n div 2 \<le> length ds" and "n \<le> 64 * length fl" and "m \<le> n div 2"
  shows "let (ds', fl') = foldl (climbPair k12 p dI) (ds, fl) [0..<m]
    in length ds' = length ds \<and> length fl' = length fl \<and>
       (\<forall>k<m. ds' ! (dI + k) = (if flagBit fl (2 * k) \<or> flagBit fl (Suc (2 * k))
          then k12 (digest_words (ds ! (p + 2 * k)) (ds ! (p + 2 * k + 1))) else ds ! (dI + k))) \<and>
       (\<forall>k. k < dI \<or> dI + m \<le> k \<longrightarrow> ds' ! k = ds ! k) \<and>
       (\<forall>b. flagBit fl' b \<longleftrightarrow> (if b < m then flagBit fl (2 * b) \<or> flagBit fl (Suc (2 * b))
          else 2 * m \<le> b \<and> flagBit fl b))"
  using assms(4)
proof (induction m)
  case 0
  then show ?case by simp
next
  case (Suc m)
  obtain ds' fl' where df: "foldl (climbPair k12 p dI) (ds, fl) [0..<m] = (ds', fl')" by (cases rule: prod.exhaust)
  with Suc have len: "length ds' = length ds" "length fl' = length fl"
    and new: "\<forall>k<m. ds' ! (dI + k) = (if flagBit fl (2 * k) \<or> flagBit fl (Suc (2 * k))
          then k12 (digest_words (ds ! (p + 2 * k)) (ds ! (p + 2 * k + 1))) else ds ! (dI + k))"
    and old: "\<forall>k. k < dI \<or> dI + m \<le> k \<longrightarrow> ds' ! k = ds ! k"
    and fl: "\<And>b. flagBit fl' b \<longleftrightarrow> (if b < m then flagBit fl (2 * b) \<or> flagBit fl (Suc (2 * b))
          else 2 * m \<le> b \<and> flagBit fl b)"
    by auto
  have pf: "pairFlagged fl' (2 * m) \<longleftrightarrow> flagBit fl (2 * m) \<or> flagBit fl (Suc (2 * m))"
    by (subst pairFlagged_iff) (auto simp: fl)
  have m: "Suc m \<le> n div 2" using Suc.prems by simp
  then have small: "p + 2 * m + 1 < dI" "dI + m < length ds" using assms(1,2) by linarith+
  let ?h = "k12 (digest_words (ds ! (p + 2 * m)) (ds ! (p + 2 * m + 1)))"
  have step: "foldl (climbPair k12 p dI) (ds, fl) [0..<Suc m] =
    (if pairFlagged fl' (2 * m) then ds'[dI + m := ?h] else ds',
     if pairFlagged fl' (2 * m) then setFlag (clearPair fl' (2 * m)) m else fl')"
    using df old small by (simp add: climbPair_def Let_def drop_bit_eq_div)
  have "2 * m + 2 \<le> 64 * length fl" using m assms(3) by linarith
  note F = climb_flags [OF len(2) this fl]
  show ?case
    unfolding step using len new old small pf F
    by (auto simp: nth_list_update less_Suc_eq)
qed

lemma climbLevel_nth:
  assumes "p + n \<le> dI" and "dI + n div 2 \<le> length ds" and "n \<le> 64 * length fl"
    and "climbLevel k12 p dI n (ds, fl) = (ds', fl')"
  shows "length ds' = length ds" and "length fl' = length fl"
    and "k < n div 2 \<Longrightarrow> ds' ! (dI + k) = (if flagBit fl (2 * k) \<or> flagBit fl (Suc (2 * k))
          then k12 (digest_words (ds ! (p + 2 * k)) (ds ! (p + 2 * k + 1))) else ds ! (dI + k))"
    and "k < dI \<or> dI + n div 2 \<le> k \<Longrightarrow> ds' ! k = ds ! k"
    and "flagBit fl' b \<longleftrightarrow> (if b < n div 2 then flagBit fl (2 * b) \<or> flagBit fl (Suc (2 * b))
          else 2 * (n div 2) \<le> b \<and> flagBit fl b)"
  using climbLevel_step [OF assms(1-3) order_refl, of k12] assms(4)
  by (auto simp: climbLevel_def)

section \<open>Climbing to the root\<close>

text \<open>
  At level \<open>l\<close>: the nodes of the level that are not flagged, and all nodes above it, are
  those of the tree \<open>ds0\<close> before the update; the levels below are already consistent.
\<close>

definition climb_inv ::
  "(u64 list \<Rightarrow> m256i) \<Rightarrow> nat \<Rightarrow> m256i list \<Rightarrow> nat \<Rightarrow> m256i list \<Rightarrow> u64 list \<Rightarrow> bool" where
  "climb_inv k12 d ds0 l ds fl \<longleftrightarrow> length ds = 2 ^ (d + 1) - 1 \<and> 2 ^ d \<le> 64 * length fl \<and>
     (\<forall>k. levelStart d (Suc l) \<le> k \<longrightarrow> k < length ds \<longrightarrow> ds ! k = ds0 ! k) \<and>
     (\<forall>b<2 ^ (d - l). \<not> flagBit fl b \<longrightarrow> ds ! (levelStart d l + b) = ds0 ! (levelStart d l + b)) \<and>
     (\<forall>b<64 * length fl. 2 ^ (d - l) \<le> b \<longrightarrow> \<not> flagBit fl b) \<and> (\<forall>k<l. nodes_ok k12 d k ds)"

lemma climbLevel_inv:
  assumes inv: "climb_inv k12 d ds0 l ds fl" and l: "l < d"
    and old: "nodes_ok k12 d l ds0"
    and eq: "climbLevel k12 (levelStart d l) (levelStart d (Suc l)) (2 ^ (d - l)) (ds, fl) = (ds', fl')"
  shows "climb_inv k12 d ds0 (Suc l) ds' fl'" and "\<forall>k<levelStart d (Suc l). ds' ! k = ds ! k"
proof -
  note B = level_bounds [OF l]
  note I = inv [unfolded climb_inv_def]
  let ?n = "2 ^ (d - l) :: nat"
  have n: "?n div 2 = 2 ^ (d - Suc l)" "2 * (?n div 2) = ?n" using B(2) l by (cases "d - l"; simp)+
  have "?n \<le> 2 ^ d" by (intro power_increasing) auto
  with I have nfl: "?n \<le> 64 * length fl" by linarith
  have pre: "levelStart d l + ?n \<le> levelStart d (Suc l)" "levelStart d (Suc l) + ?n div 2 \<le> length ds"
    using B I by simp_all
  note C = climbLevel_nth [OF pre nfl eq]
  show low: "\<forall>k<levelStart d (Suc l). ds' ! k = ds ! k" using C(4) by simp
  have nodes: "nodes_ok k12 d l ds'"
    unfolding nodes_ok_def
  proof (intro allI impI)
    fix j
    assume j: "j < (2::nat) ^ (d - l - 1)"
    then have jn: "j < ?n div 2" using B(2) by simp
    have ch: "levelStart d l + 2 * j + 1 < levelStart d (Suc l)" "2 * j + 1 < ?n"
      using B j n(2) jn by linarith+
    have up: "levelStart d (Suc l) + j < length ds" using pre(2) jn by linarith
    show "ds' ! (levelStart d (Suc l) + j) =
      k12 (digest_words (ds' ! (levelStart d l + 2 * j)) (ds' ! (levelStart d l + 2 * j + 1)))"
    proof (cases "flagBit fl (2 * j) \<or> flagBit fl (Suc (2 * j))")
      case True
      then show ?thesis using C(3) [OF jn] low ch by simp
    next
      case False
      then have "ds ! (levelStart d l + 2 * j) = ds0 ! (levelStart d l + 2 * j)"
        "ds ! (levelStart d l + Suc (2 * j)) = ds0 ! (levelStart d l + Suc (2 * j))"
        using I ch by (simp_all del: add_Suc_right)
      moreover have "ds ! (levelStart d (Suc l) + j) = ds0 ! (levelStart d (Suc l) + j)"
        using I up by simp
      ultimately show ?thesis
        using False C(3) [OF jn] low ch old [unfolded nodes_ok_def, rule_format, OF j] by simp
    qed
  qed
  have "nodes_ok k12 d k ds'" if "k < Suc l" for k
  proof (cases "k = l")
    case True
    with nodes show ?thesis by simp
  next
    case False
    then have k: "k < l" using that by simp
    have "levelStart d (Suc (Suc k)) \<le> levelStart d (Suc l)"
      unfolding levelStart_def using k by (intro diff_le_mono2 power_increasing) auto
    then have "nodes_ok k12 d k ds' = nodes_ok k12 d k ds"
      using k l low by (intro nodes_ok_cong) auto
    with I k show ?thesis by simp
  qed
  moreover have "ds' ! (levelStart d (Suc l) + b) = ds0 ! (levelStart d (Suc l) + b)"
    if "b < 2 ^ (d - Suc l)" "\<not> flagBit fl' b" for b
  proof -
    have b: "b < ?n div 2" "levelStart d (Suc l) + b < length ds" using that(1) n(1) pre(2) by linarith+
    then have "ds' ! (levelStart d (Suc l) + b) = ds ! (levelStart d (Suc l) + b)"
      using C(3) [OF b(1)] C(5) [of b] that(2) by simp
    with I b(2) show ?thesis by simp
  qed
  moreover have "\<not> flagBit fl' b" if "b < 64 * length fl'" "2 ^ (d - Suc l) \<le> b" for b
    using C(2) C(5) [of b] that I n by auto
  moreover have "ds' ! k = ds0 ! k" if "levelStart d (Suc (Suc l)) \<le> k" "k < length ds'" for k
    using C(1) C(4) [of k] that I B(3) by auto
  ultimately show "climb_inv k12 d ds0 (Suc l) ds' fl'"
    using I C(1,2) by (simp add: climb_inv_def)
qed

lemma climbLevels_ok:
  assumes "climb_inv k12 d ds0 l ds fl" and "l \<le> d" and "\<forall>k<d. nodes_ok k12 d k ds0"
    and "climbLevels k12 (levelStart d l) (levelStart d (Suc l)) (2 ^ (d - l)) (ds, fl) = (ds', fl')"
  shows "climb_inv k12 d ds0 d ds' fl' \<and> (\<forall>k<levelStart d (Suc l). ds' ! k = ds ! k) \<and> length fl' = length fl"
  using assms
proof (induction "d - l" arbitrary: l ds fl)
  case 0
  then show ?case by (simp add: climbLevels.simps)
next
  case (Suc n)
  then have l: "l < d" by simp
  note B = level_bounds [OF l]
  obtain ds1 fl1 where eq1: "climbLevel k12 (levelStart d l) (levelStart d (Suc l)) (2 ^ (d - l)) (ds, fl) = (ds1, fl1)"
    by (cases rule: prod.exhaust)
  note L = climbLevel_inv [OF Suc.prems(1) l _ eq1]
  have inv1: "climb_inv k12 d ds0 (Suc l) ds1 fl1" "\<forall>k<levelStart d (Suc l). ds1 ! k = ds ! k"
    using L Suc.prems(3) l by auto
  have "1 < (2::nat) ^ (d - l)" using l by (intro one_less_power) auto
  then have "climbLevels k12 (levelStart d l) (levelStart d (Suc l)) (2 ^ (d - l)) (ds, fl) =
    climbLevels k12 (levelStart d (Suc l)) (levelStart d (Suc (Suc l))) (2 ^ (d - Suc l)) (ds1, fl1)"
    by (subst climbLevels.simps) (simp add: B(1) B(2) [simplified] B(3) [unfolded B(2), simplified] eq1)
  with Suc.prems(4) have "climbLevels k12 (levelStart d (Suc l)) (levelStart d (Suc (Suc l)))
    (2 ^ (d - Suc l)) (ds1, fl1) = (ds', fl')" by simp
  then have "climb_inv k12 d ds0 d ds' fl' \<and> (\<forall>k<levelStart d (Suc (Suc l)). ds' ! k = ds1 ! k)
      \<and> length fl' = length fl1"
    using Suc.hyps(2) inv1(1) l Suc.prems(3) by (intro Suc.hyps(1)) auto
  moreover have "levelStart d (Suc l) \<le> levelStart d (Suc (Suc l))" using B(3) by simp
  moreover have "length fl1 = length fl"
  proof -
    have "(2::nat) ^ (d - l) \<le> 2 ^ d" by (intro power_increasing) auto
    then have "2 ^ (d - l) \<le> 64 * length fl"
      using Suc.prems(1) unfolding climb_inv_def by linarith
    with Suc.prems(1) B show ?thesis
      by (intro climbLevel_nth(2) [OF _ _ _ eq1]) (auto simp: climb_inv_def)
  qed
  ultimately show ?case using inv1(2) by auto
qed

section \<open>Roots and sibling paths\<close>

lemma pairUp_nth:
  "length xs = 2 * n \<Longrightarrow> pairUp k12 xs = map (\<lambda>j. k12 (digest_words (xs ! (2 * j)) (xs ! (2 * j + 1)))) [0..<n]"
proof (induction n arbitrary: xs)
  case (Suc n)
  then obtain a b ys where "xs = a # b # ys" "length ys = 2 * n"
    by (auto simp: length_Suc_conv)
  with Suc.IH [of ys] show ?case by (simp add: map_upt_Suc del: upt_Suc)
qed simp

lemma merkleRoot_level:
  assumes "\<forall>k<d. nodes_ok k12 d k ds" and "l \<le> d"
  shows "merkleRoot k12 (d - l) (map (\<lambda>j. ds ! (levelStart d l + j)) [0..<2 ^ (d - l)]) = ds ! levelStart d d"
  using assms
proof (induction "d - l" arbitrary: l)
  case 0
  then show ?case by simp
next
  case (Suc n)
  then have l: "l < d" "d - l = Suc (d - Suc l)" by simp_all
  have nodes: "nodes_ok k12 d l ds" using Suc.prems(1) l(1) by simp
  have "pairUp k12 (map (\<lambda>j. ds ! (levelStart d l + j)) [0..<2 ^ (d - l)]) =
     map (\<lambda>j. ds ! (levelStart d (Suc l) + j)) [0..<2 ^ (d - Suc l)]"
    using nodes by (subst pairUp_nth [of _ "2 ^ (d - Suc l)"]) (auto simp: l(2) nodes_ok_def algebra_simps)
  then show ?case using Suc.hyps Suc.prems l by simp
qed

lemma tree_ok_root:
  assumes "tree_ok k12 d leaves ds"
  shows "ds ! (2 ^ d * 2 - 1 - 1) = merkleRoot k12 d leaves"
proof -
  have "leaves = map (\<lambda>j. ds ! (levelStart d 0 + j)) [0..<2 ^ (d - 0)]"
    using assms by (auto simp: tree_ok_def intro!: nth_equalityI)
  moreover have "levelStart d d = 2 ^ d * 2 - 1 - 1" by (simp add: levelStart_def)
  ultimately show ?thesis
    using merkleRoot_level [of d k12 ds 0] assms by (simp add: tree_ok_def)
qed

lemma sibling_hash:
  assumes "nodes_ok k12 d l ds" and "i < 2 ^ (d - l)" and "l < d"
  defines "s \<equiv> ds ! (levelStart d l + (i XOR 1))" and "x \<equiv> ds ! (levelStart d l + i)"
  shows "k12 (if even i then digest_words x s else digest_words s x) = ds ! (levelStart d (Suc l) + i div 2)"
proof -
  have "i div 2 < 2 ^ (d - l - 1)" using assms(2,3) by (cases "d - l") auto
  with assms(1) have "ds ! (levelStart d (Suc l) + i div 2) =
     k12 (digest_words (ds ! (levelStart d l + 2 * (i div 2))) (ds ! (levelStart d l + 2 * (i div 2) + 1)))"
    by (simp add: nodes_ok_def)
  then show ?thesis
    by (cases "even i") (auto simp: s_def x_def xor_Suc_0_eq elim!: evenE oddE)
qed

lemma getSiblingsLoop_root:
  assumes "\<forall>k<d. nodes_ok k12 d k ds" and "l \<le> d" and "i < 2 ^ (d - l)"
  shows "pathRoot k12 i (ds ! (levelStart d l + i))
           (getSiblingsLoop (2 ^ (d - l)) (d - l) i (levelStart d l) ds) = ds ! levelStart d d"
  using assms
proof (induction "d - l" arbitrary: l i)
  case 0
  then show ?case by simp
next
  case (Suc n)
  then have l: "l < d" "d - l = Suc (d - Suc l)" by simp_all
  have step: "levelStart d l + 2 ^ (d - l) = levelStart d (Suc l)" using levelStart_Suc [of l d] l by simp
  have "drop_bit 1 (2 ^ (d - l)) = (2::nat) ^ (d - Suc l)" by (simp add: l(2) drop_bit_eq_div)
  moreover have "i div 2 < 2 ^ (d - Suc l)" using Suc.prems(3) by (simp add: l(2))
  moreover have "getSiblingsLoop (2 ^ (d - l)) (d - l) i (levelStart d l) ds =
     ds ! (levelStart d l + (i XOR 1)) # getSiblingsLoop (drop_bit 1 (2 ^ (d - l))) (d - Suc l)
       (drop_bit 1 i) (levelStart d l + 2 ^ (d - l)) ds"
    by (simp only: l(2) getSiblingsLoop.simps)
  ultimately show ?case
    using Suc.hyps(1) [of "Suc l" "i div 2"] Suc.hyps(2) Suc.prems l(1) step
      sibling_hash [of k12 d l ds i]
    by (cases "even i") (simp_all add: drop_bit_eq_div)
qed

lemma getSiblings_root:
  assumes "tree_ok k12 d leaves ds" and "i < 2 ^ d"
  shows "pathRoot k12 i (leaves ! i) (getSiblings d i ds) = merkleRoot k12 d leaves"
  using getSiblingsLoop_root [of d k12 ds 0 i] assms tree_ok_root [OF assms(1)]
  by (simp add: getSiblings_def tree_ok_def levelStart_def mult.commute numeral_2_eq_2)

end
