(* ===== verification/Spectrum.thy ===== *)
theory Spectrum
  imports Linear_Probing Merkle
begin

text \<open>
  The spectrum (\<open>src/src/spectrum/spectrum.h\<close>): the hash map of all entities and their
  balances, with the anti-dust burning and the reorganisation that keep it at most three
  quarters full. A loop of the source that may not return gives \<^const>\<open>None\<close>.
\<close>

section \<open>State\<close>

record EntityRecord =
  publicKey :: m256i
  incomingAmount :: i64
  outgoingAmount :: i64
  numberOfIncomingTransfers :: u32
  numberOfOutgoingTransfers :: u32
  latestIncomingTransferTick :: u32
  latestOutgoingTransferTick :: u32

text \<open>A slot after \<open>setMem(..., 0)\<close>.\<close>

definition emptyEntity :: EntityRecord where
  "emptyEntity = \<lparr>publicKey = 0, incomingAmount = 0, outgoingAmount = 0,
     numberOfIncomingTransfers = 0, numberOfOutgoingTransfers = 0,
     latestIncomingTransferTick = 0, latestOutgoingTransferTick = 0\<rparr>"

text \<open>
  The messages passed to the logger: \<open>SpectrumStats\<close> (total amount, the two thresholds,
  number of entities, populations) and \<open>DustBurning\<close> (burned entities and amounts).
\<close>

datatype spectrum_event =
    SpectrumStats u64 u64 u64 u32 "u32 list"
  | DustBurning "(m256i \<times> u64) list"

text \<open>
  The globals of the file. \<open>spectrumDirtyList\<close> holds the entries below
  \<open>spectrumDirtyCount\<close>; the rest of that array is never read.
\<close>

record spectrum_state =
  spectrum :: "EntityRecord list"
  numberOfEntities :: u32
  totalAmount :: u64
  entityCategoryPopulations :: "u32 list"
  dustThresholdBurnAll :: u64
  dustThresholdBurnHalf :: u64
  spectrumDigests :: "m256i list"
  spectrumChangeFlags :: "u64 list"
  spectrumDirtyList :: "nat list"
  spectrumDirtyOverflow :: bool
  spectrumLog :: "spectrum_event list"

abbreviation SPECTRUM_CAPACITY :: "spectrum_state \<Rightarrow> nat" where
  "SPECTRUM_CAPACITY s \<equiv> length (spectrum s)"

definition entityCategoryCount :: nat where
  "entityCategoryCount = 48"

definition MAX_SUPPLY :: int where
  "MAX_SUPPLY = 1000000000000 * 200"

section \<open>Dirty list\<close>

definition SPECTRUM_DIRTY_CAPACITY :: nat where
  "SPECTRUM_DIRTY_CAPACITY = 16384"

definition spectrumMarkDirty :: "nat \<Rightarrow> spectrum_state \<Rightarrow> spectrum_state" where
  "spectrumMarkDirty idx s =
     (if length (spectrumDirtyList s) < SPECTRUM_DIRTY_CAPACITY
      then s\<lparr>spectrumDirtyList := spectrumDirtyList s @ [idx]\<rparr>
      else s\<lparr>spectrumDirtyOverflow := True\<rparr>)"

definition spectrumDirtyReset :: "spectrum_state \<Rightarrow> spectrum_state" where
  "spectrumDirtyReset s = s\<lparr>spectrumDirtyList := [], spectrumDirtyOverflow := False\<rparr>"

section \<open>Balances and statistics\<close>

text \<open>\<open>incomingAmount - outgoingAmount\<close>, in 64-bit arithmetic.\<close>

definition balance :: "EntityRecord \<Rightarrow> i64" where
  "balance r = incomingAmount r - outgoingAmount r"

definition energy :: "spectrum_state \<Rightarrow> nat \<Rightarrow> i64" where
  "energy s index = balance (spectrum s ! index)"

definition updateSpectrumInfo :: "spectrum_state \<Rightarrow> spectrum_state" where
  "updateSpectrumInfo s =
     (let (n, t) = foldl (\<lambda>(n, t) r.
            if balance r \<noteq> 0 \<or> \<not> isZero (publicKey r) then (n + 1, t + balance r) else (n, t))
          (0, 0) (spectrum s)
      in s\<lparr>numberOfEntities := n, totalAmount := t\<rparr>)"

text \<open>\<open>entityCategoryPopulations[63 - __lzcnt64(balance)]++\<close> for every non-zero balance.\<close>

definition countCategory :: "u32 list \<Rightarrow> EntityRecord \<Rightarrow> u32 list" where
  "countCategory pops r =
     (if balance r \<noteq> 0
      then pops[63 - lzcnt64 (balance r) := pops ! (63 - lzcnt64 (balance r)) + 1] else pops)"

text \<open>The loop over the categories from the highest down: \<open>(burnAll, burnHalf)\<close>.\<close>

fun analyzeCategories :: "nat \<Rightarrow> u32 list \<Rightarrow> nat \<Rightarrow> u32 \<Rightarrow> u64 \<times> u64" where
  "analyzeCategories cap pops 0 n = (0, 0)"
| "analyzeCategories cap pops (Suc c) n =
     (let n' = n + pops ! c
      in if cap div 2 \<le> unat n'
         then (if pops ! c = n'
               then (push_bit c 1 - 1, push_bit (c + 1) 1 - 1)
               else (push_bit (c + 1) 1 - 1, 0))
         else analyzeCategories cap pops c n')"

definition updateAndAnalzeEntityCategoryPopulations :: "spectrum_state \<Rightarrow> spectrum_state" where
  "updateAndAnalzeEntityCategoryPopulations s =
     (let pops = foldl countCategory (replicate entityCategoryCount 0) (spectrum s);
          (all, half) = analyzeCategories (SPECTRUM_CAPACITY s) pops entityCategoryCount 0
      in s\<lparr>entityCategoryPopulations := pops, dustThresholdBurnAll := all,
           dustThresholdBurnHalf := half\<rparr>)"

definition logSpectrumStats :: "spectrum_state \<Rightarrow> spectrum_state" where
  "logSpectrumStats s = s\<lparr>spectrumLog := spectrumLog s @
     [SpectrumStats (totalAmount s) (dustThresholdBurnAll s) (dustThresholdBurnHalf s)
        (numberOfEntities s) (entityCategoryPopulations s)]\<rparr>"

section \<open>Burning dust\<close>

text \<open>
  \<open>DustBurnLogger\<close>: the entries buffered for the next message and the messages sent.
\<close>

type_synonym dust_logger = "(m256i \<times> u64) list \<times> spectrum_event list"

definition dust_maxEntries :: nat where
  "dust_maxEntries = 1000"

definition dust_finished :: "dust_logger \<Rightarrow> dust_logger" where
  "dust_finished dbl = ([], snd dbl @ [DustBurning (fst dbl)])"

definition addDustBurn :: "m256i \<Rightarrow> u64 \<Rightarrow> dust_logger \<Rightarrow> dust_logger" where
  "addDustBurn pk amount dbl =
     (let dbl' = (fst dbl @ [(pk, amount)], snd dbl)
      in if length (fst dbl') = dust_maxEntries then dust_finished dbl' else dbl')"

definition burnRecord :: "EntityRecord \<Rightarrow> EntityRecord" where
  "burnRecord r = r\<lparr>outgoingAmount := incomingAmount r\<rparr>"

fun burnAllLoop :: "bool \<Rightarrow> u64 \<Rightarrow> EntityRecord list \<Rightarrow> dust_logger \<Rightarrow> EntityRecord list \<times> dust_logger" where
  "burnAllLoop lg thr [] dbl = ([], dbl)"
| "burnAllLoop lg thr (r # rs) dbl =
     (if balance r \<le> thr \<and> balance r \<noteq> 0
      then let (rs', dbl') = burnAllLoop lg thr rs
                 (if lg then addDustBurn (publicKey r) (balance r) dbl else dbl)
           in (burnRecord r # rs', dbl')
      else let (rs', dbl') = burnAllLoop lg thr rs dbl in (r # rs', dbl'))"

text \<open>\<open>if (++countBurnCanadiates & 1)\<close>: the first candidate is burned, the second kept, ...\<close>

fun burnHalfLoop ::
  "bool \<Rightarrow> u64 \<Rightarrow> u32 \<Rightarrow> EntityRecord list \<Rightarrow> dust_logger \<Rightarrow> EntityRecord list \<times> dust_logger" where
  "burnHalfLoop lg thr cnt [] dbl = ([], dbl)"
| "burnHalfLoop lg thr cnt (r # rs) dbl =
     (if balance r \<le> thr \<and> balance r \<noteq> 0
      then (if (cnt + 1) AND 1 \<noteq> 0
            then let (rs', dbl') = burnHalfLoop lg thr (cnt + 1) rs
                       (if lg then addDustBurn (publicKey r) (balance r) dbl else dbl)
                 in (burnRecord r # rs', dbl')
            else let (rs', dbl') = burnHalfLoop lg thr (cnt + 1) rs dbl in (r # rs', dbl'))
      else let (rs', dbl') = burnHalfLoop lg thr cnt rs dbl in (r # rs', dbl'))"

text \<open>The block between the two calls of the statistics in \<open>increaseEnergy\<close>.\<close>

definition burnDust :: "bool \<Rightarrow> spectrum_state \<Rightarrow> spectrum_state" where
  "burnDust lg s =
     (let dbl = ([], spectrumLog s);
          (rs1, dbl1) = (if 0 < dustThresholdBurnAll s
             then burnAllLoop lg (dustThresholdBurnAll s) (spectrum s) dbl else (spectrum s, dbl));
          (rs2, dbl2) = (if 0 < dustThresholdBurnHalf s
             then burnHalfLoop lg (dustThresholdBurnHalf s) 0 rs1 dbl1 else (rs1, dbl1));
          dbl3 = (if lg then dust_finished dbl2 else dbl2)
      in s\<lparr>spectrum := rs2, spectrumLog := snd dbl3\<rparr>)"

section \<open>Search\<close>

definition spectrumIndex :: "spectrum_state \<Rightarrow> m256i \<Rightarrow> int option" where
  "spectrumIndex s pk =
     (if isZero pk then Some (- 1)
      else case probe (SPECTRUM_CAPACITY s)
                  (\<lambda>i. publicKey (spectrum s ! i) = pk \<or> isZero (publicKey (spectrum s ! i)))
                  (SPECTRUM_CAPACITY s) (home_slot (SPECTRUM_CAPACITY s) pk) of
             None \<Rightarrow> None
           | Some i \<Rightarrow> if publicKey (spectrum s ! i) = pk then Some (int i) else Some (- 1))"

section \<open>Digests of the Merkle tree\<close>

text \<open>
  \<open>KangarooTwelve64To32\<close> hashes 64 bytes, here eight 64-bit words, to 32 bytes. It is a
  parameter \<open>k12\<close> of every operation that hashes.
\<close>

definition entity_words :: "EntityRecord \<Rightarrow> u64 list" where
  "entity_words r =
     map (m256i_u64 (publicKey r)) [0, 1, 2, 3] @
     [incomingAmount r, outgoingAmount r,
      word_cat (numberOfOutgoingTransfers r) (numberOfIncomingTransfers r),
      word_cat (latestOutgoingTransferTick r) (latestIncomingTransferTick r)]"

definition rebuildDigests :: "(u64 list \<Rightarrow> m256i) \<Rightarrow> EntityRecord list \<Rightarrow> m256i list \<Rightarrow> m256i list" where
  "rebuildDigests k12 rs ds =
     hashLevels k12 0 (length rs) (length rs)
       (foldl (\<lambda>ds i. ds[i := k12 (entity_words (rs ! i))]) ds [0..<length rs])"

section \<open>Reorganisation\<close>

text \<open>The loop over the old table: every entity with a balance moves to the new table.\<close>

fun reorgLoop :: "EntityRecord list \<Rightarrow> EntityRecord list \<Rightarrow> EntityRecord list option" where
  "reorgLoop [] reorg = Some reorg"
| "reorgLoop (r # rs) reorg =
     (if balance r \<noteq> 0
      then case probe (length reorg) (\<lambda>i. isZero (publicKey (reorg ! i))) (length reorg)
                  (home_slot (length reorg) (publicKey r)) of
             None \<Rightarrow> None
           | Some i \<Rightarrow> reorgLoop rs (reorg[i := r])
      else reorgLoop rs reorg)"

definition reorganizeSpectrum :: "(u64 list \<Rightarrow> m256i) \<Rightarrow> spectrum_state \<Rightarrow> spectrum_state option" where
  "reorganizeSpectrum k12 s =
     (let s1 = s\<lparr>spectrumDirtyOverflow := True, spectrumDirtyList := []\<rparr>
      in case reorgLoop (spectrum s1) (replicate (SPECTRUM_CAPACITY s1) emptyEntity) of
           None \<Rightarrow> None
         | Some rs \<Rightarrow> Some (updateSpectrumInfo
             (s1\<lparr>spectrum := rs, spectrumDigests := rebuildDigests k12 rs (spectrumDigests s1)\<rparr>)))"

section \<open>Changing balances\<close>

text \<open>The anti-dust block at the beginning of \<open>increaseEnergy\<close>.\<close>

definition antiDust :: "(u64 list \<Rightarrow> m256i) \<Rightarrow> bool \<Rightarrow> spectrum_state \<Rightarrow> spectrum_state option" where
  "antiDust k12 isGenerateLog s =
     (if SPECTRUM_CAPACITY s div 2 + SPECTRUM_CAPACITY s div 4 \<le> unat (numberOfEntities s)
      then let s1 = updateAndAnalzeEntityCategoryPopulations s;
               s2 = (if isGenerateLog then logSpectrumStats s1 else s1);
               s3 = burnDust isGenerateLog s2
           in case reorganizeSpectrum k12 s3 of
                None \<Rightarrow> None
              | Some s4 \<Rightarrow> Some (if isGenerateLog
                  then logSpectrumStats (updateAndAnalzeEntityCategoryPopulations s4) else s4)
      else Some s)"

text \<open>The body of the search loop, at the slot where it stopped.\<close>

definition creditSlot :: "u32 \<Rightarrow> bool \<Rightarrow> m256i \<Rightarrow> i64 \<Rightarrow> nat \<Rightarrow> spectrum_state \<Rightarrow> spectrum_state" where
  "creditSlot tick isGenerateLog pk amount index s =
     (let r = spectrum s ! index
      in if publicKey r = pk
         then let s1 = s\<lparr>spectrum := (spectrum s)[index :=
                    r\<lparr>incomingAmount := incomingAmount r + amount,
                      numberOfIncomingTransfers := numberOfIncomingTransfers r + 1,
                      latestIncomingTransferTick := tick\<rparr>]\<rparr>;
                  s2 = spectrumMarkDirty index s1
              in s2\<lparr>totalAmount := totalAmount s2 + amount\<rparr>
         else let s1 = s\<lparr>spectrum := (spectrum s)[index :=
                    r\<lparr>publicKey := pk, incomingAmount := amount,
                      numberOfIncomingTransfers := 1,
                      latestIncomingTransferTick := tick\<rparr>]\<rparr>;
                  s2 = spectrumMarkDirty index s1;
                  s3 = s2\<lparr>numberOfEntities := numberOfEntities s2 + 1,
                          totalAmount := totalAmount s2 + amount\<rparr>
              in if isGenerateLog \<and> numberOfEntities s3 AND 0x7ffff = 1
                 then logSpectrumStats (updateAndAnalzeEntityCategoryPopulations s3) else s3)"

definition increaseEnergy ::
  "(u64 list \<Rightarrow> m256i) \<Rightarrow> u32 \<Rightarrow> bool \<Rightarrow> m256i \<Rightarrow> i64 \<Rightarrow> spectrum_state \<Rightarrow> spectrum_state option" where
  "increaseEnergy k12 tick isGenerateLog pk amount s =
     (if \<not> isZero pk \<and> 0 \<le>s amount
      then case antiDust k12 isGenerateLog s of
             None \<Rightarrow> None
           | Some s1 \<Rightarrow>
               (case probe (SPECTRUM_CAPACITY s1)
                       (\<lambda>i. publicKey (spectrum s1 ! i) = pk \<or> isZero (publicKey (spectrum s1 ! i)))
                       (SPECTRUM_CAPACITY s1) (home_slot (SPECTRUM_CAPACITY s1) pk) of
                  None \<Rightarrow> None
                | Some i \<Rightarrow> Some (creditSlot tick isGenerateLog pk amount i s1))
      else Some s)"

definition decreaseEnergy :: "u32 \<Rightarrow> nat \<Rightarrow> i64 \<Rightarrow> spectrum_state \<Rightarrow> bool \<times> spectrum_state" where
  "decreaseEnergy tick index amount s =
     (if 0 \<le>s amount \<and> amount \<le>s energy s index
      then let r = spectrum s ! index;
               s1 = s\<lparr>spectrum := (spectrum s)[index :=
                    r\<lparr>outgoingAmount := outgoingAmount r + amount,
                      numberOfOutgoingTransfers := numberOfOutgoingTransfers r + 1,
                      latestOutgoingTransferTick := tick\<rparr>]\<rparr>;
               s2 = spectrumMarkDirty index s1
           in (True, s2\<lparr>totalAmount := totalAmount s2 - amount\<rparr>)
      else (False, s))"

section \<open>The ledger as a map\<close>

definition occupied :: "EntityRecord \<Rightarrow> bool" where
  "occupied r \<longleftrightarrow> \<not> isZero (publicKey r)"

definition population :: "EntityRecord list \<Rightarrow> nat" where
  "population rs = length (filter occupied rs)"

definition circulation :: "EntityRecord list \<Rightarrow> int" where
  "circulation rs = (\<Sum>r\<leftarrow>rs. sint (balance r))"

text \<open>What the table promises its users: a balance for every key, 0 for an absent one.\<close>

definition balances :: "EntityRecord list \<Rightarrow> m256i \<Rightarrow> int" where
  "balances rs pk = (case table_map occupied publicKey rs pk of
     None \<Rightarrow> 0 | Some r \<Rightarrow> sint (balance r))"

abbreviation vacant_slot :: "EntityRecord \<Rightarrow> bool" where
  "vacant_slot r \<equiv> isZero (publicKey r)"

definition ledger_table :: "nat \<Rightarrow> EntityRecord list \<Rightarrow> bool" where
  "ledger_table d rs \<longleftrightarrow>
     length rs = 2 ^ d \<and> chained vacant_slot occupied publicKey home_slot rs \<and>
     keys_unique occupied publicKey rs \<and>
     (\<forall>r\<in>set rs. isZero (publicKey r) \<longrightarrow> r = emptyEntity) \<and>
     (\<forall>r\<in>set rs. 0 \<le> sint (balance r)) \<and> circulation rs \<le> MAX_SUPPLY"

text \<open>
  The invariant of the component: the table is well formed, the counters agree with it and
  it is at most three quarters full.
\<close>

definition spectrum_ok :: "nat \<Rightarrow> spectrum_state \<Rightarrow> bool" where
  "spectrum_ok d s \<longleftrightarrow>
     2 \<le> d \<and> d < 32 \<and> ledger_table d (spectrum s) \<and>
     unat (numberOfEntities s) = population (spectrum s) \<and>
     uint (totalAmount s) = circulation (spectrum s) \<and>
     population (spectrum s) \<le> 2 ^ d div 2 + 2 ^ d div 4"

interpretation spec_tbl: probing_table vacant_slot occupied publicKey home_slot
  by unfold_locales (auto simp: occupied_def home_slot_less)

lemma balance_emptyEntity [simp]: "balance emptyEntity = 0"
  by (simp add: balance_def emptyEntity_def)

lemma publicKey_emptyEntity [simp]: "publicKey emptyEntity = 0" "\<not> occupied emptyEntity"
  by (simp_all add: emptyEntity_def occupied_def isZero_def)

lemma population_le: "population rs \<le> length rs"
  by (simp add: population_def)

lemma vacant_exists:
  assumes "population rs < length rs"
  shows "\<exists>i<length rs. isZero (publicKey (rs ! i))"
proof (rule ccontr)
  assume "\<not> ?thesis"
  then have "filter occupied rs = rs"
    by (auto simp: occupied_def filter_id_conv in_set_conv_nth)
  with assms show False by (simp add: population_def)
qed

text \<open>The search of the source is the search of the table interface.\<close>

lemma key_search:
  assumes "length rs = 2 ^ d" and "\<not> isZero pk"
  shows "probe (length rs) (\<lambda>i. publicKey (rs ! i) = pk \<or> isZero (publicKey (rs ! i)))
      (length rs) (home_slot (length rs) pk) = find_slot vacant_slot occupied publicKey home_slot rs pk"
  unfolding find_slot_def assms(1)
  by (rule probe_cong) (use assms home_slot_less in \<open>auto simp: occupied_def isZero_def\<close>)

lemma ledger_tableD:
  assumes "ledger_table d rs"
  shows "length rs = 2 ^ d" "chained vacant_slot occupied publicKey home_slot rs"
    "keys_unique occupied publicKey rs" "circulation rs \<le> MAX_SUPPLY"
    and "\<And>r. r \<in> set rs \<Longrightarrow> isZero (publicKey r) \<Longrightarrow> r = emptyEntity"
    and "\<And>r. r \<in> set rs \<Longrightarrow> 0 \<le> sint (balance r)"
  using assms by (auto simp: ledger_table_def)

lemma balance_le_circulation:
  assumes "\<And>r. r \<in> set rs \<Longrightarrow> 0 \<le> sint (balance r)" and "r \<in> set rs"
  shows "sint (balance r) \<le> circulation rs"
  unfolding circulation_def using assms
  by (intro member_le_sum_list) auto

lemma circulation_nonneg:
  assumes "\<And>r. r \<in> set rs \<Longrightarrow> 0 \<le> sint (balance r)"
  shows "0 \<le> circulation rs"
  unfolding circulation_def using assms by (intro sum_list_nonneg) auto

lemma balances_nth:
  assumes "ledger_table d rs" and "i < length rs" and "occupied (rs ! i)"
  shows "balances rs (publicKey (rs ! i)) = sint (balance (rs ! i))"
  using table_map_live [OF ledger_tableD(3) [OF assms(1)] assms(2,3)]
  by (simp add: balances_def)

lemma circulation_update:
  assumes "i < length rs"
  shows "circulation (rs[i := r]) = circulation rs - sint (balance (rs ! i)) + sint (balance r)"
  unfolding circulation_def by (rule sum_list_update_int [OF assms])

lemma population_update:
  assumes "i < length rs"
  shows "int (population (rs[i := r])) = int (population rs)
    - (if occupied (rs ! i) then 1 else 0) + (if occupied r then 1 else 0)"
  unfolding population_def by (rule length_filter_update [OF assms])

section \<open>Crediting and debiting one slot\<close>

lemma MAX_SUPPLY_bound: "MAX_SUPPLY < 2 ^ 48"
  by (simp add: MAX_SUPPLY_def)

text \<open>
  Replacing the record at the slot of a key by one with a balance that is \<open>delta\<close> higher:
  the common step of crediting (an occupied or a vacant slot) and debiting.
\<close>

lemma ledger_table_replace:
  assumes t: "ledger_table d rs" and len: "i < length rs"
    and tbl: "chained vacant_slot occupied publicKey home_slot (rs[i := r])"
      "keys_unique occupied publicKey (rs[i := r])"
    and r: "occupied r" "0 \<le> sint (balance r)"
    and le: "circulation rs - sint (balance (rs ! i)) + sint (balance r) \<le> MAX_SUPPLY"
  shows "ledger_table d (rs[i := r])"
  unfolding ledger_table_def
proof (intro conjI ballI impI)
  show "length (rs[i := r]) = 2 ^ d" using ledger_tableD(1) [OF t] by simp
  show "circulation (rs[i := r]) \<le> MAX_SUPPLY" using le by (simp add: circulation_update len)
next
  fix x
  assume x: "x \<in> set (rs[i := r])"
  then have x': "x = r \<or> x \<in> set rs" using set_update_subset_insert by fastforce
  show "0 \<le> sint (balance x)" using x' r ledger_tableD(6) [OF t] by auto
  assume "isZero (publicKey x)"
  then show "x = emptyEntity" using x' r ledger_tableD(5) [OF t] by (auto simp: occupied_def)
qed (use tbl in auto)

lemma credit_occupied:
  assumes t: "ledger_table d rs" and i: "i < length rs" "occupied (rs ! i)"
    and r: "publicKey r = publicKey (rs ! i)" "sint (balance r) = sint (balance (rs ! i)) + delta"
      "0 \<le> sint (balance r)"
    and le: "circulation rs + delta \<le> MAX_SUPPLY"
  shows "ledger_table d (rs[i := r])"
    and "balances (rs[i := r]) = (balances rs)(publicKey r := balances rs (publicKey r) + delta)"
    and "circulation (rs[i := r]) = circulation rs + delta"
    and "population (rs[i := r]) = population rs"
proof -
  have o: "occupied r" using i r by (simp add: occupied_def)
  note tbl = spec_tbl.overwrite [OF ledger_tableD(1-3) [OF t] i o r(1)]
  show "ledger_table d (rs[i := r])"
    by (rule ledger_table_replace [OF t i(1) tbl(1,2) o r(3)]) (use le r in auto)
  show "circulation (rs[i := r]) = circulation rs + delta"
    using r by (simp add: circulation_update i)
  show "population (rs[i := r]) = population rs"
    using population_update [OF i(1), of r] o i by simp
  have b: "balances rs (publicKey r) = sint (balance (rs ! i))"
    using balances_nth [OF t i] r by simp
  show "balances (rs[i := r]) = (balances rs)(publicKey r := balances rs (publicKey r) + delta)"
    by (rule ext) (auto simp: balances_def [of "rs[i := r]"] tbl(3) b r(2), simp add: balances_def)
qed

lemma credit_vacant:
  assumes t: "ledger_table d rs" and f: "find_slot vacant_slot occupied publicKey home_slot rs (publicKey r) = Some i"
    and v: "isZero (publicKey (rs ! i))" and r: "occupied r" "0 \<le> sint (balance r)"
    and le: "circulation rs + sint (balance r) \<le> MAX_SUPPLY"
  shows "ledger_table d (rs[i := r])"
    and "balances rs (publicKey r) = 0"
    and "balances (rs[i := r]) = (balances rs)(publicKey r := sint (balance r))"
    and "circulation (rs[i := r]) = circulation rs + sint (balance r)"
    and "population (rs[i := r]) = Suc (population rs)"
proof -
  note fs = spec_tbl.find_slot_SomeD [OF ledger_tableD(1,2) [OF t] f]
  note tbl = spec_tbl.insert [OF ledger_tableD(1-3) [OF t] f v r(1)]
  have e: "balance (rs ! i) = 0" "\<not> occupied (rs ! i)"
    using ledger_tableD(5) [OF t, of "rs ! i"] fs(1) v by auto
  show "ledger_table d (rs[i := r])"
    by (rule ledger_table_replace [OF t fs(1) tbl(1,2) r]) (use le e in auto)
  show "circulation (rs[i := r]) = circulation rs + sint (balance r)"
    using e by (simp add: circulation_update fs(1))
  show "population (rs[i := r]) = Suc (population rs)"
    using population_update [OF fs(1), of r] e r by simp
  show "balances rs (publicKey r) = 0"
    using fs(2) v by (auto simp: balances_def occupied_def)
  show "balances (rs[i := r]) = (balances rs)(publicKey r := sint (balance r))"
    by (rule ext) (auto simp: balances_def tbl(3))
qed

section \<open>Looking up an entity\<close>

lemma spectrum_okD:
  assumes "spectrum_ok d s"
  shows "ledger_table d (spectrum s)" "unat (numberOfEntities s) = population (spectrum s)"
    "uint (totalAmount s) = circulation (spectrum s)"
    "population (spectrum s) \<le> 2 ^ d div 2 + 2 ^ d div 4" "2 \<le> d" "d < 32"
  using assms by (auto simp: spectrum_ok_def)

lemma three_quarters_less:
  assumes "2 \<le> d"
  shows "(2::nat) ^ d div 2 + 2 ^ d div 4 < 2 ^ d"
proof -
  have "4 \<le> (2::nat) ^ d" using power_increasing [OF assms, of "2::nat"] by simp
  then show ?thesis by linarith
qed

lemma key_search_total:
  assumes "ledger_table d rs" and "population rs < 2 ^ d"
  shows "\<exists>i. find_slot vacant_slot occupied publicKey home_slot rs pk = Some i"
proof -
  obtain k where "k < length rs" "isZero (publicKey (rs ! k))"
    using vacant_exists [of rs] assms ledger_tableD(1) [OF assms(1)] by auto
  then show ?thesis
    using spec_tbl.find_slot_total [OF ledger_tableD(1) [OF assms(1)]] by auto
qed

lemma spectrumIndex_cases:
  assumes ok: "spectrum_ok d s" and nz: "\<not> isZero pk"
  shows "(\<exists>i<length (spectrum s). spectrumIndex s pk = Some (int i) \<and> publicKey (spectrum s ! i) = pk)
    \<or> spectrumIndex s pk = Some (- 1) \<and> (\<forall>r\<in>set (spectrum s). publicKey r \<noteq> pk)"
proof -
  note t = spectrum_okD(1) [OF ok]
  have "population (spectrum s) < 2 ^ d"
    using spectrum_okD(4,5) [OF ok] three_quarters_less [of d] by simp
  from key_search_total [OF t this, of pk] obtain i where
    i: "find_slot vacant_slot occupied publicKey home_slot (spectrum s) pk = Some i" by blast
  note fs = spec_tbl.find_slot_SomeD [OF ledger_tableD(1,2) [OF t] i]
  have idx: "spectrumIndex s pk = (if publicKey (spectrum s ! i) = pk then Some (int i) else Some (- 1))"
    using nz i by (simp add: spectrumIndex_def key_search [OF ledger_tableD(1) [OF t] nz])
  show ?thesis
  proof (cases "publicKey (spectrum s ! i) = pk")
    case True
    with idx fs(1) show ?thesis by auto
  next
    case False
    with fs(2) have "table_map occupied publicKey (spectrum s) pk = None" by auto
    then have "\<forall>r\<in>set (spectrum s). publicKey r \<noteq> pk"
      using nz by (auto simp: table_map_None_iff in_set_conv_nth occupied_def)
    with idx False show ?thesis by simp
  qed
qed

section \<open>Reorganisation keeps exactly the entities with a balance\<close>

lemma reorgLoop_rehash:
  "reorgLoop rs new = rehash vacant_slot publicKey home_slot (filter (\<lambda>r. balance r \<noteq> 0) rs) new"
  by (induction rs arbitrary: new) (simp_all split: option.split)

lemma updateSpectrumInfo_fold:
  "foldl (\<lambda>(n, t) r. if balance r \<noteq> 0 \<or> \<not> isZero (publicKey r)
       then (n + 1, t + balance r) else (n, t)) (n, t) rs =
     (n + of_nat (length (filter (\<lambda>r. balance r \<noteq> 0 \<or> occupied r) rs)), t + of_int (circulation rs))"
  by (induction rs arbitrary: n t) (auto simp: circulation_def occupied_def algebra_simps)

lemma updateSpectrumInfo_eq:
  "updateSpectrumInfo s = s\<lparr>
     numberOfEntities := of_nat (length (filter (\<lambda>r. balance r \<noteq> 0 \<or> occupied r) (spectrum s))),
     totalAmount := of_int (circulation (spectrum s))\<rparr>"
  unfolding updateSpectrumInfo_def updateSpectrumInfo_fold by simp

lemma circulation_mset:
  assumes "mset (filter P rs) = mset (filter Q rs')"
    and "\<And>r. r \<in> set rs \<Longrightarrow> \<not> P r \<Longrightarrow> balance r = 0"
    and "\<And>r. r \<in> set rs' \<Longrightarrow> \<not> Q r \<Longrightarrow> balance r = 0"
  shows "circulation rs = circulation rs'"
proof -
  have *: "circulation xs = sum_mset (image_mset (\<lambda>r. sint (balance r)) (mset (filter R xs)))"
    if "\<And>r. r \<in> set xs \<Longrightarrow> \<not> R r \<Longrightarrow> balance r = 0" for xs R
    using that by (induction xs) (auto simp: circulation_def sum_mset_sum_list)
  show ?thesis using *[of rs P] *[of rs' Q] assms by simp
qed

lemma reorgLoop_table:
  assumes t: "ledger_table d rs"
  shows "\<exists>rs'. reorgLoop rs (replicate (length rs) emptyEntity) = Some rs' \<and> ledger_table d rs' \<and>
    mset (filter occupied rs') = mset (filter (\<lambda>r. balance r \<noteq> 0) rs)"
proof -
  note T = ledger_tableD [OF t]
  let ?new = "replicate (length rs) emptyEntity"
  have occ: "occupied r" if "r \<in> set rs" "balance r \<noteq> 0" for r
    using T(5) [of r] that by (auto simp: occupied_def)
  have filt: "filter (\<lambda>r. balance r \<noteq> 0) rs = filter (\<lambda>r. balance r \<noteq> 0) (filter occupied rs)"
    using occ by (auto intro: filter_cong)
  have "\<exists>rs'. rehash vacant_slot publicKey home_slot (filter (\<lambda>r. balance r \<noteq> 0) rs) ?new = Some rs' \<and>
    length rs' = 2 ^ d \<and>
    chained vacant_slot occupied publicKey home_slot rs' \<and> keys_unique occupied publicKey rs' \<and>
    (\<forall>r\<in>set rs'. occupied r \<or> vacant_slot r \<and> r \<in> set ?new) \<and>
    mset (filter occupied rs') = mset (filter occupied ?new) + mset (filter (\<lambda>r. balance r \<noteq> 0) rs)"
  proof (rule spec_tbl.rehash_correct)
    show "distinct (map publicKey (filter (\<lambda>r. balance r \<noteq> 0) rs))"
      unfolding filt using keys_unique_distinct [OF T(3)] distinct_map_filter by blast
    show "length (filter occupied ?new) + length (filter (\<lambda>r. balance r \<noteq> 0) rs) \<le> 2 ^ d"
      using length_filter_le [of "\<lambda>r. balance r \<noteq> 0" rs] T(1) by simp
  qed (use T occ in \<open>auto simp: chained_def keys_unique_def isZero_def\<close>)
  then obtain rs' where R: "reorgLoop rs ?new = Some rs'" "length rs' = 2 ^ d"
    "chained vacant_slot occupied publicKey home_slot rs'" "keys_unique occupied publicKey rs'"
    "\<forall>r\<in>set rs'. occupied r \<or> vacant_slot r \<and> r \<in> set ?new"
    "mset (filter occupied rs') = mset (filter occupied ?new) + mset (filter (\<lambda>r. balance r \<noteq> 0) rs)"
    unfolding reorgLoop_rehash by blast
  then have "\<forall>r\<in>set rs'. isZero (publicKey r) \<longrightarrow> r = emptyEntity"
    by (auto simp: occupied_def)
  moreover have "mset (filter occupied rs') = mset (filter (\<lambda>r. balance r \<noteq> 0) rs)"
    using R(6) by simp
  ultimately have rs': "reorgLoop rs ?new = Some rs'" "length rs' = 2 ^ d"
    "chained vacant_slot occupied publicKey home_slot rs'" "keys_unique occupied publicKey rs'"
    "\<forall>r\<in>set rs'. isZero (publicKey r) \<longrightarrow> r = emptyEntity"
    "mset (filter occupied rs') = mset (filter (\<lambda>r. balance r \<noteq> 0) rs)"
    using R by simp_all
  have "circulation rs' = circulation rs"
    by (rule circulation_mset [OF rs'(6)]) (use rs'(5) in \<open>auto simp: occupied_def\<close>)
  moreover have "0 \<le> sint (balance r)" if "r \<in> set rs'" for r
  proof (cases "occupied r")
    case True
    then have "r \<in># mset (filter occupied rs')" using that by simp
    then show ?thesis unfolding rs'(6) using T(6) by simp
  next
    case False
    then show ?thesis using rs'(5) that by (auto simp: occupied_def)
  qed
  ultimately show ?thesis using rs' T(4) by (auto simp: ledger_table_def)
qed

end
