(* ===== verification/Spectrum_AntiDust.thy ===== *)
theory Spectrum_AntiDust
  imports Spectrum
begin

text \<open>
  The anti-dust feature of \<open>increaseEnergy\<close>: what the category statistics count, which
  balances the thresholds select, and that burning followed by reorganisation leaves at most
  half of the slots occupied, so that the searches of the spectrum always end.
\<close>

section \<open>Categories\<close>

definition category :: "EntityRecord \<Rightarrow> nat" where
  "category r = 63 - lzcnt64 (balance r)"

definition dusty :: "nat \<Rightarrow> EntityRecord \<Rightarrow> bool" where
  "dusty c r \<longleftrightarrow> balance r \<noteq> 0 \<and> unat (balance r) < 2 ^ c"

lemma category_iff:
  assumes "balance r \<noteq> 0"
  shows "c \<le> category r \<longleftrightarrow> 2 ^ c \<le> unat (balance r)"
proof -
  let ?b = "unat (balance r)"
  note b = lzcnt64_bounds [OF assms]
  from b have lo: "2 ^ category r \<le> ?b" and hi: "?b < 2 ^ Suc (category r)"
    by (simp_all add: category_def Suc_diff_le [symmetric])
  show ?thesis
  proof
    assume "c \<le> category r"
    then have "(2::nat) ^ c \<le> 2 ^ category r" by simp
    with lo show "2 ^ c \<le> ?b" by linarith
  next
    assume "2 ^ c \<le> ?b"
    with hi have "(2::nat) ^ c < 2 ^ Suc (category r)" by linarith
    then show "c \<le> category r" by (simp add: power_strict_increasing_iff del: power_Suc)
  qed
qed

definition inCategory :: "EntityRecord list \<Rightarrow> nat \<Rightarrow> nat" where
  "inCategory rs c = length (filter (\<lambda>r. balance r \<noteq> 0 \<and> category r = c) rs)"

definition atLeastCategory :: "EntityRecord list \<Rightarrow> nat \<Rightarrow> nat" where
  "atLeastCategory rs c = length (filter (\<lambda>r. balance r \<noteq> 0 \<and> c \<le> category r) rs)"

lemma atLeastCategory_Suc:
  "atLeastCategory rs c = inCategory rs c + atLeastCategory rs (Suc c)"
  by (induction rs) (auto simp: atLeastCategory_def inCategory_def)

lemma atLeastCategory_le: "atLeastCategory rs c \<le> length rs"
  by (simp add: atLeastCategory_def)

lemma countCategory_nth:
  assumes "length pops = 48" and "\<And>r. r \<in> set rs \<Longrightarrow> balance r \<noteq> 0 \<Longrightarrow> category r < 48" and "c < 48"
  shows "length (foldl countCategory pops rs) = 48"
    and "foldl countCategory pops rs ! c = pops ! c + of_nat (inCategory rs c)"
  using assms
proof (induction rs arbitrary: pops)
  case (Cons r rs)
  {
    case 1
    then show ?case using Cons.IH(1) [of "countCategory pops r"] by (simp add: countCategory_def)
  next
    case 2
    have l: "length (countCategory pops r) = 48" using 2 by (simp add: countCategory_def)
    have "countCategory pops r ! c = pops ! c + (if balance r \<noteq> 0 \<and> category r = c then 1 else 0)"
      using 2 by (auto simp: countCategory_def category_def nth_list_update)
    with Cons.IH(2) [OF l] 2 show ?case by (simp add: inCategory_def)
  }
qed (simp_all add: inCategory_def)

section \<open>Thresholds\<close>

text \<open>
  The thresholds found by the loop. Either nothing is burned, or every balance below
  \<open>2 ^ (c + 1)\<close> is, or (when all entities are in category \<open>c\<close> or below it) every balance
  below \<open>2 ^ c\<close> and every second one of category \<open>c\<close>.
\<close>

lemma unat_of_nat_u32: "n < 2 ^ 32 \<Longrightarrow> unat (of_nat n :: u32) = n"
  by (simp add: unat_of_nat take_bit_nat_eq_self)

lemma analyzeCategories_cases:
  assumes "length rs < 2 ^ 32" and "c \<le> 48"
    and pops: "\<And>c. c < 48 \<Longrightarrow> pops ! c = of_nat (inCategory rs c)"
    and "atLeastCategory rs c < cap div 2"
    and "analyzeCategories cap pops c (of_nat (atLeastCategory rs c)) = (all, half)"
  shows "(all = 0 \<and> half = 0 \<and> atLeastCategory rs 0 < cap div 2) \<or>
    (\<exists>c<48. all = 2 ^ (c + 1) - 1 \<and> half = 0 \<and> atLeastCategory rs (Suc c) < cap div 2) \<or>
    (\<exists>c<48. all = 2 ^ c - 1 \<and> half = 2 ^ (c + 1) - 1 \<and> atLeastCategory rs (Suc c) = 0)"
  using assms(2,4,5)
proof (induction c)
  case 0
  then show ?case by simp
next
  case (Suc c)
  let ?n = "of_nat (atLeastCategory rs (Suc c)) + pops ! c"
  have n: "?n = of_nat (atLeastCategory rs c)"
    using pops [of c] Suc.prems(1) by (simp add: atLeastCategory_Suc [of rs c])
  have un: "unat ?n = atLeastCategory rs c"
    unfolding n using atLeastCategory_le [of rs c] assms(1) by (intro unat_of_nat_u32) simp
  show ?case
  proof (cases "cap div 2 \<le> atLeastCategory rs c")
    case False
    with Suc.prems un have "analyzeCategories cap pops c (of_nat (atLeastCategory rs c)) = (all, half)"
      by (simp add: Let_def n)
    with Suc False show ?thesis by simp
  next
    case True
    show ?thesis
    proof (cases "pops ! c = ?n")
      case eq: True
      have "unat (pops ! c) = inCategory rs c"
        using pops [of c] Suc.prems(1) atLeastCategory_Suc [of rs c] atLeastCategory_le [of rs c] assms(1)
        by (simp add: unat_of_nat_u32)
      with eq un have "inCategory rs c = atLeastCategory rs c" by simp
      with atLeastCategory_Suc [of rs c] have "atLeastCategory rs (Suc c) = 0" by simp
      moreover have "all = 2 ^ c - 1" "half = 2 ^ (c + 1) - 1"
        using Suc.prems(3) True un eq by (auto simp: Let_def)
      ultimately show ?thesis using Suc.prems(1) by (intro disjI2 exI [of _ c]) auto
    next
      case neq: False
      with Suc.prems(3) True un have "all = 2 ^ (c + 1) - 1" "half = 0"
        by (auto simp: Let_def)
      then show ?thesis using Suc.prems(1,2) by (intro disjI2 disjI1 exI [of _ c]) auto
    qed
  qed
qed

lemma unat_threshold:
  assumes "c < 64"
  shows "unat (2 ^ c - 1 :: u64) = 2 ^ c - 1"
proof -
  have "2 ^ c - 1 = (mask c :: u64)" by (simp add: mask_eq_exp_minus_1)
  moreover have "unat (mask c :: u64) = mask c" using assms
    by (intro bit_eqI) (auto simp: bit_unsigned_iff bit_mask_iff)
  ultimately show ?thesis by (simp add: mask_nat_def)
qed

lemma below_threshold:
  assumes "c < 64"
  shows "balance r \<le> 2 ^ c - 1 \<and> balance r \<noteq> 0 \<longleftrightarrow> dusty c r"
proof -
  have "balance r \<le> 2 ^ c - 1 \<longleftrightarrow> unat (balance r) \<le> 2 ^ c - 1"
    using unat_threshold [OF assms] by (simp add: word_le_nat_alt)
  moreover have "unat (balance r) \<le> 2 ^ c - 1 \<longleftrightarrow> unat (balance r) < 2 ^ c"
    using zero_less_power [of "2::nat" c] by linarith
  ultimately show ?thesis by (auto simp: dusty_def)
qed

lemma threshold_pos: "c < 64 \<Longrightarrow> 0 < (2 ^ c - 1 :: u64) \<longleftrightarrow> 0 < c"
  using unat_threshold [of c] one_less_power [of "2::nat" c]
  by (cases "c = 0") (auto simp: word_less_nat_alt)

lemma not_dusty: "balance r \<noteq> 0 \<Longrightarrow> \<not> dusty c r \<longleftrightarrow> c \<le> category r"
  by (simp add: dusty_def category_iff not_less)

section \<open>The burning loops\<close>

lemma burnRecord_simps [simp]:
  "balance (burnRecord r) = 0" "publicKey (burnRecord r) = publicKey r"
  "occupied (burnRecord r) = occupied r"
  by (simp_all add: burnRecord_def balance_def occupied_def)

text \<open>Every record is kept or, if it satisfies \<open>P\<close>, burned.\<close>

definition burned :: "(EntityRecord \<Rightarrow> bool) \<Rightarrow> EntityRecord list \<Rightarrow> EntityRecord list \<Rightarrow> bool" where
  "burned P rs rs' \<longleftrightarrow> list_all2 (\<lambda>r r'. r' = r \<or> r' = burnRecord r \<and> P r) rs rs'"

lemma burnAllLoop_eq:
  "fst (burnAllLoop lg thr rs dbl) =
     map (\<lambda>r. if balance r \<le> thr \<and> balance r \<noteq> 0 then burnRecord r else r) rs"
  by (induction rs arbitrary: dbl) (simp_all add: Let_def case_prod_beta)

lemma odd_word_flip: "(cnt + 1 :: u32) AND 1 \<noteq> 0 \<longleftrightarrow> even cnt"
  by (simp add: and_one_eq odd_iff_mod_2_eq_one flip: even_iff_mod_2_eq_zero)

lemma burnHalfLoop_burned:
  "burned (\<lambda>r. balance r \<le> thr \<and> balance r \<noteq> 0) rs (fst (burnHalfLoop lg thr cnt rs dbl))"
proof (induction rs arbitrary: cnt dbl)
  case (Cons r rs)
  then show ?case by (simp add: burned_def Let_def case_prod_beta)
qed (simp add: burned_def)

lemma burnHalfLoop_count:
  assumes "\<And>r. r \<in> set rs \<Longrightarrow> balance r \<noteq> 0 \<Longrightarrow> balance r \<le> thr"
  shows "length (filter (\<lambda>r. balance r \<noteq> 0) (fst (burnHalfLoop lg thr cnt rs dbl))) =
    (length (filter (\<lambda>r. balance r \<noteq> 0) rs) + (if odd cnt then 1 else 0)) div 2"
  using assms
proof (induction rs arbitrary: cnt dbl)
  case (Cons r rs)
  show ?case
  proof (cases "balance r = 0")
    case True
    with Cons show ?thesis by (simp add: Let_def case_prod_beta)
  next
    case False
    then have "balance r \<le> thr" using Cons.prems by simp
    with False Cons show ?thesis
      by (simp add: Let_def case_prod_beta odd_word_flip)
  qed
qed simp

section \<open>Burning keeps the table\<close>

lemma burned_nth:
  assumes "burned P rs rs'"
  shows "length rs' = length rs"
    and "i < length rs \<Longrightarrow> rs' ! i = rs ! i \<or> rs' ! i = burnRecord (rs ! i) \<and> P (rs ! i)"
  using assms by (auto simp: burned_def list_all2_conv_all_nth)

lemma burned_refl: "burned P rs rs"
  by (simp add: burned_def list_all2_refl)

lemma burned_trans:
  assumes "burned P rs rs'" and "burned Q rs' rs''" and "\<And>r. P r \<Longrightarrow> R r" and "\<And>r. Q r \<Longrightarrow> R r"
    and "\<And>r. \<not> Q (burnRecord r)"
  shows "burned R rs rs''"
  unfolding burned_def list_all2_conv_all_nth
proof (intro conjI allI impI)
  show "length rs = length rs''" using burned_nth(1) [OF assms(1)] burned_nth(1) [OF assms(2)] by simp
  fix i
  assume "i < length rs"
  with burned_nth [OF assms(1)] burned_nth [OF assms(2)] assms(3-5)
  show "rs'' ! i = rs ! i \<or> rs'' ! i = burnRecord (rs ! i) \<and> R (rs ! i)" by metis
qed

lemma burned_keys:
  assumes "burned P rs rs'" and "i < length rs"
  shows "publicKey (rs' ! i) = publicKey (rs ! i)"
  using burned_nth(2) [OF assms] by auto

lemma chained_same_keys:
  assumes "length rs' = length rs" and "\<And>i. i < length rs \<Longrightarrow> publicKey (rs' ! i) = publicKey (rs ! i)"
  shows "chained vacant_slot occupied publicKey home_slot rs \<Longrightarrow>
      chained vacant_slot occupied publicKey home_slot rs'"
    and "keys_unique occupied publicKey rs \<Longrightarrow> keys_unique occupied publicKey rs'"
  unfolding chained_def keys_unique_def occupied_def using assms by simp_all

lemma circulation_burned:
  assumes "burned P rs rs'" and "\<And>r. r \<in> set rs \<Longrightarrow> 0 \<le> sint (balance r)"
  shows "circulation rs' \<le> circulation rs"
  using assms(1) [unfolded burned_def] assms(2)
proof (induction rule: list_all2_induct)
  case Nil
  then show ?case by simp
next
  case (Cons r rs r' rs')
  then have "sint (balance r') \<le> sint (balance r)" by auto
  with Cons show ?case by (simp add: circulation_def)
qed

lemma ledger_table_burned:
  assumes b: "burned P rs rs'" and t: "ledger_table d rs"
  shows "ledger_table d rs'"
proof -
  note T = ledger_tableD [OF t]
  have mem: "\<exists>r\<in>set rs. r' = r \<or> r' = burnRecord r" if "r' \<in> set rs'" for r'
    using that burned_nth [OF b] by (metis in_set_conv_nth)
  have "burnRecord emptyEntity = emptyEntity" by (simp add: burnRecord_def emptyEntity_def)
  with mem T(5) have "r' = emptyEntity" if "r' \<in> set rs'" "isZero (publicKey r')" for r'
    using that by fastforce
  moreover have "0 \<le> sint (balance r')" if "r' \<in> set rs'" for r'
    using mem [OF that] T(6) by auto
  ultimately show ?thesis
    using T chained_same_keys [OF burned_nth(1) [OF b] burned_keys [OF b]]
      circulation_burned [OF b T(6)] burned_nth(1) [OF b]
    by (auto simp: ledger_table_def)
qed

lemma balances_burned:
  assumes b: "burned P rs rs'" and t: "ledger_table d rs"
  shows "balances rs' pk = balances rs pk \<or>
    balances rs' pk = 0 \<and> (\<exists>r\<in>set rs. publicKey r = pk \<and> P r \<and> balances rs pk = sint (balance r))"
proof (cases "\<exists>i<length rs. occupied (rs ! i) \<and> publicKey (rs ! i) = pk")
  case True
  then obtain i where i: "i < length rs" "occupied (rs ! i)" "publicKey (rs ! i) = pk" by auto
  note t' = ledger_table_burned [OF b t]
  have "occupied (rs' ! i)" using burned_keys [OF b i(1)] i(2) by (simp add: occupied_def)
  then have "balances rs' pk = sint (balance (rs' ! i))" "balances rs pk = sint (balance (rs ! i))"
    using balances_nth [OF t i(1,2)] balances_nth [OF t', of i] burned_keys [OF b i(1)]
      burned_nth(1) [OF b] i by auto
  then show ?thesis using burned_nth(2) [OF b i(1)] i by auto
next
  case False
  then have "\<forall>i<length rs'. occupied (rs' ! i) \<longrightarrow> publicKey (rs' ! i) \<noteq> pk"
    using burned_keys [OF b] burned_nth(1) [OF b] by (auto simp: occupied_def)
  then have "table_map occupied publicKey rs' pk = None"
    by (simp add: table_map_None_iff)
  moreover have "table_map occupied publicKey rs pk = None"
    using False by (auto simp: table_map_None_iff)
  ultimately show ?thesis by (simp add: balances_def)
qed

section \<open>The survivors of a burn\<close>

definition nonzero :: "EntityRecord list \<Rightarrow> nat" where
  "nonzero rs = length (filter (\<lambda>r. balance r \<noteq> 0) rs)"

text \<open>The thresholds that the statistics of a state give.\<close>

definition thresholds :: "spectrum_state \<Rightarrow> u64 \<times> u64" where
  "thresholds s = (dustThresholdBurnAll (updateAndAnalzeEntityCategoryPopulations s),
     dustThresholdBurnHalf (updateAndAnalzeEntityCategoryPopulations s))"

text \<open>A record that a burn with these thresholds may destroy.\<close>

definition burnable :: "u64 \<times> u64 \<Rightarrow> EntityRecord \<Rightarrow> bool" where
  "burnable th r \<longleftrightarrow> balance r \<noteq> 0 \<and> (balance r \<le> fst th \<or> balance r \<le> snd th)"

lemma category_bound:
  assumes "ledger_table d rs" and "r \<in> set rs" and "balance r \<noteq> 0"
  shows "category r < 48"
proof (rule ccontr)
  assume "\<not> category r < 48"
  then have "2 ^ 48 \<le> unat (balance r)" using category_iff [OF assms(3), of 48] by simp
  from of_nat_mono [OF this, where 'a = int] have "2 ^ 48 \<le> uint (balance r)" by simp
  moreover have "uint (balance r) = sint (balance r)"
    using ledger_tableD(6) [OF assms(1,2)] by (simp add: uint_eq_sint)
  moreover have "sint (balance r) < 2 ^ 48"
    using balance_le_circulation [OF ledger_tableD(6) [OF assms(1)] assms(2)]
      ledger_tableD(4) [OF assms(1)] MAX_SUPPLY_bound by simp
  ultimately show False by simp
qed

lemma thresholds_cases:
  assumes t: "ledger_table d (spectrum s)" and d: "2 \<le> d" "d < 32"
    and th: "thresholds s = (all, half)"
  shows "(all = 0 \<and> half = 0 \<and> atLeastCategory (spectrum s) 0 < 2 ^ d div 2) \<or>
    (\<exists>c<48. all = 2 ^ (c + 1) - 1 \<and> half = 0 \<and> atLeastCategory (spectrum s) (Suc c) < 2 ^ d div 2) \<or>
    (\<exists>c<48. all = 2 ^ c - 1 \<and> half = 2 ^ (c + 1) - 1 \<and> atLeastCategory (spectrum s) (Suc c) = 0)"
proof -
  let ?pops = "foldl countCategory (replicate 48 0) (spectrum s)"
  note len = ledger_tableD(1) [OF t]
  have small: "length (spectrum s) < 2 ^ 32"
    unfolding len using d by (intro power_strict_increasing) auto
  have none: "atLeastCategory (spectrum s) 48 = 0"
    using category_bound [OF t] by (fastforce simp: atLeastCategory_def filter_empty_conv)
  have pops: "?pops ! c = of_nat (inCategory (spectrum s) c)" if "c < 48" for c
    using countCategory_nth(2) [of "replicate 48 0" "spectrum s" c] category_bound [OF t] that by simp
  have "4 \<le> (2::nat) ^ d" using power_increasing [OF d(1), of "2::nat"] by simp
  then have "0 < (2::nat) ^ d div 2" by linarith
  moreover have "analyzeCategories (2 ^ d) ?pops 48 0 = (all, half)"
    using th len
    by (simp add: thresholds_def updateAndAnalzeEntityCategoryPopulations_def entityCategoryCount_def
        Let_def case_prod_beta)
  ultimately show ?thesis
    using analyzeCategories_cases [OF small, of 48 ?pops "2 ^ d" all half] pops none by simp
qed

lemma nonzero_half:
  assumes "\<And>r. r \<in> set rs \<Longrightarrow> balance r \<noteq> 0 \<Longrightarrow> balance r \<le> thr"
  shows "nonzero (fst (burnHalfLoop lg thr 0 rs dbl)) = nonzero rs div 2"
  using burnHalfLoop_count [OF assms, where lg = lg and cnt = 0 and dbl = dbl] by (simp add: nonzero_def)

lemma nonzero_burnAll:
  assumes "c < 64"
  shows "nonzero (fst (burnAllLoop lg (2 ^ c - 1) rs dbl)) = atLeastCategory rs c"
  unfolding nonzero_def atLeastCategory_def burnAllLoop_eq below_threshold [OF assms]
  by (induction rs) (auto simp: not_dusty [symmetric])

lemma burnAllLoop_burned:
  "burned (\<lambda>r. balance r \<le> thr \<and> balance r \<noteq> 0) rs (fst (burnAllLoop lg thr rs dbl))"
  by (auto simp: burnAllLoop_eq burned_def list_all2_conv_all_nth)

lemma burnDust_spectrum:
  "spectrum (burnDust lg s) =
     (let dbl = ([], spectrumLog s);
          rs1 = (if 0 < dustThresholdBurnAll s
             then burnAllLoop lg (dustThresholdBurnAll s) (spectrum s) dbl else (spectrum s, dbl))
      in if 0 < dustThresholdBurnHalf s
         then fst (burnHalfLoop lg (dustThresholdBurnHalf s) 0 (fst rs1) (snd rs1)) else fst rs1)"
  by (simp add: burnDust_def Let_def case_prod_beta)

lemma burnDust_burned:
  "burned (burnable (dustThresholdBurnAll s, dustThresholdBurnHalf s)) (spectrum s) (spectrum (burnDust lg s))"
proof -
  let ?R = "burnable (dustThresholdBurnAll s, dustThresholdBurnHalf s)"
  let ?P = "\<lambda>r. balance r \<le> dustThresholdBurnAll s \<and> balance r \<noteq> 0"
  let ?Q = "\<lambda>r. balance r \<le> dustThresholdBurnHalf s \<and> balance r \<noteq> 0"
  define rs1 where "rs1 = (if 0 < dustThresholdBurnAll s
    then burnAllLoop lg (dustThresholdBurnAll s) (spectrum s) ([], spectrumLog s)
    else (spectrum s, [], spectrumLog s))"
  have 1: "burned ?P (spectrum s) (fst rs1)"
    by (simp add: rs1_def burnAllLoop_burned burned_refl)
  have "burned ?Q (fst rs1) (spectrum (burnDust lg s))"
    by (simp add: burnDust_spectrum rs1_def [symmetric] Let_def burnHalfLoop_burned burned_refl)
  from burned_trans [OF 1 this, of ?R] show ?thesis
    by (auto simp: burnable_def)
qed

text \<open>At most half of the capacity survives.\<close>

lemma burnDust_survivors:
  assumes t: "ledger_table d (spectrum s)" and d: "2 \<le> d" "d < 32"
    and th: "thresholds s = (dustThresholdBurnAll s', dustThresholdBurnHalf s')"
    and sp: "spectrum s' = spectrum s"
  shows "nonzero (spectrum (burnDust lg s')) \<le> 2 ^ d div 2"
  using thresholds_cases [OF t d th]
proof (elim disjE exE conjE)
  assume "dustThresholdBurnAll s' = 0" "dustThresholdBurnHalf s' = 0"
    "atLeastCategory (spectrum s) 0 < 2 ^ d div 2"
  then show ?thesis by (simp add: burnDust_spectrum nonzero_def atLeastCategory_def sp)
next
  fix c
  assume c: "c < 48" "dustThresholdBurnAll s' = 2 ^ (c + 1) - 1" "dustThresholdBurnHalf s' = 0"
    "atLeastCategory (spectrum s) (Suc c) < 2 ^ d div 2"
  have "nonzero (fst (burnAllLoop lg (2 ^ (c + 1) - 1) (spectrum s) ([], spectrumLog s')))
      = atLeastCategory (spectrum s) (c + 1)"
    by (rule nonzero_burnAll) (use c(1) in simp)
  then show ?thesis using c threshold_pos [of "c + 1"] by (simp add: burnDust_spectrum sp)
next
  fix c
  assume c: "c < 48" "dustThresholdBurnAll s' = 2 ^ c - 1" "dustThresholdBurnHalf s' = 2 ^ (c + 1) - 1"
    "atLeastCategory (spectrum s) (Suc c) = 0"
  define rs1 where "rs1 = (if 0 < dustThresholdBurnAll s'
    then burnAllLoop lg (dustThresholdBurnAll s') (spectrum s) ([], spectrumLog s')
    else (spectrum s, [], spectrumLog s'))"
  have b: "burned (\<lambda>r. balance r \<le> dustThresholdBurnAll s' \<and> balance r \<noteq> 0) (spectrum s) (fst rs1)"
    by (simp add: rs1_def burnAllLoop_burned burned_refl)
  have small: "balance r \<le> 2 ^ (c + 1) - 1" if "r \<in> set (fst rs1)" "balance r \<noteq> 0" for r
  proof -
    from that burned_nth [OF b] have "r \<in> set (spectrum s)"
      by (metis burnRecord_simps(1) in_set_conv_nth)
    with c(4) that have "\<not> Suc c \<le> category r"
      by (auto simp: atLeastCategory_def filter_empty_conv)
    then have "dusty (c + 1) r" using not_dusty [OF that(2), of "c + 1"] by simp
    then show ?thesis using below_threshold [of "c + 1" r] c(1) by simp
  qed
  have "nonzero (fst rs1) \<le> 2 ^ d"
    using length_filter_le [of _ "fst rs1"] burned_nth(1) [OF b] ledger_tableD(1) [OF t]
    by (simp add: nonzero_def)
  moreover have "spectrum (burnDust lg s') =
      fst (burnHalfLoop lg (2 ^ (c + 1) - 1) 0 (fst rs1) (snd rs1))"
    using c threshold_pos [of "c + 1"] by (simp add: burnDust_spectrum sp rs1_def Let_def)
  moreover have "nonzero (fst (burnHalfLoop lg (2 ^ (c + 1) - 1) 0 (fst rs1) (snd rs1)))
      = nonzero (fst rs1) div 2"
    by (rule nonzero_half) (use small in simp)
  ultimately show ?thesis by (simp add: div_le_mono)
qed

section \<open>Reorganisation and anti-dust as a whole\<close>

lemma table_map_reorg:
  assumes t: "ledger_table d rs" and t': "ledger_table d rs'"
    and ms: "mset (filter occupied rs') = mset (filter (\<lambda>r. balance r \<noteq> 0) rs)"
  shows "balances rs' = balances rs"
proof
  fix pk
  have set: "r \<in> set rs' \<and> occupied r \<longleftrightarrow> r \<in> set rs \<and> balance r \<noteq> 0" for r
    using arg_cong [OF ms, of set_mset] by auto
  have lookup: "balances xs pk = sint (balance r)"
    if "ledger_table d xs" "r \<in> set xs" "occupied r" "publicKey r = pk" for xs r
    using that balances_nth [OF that(1)] by (metis in_set_conv_nth)
  have absent: "balances xs pk = 0" if "\<And>r. r \<in> set xs \<Longrightarrow> occupied r \<Longrightarrow> publicKey r \<noteq> pk" for xs
    using that by (simp add: balances_def table_map_None_iff [THEN iffD2])
  consider r where "r \<in> set rs'" "occupied r" "publicKey r = pk"
    | r where "\<And>r. r \<in> set rs' \<Longrightarrow> occupied r \<Longrightarrow> publicKey r \<noteq> pk" "r \<in> set rs" "occupied r" "publicKey r = pk"
    | "\<And>r. r \<in> set rs' \<Longrightarrow> occupied r \<Longrightarrow> publicKey r \<noteq> pk" "\<And>r. r \<in> set rs \<Longrightarrow> occupied r \<Longrightarrow> publicKey r \<noteq> pk"
    by blast
  then show "balances rs' pk = balances rs pk"
  proof cases
    case 1
    with set have "r \<in> set rs" by blast
    with 1 lookup [OF t'] lookup [OF t] show ?thesis by metis
  next
    case (2 r)
    then have "balance r = 0" using set by blast
    then show ?thesis using absent [of rs'] 2 lookup [OF t 2(2-4)] by simp
  next
    case 3
    then show ?thesis using absent by simp
  qed
qed

text \<open>
  Reorganisation returns for every well-formed table; it drops exactly the entities without
  a balance and recomputes the counters.
\<close>

lemma reorganizeSpectrum_ok:
  assumes t: "ledger_table d (spectrum s)" and d: "2 \<le> d" "d < 32"
  shows "\<exists>s'. reorganizeSpectrum k12 s = Some s' \<and> ledger_table d (spectrum s') \<and>
    balances (spectrum s') = balances (spectrum s) \<and>
    mset (filter occupied (spectrum s')) = mset (filter (\<lambda>r. balance r \<noteq> 0) (spectrum s)) \<and>
    unat (numberOfEntities s') = population (spectrum s') \<and>
    uint (totalAmount s') = circulation (spectrum s') \<and>
    population (spectrum s') = nonzero (spectrum s) \<and>
    circulation (spectrum s') = circulation (spectrum s)"
proof -
  obtain rs where rs: "reorgLoop (spectrum s) (replicate (length (spectrum s)) emptyEntity) = Some rs"
    "ledger_table d rs" "mset (filter occupied rs) = mset (filter (\<lambda>r. balance r \<noteq> 0) (spectrum s))"
    using reorgLoop_table [OF t] by blast
  note T = ledger_tableD [OF rs(2)]
  have pop: "population rs = nonzero (spectrum s)"
    using arg_cong [OF rs(3), of size] by (simp only: population_def nonzero_def size_mset)
  have counted: "filter (\<lambda>r. balance r = 0 \<longrightarrow> occupied r) rs = filter occupied rs"
    using T(5) by (intro filter_cong refl) (metis balance_emptyEntity occupied_def)
  have "population rs < 2 ^ 32"
  proof -
    have "population rs \<le> 2 ^ d" using population_le [of rs] T(1) by simp
    also have "\<dots> < (2::nat) ^ 32" using d by (intro power_strict_increasing) auto
    finally show ?thesis .
  qed
  then have n: "unat (of_nat (population rs) :: u32) = population rs" by (rule unat_of_nat_u32)
  have c: "uint (of_int (circulation rs) :: u64) = circulation rs"
    using T(4) circulation_nonneg [OF T(6)] MAX_SUPPLY_bound
    by (simp add: of_int_uint uint_word_of_int)
  have "circulation rs = circulation (spectrum s)"
    by (rule circulation_mset [OF rs(3)]) (metis T(5) balance_emptyEntity occupied_def, simp)
  then show ?thesis
    using rs pop n c table_map_reorg [OF t rs(2,3)]
    by (simp add: reorganizeSpectrum_def Let_def updateSpectrumInfo_eq counted population_def)
qed

lemma updateAndAnalze_fields [simp]:
  "spectrum (updateAndAnalzeEntityCategoryPopulations s) = spectrum s"
  "numberOfEntities (updateAndAnalzeEntityCategoryPopulations s) = numberOfEntities s"
  "totalAmount (updateAndAnalzeEntityCategoryPopulations s) = totalAmount s"
  by (simp_all add: updateAndAnalzeEntityCategoryPopulations_def Let_def case_prod_beta)

lemma logSpectrumStats_fields [simp]:
  "spectrum (logSpectrumStats s) = spectrum s" "numberOfEntities (logSpectrumStats s) = numberOfEntities s"
  "totalAmount (logSpectrumStats s) = totalAmount s"
  "dustThresholdBurnAll (logSpectrumStats s) = dustThresholdBurnAll s"
  "dustThresholdBurnHalf (logSpectrumStats s) = dustThresholdBurnHalf s"
  by (simp_all add: logSpectrumStats_def)

lemma antiDust_ok:
  assumes ok: "spectrum_ok d s"
  shows "\<exists>s'. antiDust k12 lg s = Some s' \<and> spectrum_ok d s' \<and>
    population (spectrum s') < 2 ^ d div 2 + 2 ^ d div 4 \<and>
    circulation (spectrum s') \<le> circulation (spectrum s) \<and>
    (2 ^ d div 2 + 2 ^ d div 4 \<le> unat (numberOfEntities s) \<longrightarrow> population (spectrum s') \<le> 2 ^ d div 2) \<and>
    (\<forall>pk. balances (spectrum s') pk = balances (spectrum s) pk \<or>
       balances (spectrum s') pk = 0 \<and>
       (\<exists>r\<in>set (spectrum s). publicKey r = pk \<and> burnable (thresholds s) r))"
proof (cases "2 ^ d div 2 + 2 ^ d div 4 \<le> unat (numberOfEntities s)")
  case False
  then show ?thesis
    using ok ledger_tableD(1) [OF spectrum_okD(1) [OF ok]] spectrum_okD(2) [OF ok]
    by (auto simp: antiDust_def)
next
  case True
  note O = spectrum_okD [OF ok]
  define s1 where "s1 = (let s1 = updateAndAnalzeEntityCategoryPopulations s
    in if lg then logSpectrumStats s1 else s1)"
  have s1: "spectrum s1 = spectrum s" "thresholds s = (dustThresholdBurnAll s1, dustThresholdBurnHalf s1)"
    by (auto simp: s1_def Let_def thresholds_def)
  have b: "burned (burnable (thresholds s)) (spectrum s) (spectrum (burnDust lg s1))"
    using burnDust_burned [of s1 lg] s1 by simp
  note t = ledger_table_burned [OF b O(1)]
  obtain s2 where s2: "reorganizeSpectrum k12 (burnDust lg s1) = Some s2" "ledger_table d (spectrum s2)"
    "balances (spectrum s2) = balances (spectrum (burnDust lg s1))"
    "unat (numberOfEntities s2) = population (spectrum s2)"
    "uint (totalAmount s2) = circulation (spectrum s2)"
    "population (spectrum s2) = nonzero (spectrum (burnDust lg s1))"
    "circulation (spectrum s2) = circulation (spectrum (burnDust lg s1))"
    using reorganizeSpectrum_ok [OF t O(5,6), of k12] by blast
  define s3 where "s3 = (if lg then logSpectrumStats (updateAndAnalzeEntityCategoryPopulations s2) else s2)"
  have s3: "spectrum s3 = spectrum s2" "numberOfEntities s3 = numberOfEntities s2" "totalAmount s3 = totalAmount s2"
    by (simp_all add: s3_def)
  have half: "population (spectrum s3) \<le> 2 ^ d div 2"
    using burnDust_survivors [OF O(1,5,6) s1(2,1)] s2(6) s3 by simp
  have "4 \<le> (2::nat) ^ d" using power_increasing [OF O(5), of "2::nat"] by simp
  then have q: "0 < (2::nat) ^ d div 4" by linarith
  have "antiDust k12 lg s = Some s3"
    using True s2(1) ledger_tableD(1) [OF O(1)]
    by (simp add: antiDust_def Let_def s1_def s3_def)
  moreover have "spectrum_ok d s3"
    using s2 s3 half O(5,6) by (simp add: spectrum_ok_def)
  moreover have "balances (spectrum s3) pk = balances (spectrum s) pk \<or>
       balances (spectrum s3) pk = 0 \<and>
       (\<exists>r\<in>set (spectrum s). publicKey r = pk \<and> burnable (thresholds s) r)" for pk
    using balances_burned [OF b O(1), of pk] s2(3) s3 by auto
  moreover have "population (spectrum s3) < 2 ^ d div 2 + 2 ^ d div 4" using half q by linarith
  moreover have "circulation (spectrum s3) \<le> circulation (spectrum s)"
    using circulation_burned [OF b ledger_tableD(6) [OF O(1)]] s2(7) s3 by simp
  ultimately show ?thesis using half by blast
qed

end
