(* ===== verification/Spectrum_Ledger.thy ===== *)
theory Spectrum_Ledger
  imports Spectrum_AntiDust
begin

text \<open>
  The operations of the spectrum against the abstract ledger: \<open>spectrumIndex\<close> looks a key up,
  \<open>increaseEnergy\<close> and \<open>decreaseEnergy\<close> change one balance of the map \<^const>\<open>balances\<close>, all
  of them keep the invariant \<^const>\<open>spectrum_ok\<close> and return.
\<close>

section \<open>Crediting\<close>

lemma spectrumMarkDirty_fields [simp]:
  "spectrum (spectrumMarkDirty i s) = spectrum s"
  "numberOfEntities (spectrumMarkDirty i s) = numberOfEntities s"
  "totalAmount (spectrumMarkDirty i s) = totalAmount s"
  by (simp_all add: spectrumMarkDirty_def)

lemma creditSlot_ok:
  assumes ok: "spectrum_ok d s" and room: "population (spectrum s) < 2 ^ d div 2 + 2 ^ d div 4"
    and nz: "\<not> isZero pk" and am: "0 \<le> sint amount"
    and le: "circulation (spectrum s) + sint amount \<le> MAX_SUPPLY"
    and f: "find_slot vacant_slot occupied publicKey home_slot (spectrum s) pk = Some i"
  shows "spectrum_ok d (creditSlot tick lg pk amount i s)"
    and "balances (spectrum (creditSlot tick lg pk amount i s)) =
      (balances (spectrum s))(pk := balances (spectrum s) pk + sint amount)"
    and "circulation (spectrum (creditSlot tick lg pk amount i s)) = circulation (spectrum s) + sint amount"
proof -
  note O = spectrum_okD [OF ok]
  note T = ledger_tableD [OF O(1)]
  note fs = spec_tbl.find_slot_SomeD [OF T(1,2) f]
  let ?r = "spectrum s ! i" and ?s' = "creditSlot tick lg pk amount i s"
  have total: "uint (totalAmount s + amount) = circulation (spectrum s) + sint amount"
    using uint_add_sint [OF am, of "totalAmount s"] O(3) le MAX_SUPPLY_bound by simp
  have "spectrum_ok d ?s' \<and> balances (spectrum ?s') =
      (balances (spectrum s))(pk := balances (spectrum s) pk + sint amount) \<and>
      circulation (spectrum ?s') = circulation (spectrum s) + sint amount"
  proof (cases "publicKey ?r = pk")
    case True
    define r where "r = ?r\<lparr>incomingAmount := incomingAmount ?r + amount,
      numberOfIncomingTransfers := numberOfIncomingTransfers ?r + 1, latestIncomingTransferTick := tick\<rparr>"
    have sp: "spectrum ?s' = (spectrum s)[i := r]" "numberOfEntities ?s' = numberOfEntities s"
      "totalAmount ?s' = totalAmount s + amount"
      using True by (simp_all add: creditSlot_def Let_def r_def)
    have occ: "occupied ?r" using True nz by (simp add: occupied_def)
    have "balance r = balance ?r + amount" by (simp add: r_def balance_def)
    moreover have "sint (balance ?r) \<le> circulation (spectrum s)" "0 \<le> sint (balance ?r)"
      using balance_le_circulation [OF T(6), where r = ?r] T(6) [of ?r] fs(1) by simp_all
    ultimately have bal: "sint (balance r) = sint (balance ?r) + sint amount" "0 \<le> sint (balance r)"
      using am le MAX_SUPPLY_bound by (simp_all add: sint_add_exact)
    have "publicKey r = publicKey ?r" by (simp add: r_def)
    note C = credit_occupied [OF O(1) fs(1) occ this bal le]
    show ?thesis
      using C sp total O(2,4,5,6) True \<open>publicKey r = publicKey ?r\<close> by (simp add: spectrum_ok_def)
  next
    case False
    with fs(2) have v: "isZero (publicKey ?r)" by auto
    define r where "r = ?r\<lparr>publicKey := pk, incomingAmount := amount,
      numberOfIncomingTransfers := 1, latestIncomingTransferTick := tick\<rparr>"
    have sp: "spectrum ?s' = (spectrum s)[i := r]" "numberOfEntities ?s' = numberOfEntities s + 1"
      "totalAmount ?s' = totalAmount s + amount"
      using False by (simp_all add: creditSlot_def Let_def r_def)
    have "?r = emptyEntity" using T(5) fs(1) v by simp
    then have bal: "balance r = amount" by (simp add: r_def balance_def emptyEntity_def)
    have r: "publicKey r = pk" "occupied r" using nz by (simp_all add: r_def occupied_def)
    have f': "find_slot vacant_slot occupied publicKey home_slot (spectrum s) (publicKey r) = Some i"
      using f r(1) by simp
    have "0 \<le> sint (balance r)" "circulation (spectrum s) + sint (balance r) \<le> MAX_SUPPLY"
      using bal am le by simp_all
    note C = credit_vacant [OF O(1) f' v r(2) this]
    have n: "unat (numberOfEntities s + 1) = Suc (population (spectrum s))"
    proof -
      have "population (spectrum s) < 2 ^ d" using room three_quarters_less [OF O(5)] by simp
      also have "\<dots> \<le> 2 ^ 31" using O(6) by (intro power_increasing) auto
      finally show ?thesis using O(2) by (simp add: unat_word_ariths unat_1)
    qed
    show ?thesis using C sp total n room O(5,6) bal r by (simp add: spectrum_ok_def)
  qed
  then show "spectrum_ok d ?s'" "balances (spectrum ?s') =
      (balances (spectrum s))(pk := balances (spectrum s) pk + sint amount)"
    "circulation (spectrum ?s') = circulation (spectrum s) + sint amount"
    by auto
qed

lemma increaseEnergy_ok:
  assumes ok: "spectrum_ok d s" and nz: "\<not> isZero pk" and am: "0 \<le> sint amount"
    and le: "circulation (spectrum s) + sint amount \<le> MAX_SUPPLY"
  shows "\<exists>s1 s'. antiDust k12 lg s = Some s1 \<and> increaseEnergy k12 tick lg pk amount s = Some s' \<and>
    spectrum_ok d s' \<and>
    balances (spectrum s') = (balances (spectrum s1))(pk := balances (spectrum s1) pk + sint amount) \<and>
    circulation (spectrum s') = circulation (spectrum s1) + sint amount"
proof -
  obtain s1 where s1: "antiDust k12 lg s = Some s1" "spectrum_ok d s1"
    "population (spectrum s1) < 2 ^ d div 2 + 2 ^ d div 4"
    "circulation (spectrum s1) \<le> circulation (spectrum s)"
    using antiDust_ok [OF ok, of k12 lg] by blast
  note O = spectrum_okD [OF s1(2)]
  have "population (spectrum s1) < 2 ^ d" using s1(3) three_quarters_less [OF O(5)] by simp
  from key_search_total [OF O(1) this, of pk] obtain i where
    i: "find_slot vacant_slot occupied publicKey home_slot (spectrum s1) pk = Some i" by blast
  have le1: "circulation (spectrum s1) + sint amount \<le> MAX_SUPPLY" using le s1(4) by simp
  have "increaseEnergy k12 tick lg pk amount s = Some (creditSlot tick lg pk amount i s1)"
    using s1(1) nz am i
    by (simp add: increaseEnergy_def word_sle_eq key_search [OF ledger_tableD(1) [OF O(1)] nz])
  then show ?thesis using s1(1) creditSlot_ok [OF s1(2,3) nz am le1 i] by blast
qed

section \<open>Debiting\<close>

lemma decreaseEnergy_ok:
  assumes ok: "spectrum_ok d s" and i: "i < length (spectrum s)" "occupied (spectrum s ! i)"
    and am: "0 \<le> sint amount" "sint amount \<le> balances (spectrum s) (publicKey (spectrum s ! i))"
  shows "\<exists>s'. decreaseEnergy tick i amount s = (True, s') \<and> spectrum_ok d s' \<and>
    balances (spectrum s') = (balances (spectrum s))(publicKey (spectrum s ! i) :=
      balances (spectrum s) (publicKey (spectrum s ! i)) - sint amount) \<and>
    circulation (spectrum s') = circulation (spectrum s) - sint amount"
proof -
  note O = spectrum_okD [OF ok]
  note T = ledger_tableD [OF O(1)]
  let ?r = "spectrum s ! i"
  define r where "r = ?r\<lparr>outgoingAmount := outgoingAmount ?r + amount,
    numberOfOutgoingTransfers := numberOfOutgoingTransfers ?r + 1, latestOutgoingTransferTick := tick\<rparr>"
  have b0: "balances (spectrum s) (publicKey ?r) = sint (balance ?r)"
    by (rule balances_nth [OF O(1) i])
  have b: "sint (balance ?r) \<le> circulation (spectrum s)" "sint amount \<le> sint (balance ?r)"
    using balance_le_circulation [OF T(6), where r = ?r] i b0 am by simp_all
  have "balance r = balance ?r - amount" by (simp add: r_def balance_def)
  with b am T(4) MAX_SUPPLY_bound have bal: "sint (balance r) = sint (balance ?r) + (- sint amount)"
    "0 \<le> sint (balance r)"
    by (simp_all add: sint_diff_exact)
  have pk: "publicKey r = publicKey ?r" by (simp add: r_def)
  have le: "circulation (spectrum s) + (- sint amount) \<le> MAX_SUPPLY" using T(4) am(1) by simp
  note C = credit_occupied [OF O(1) i pk bal le]
  have total: "uint (totalAmount s - amount) = circulation (spectrum s) - sint amount"
    using uint_diff_sint [OF am(1), of "totalAmount s"] O(3) b by simp
  let ?s' = "(spectrumMarkDirty i (s\<lparr>spectrum := (spectrum s)[i := r]\<rparr>))\<lparr>totalAmount := totalAmount s - amount\<rparr>"
  have "decreaseEnergy tick i amount s = (True, ?s')"
    using am b by (simp add: decreaseEnergy_def energy_def word_sle_eq Let_def r_def)
  then show ?thesis
    using C total O(2,4-6) pk by (intro exI [of _ ?s']) (simp add: spectrum_ok_def)
qed

lemma decreaseEnergy_refused:
  assumes ok: "spectrum_ok d s" and i: "i < length (spectrum s)" "occupied (spectrum s ! i)"
    and am: "sint amount < 0 \<or> balances (spectrum s) (publicKey (spectrum s ! i)) < sint amount"
  shows "decreaseEnergy tick i amount s = (False, s)"
  using am balances_nth [OF spectrum_okD(1) [OF ok] i]
  by (auto simp: decreaseEnergy_def energy_def word_sle_eq)

section \<open>The initial state\<close>

text \<open>
  \<open>initSpectrum\<close> allocates zeroed memory for the table and the digests; the other globals
  have their initialisers, the dirty list starts in its overflow state.
\<close>

definition initSpectrum :: "nat \<Rightarrow> spectrum_state" where
  "initSpectrum depth = \<lparr>spectrum = replicate (2 ^ depth) emptyEntity, numberOfEntities = 0,
     totalAmount = 0, entityCategoryPopulations = replicate entityCategoryCount 0,
     dustThresholdBurnAll = 0, dustThresholdBurnHalf = 0,
     spectrumDigests = replicate (2 ^ depth * 2 - 1) 0,
     spectrumChangeFlags = replicate (2 ^ depth div 64) 0,
     spectrumDirtyList = [], spectrumDirtyOverflow = True, spectrumLog = []\<rparr>"

lemma initSpectrum_ok: "2 \<le> d \<Longrightarrow> d < 32 \<Longrightarrow> spectrum_ok d (initSpectrum d)"
  by (simp add: spectrum_ok_def initSpectrum_def ledger_table_def chained_def keys_unique_def
      population_def circulation_def MAX_SUPPLY_def sum_list_replicate)

section \<open>Properties\<close>

text \<open>A spectrum of four slots in which entity 5 holds 100 units, used by the examples.\<close>

definition sampleEntity :: EntityRecord where
  "sampleEntity = emptyEntity\<lparr>publicKey := 5, incomingAmount := 130, outgoingAmount := 30\<rparr>"

definition sampleSpectrum :: spectrum_state where
  "sampleSpectrum = (initSpectrum 2)\<lparr>spectrum := (spectrum (initSpectrum 2))[1 := sampleEntity],
     numberOfEntities := 1, totalAmount := 100\<rparr>"

lemma sampleEntity_simps:
  "publicKey sampleEntity = 5" "balance sampleEntity = 100" "occupied sampleEntity"
  by (simp_all add: sampleEntity_def balance_def emptyEntity_def occupied_def isZero_def)

lemma sampleSpectrum_ok: "spectrum_ok 2 sampleSpectrum"
proof -
  have ok: "spectrum_ok 2 (initSpectrum 2)" by (rule initSpectrum_ok) simp_all
  note O = spectrum_okD [OF ok]
  have f: "find_slot vacant_slot occupied publicKey home_slot (spectrum (initSpectrum 2)) 5 = Some 1"
    using find_slot_home [of vacant_slot "spectrum (initSpectrum 2)" home_slot 5 occupied publicKey]
    by (simp add: initSpectrum_def home_slot_def m256i_u32_def isZero_def)
  have z: "population (spectrum (initSpectrum 2)) = 0" "circulation (spectrum (initSpectrum 2)) = 0"
    by (simp_all add: initSpectrum_def population_def circulation_def sum_list_replicate)
  note C = credit_vacant [OF O(1), of sampleEntity 1, unfolded sampleEntity_simps z]
  have "isZero (publicKey (spectrum (initSpectrum 2) ! 1))" by (simp add: initSpectrum_def isZero_def)
  with C f show ?thesis
    by (simp add: spectrum_ok_def sampleSpectrum_def MAX_SUPPLY_def sampleEntity_simps)
qed

text \<open>The same spectrum with two more entities, three of its four slots are in use.\<close>

definition crowdedSpectrum :: spectrum_state where
  "crowdedSpectrum = sampleSpectrum\<lparr>spectrum := (spectrum sampleSpectrum)
       [2 := emptyEntity\<lparr>publicKey := 6, incomingAmount := 1\<rparr>,
        3 := emptyEntity\<lparr>publicKey := 7, incomingAmount := 200\<rparr>],
     numberOfEntities := 3, totalAmount := 301\<rparr>"

lemma sampleSpectrum_simps:
  shows len: "length (spectrum sampleSpectrum) = 4"
    and "spectrum sampleSpectrum ! 1 = sampleEntity"
    and "circulation (spectrum sampleSpectrum) = 100"
    and "balances (spectrum sampleSpectrum) 5 = 100"
    and "unat (numberOfEntities sampleSpectrum) = 1"
proof -
  have l: "length (spectrum (initSpectrum 2)) = 4" "spectrum (initSpectrum 2) ! 1 = emptyEntity"
    "circulation (spectrum (initSpectrum 2)) = 0"
    by (simp_all add: initSpectrum_def circulation_def sum_list_replicate)
  show "length (spectrum sampleSpectrum) = 4" using l by (simp add: sampleSpectrum_def)
  then show n: "spectrum sampleSpectrum ! 1 = sampleEntity" using l by (simp add: sampleSpectrum_def)
  show "circulation (spectrum sampleSpectrum) = 100"
    using circulation_update [of 1 "spectrum (initSpectrum 2)" sampleEntity] l
    by (simp add: sampleSpectrum_def sampleEntity_simps)
  show "balances (spectrum sampleSpectrum) 5 = 100"
    using balances_nth [OF spectrum_okD(1) [OF sampleSpectrum_ok], of 1] n l
    by (simp add: sampleEntity_simps sampleSpectrum_def)
  show "unat (numberOfEntities sampleSpectrum) = 1" by (simp add: sampleSpectrum_def)
qed

lemma crowdedSpectrum_ok:
  shows "spectrum_ok 2 crowdedSpectrum" and "length (spectrum crowdedSpectrum) = 4"
    and "unat (numberOfEntities crowdedSpectrum) = 3" and "uint (totalAmount crowdedSpectrum) = 301"
proof -
  let ?a = "emptyEntity\<lparr>publicKey := 6, incomingAmount := 1\<rparr>"
  let ?b = "emptyEntity\<lparr>publicKey := 7, incomingAmount := 200\<rparr>"
  let ?r0 = "spectrum sampleSpectrum" and ?r1 = "(spectrum sampleSpectrum)[2 := ?a]"
  note O = spectrum_okD [OF sampleSpectrum_ok]
  have nth: "?r0 ! 2 = emptyEntity" "?r0 ! 3 = emptyEntity"
    by (simp_all add: sampleSpectrum_def initSpectrum_def)
  have ab: "occupied ?a" "balance ?a = 1" "occupied ?b" "balance ?b = 200" "publicKey ?a = 6" "publicKey ?b = 7"
    by (simp_all add: occupied_def isZero_def balance_def emptyEntity_def)
  have f0: "find_slot vacant_slot occupied publicKey home_slot ?r0 6 = Some 2"
    using find_slot_home [of vacant_slot ?r0 home_slot 6 occupied publicKey] sampleSpectrum_simps(1)
    by (fastforce simp: home_slot_def m256i_u32_def isZero_def nth)
  have v0: "isZero (publicKey (?r0 ! 2))" by (simp add: nth isZero_def)
  have "population ?r0 = 1" using O(2) sampleSpectrum_simps(5) by simp
  note C0 = credit_vacant [OF O(1), of ?a 2, unfolded ab sampleSpectrum_simps(3) this, OF f0 v0]
  have l1: "length ?r1 = 4" "?r1 ! 3 = emptyEntity" by (simp_all add: sampleSpectrum_simps nth)
  have v1: "isZero (publicKey (?r1 ! 3))" using l1 by (simp add: isZero_def)
  have h: "home_slot 4 7 = 3" "?r1 \<noteq> []" using l1(1) by (auto simp: home_slot_def m256i_u32_def)
  have f1: "find_slot vacant_slot occupied publicKey home_slot ?r1 7 = Some 3"
    by (rule find_slot_home [of vacant_slot ?r1 home_slot 7 occupied publicKey, unfolded l1(1) h(1), OF v1 h(2)])
  have t1: "ledger_table 2 ?r1" "circulation ?r1 = 101" "population ?r1 = 2"
    using C0 ab(1) by (simp_all add: MAX_SUPPLY_def)
  note C1 = credit_vacant [OF t1(1), of ?b 3, unfolded ab t1(2,3), OF f1 v1]
  show "spectrum_ok 2 crowdedSpectrum"
    using C1 ab(3) by (simp add: spectrum_ok_def crowdedSpectrum_def MAX_SUPPLY_def)
qed (simp_all add: crowdedSpectrum_def sampleSpectrum_simps)

text \<open>
  C3: \<open>spectrumIndex\<close> returns on every well-formed spectrum. The result is -1 exactly for the
  zero key and for a key that no slot holds; otherwise it is the slot of the key.
\<close>

theorem spectrumIndex_correct:
  assumes "spectrum_ok d s"
  shows "\<exists>i. spectrumIndex s pk = Some i \<and>
    (i = - 1 \<longleftrightarrow> isZero pk \<or> (\<forall>r\<in>set (spectrum s). publicKey r \<noteq> pk)) \<and>
    (i = - 1 \<or> 0 \<le> i \<and> nat i < SPECTRUM_CAPACITY s \<and> publicKey (spectrum s ! nat i) = pk)"
proof (cases "isZero pk")
  case True
  then show ?thesis by (simp add: spectrumIndex_def)
next
  case False
  from spectrumIndex_cases [OF assms False] show ?thesis
  proof (elim disjE exE conjE)
    fix i
    assume i: "i < length (spectrum s)" "spectrumIndex s pk = Some (int i)" "publicKey (spectrum s ! i) = pk"
    then have "\<exists>r\<in>set (spectrum s). publicKey r = pk" using nth_mem by blast
    with i False show ?thesis by auto
  next
    assume "spectrumIndex s pk = Some (- 1)" "\<forall>r\<in>set (spectrum s). publicKey r \<noteq> pk"
    then show ?thesis by auto
  qed
qed

theorem spectrumIndex_correct_witness:
  "\<exists>i. spectrumIndex sampleSpectrum 5 = Some i \<and>
    (i = - 1 \<longleftrightarrow> isZero 5 \<or> (\<forall>r\<in>set (spectrum sampleSpectrum). publicKey r \<noteq> 5)) \<and>
    (i = - 1 \<or> 0 \<le> i \<and> nat i < SPECTRUM_CAPACITY sampleSpectrum \<and>
      publicKey (spectrum sampleSpectrum ! nat i) = 5)"
  by (rule spectrumIndex_correct [OF sampleSpectrum_ok])

text \<open>
  C1: \<open>increaseEnergy\<close> returns and keeps the invariant. While less than three quarters of the
  slots are used it adds the amount to the balance of the key and changes no other balance.
\<close>

theorem increaseEnergy_credits:
  assumes ok: "spectrum_ok d s" and nz: "\<not> isZero pk" and am: "0 \<le> sint amount"
    and le: "circulation (spectrum s) + sint amount \<le> MAX_SUPPLY"
    and room: "unat (numberOfEntities s) < SPECTRUM_CAPACITY s div 2 + SPECTRUM_CAPACITY s div 4"
  shows "\<exists>s'. increaseEnergy k12 tick lg pk amount s = Some s' \<and> spectrum_ok d s' \<and>
    balances (spectrum s') = (balances (spectrum s))(pk := balances (spectrum s) pk + sint amount) \<and>
    uint (totalAmount s') = uint (totalAmount s) + sint amount"
proof -
  have "antiDust k12 lg s = Some s" using room by (simp add: antiDust_def)
  with increaseEnergy_ok [OF ok nz am le, of k12 lg tick] obtain s' where
    s': "increaseEnergy k12 tick lg pk amount s = Some s'" "spectrum_ok d s'"
    "balances (spectrum s') = (balances (spectrum s))(pk := balances (spectrum s) pk + sint amount)"
    "circulation (spectrum s') = circulation (spectrum s) + sint amount" by auto
  then show ?thesis using spectrum_okD(3) [OF s'(2)] spectrum_okD(3) [OF ok] by auto
qed

theorem increaseEnergy_credits_witness:
  "\<exists>s'. increaseEnergy (\<lambda>_. 0) 7 True 9 250 sampleSpectrum = Some s' \<and> spectrum_ok 2 s' \<and>
    balances (spectrum s') = (balances (spectrum sampleSpectrum))(9 :=
      balances (spectrum sampleSpectrum) 9 + sint (250 :: i64)) \<and>
    uint (totalAmount s') = uint (totalAmount sampleSpectrum) + sint (250 :: i64)"
  by (rule increaseEnergy_credits [OF sampleSpectrum_ok])
     (simp_all add: sampleSpectrum_simps MAX_SUPPLY_def isZero_def)

text \<open>
  C2: the anti-dust block always returns, leaves less than three quarters of the slots used,
  and a balance it changes becomes 0 and was a non-zero balance at or below one of the two
  thresholds. When it was triggered at most half of the slots stay in use.
\<close>

theorem antiDust_frees_slots:
  assumes ok: "spectrum_ok d s"
  shows "\<exists>s'. antiDust k12 lg s = Some s' \<and> spectrum_ok d s' \<and>
    unat (numberOfEntities s') < SPECTRUM_CAPACITY s div 2 + SPECTRUM_CAPACITY s div 4 \<and>
    (SPECTRUM_CAPACITY s div 2 + SPECTRUM_CAPACITY s div 4 \<le> unat (numberOfEntities s) \<longrightarrow>
       unat (numberOfEntities s') \<le> SPECTRUM_CAPACITY s div 2) \<and>
    uint (totalAmount s') \<le> uint (totalAmount s) \<and>
    (\<forall>pk. balances (spectrum s') pk \<noteq> balances (spectrum s) pk \<longrightarrow>
       balances (spectrum s') pk = 0 \<and>
       (\<exists>r\<in>set (spectrum s). publicKey r = pk \<and> burnable (thresholds s) r))"
proof -
  obtain s' where s': "antiDust k12 lg s = Some s'" "spectrum_ok d s'"
    "population (spectrum s') < 2 ^ d div 2 + 2 ^ d div 4"
    "circulation (spectrum s') \<le> circulation (spectrum s)"
    "2 ^ d div 2 + 2 ^ d div 4 \<le> unat (numberOfEntities s) \<longrightarrow> population (spectrum s') \<le> 2 ^ d div 2"
    "\<forall>pk. balances (spectrum s') pk = balances (spectrum s) pk \<or> balances (spectrum s') pk = 0 \<and>
       (\<exists>r\<in>set (spectrum s). publicKey r = pk \<and> burnable (thresholds s) r)"
    using antiDust_ok [OF ok, of k12 lg] by blast
  then show ?thesis
    using spectrum_okD(2,3) [OF s'(2)] spectrum_okD(3) [OF ok] ledger_tableD(1) [OF spectrum_okD(1) [OF ok]]
    by (intro exI [of _ s']) auto
qed

theorem antiDust_frees_slots_witness:
  "\<exists>s'. antiDust (\<lambda>_. 0) True crowdedSpectrum = Some s' \<and> spectrum_ok 2 s' \<and>
    unat (numberOfEntities s') < 3 \<and> unat (numberOfEntities s') \<le> 2 \<and>
    uint (totalAmount s') \<le> 301 \<and>
    (\<forall>pk. balances (spectrum s') pk \<noteq> balances (spectrum crowdedSpectrum) pk \<longrightarrow>
       balances (spectrum s') pk = 0 \<and>
       (\<exists>r\<in>set (spectrum crowdedSpectrum). publicKey r = pk \<and> burnable (thresholds crowdedSpectrum) r))"
  using antiDust_frees_slots [OF crowdedSpectrum_ok(1), of "\<lambda>_. 0" True]
  unfolding crowdedSpectrum_ok(2-4) by simp

text \<open>
  C4: \<open>decreaseEnergy\<close> on the slot of an entity succeeds exactly when the amount is not
  negative and covered by the balance; it then takes the amount from that balance and from
  the total and nothing else, and otherwise changes nothing.
\<close>

theorem decreaseEnergy_debits:
  assumes ok: "spectrum_ok d s" and i: "i < SPECTRUM_CAPACITY s" "\<not> isZero (publicKey (spectrum s ! i))"
  shows "let pk = publicKey (spectrum s ! i); (done, s') = decreaseEnergy tick i amount s
    in spectrum_ok d s' \<and> (done \<longleftrightarrow> 0 \<le> sint amount \<and> sint amount \<le> balances (spectrum s) pk) \<and>
       (if done
        then balances (spectrum s') = (balances (spectrum s))(pk := balances (spectrum s) pk - sint amount)
          \<and> uint (totalAmount s') = uint (totalAmount s) - sint amount
        else s' = s)"
proof (cases "0 \<le> sint amount \<and> sint amount \<le> balances (spectrum s) (publicKey (spectrum s ! i))")
  case True
  have occ: "occupied (spectrum s ! i)" using i by (simp add: occupied_def)
  from decreaseEnergy_ok [OF ok i(1) occ, of amount tick] True obtain s' where
    s': "decreaseEnergy tick i amount s = (True, s')" "spectrum_ok d s'"
    "balances (spectrum s') = (balances (spectrum s))(publicKey (spectrum s ! i) :=
       balances (spectrum s) (publicKey (spectrum s ! i)) - sint amount)"
    "circulation (spectrum s') = circulation (spectrum s) - sint amount" by blast
  then show ?thesis using True spectrum_okD(3) [OF ok] spectrum_okD(3) [OF s'(2)] by (simp add: Let_def)
next
  case False
  have occ: "occupied (spectrum s ! i)" using i by (simp add: occupied_def)
  from decreaseEnergy_refused [OF ok i(1) occ, of amount tick] False ok show ?thesis
    by (auto simp: Let_def not_le)
qed

theorem decreaseEnergy_debits_witness:
  "let pk = publicKey (spectrum sampleSpectrum ! 1); (done, s') = decreaseEnergy 7 1 40 sampleSpectrum
    in spectrum_ok 2 s' \<and> (done \<longleftrightarrow> 0 \<le> sint (40 :: i64) \<and> sint (40 :: i64) \<le> balances (spectrum sampleSpectrum) pk) \<and>
       (if done
        then balances (spectrum s') = (balances (spectrum sampleSpectrum))(pk :=
            balances (spectrum sampleSpectrum) pk - sint (40 :: i64))
          \<and> uint (totalAmount s') = uint (totalAmount sampleSpectrum) - sint (40 :: i64)
        else s' = sampleSpectrum)"
  by (rule decreaseEnergy_debits [OF sampleSpectrum_ok])
     (simp_all add: sampleSpectrum_simps [simplified] sampleEntity_simps isZero_def)

text \<open>
  C5: reorganisation returns on every well-formed table; the new table holds exactly the
  records with a balance, each once, every balance is unchanged and the counters are exact.
\<close>

theorem reorganizeSpectrum_preserves:
  assumes "ledger_table d (spectrum s)" and "2 \<le> d" and "d < 32"
  shows "\<exists>s'. reorganizeSpectrum k12 s = Some s' \<and> ledger_table d (spectrum s') \<and>
    mset (filter (\<lambda>r. \<not> isZero (publicKey r)) (spectrum s')) = mset (filter (\<lambda>r. balance r \<noteq> 0) (spectrum s)) \<and>
    balances (spectrum s') = balances (spectrum s) \<and>
    unat (numberOfEntities s') = length (filter (\<lambda>r. balance r \<noteq> 0) (spectrum s)) \<and>
    uint (totalAmount s') = (\<Sum>r\<leftarrow>spectrum s. sint (balance r))"
proof -
  have "occupied = (\<lambda>r. \<not> isZero (publicKey r))" by (simp add: occupied_def fun_eq_iff)
  with reorganizeSpectrum_ok [OF assms, of k12] show ?thesis
    by (fastforce simp: nonzero_def circulation_def)
qed

theorem reorganizeSpectrum_preserves_witness:
  "\<exists>s'. reorganizeSpectrum (\<lambda>_. 0) sampleSpectrum = Some s' \<and> ledger_table 2 (spectrum s') \<and>
    mset (filter (\<lambda>r. \<not> isZero (publicKey r)) (spectrum s')) =
      mset (filter (\<lambda>r. balance r \<noteq> 0) (spectrum sampleSpectrum)) \<and>
    balances (spectrum s') = balances (spectrum sampleSpectrum) \<and>
    unat (numberOfEntities s') = length (filter (\<lambda>r. balance r \<noteq> 0) (spectrum sampleSpectrum)) \<and>
    uint (totalAmount s') = (\<Sum>r\<leftarrow>spectrum sampleSpectrum. sint (balance r))"
  by (rule reorganizeSpectrum_preserves [OF spectrum_okD(1) [OF sampleSpectrum_ok]]) simp_all

end
