(* ===== verification/Spectrum_Digest.thy ===== *)
theory Spectrum_Digest
  imports Spectrum_Ledger
begin

text \<open>
  \<open>getSpectrumDigest\<close>: the root of the spectrum's Merkle tree, updated from the entities that
  changed in the current tick. The dirty list, the tick stamps of the entities and the change
  flags are shown to be enough to find every changed leaf.
\<close>

section \<open>The operation\<close>

definition touched :: "u32 \<Rightarrow> EntityRecord \<Rightarrow> bool" where
  "touched tick r \<longleftrightarrow> latestIncomingTransferTick r = tick \<or> latestOutgoingTransferTick r = tick"

text \<open>The body of both leaf loops: over all slots, or over the dirty list.\<close>

definition hashLeaf ::
  "(u64 list \<Rightarrow> m256i) \<Rightarrow> u32 \<Rightarrow> EntityRecord list \<Rightarrow> m256i list \<times> u64 list \<Rightarrow> nat \<Rightarrow> m256i list \<times> u64 list" where
  "hashLeaf k12 tick rs = (\<lambda>(ds, flags) i.
     if touched tick (rs ! i) then (ds[i := k12 (entity_words (rs ! i))], setFlag flags i) else (ds, flags))"

definition getSpectrumDigest ::
  "(u64 list \<Rightarrow> m256i) \<Rightarrow> u32 \<Rightarrow> spectrum_state \<Rightarrow> m256i \<times> spectrum_state" where
  "getSpectrumDigest k12 tick s =
     (let leaves = (if spectrumDirtyOverflow s then [0..<SPECTRUM_CAPACITY s] else spectrumDirtyList s);
          df = foldl (hashLeaf k12 tick (spectrum s)) (spectrumDigests s, spectrumChangeFlags s) leaves;
          s1 = spectrumDirtyReset s;
          (ds, flags) = climbLevels k12 0 (SPECTRUM_CAPACITY s) (SPECTRUM_CAPACITY s) df
      in (ds ! (SPECTRUM_CAPACITY s * 2 - 1 - 1),
          s1\<lparr>spectrumDigests := ds, spectrumChangeFlags := flags[0 := 0]\<rparr>))"

text \<open>At start-up \<open>initialize\<close> hashes the whole table and counts the entities.\<close>

definition initialSpectrumDigest :: "(u64 list \<Rightarrow> m256i) \<Rightarrow> spectrum_state \<Rightarrow> spectrum_state" where
  "initialSpectrumDigest k12 s =
     updateSpectrumInfo (s\<lparr>spectrumDigests := rebuildDigests k12 (spectrum s) (spectrumDigests s)\<rparr>)"

text \<open>
  The self-check of \<open>processTick\<close> under \<open>VERIFY_SPECTRUM_DIGEST\<close>: the tree is recomputed
  from scratch; the node stops when the roots differ.
\<close>

definition verifySpectrumDigest :: "(u64 list \<Rightarrow> m256i) \<Rightarrow> m256i \<Rightarrow> spectrum_state \<Rightarrow> bool" where
  "verifySpectrumDigest k12 dirtyRoot s \<longleftrightarrow>
     rebuildDigests k12 (spectrum s) (spectrumDigests s) ! (SPECTRUM_CAPACITY s * 2 - 1 - 1) = dirtyRoot"

section \<open>Specification\<close>

definition leafDigests :: "(u64 list \<Rightarrow> m256i) \<Rightarrow> EntityRecord list \<Rightarrow> m256i list" where
  "leafDigests k12 rs = map (\<lambda>r. k12 (entity_words r)) rs"

definition spectrumRoot :: "(u64 list \<Rightarrow> m256i) \<Rightarrow> nat \<Rightarrow> EntityRecord list \<Rightarrow> m256i" where
  "spectrumRoot k12 d rs = merkleRoot k12 d (leafDigests k12 rs)"

text \<open>
  The tracking invariant: inner nodes hash their children, no flag is set, and a leaf whose
  digest is out of date carries the stamp of the tick and is on the dirty list, or the list
  has overflown.
\<close>

definition pending :: "u32 \<Rightarrow> spectrum_state \<Rightarrow> nat \<Rightarrow> bool" where
  "pending tick s i \<longleftrightarrow> touched tick (spectrum s ! i) \<and> (spectrumDirtyOverflow s \<or> i \<in> set (spectrumDirtyList s))"

definition digest_tracked :: "(u64 list \<Rightarrow> m256i) \<Rightarrow> nat \<Rightarrow> u32 \<Rightarrow> spectrum_state \<Rightarrow> bool" where
  "digest_tracked k12 d tick s \<longleftrightarrow> 6 \<le> d \<and> length (spectrum s) = 2 ^ d \<and>
     length (spectrumDigests s) = 2 ^ (d + 1) - 1 \<and> (\<forall>l<d. nodes_ok k12 d l (spectrumDigests s)) \<and>
     length (spectrumChangeFlags s) = 2 ^ d div 64 \<and> (\<forall>f\<in>set (spectrumChangeFlags s). f = 0) \<and>
     (\<forall>i\<in>set (spectrumDirtyList s). i < 2 ^ d) \<and>
     (\<forall>i<2 ^ d. spectrumDigests s ! i = k12 (entity_words (spectrum s ! i)) \<or> pending tick s i)"

lemma digest_trackedD:
  assumes "digest_tracked k12 d tick s"
  shows "6 \<le> d" "length (spectrum s) = 2 ^ d" "length (spectrumDigests s) = 2 ^ (d + 1) - 1"
    "\<forall>l<d. nodes_ok k12 d l (spectrumDigests s)" "length (spectrumChangeFlags s) = 2 ^ d div 64"
    "\<forall>f\<in>set (spectrumChangeFlags s). f = 0" "\<forall>i\<in>set (spectrumDirtyList s). i < 2 ^ d"
    "\<And>i. i < 2 ^ d \<Longrightarrow> spectrumDigests s ! i = k12 (entity_words (spectrum s ! i)) \<or> pending tick s i"
  using assms by (simp_all add: digest_tracked_def)

section \<open>The leaf loop\<close>

lemma flags_capacity: "6 \<le> d \<Longrightarrow> 64 * (2 ^ d div 64) = (2::nat) ^ d"
proof -
  assume "6 \<le> d"
  then obtain k where "d = 6 + k" using le_Suc_ex by blast
  then show ?thesis by (simp add: power_add)
qed

lemma hashLeaf_loop:
  assumes "\<forall>i\<in>set is. i < length ds \<and> i < 64 * length fl"
    and "foldl (hashLeaf k12 tick rs) (ds, fl) is = (ds', fl')"
  shows "length ds' = length ds \<and> length fl' = length fl \<and>
    (\<forall>k. ds' ! k = (if k \<in> set is \<and> touched tick (rs ! k) then k12 (entity_words (rs ! k)) else ds ! k)) \<and>
    (\<forall>b. flagBit fl' b \<longleftrightarrow> flagBit fl b \<or> b \<in> set is \<and> touched tick (rs ! b))"
  using assms
proof (induction "is" arbitrary: ds fl)
  case (Cons i "is")
  show ?case
  proof (cases "touched tick (rs ! i)")
    case True
    let ?ds = "ds[i := k12 (entity_words (rs ! i))]" and ?fl = "setFlag fl i"
    have "foldl (hashLeaf k12 tick rs) (?ds, ?fl) is = (ds', fl')"
      using Cons.prems(2) True by (simp add: hashLeaf_def)
    moreover have "length ?fl = length fl" by (simp add: setFlag_def)
    ultimately have IH: "length ds' = length ds" "length fl' = length fl"
      "\<And>k. ds' ! k = (if k \<in> set is \<and> touched tick (rs ! k) then k12 (entity_words (rs ! k)) else ?ds ! k)"
      "\<And>b. flagBit fl' b \<longleftrightarrow> flagBit ?fl b \<or> b \<in> set is \<and> touched tick (rs ! b)"
      using Cons.IH [of ?ds ?fl] Cons.prems(1) by simp_all
    have "flagBit ?fl b \<longleftrightarrow> b = i \<or> flagBit fl b" for b
      using Cons.prems(1) by (subst flagBit_setFlag) auto
    moreover have "?ds ! k = (if k = i then k12 (entity_words (rs ! i)) else ds ! k)" for k
      using Cons.prems(1) by (simp add: nth_list_update)
    ultimately show ?thesis using IH True by auto
  next
    case False
    then have "foldl (hashLeaf k12 tick rs) (ds, fl) is = (ds', fl')"
      using Cons.prems(2) by (simp add: hashLeaf_def)
    with Cons.IH [of ds fl] Cons.prems(1) False show ?thesis by auto
  qed
qed simp

lemma flags_clear:
  assumes "\<forall>b<64 * length fl. 1 \<le> b \<longrightarrow> \<not> flagBit fl b"
  shows "\<forall>f\<in>set (fl[0 := 0]). f = 0"
proof
  fix f
  assume "f \<in> set (fl[0 := 0])"
  then obtain w where w: "w < length fl" "f = fl[0 := 0] ! w" by (auto simp: in_set_conv_nth)
  show "f = 0"
  proof (cases "w = 0")
    case False
    have "\<not> bit f c" if "c < 64" for c
      using assms [rule_format, of "64 * w + c"] that w False by (simp add: flagBit_def)
    then show ?thesis by (auto intro!: bit_word_eqI)
  qed (use w in simp)
qed

lemma getSpectrumDigest_ok:
  assumes "digest_tracked k12 d tick s"
  shows "\<exists>s'. getSpectrumDigest k12 tick s = (spectrumRoot k12 d (spectrum s), s') \<and>
    spectrum s' = spectrum s \<and> tree_ok k12 d (leafDigests k12 (spectrum s)) (spectrumDigests s') \<and>
    digest_tracked k12 d tick' s'"
proof -
  note D = digest_trackedD [OF assms]
  define leaves where "leaves = (if spectrumDirtyOverflow s then [0..<SPECTRUM_CAPACITY s] else spectrumDirtyList s)"
  obtain ds0 fl0 where df: "foldl (hashLeaf k12 tick (spectrum s)) (spectrumDigests s, spectrumChangeFlags s) leaves
    = (ds0, fl0)" by (cases rule: prod.exhaust)
  obtain ds fl where cl: "climbLevels k12 (levelStart d 0) (levelStart d (Suc 0)) (2 ^ (d - 0)) (ds0, fl0) = (ds, fl)"
    by (cases rule: prod.exhaust)
  have fl: "64 * length (spectrumChangeFlags s) = 2 ^ d" using D(5) flags_capacity [OF D(1)] by simp
  have "2 ^ d \<le> (2::nat) ^ (d + 1) - 1" by simp
  then have "\<forall>i\<in>set leaves. i < length (spectrumDigests s) \<and> i < 64 * length (spectrumChangeFlags s)"
    using D(2,3,7) fl by (auto simp: leaves_def)
  note L = hashLeaf_loop [OF this df]
  have leaf: "ds0 ! i = k12 (entity_words (spectrum s ! i))" if "i < 2 ^ d" for i
    using L D(8) [OF that] D(2) that by (auto simp: pending_def leaves_def split: if_splits)
  have inv: "climb_inv k12 d (spectrumDigests s) 0 ds0 fl0"
    unfolding climb_inv_def
  proof (intro conjI allI impI)
    show "ds0 ! k = spectrumDigests s ! k" if "levelStart d (Suc 0) \<le> k" for k
      using L that D(2,7) levelStart_Suc [of 0 d] by (auto simp: leaves_def split: if_splits)
    show "ds0 ! (levelStart d 0 + b) = spectrumDigests s ! (levelStart d 0 + b)"
      if "b < 2 ^ (d - 0)" "\<not> flagBit fl0 b" for b
      using L that by auto
    show "\<not> flagBit fl0 b" if "b < 64 * length fl0" "2 ^ (d - 0) \<le> b" for b
      using that fl L by simp
  qed (use L D(3) fl in auto)
  from climbLevels_ok [OF inv _ D(4) cl] have C: "climb_inv k12 d (spectrumDigests s) d ds fl"
    "\<And>k. k < 2 ^ d \<Longrightarrow> ds ! k = ds0 ! k" "length fl = length fl0"
    using levelStart_Suc [of 0 d] by auto
  have tree: "tree_ok k12 d (leafDigests k12 (spectrum s)) ds"
    using C leaf D(2) by (auto simp: tree_ok_def climb_inv_def leafDigests_def)
  let ?s' = "s\<lparr>spectrumDigests := ds, spectrumChangeFlags := fl[0 := 0],
    spectrumDirtyList := [], spectrumDirtyOverflow := False\<rparr>"
  have "getSpectrumDigest k12 tick s = (spectrumRoot k12 d (spectrum s), ?s')"
    using df cl tree_ok_root [OF tree] D(2) levelStart_Suc [of 0 d]
    by (simp add: getSpectrumDigest_def Let_def leaves_def spectrumRoot_def spectrumDirtyReset_def)
  moreover have "digest_tracked k12 d tick' ?s'"
    using D(1,2,5) L C tree flags_clear [of fl]
    by (auto simp: digest_tracked_def tree_ok_def climb_inv_def leafDigests_def)
  ultimately show ?thesis using tree by (intro exI [of _ ?s']) simp
qed

section \<open>Updates keep track of what they change\<close>

lemma rebuildLeaves:
  "n \<le> length rs \<Longrightarrow> length rs \<le> length ds \<Longrightarrow>
   length (foldl (\<lambda>ds i. ds[i := k12 (entity_words (rs ! i))]) ds [0..<n]) = length ds \<and>
   (\<forall>i<n. foldl (\<lambda>ds i. ds[i := k12 (entity_words (rs ! i))]) ds [0..<n] ! i = k12 (entity_words (rs ! i)))"
  by (induction n) (auto simp: nth_list_update)

lemma rebuildDigests_tree:
  assumes "length rs = 2 ^ d" and "length ds = 2 ^ (d + 1) - 1"
  shows "tree_ok k12 d (leafDigests k12 rs) (rebuildDigests k12 rs ds)"
proof -
  let ?ds = "foldl (\<lambda>ds i. ds[i := k12 (entity_words (rs ! i))]) ds [0..<length rs]"
  have "length rs \<le> length ds" using assms by simp
  then have L: "length ?ds = 2 ^ (d + 1) - 1" "\<forall>i<2 ^ d. ?ds ! i = k12 (entity_words (rs ! i))"
    using rebuildLeaves [of "length rs" rs ds k12] assms by simp_all
  have "rebuildDigests k12 rs ds = hashLevels k12 (levelStart d 0) (levelStart d (Suc 0)) (2 ^ (d - 0)) ?ds"
    using assms(1) levelStart_Suc [of 0 d] by (simp add: rebuildDigests_def)
  then show ?thesis
    using hashLevels_ok [of 0 d ?ds k12] L assms(1) levelStart_Suc [of 0 d]
    by (auto simp: tree_ok_def leafDigests_def Let_def)
qed

lemma markDirty_tracked:
  assumes tr: "digest_tracked k12 d tick s" and i: "i < 2 ^ d" and r: "touched tick r"
  shows "digest_tracked k12 d tick (spectrumMarkDirty i (s\<lparr>spectrum := (spectrum s)[i := r]\<rparr>))"
  using digest_trackedD [OF tr] i r
  by (auto simp: digest_tracked_def spectrumMarkDirty_def pending_def nth_list_update)

lemma digest_tracked_cong:
  assumes "digest_tracked k12 d tick s"
    and "spectrum s' = spectrum s" "spectrumDigests s' = spectrumDigests s"
    "spectrumChangeFlags s' = spectrumChangeFlags s" "spectrumDirtyList s' = spectrumDirtyList s"
    "spectrumDirtyOverflow s' = spectrumDirtyOverflow s"
  shows "digest_tracked k12 d tick s'"
  using assms by (simp add: digest_tracked_def pending_def)

lemma stats_digest_fields [simp]:
  "spectrumDigests (updateAndAnalzeEntityCategoryPopulations s) = spectrumDigests s"
  "spectrumChangeFlags (updateAndAnalzeEntityCategoryPopulations s) = spectrumChangeFlags s"
  "spectrumDirtyList (updateAndAnalzeEntityCategoryPopulations s) = spectrumDirtyList s"
  "spectrumDirtyOverflow (updateAndAnalzeEntityCategoryPopulations s) = spectrumDirtyOverflow s"
  "spectrumDigests (logSpectrumStats s) = spectrumDigests s"
  "spectrumChangeFlags (logSpectrumStats s) = spectrumChangeFlags s"
  "spectrumDirtyList (logSpectrumStats s) = spectrumDirtyList s"
  "spectrumDirtyOverflow (logSpectrumStats s) = spectrumDirtyOverflow s"
  by (simp_all add: updateAndAnalzeEntityCategoryPopulations_def Let_def case_prod_beta logSpectrumStats_def)

lemma burnDust_digest_fields [simp]:
  "spectrumDigests (burnDust lg s) = spectrumDigests s"
  "spectrumChangeFlags (burnDust lg s) = spectrumChangeFlags s"
  "length (spectrum (burnDust lg s)) = length (spectrum s)"
proof -
  show "length (spectrum (burnDust lg s)) = length (spectrum s)"
    using burnDust_burned [of s lg] by (simp add: burned_def list_all2_lengthD)
qed (simp_all add: burnDust_def Let_def case_prod_beta)

lemma reorgLoop_length: "reorgLoop rs new = Some rs' \<Longrightarrow> length rs' = length new"
  by (induction rs new rule: reorgLoop.induct) (auto split: if_splits option.splits)

lemma reorganizeSpectrum_tracked:
  assumes "reorganizeSpectrum k12 s = Some s'" and "6 \<le> d" and "length (spectrum s) = 2 ^ d"
    and "length (spectrumDigests s) = 2 ^ (d + 1) - 1"
    and "length (spectrumChangeFlags s) = 2 ^ d div 64" "\<forall>f\<in>set (spectrumChangeFlags s). f = 0"
  shows "digest_tracked k12 d tick s'"
proof -
  obtain rs where rs: "reorgLoop (spectrum s) (replicate (2 ^ d) emptyEntity) = Some rs"
    and s': "spectrum s' = rs" "spectrumDigests s' = rebuildDigests k12 rs (spectrumDigests s)"
      "spectrumChangeFlags s' = spectrumChangeFlags s" "spectrumDirtyList s' = []"
    using assms(1,3)
    by (auto simp: reorganizeSpectrum_def updateSpectrumInfo_def case_prod_beta Let_def split: option.splits)
  have l: "length rs = 2 ^ d" using reorgLoop_length [OF rs] by simp
  show ?thesis
    using rebuildDigests_tree [OF l assms(4), of k12] s' l assms(2,5,6)
    by (auto simp: digest_tracked_def tree_ok_def leafDigests_def)
qed

lemma antiDust_tracked:
  assumes tr: "digest_tracked k12 d tick s" and ad: "antiDust k12 lg s = Some s'"
  shows "digest_tracked k12 d tick s'"
proof (cases "SPECTRUM_CAPACITY s div 2 + SPECTRUM_CAPACITY s div 4 \<le> unat (numberOfEntities s)")
  case False
  with assms show ?thesis by (simp add: antiDust_def)
next
  case True
  define s1 where "s1 = (let s1 = updateAndAnalzeEntityCategoryPopulations s
    in burnDust lg (if lg then logSpectrumStats s1 else s1))"
  have s1: "length (spectrum s1) = length (spectrum s)" "spectrumDigests s1 = spectrumDigests s"
    "spectrumChangeFlags s1 = spectrumChangeFlags s"
    by (simp_all add: s1_def Let_def)
  obtain s2 where s2: "reorganizeSpectrum k12 s1 = Some s2"
    "s' = (if lg then logSpectrumStats (updateAndAnalzeEntityCategoryPopulations s2) else s2)"
    using ad True by (auto simp: antiDust_def Let_def s1_def split: option.splits)
  have "digest_tracked k12 d tick s2"
    using digest_trackedD [OF tr] s1 by (intro reorganizeSpectrum_tracked [OF s2(1)]) simp_all
  then show ?thesis by (rule digest_tracked_cong) (simp_all add: s2(2))
qed

lemma creditSlot_tracked:
  assumes "digest_tracked k12 d tick s" and "i < 2 ^ d"
  shows "digest_tracked k12 d tick (creditSlot tick lg pk amount i s)"
proof -
  let ?r = "spectrum s ! i"
  define r where "r = (if publicKey ?r = pk
    then ?r\<lparr>incomingAmount := incomingAmount ?r + amount,
      numberOfIncomingTransfers := numberOfIncomingTransfers ?r + 1, latestIncomingTransferTick := tick\<rparr>
    else ?r\<lparr>publicKey := pk, incomingAmount := amount, numberOfIncomingTransfers := 1,
      latestIncomingTransferTick := tick\<rparr>)"
  have "touched tick r" by (simp add: r_def touched_def)
  from markDirty_tracked [OF assms this] show ?thesis
    by (rule digest_tracked_cong) (simp_all add: creditSlot_def Let_def r_def)
qed

lemma increaseEnergy_tracked:
  assumes tr: "digest_tracked k12 d tick s" and inc: "increaseEnergy k12 tick lg pk amount s = Some s'"
  shows "digest_tracked k12 d tick s'"
proof (cases "\<not> isZero pk \<and> 0 \<le>s amount")
  case True
  then obtain s1 i where s1: "antiDust k12 lg s = Some s1" "s' = creditSlot tick lg pk amount i s1"
    and i: "probe (SPECTRUM_CAPACITY s1)
      (\<lambda>i. publicKey (spectrum s1 ! i) = pk \<or> isZero (publicKey (spectrum s1 ! i)))
      (SPECTRUM_CAPACITY s1) (home_slot (SPECTRUM_CAPACITY s1) pk) = Some i"
    using inc by (auto simp: increaseEnergy_def split: option.splits)
  have tr1: "digest_tracked k12 d tick s1" by (rule antiDust_tracked [OF tr s1(1)])
  note D = digest_trackedD [OF tr1]
  have "i < 2 ^ d" by (rule probe_less(1) [OF i [unfolded D(2)] home_slot_less])
  with tr1 show ?thesis by (simp add: s1(2) creditSlot_tracked)
qed (use assms in \<open>auto simp: increaseEnergy_def\<close>)

lemma decreaseEnergy_tracked:
  assumes tr: "digest_tracked k12 d tick s" and i: "i < SPECTRUM_CAPACITY s"
  shows "digest_tracked k12 d tick (snd (decreaseEnergy tick i amount s))"
proof (cases "0 \<le>s amount \<and> amount \<le>s energy s i")
  case True
  define r where "r = (spectrum s ! i)\<lparr>outgoingAmount := outgoingAmount (spectrum s ! i) + amount,
    numberOfOutgoingTransfers := numberOfOutgoingTransfers (spectrum s ! i) + 1,
    latestOutgoingTransferTick := tick\<rparr>"
  have "touched tick r" by (simp add: r_def touched_def)
  moreover have "i < 2 ^ d" using i digest_trackedD(2) [OF tr] by simp
  ultimately have "digest_tracked k12 d tick (spectrumMarkDirty i (s\<lparr>spectrum := (spectrum s)[i := r]\<rparr>))"
    by (intro markDirty_tracked [OF tr])
  then show ?thesis
    using True by (elim digest_tracked_cong) (simp_all add: decreaseEnergy_def Let_def r_def)
qed (use tr in \<open>auto simp: decreaseEnergy_def\<close>)

section \<open>A tick of updates\<close>

text \<open>The updates of the spectrum during the processing of one tick.\<close>

inductive spectrum_step :: "(u64 list \<Rightarrow> m256i) \<Rightarrow> u32 \<Rightarrow> spectrum_state \<Rightarrow> spectrum_state \<Rightarrow> bool"
  for k12 :: "u64 list \<Rightarrow> m256i" and tick :: u32 where
  credit: "increaseEnergy k12 tick lg pk amount s = Some s' \<Longrightarrow> spectrum_step k12 tick s s'"
| debit: "i < SPECTRUM_CAPACITY s \<Longrightarrow> decreaseEnergy tick i amount s = (ok, s') \<Longrightarrow> spectrum_step k12 tick s s'"

lemma spectrum_steps_tracked:
  "(spectrum_step k12 tick)\<^sup>*\<^sup>* s s' \<Longrightarrow> digest_tracked k12 d tick s \<Longrightarrow> digest_tracked k12 d tick s'"
proof (induction rule: rtranclp_induct)
  case (step s1 s2)
  from step.hyps(2) show ?case
  proof cases
    case (credit lg pk amount)
    with step increaseEnergy_tracked show ?thesis by blast
  next
    case (debit i amount ok)
    with step decreaseEnergy_tracked [of k12 d tick s1 i amount] show ?thesis by simp
  qed
qed simp

section \<open>Properties\<close>

lemma initSpectrum_tracked:
  assumes "6 \<le> d"
  shows "digest_tracked k12 d tick (initialSpectrumDigest k12 (initSpectrum d))"
proof -
  let ?s = "initialSpectrumDigest k12 (initSpectrum d)"
  have s: "spectrum ?s = replicate (2 ^ d) emptyEntity"
    "spectrumDigests ?s = rebuildDigests k12 (replicate (2 ^ d) emptyEntity) (replicate (2 ^ (d + 1) - 1) 0)"
    "spectrumChangeFlags ?s = replicate (2 ^ d div 64) 0" "spectrumDirtyList ?s = []"
    by (simp_all add: initialSpectrumDigest_def initSpectrum_def updateSpectrumInfo_def case_prod_beta mult.commute)
  show ?thesis
    using rebuildDigests_tree [of "replicate (2 ^ d) emptyEntity" d "replicate (2 ^ (d + 1) - 1) 0" k12] s assms
    by (simp add: digest_tracked_def tree_ok_def leafDigests_def)
qed

text \<open>A spectrum of 64 slots in which entity 5 was credited 100 units in tick 7, with a toy hash.\<close>

definition demoHash :: "u64 list \<Rightarrow> m256i" where
  "demoHash ws = ucast (foldl (\<lambda>h w. 31 * h + w) 7 ws)"

definition demoStart :: spectrum_state where
  "demoStart = initialSpectrumDigest demoHash (initSpectrum 6)"

definition demoSpectrum :: spectrum_state where
  "demoSpectrum = the (increaseEnergy demoHash 7 False 5 100 demoStart)"

lemma demoStart_ok: "spectrum_ok 6 demoStart"
proof -
  have "foldl (\<lambda>(n, t) r. if balance r \<noteq> 0 \<or> \<not> isZero (publicKey r) then (n + 1, t + balance r) else (n, t))
    (a, b) (replicate k emptyEntity) = (a, b)" for a :: u32 and b :: u64 and k
    by (induction k) (simp_all add: isZero_def)
  then show ?thesis
    using initSpectrum_ok [of 6]
    by (simp add: demoStart_def initialSpectrumDigest_def spectrum_ok_def updateSpectrumInfo_def initSpectrum_def)
qed

lemma demoSpectrum_ok:
  shows "spectrum_ok 6 demoSpectrum" and "digest_tracked demoHash 6 7 demoSpectrum"
    and "balances (spectrum demoSpectrum) 5 = 100" and "spectrum_step demoHash 7 demoStart demoSpectrum"
proof -
  have z: "circulation (spectrum demoStart) = 0" "spectrum demoStart = replicate 64 emptyEntity"
    by (simp_all add: demoStart_def initialSpectrumDigest_def updateSpectrumInfo_def initSpectrum_def
        case_prod_beta circulation_def sum_list_replicate)
  obtain s1 s' where s: "antiDust demoHash False demoStart = Some s1"
    "increaseEnergy demoHash 7 False 5 100 demoStart = Some s'" "spectrum_ok 6 s'"
    "balances (spectrum s') = (balances (spectrum s1))(5 := balances (spectrum s1) 5 + sint (100 :: i64))"
    using increaseEnergy_ok [OF demoStart_ok, of 5 100 demoHash False 7] z(1)
    by (auto simp: isZero_def MAX_SUPPLY_def)
  have d: "demoSpectrum = s'" using s(2) by (simp add: demoSpectrum_def)
  have n: "unat (numberOfEntities demoStart) = 0"
    using spectrum_okD(2) [OF demoStart_ok] z(2) by (simp add: population_def)
  then have s1: "s1 = demoStart" using s(1) z(2) by (simp add: antiDust_def)
  have "balances (spectrum s1) 5 = 0"
    by (simp add: s1 z(2) balances_def table_map_None_iff split: option.splits)
       (auto dest!: table_map_SomeD)
  then show "balances (spectrum demoSpectrum) 5 = 100" using s(4) d by simp
  show "spectrum_ok 6 demoSpectrum" using s(3) d by simp
  show "spectrum_step demoHash 7 demoStart demoSpectrum" using s(2) d by (simp add: credit)
  show "digest_tracked demoHash 6 7 demoSpectrum"
    using increaseEnergy_tracked [OF _ s(2)] initSpectrum_tracked [of 6 demoHash 7]
    by (simp add: d demoStart_def)
qed

text \<open>
  C6: whatever credits and debits a tick applies to a spectrum whose tree is tracked, the
  digest that \<open>getSpectrumDigest\<close> updates along the dirty paths is the root of the Merkle
  tree over the whole table, the self-check by a full recomputation succeeds, and the
  resulting state is tracked for the next tick.
\<close>

theorem getSpectrumDigest_incremental:
  assumes "digest_tracked k12 d tick s" and "(spectrum_step k12 tick)\<^sup>*\<^sup>* s s1"
  shows "\<exists>s2. getSpectrumDigest k12 tick s1 = (spectrumRoot k12 d (spectrum s1), s2) \<and>
    spectrum s2 = spectrum s1 \<and> verifySpectrumDigest k12 (spectrumRoot k12 d (spectrum s1)) s2 \<and>
    digest_tracked k12 d tick' s2"
proof -
  have tr: "digest_tracked k12 d tick s1" by (rule spectrum_steps_tracked [OF assms(2,1)])
  from getSpectrumDigest_ok [OF tr, of tick'] obtain s2 where
    s2: "getSpectrumDigest k12 tick s1 = (spectrumRoot k12 d (spectrum s1), s2)"
    "spectrum s2 = spectrum s1" "digest_tracked k12 d tick' s2" by blast
  note D = digest_trackedD [OF s2(3)]
  have "verifySpectrumDigest k12 (spectrumRoot k12 d (spectrum s1)) s2"
    using tree_ok_root [OF rebuildDigests_tree [OF D(2,3), of k12]] s2(2) D(2)
    by (simp add: verifySpectrumDigest_def spectrumRoot_def)
  with s2 show ?thesis by blast
qed

theorem getSpectrumDigest_incremental_witness:
  "\<exists>s2. getSpectrumDigest demoHash 7 demoSpectrum = (spectrumRoot demoHash 6 (spectrum demoSpectrum), s2) \<and>
    spectrum s2 = spectrum demoSpectrum \<and>
    verifySpectrumDigest demoHash (spectrumRoot demoHash 6 (spectrum demoSpectrum)) s2 \<and>
    digest_tracked demoHash 6 8 s2"
  using demoSpectrum_ok(4) initSpectrum_tracked [of 6 demoHash 7]
  by (intro getSpectrumDigest_incremental [of _ _ _ demoStart] r_into_rtranclp) (simp_all add: demoStart_def)

end
