(* ===== verification/Network_Messages.thy ===== *)
theory Network_Messages
  imports Prelude
begin

text \<open>
  The header of network messages (\<open>src/src/network_messages/header.h\<close>) and the messages that request handlers pass to
  \<open>enqueueResponse\<close>. The size of a message is kept in three bytes, in front of the byte of its type.
\<close>

unbundle bit_operations_syntax

section \<open>The header\<close>

record RequestResponseHeader =
  size0 :: u8
  size1 :: u8
  size2 :: u8
  hdrType :: u8
  hdrDejavu :: u32

definition max_size :: u32 where
  "max_size = 0xFFFFFF"

text \<open>The source reads four bytes, of which the last is the type, and masks it out.\<close>

definition hdrSize :: "RequestResponseHeader \<Rightarrow> u32" where
  "hdrSize h = (ucast (size0 h) OR push_bit 8 (ucast (size1 h)) OR push_bit 16 (ucast (size2 h)) OR push_bit 24 (ucast (hdrType h))) AND max_size"

definition setSize2 :: "u32 \<Rightarrow> RequestResponseHeader \<Rightarrow> RequestResponseHeader" where
  "setSize2 n h = h\<lparr>size0 := ucast n, size1 := ucast (drop_bit 8 n), size2 := ucast (drop_bit 16 n)\<rparr>"

definition checkAndSetSize :: "u32 \<Rightarrow> RequestResponseHeader \<Rightarrow> bool \<times> RequestResponseHeader" where
  "checkAndSetSize n h = (if n > max_size then (False, h) else (True, setSize2 n h))"

definition isDejavuZero :: "RequestResponseHeader \<Rightarrow> bool" where
  "isDejavuZero h \<longleftrightarrow> hdrDejavu h = 0"

definition setDejavu :: "u32 \<Rightarrow> RequestResponseHeader \<Rightarrow> RequestResponseHeader" where
  "setDejavu x h = h\<lparr>hdrDejavu := x\<rparr>"

text \<open>The argument is the number that the processor's generator delivers.\<close>

definition randomizeDejavu :: "u32 \<Rightarrow> RequestResponseHeader \<Rightarrow> RequestResponseHeader" where
  "randomizeDejavu rnd h = h\<lparr>hdrDejavu := (if rnd = 0 then 1 else rnd)\<rparr>"

definition setType :: "u8 \<Rightarrow> RequestResponseHeader \<Rightarrow> RequestResponseHeader" where
  "setType t h = h\<lparr>hdrType := t\<rparr>"

text \<open>The header itself has eight bytes; the sums are computed in 64 bits and do not wrap.\<close>

definition sizeofHeader :: nat where
  "sizeofHeader = 8"

definition checkPayloadSize :: "RequestResponseHeader \<Rightarrow> u32 \<Rightarrow> bool" where
  "checkPayloadSize h expected \<longleftrightarrow> unat (hdrSize h) = unat expected + sizeofHeader"

definition checkPayloadSizeMinMax :: "RequestResponseHeader \<Rightarrow> u32 \<Rightarrow> u32 \<Rightarrow> bool" where
  "checkPayloadSizeMinMax h lo hi \<longleftrightarrow> unat lo + sizeofHeader \<le> unat (hdrSize h) \<and> unat (hdrSize h) \<le> unat hi + sizeofHeader"

definition getPayloadSize :: "RequestResponseHeader \<Rightarrow> u32" where
  "getPayloadSize h = hdrSize h - of_nat sizeofHeader"

section \<open>Responses\<close>

text \<open>The arguments of a call of \<open>enqueueResponse\<close>: size of the data, message type, dejavu of the request, data or \<open>NULL\<close>.\<close>

record 'a Response =
  rspSize :: nat
  rspType :: u8
  rspDejavu :: u32
  rspData :: "'a option"

definition END_RESPONSE :: u8 where
  "END_RESPONSE = 35"

definition endResponse :: "RequestResponseHeader \<Rightarrow> 'a Response" where
  "endResponse h = \<lparr>rspSize = 0, rspType = END_RESPONSE, rspDejavu = hdrDejavu h, rspData = None\<rparr>"

section \<open>Sizes are read back\<close>

lemma hdrSize_setSize2:
  assumes "n \<le> max_size"
  shows "hdrSize (setSize2 n h) = n"
proof -
  have "unat n < 2 ^ 24" using assms by (simp add: max_size_def word_le_nat_alt)
  then have "n = take_bit 24 n" by (intro word_unat_eq_iff [THEN iffD2]) (simp add: unsigned_take_bit_eq take_bit_nat_eq_self)
  moreover have m: "max_size = mask 24" by (simp add: max_size_def mask_eq_exp_minus_1)
  moreover have "hdrSize (setSize2 n h) = take_bit 24 n"
    unfolding hdrSize_def setSize2_def m by (rule bit_word_eqI) (auto simp: bit_simps)
  ultimately show ?thesis by simp
qed

lemma checkPayloadSize_sent:
  assumes "checkAndSetSize (payload + 8) h = (True, h')" "unat payload + 8 < 2 ^ 32"
  shows "checkPayloadSize h' payload"
  using assms hdrSize_setSize2 [of "payload + 8" h]
  by (auto simp: checkAndSetSize_def checkPayloadSize_def sizeofHeader_def unat_word_ariths not_less split: if_splits)

text \<open>The header of a request with a public key as payload.\<close>

definition demoHeader :: RequestResponseHeader where
  "demoHeader = setSize2 40 \<lparr>size0 = 0, size1 = 0, size2 = 0, hdrType = 31, hdrDejavu = 77\<rparr>"

lemma demoHeader_ok: "checkPayloadSize demoHeader 32" "hdrDejavu demoHeader = 77"
  by code_simp+

end
