(* ===== verification/Entity_Requests.thy ===== *)
theory Entity_Requests
  imports Spectrum_Digest Network_Messages
begin

text \<open>
  \<open>processRequestEntity\<close> (\<open>src/src/qubic.cpp\<close>): the reply to a request for the balance of a key. The handler runs beside
  the tick processor. It looks the key up under \<open>spectrumLock\<close>, copies the record with no lock held and takes the lock
  again for the sibling path, so other threads may change the spectrum before, between and during these accesses. The
  model takes the state of the spectrum that each access sees.
\<close>

unbundle bit_operations_syntax

section \<open>The handler\<close>

record RespondEntity =
  respEntity :: EntityRecord
  respTick :: u32
  respSpectrumIndex :: int
  respSiblings :: "m256i list"

text \<open>
  The states seen by the accesses: by \<open>spectrumIndex\<close> and \<open>getSiblings\<close> one state each, as they hold the lock; the
  current tick; and a state for each of the eight 64-bit words of the record that \<open>copyMem\<close> reads without the lock.
\<close>

record EntityViews =
  lookupView :: spectrum_state
  tickView :: u32
  copyViews :: "nat \<Rightarrow> spectrum_state"
  siblingsView :: spectrum_state

definition entity_of_words :: "u64 list \<Rightarrow> EntityRecord" where
  "entity_of_words ws =
     \<lparr>publicKey = ucast (ws ! 0) OR push_bit 64 (ucast (ws ! 1)) OR push_bit 128 (ucast (ws ! 2)) OR push_bit 192 (ucast (ws ! 3)),
      incomingAmount = ws ! 4, outgoingAmount = ws ! 5,
      numberOfIncomingTransfers = ucast (ws ! 6), numberOfOutgoingTransfers = ucast (drop_bit 32 (ws ! 6)),
      latestIncomingTransferTick = ucast (ws ! 7), latestOutgoingTransferTick = ucast (drop_bit 32 (ws ! 7))\<rparr>"

definition copyEntity :: "(nat \<Rightarrow> spectrum_state) \<Rightarrow> nat \<Rightarrow> EntityRecord" where
  "copyEntity views i = entity_of_words (map (\<lambda>j. entity_words (spectrum (views j) ! i) ! j) [0..<8])"

definition RESPOND_ENTITY :: u8 where
  "RESPOND_ENTITY = 32"

definition sizeofRespondEntity :: "nat \<Rightarrow> nat" where
  "sizeofRespondEntity depth = 64 + 4 + 4 + 32 * depth"

text \<open>
  The responses that are enqueued, for a request with the given header and public key; \<open>None\<close> if the search of
  \<open>spectrumIndex\<close> does not end.
\<close>

definition processRequestEntity :: "nat \<Rightarrow> RequestResponseHeader \<Rightarrow> m256i \<Rightarrow> EntityViews \<Rightarrow> RespondEntity Response list option" where
  "processRequestEntity depth header pk v =
     (if \<not> checkPayloadSize header 32 then Some []
      else case spectrumIndex (lookupView v) pk of
        None \<Rightarrow> None
      | Some i \<Rightarrow>
          let rsp = (if i < 0
            then \<lparr>respEntity = emptyEntity\<lparr>publicKey := pk\<rparr>, respTick = tickView v, respSpectrumIndex = i,
                  respSiblings = replicate depth 0\<rparr>
            else \<lparr>respEntity = copyEntity (copyViews v) (nat i), respTick = tickView v, respSpectrumIndex = i,
                  respSiblings = getSiblings depth (nat i) (spectrumDigests (siblingsView v))\<rparr>)
          in Some [\<lparr>rspSize = sizeofRespondEntity depth, rspType = RESPOND_ENTITY, rspDejavu = hdrDejavu header, rspData = Some rsp\<rparr>])"

section \<open>Copying an entity\<close>

lemma entity_of_words_inverse: "entity_of_words (entity_words r) = r"
proof -
  have k: "ucast (m256i_u64 x 0) OR push_bit 64 (ucast (m256i_u64 x 1)) OR push_bit 128 (ucast (m256i_u64 x 2)) OR
      push_bit 192 (ucast (m256i_u64 x 3)) = x" for x :: m256i
  proof (rule bit_word_eqI)
    show "bit (ucast (m256i_u64 x 0) OR push_bit 64 (ucast (m256i_u64 x 1)) OR push_bit 128 (ucast (m256i_u64 x 2)) OR
        push_bit 192 (ucast (m256i_u64 x 3)) :: m256i) n \<longleftrightarrow> bit x n" if "n < LENGTH(256)" for n
      using that by (cases "n < 64"; cases "n < 128"; cases "n < 192") (auto simp: m256i_u64_def bit_simps)
  qed
  have c: "ucast (word_cat (a :: u32) (b :: u32) :: u64) = b" "ucast (drop_bit 32 (word_cat a b :: u64)) = a" for a b
    by (rule bit_word_eqI; simp add: bit_simps bit_word_cat_iff)+
  have w: "entity_words r ! 0 = m256i_u64 (publicKey r) 0" "entity_words r ! 1 = m256i_u64 (publicKey r) 1"
    "entity_words r ! 2 = m256i_u64 (publicKey r) 2" "entity_words r ! 3 = m256i_u64 (publicKey r) 3"
    "entity_words r ! 4 = incomingAmount r" "entity_words r ! 5 = outgoingAmount r"
    "entity_words r ! 6 = word_cat (numberOfOutgoingTransfers r) (numberOfIncomingTransfers r)"
    "entity_words r ! 7 = word_cat (latestOutgoingTransferTick r) (latestIncomingTransferTick r)"
    by (simp_all add: entity_words_def)
  show ?thesis unfolding entity_of_words_def w k c by simp
qed

lemma entity_words_length: "length (entity_words r) = 8"
  by (simp add: entity_words_def)

lemma copyEntity_stable:
  assumes "\<And>j. j < 8 \<Longrightarrow> spectrum (views j) ! i = r"
  shows "copyEntity views i = r"
proof -
  have "map (\<lambda>j. entity_words (spectrum (views j) ! i) ! j) [0..<8] = map ((!) (entity_words r)) [0..<length (entity_words r)]"
    using assms by (simp add: entity_words_length)
  then show ?thesis by (simp add: copyEntity_def map_nth entity_of_words_inverse)
qed

section \<open>Activity of other entities\<close>

text \<open>
  A later or intermediate state in which the record of a key is as before and no digest was recomputed. It covers states
  in the middle of an update of another entity, which a reader without the lock may see.
\<close>

definition entity_untouched :: "m256i \<Rightarrow> spectrum_state \<Rightarrow> spectrum_state \<Rightarrow> bool" where
  "entity_untouched pk s t \<longleftrightarrow> SPECTRUM_CAPACITY t = SPECTRUM_CAPACITY s \<and> spectrumDigests t = spectrumDigests s \<and>
     (\<forall>i<SPECTRUM_CAPACITY s. occupied (spectrum s ! i) \<and> publicKey (spectrum s ! i) = pk \<longrightarrow> spectrum t ! i = spectrum s ! i)"

text \<open>Complete updates of other entities, as they appear between two sections that hold the lock, with no anti-dust run.\<close>

inductive other_step :: "(u64 list \<Rightarrow> m256i) \<Rightarrow> u32 \<Rightarrow> m256i \<Rightarrow> spectrum_state \<Rightarrow> spectrum_state \<Rightarrow> bool"
  for k12 :: "u64 list \<Rightarrow> m256i" and tick :: u32 and pk :: m256i where
  credit_other: "pk' \<noteq> pk \<Longrightarrow> \<not> isZero pk' \<Longrightarrow> 0 \<le> sint amount \<Longrightarrow> circulation (spectrum s) + sint amount \<le> MAX_SUPPLY \<Longrightarrow>
    unat (numberOfEntities s) < SPECTRUM_CAPACITY s div 2 + SPECTRUM_CAPACITY s div 4 \<Longrightarrow>
    increaseEnergy k12 tick lg pk' amount s = Some s' \<Longrightarrow> other_step k12 tick pk s s'"
| debit_other: "i < SPECTRUM_CAPACITY s \<Longrightarrow> occupied (spectrum s ! i) \<Longrightarrow> publicKey (spectrum s ! i) \<noteq> pk \<Longrightarrow>
    decreaseEnergy tick i amount s = (ok, s') \<Longrightarrow> other_step k12 tick pk s s'"

lemma entity_untouched_refl: "entity_untouched pk s s"
  by (simp add: entity_untouched_def)

lemma entity_untouched_trans: "entity_untouched pk s t \<Longrightarrow> entity_untouched pk t u \<Longrightarrow> entity_untouched pk s u"
  by (auto simp: entity_untouched_def)

text \<open>One slot gets a new record; neither the old nor the new record belongs to the key.\<close>

definition other_slot_written :: "m256i \<Rightarrow> spectrum_state \<Rightarrow> spectrum_state \<Rightarrow> bool" where
  "other_slot_written pk s t \<longleftrightarrow> spectrumDigests t = spectrumDigests s \<and>
     (\<exists>i r. spectrum t = (spectrum s)[i := r] \<and> \<not> (occupied (spectrum s ! i) \<and> publicKey (spectrum s ! i) = pk) \<and> publicKey r \<noteq> pk)"

lemma key_present: "pk \<in> publicKey ` set rs \<longleftrightarrow> (\<exists>k<length rs. publicKey (rs ! k) = pk)"
  by (auto simp: set_conv_nth)

lemma other_slot_written_untouched:
  assumes "other_slot_written pk s t" "\<not> isZero pk"
  shows "entity_untouched pk s t" "pk \<in> publicKey ` set (spectrum t) \<longleftrightarrow> pk \<in> publicKey ` set (spectrum s)"
proof -
  obtain i r where w: "spectrumDigests t = spectrumDigests s" "spectrum t = (spectrum s)[i := r]"
    "\<not> (occupied (spectrum s ! i) \<and> publicKey (spectrum s ! i) = pk)" "publicKey r \<noteq> pk"
    using assms(1) unfolding other_slot_written_def by blast
  have "spectrum t ! k = spectrum s ! k" if "occupied (spectrum s ! k)" "publicKey (spectrum s ! k) = pk" for k
    using that w(3) unfolding w(2) by (cases "k = i") auto
  then show "entity_untouched pk s t" using w(1,2) by (simp add: entity_untouched_def)
  have "publicKey (spectrum s ! i) \<noteq> pk" using w(3) assms(2) by (auto simp: occupied_def)
  then show "pk \<in> publicKey ` set (spectrum t) \<longleftrightarrow> pk \<in> publicKey ` set (spectrum s)"
    unfolding key_present w(2) using w(4) by (metis length_list_update nth_list_update_eq nth_list_update_neq)
qed

lemma other_step_written:
  assumes ok: "spectrum_ok d s" and st: "other_step k12 tick pk s s'" and nz: "\<not> isZero pk"
  shows "spectrum_ok d s' \<and> (s' = s \<or> other_slot_written pk s s')"
  using st
proof cases
  case (credit_other pk' amount lg)
  have quiet: "antiDust k12 lg s = Some s" using credit_other(5) by (simp add: antiDust_def)
  obtain i where s': "s' = creditSlot tick lg pk' amount i s"
    and i: "probe (SPECTRUM_CAPACITY s) (\<lambda>i. publicKey (spectrum s ! i) = pk' \<or> isZero (publicKey (spectrum s ! i)))
      (SPECTRUM_CAPACITY s) (home_slot (SPECTRUM_CAPACITY s) pk') = Some i"
    using credit_other(2,3,6) quiet by (auto simp: increaseEnergy_def word_sle_eq split: option.splits)
  have key: "publicKey (spectrum s ! i) = pk' \<or> isZero (publicKey (spectrum s ! i))" 
    by (rule probe_less(2) [OF i [unfolded ledger_tableD(1) [OF spectrum_okD(1) [OF ok]]] home_slot_less])
  define r where "r = (let r = spectrum s ! i in if publicKey r = pk'
    then r\<lparr>incomingAmount := incomingAmount r + amount, numberOfIncomingTransfers := numberOfIncomingTransfers r + 1,
      latestIncomingTransferTick := tick\<rparr>
    else r\<lparr>publicKey := pk', incomingAmount := amount, numberOfIncomingTransfers := 1, latestIncomingTransferTick := tick\<rparr>)"
  have "spectrum s' = (spectrum s)[i := r]" "spectrumDigests s' = spectrumDigests s" "publicKey r = pk'"
    unfolding s' r_def by (simp_all add: creditSlot_def Let_def spectrumMarkDirty_def)
  then have "other_slot_written pk s s'"
    using key credit_other(1) nz unfolding other_slot_written_def by (metis occupied_def)
  moreover have "spectrum_ok d s'" using increaseEnergy_ok [OF ok credit_other(2-4), of k12 lg tick] credit_other(6) by auto
  ultimately show ?thesis by simp
next
  case (debit_other i amount okay)
  show ?thesis
  proof (cases "0 \<le> sint amount \<and> sint amount \<le> balances (spectrum s) (publicKey (spectrum s ! i))")
    case True
    then have "spectrum_ok d s'" "0 \<le>s amount \<and> amount \<le>s energy s i"
      using decreaseEnergy_ok [OF ok debit_other(1,2), of amount tick] debit_other(4) balances_nth [OF spectrum_okD(1) [OF ok] debit_other(1,2)]
      by (auto simp: word_sle_eq energy_def)
    then show ?thesis using debit_other
      by (auto simp: decreaseEnergy_def Let_def other_slot_written_def spectrumMarkDirty_def intro!: exI [of _ i])
  next
    case False
    then show ?thesis using decreaseEnergy_refused [OF ok debit_other(1,2), of amount tick] debit_other(4) ok by auto
  qed
qed

lemma other_steps:
  assumes "(other_step k12 tick pk)\<^sup>*\<^sup>* s t" and "spectrum_ok d s" and nz: "\<not> isZero pk"
  shows "spectrum_ok d t \<and> entity_untouched pk s t \<and> (pk \<in> publicKey ` set (spectrum t) \<longleftrightarrow> pk \<in> publicKey ` set (spectrum s))"
  using assms(1,2)
proof (induction rule: rtranclp_induct)
  case (step t u)
  then have t: "spectrum_ok d t" "entity_untouched pk s t" "pk \<in> publicKey ` set (spectrum t) \<longleftrightarrow> pk \<in> publicKey ` set (spectrum s)"
    by simp_all
  note u = other_step_written [OF t(1) step.hyps(2) nz]
  then show ?case using t other_slot_written_untouched [of pk t u] nz entity_untouched_trans [OF t(2), of u] by auto
qed (simp add: entity_untouched_refl)

section \<open>Property\<close>

lemma getSiblings_length: "length (getSiblings d i ds) = d"
proof -
  have "length (getSiblingsLoop cap n j off ds) = n" for cap n j off by (induction n arbitrary: cap j off) simp_all
  then show ?thesis by (simp add: getSiblings_def)
qed

lemma getSpectrumDigest_spectrum_ok: "spectrum_ok d s \<Longrightarrow> getSpectrumDigest k12 tick s = (root, s') \<Longrightarrow> spectrum_ok d s'"
  by (auto simp: getSpectrumDigest_def Let_def spectrum_ok_def spectrumDirtyReset_def split: prod.splits)

text \<open>The slot of an entity does not change while the entity is left alone.\<close>

lemma untouched_slot:
  assumes "spectrum_ok d t" "entity_untouched pk s t" "pk \<in> publicKey ` set (spectrum s)" "\<not> isZero pk"
    "i < length (spectrum t)" "publicKey (spectrum t ! i) = pk"
  shows "i < length (spectrum s)" "publicKey (spectrum s ! i) = pk"
proof -
  obtain k where k: "k < length (spectrum s)" "publicKey (spectrum s ! k) = pk" using assms(3) by (auto simp: key_present)
  then have t: "spectrum t ! k = spectrum s ! k" "length (spectrum t) = length (spectrum s)"
    using assms(2,4) by (simp_all add: entity_untouched_def occupied_def)
  have "k = i"
    using ledger_tableD(3) [OF spectrum_okD(1) [OF assms(1)]] k t assms(4-6)
    unfolding keys_unique_def by (auto simp: occupied_def)
  then show "i < length (spectrum s)" "publicKey (spectrum s ! i) = pk" using k by simp_all
qed

lemma found_entity_verifies:
  assumes ok: "spectrum_ok d s" and tree: "tree_ok k12 d (leafDigests k12 (spectrum s)) (spectrumDigests s')" and s': "spectrum s' = spectrum s"
    and i: "i < length (spectrum s)" "publicKey (spectrum s ! i) = pk" and nz: "\<not> isZero pk"
    and views: "\<And>j. j < 8 \<Longrightarrow> entity_untouched pk s' (views j)" "entity_untouched pk s' t"
  shows "copyEntity views i = spectrum s ! i" "sint (balance (spectrum s ! i)) = balances (spectrum s) pk"
    "pathRoot k12 i (k12 (entity_words (spectrum s ! i))) (getSiblings d i (spectrumDigests t)) = spectrumRoot k12 d (spectrum s)"
proof -
  note l = ledger_tableD(1) [OF spectrum_okD(1) [OF ok]]
  have occ: "occupied (spectrum s ! i)" using i(2) nz by (simp add: occupied_def)
  show "copyEntity views i = spectrum s ! i"
    by (rule copyEntity_stable) (use views(1) i occ s' in \<open>simp add: entity_untouched_def\<close>)
  show "sint (balance (spectrum s ! i)) = balances (spectrum s) pk"
    using balances_nth [OF spectrum_okD(1) [OF ok] i(1) occ] i(2) by simp
  have "leafDigests k12 (spectrum s) ! i = k12 (entity_words (spectrum s ! i))" using i(1) by (simp add: leafDigests_def)
  then show "pathRoot k12 i (k12 (entity_words (spectrum s ! i))) (getSiblings d i (spectrumDigests t)) = spectrumRoot k12 d (spectrum s)"
    using getSiblings_root [OF tree, of i] i(1) l views(2) by (simp add: spectrumRoot_def entity_untouched_def)
qed

text \<open>
  C7: between two computations of the spectrum digest, a request for a key whose entity is not credited or debited in the
  meantime is answered so that the client can check the answer, whatever other entities do before, between and during the
  three accesses of the handler (short of an anti-dust run, which moves entities): the reply carries the record of the key,
  its balance, and a sibling path that leads from the hash of the record to the last digest. An unknown key is answered
  with a zero record and index -1. A request of the wrong size is not answered.
\<close>

theorem processRequestEntity_verifiable:
  assumes ok: "spectrum_ok d s" and tr: "digest_tracked k12 d tick s" and dg: "getSpectrumDigest k12 tick s = (root, s')"
    and lookup: "(other_step k12 tick' pk)\<^sup>*\<^sup>* s' (lookupView v)"
    and copy: "\<forall>j<8. entity_untouched pk (lookupView v) (copyViews v j)"
    and siblings: "(other_step k12 tick' pk)\<^sup>*\<^sup>* (lookupView v) (siblingsView v)"
  shows "if checkPayloadSize header 32
    then \<exists>rsp. processRequestEntity d header pk v =
        Some [\<lparr>rspSize = sizeofRespondEntity d, rspType = RESPOND_ENTITY, rspDejavu = hdrDejavu header, rspData = Some rsp\<rparr>] \<and>
      publicKey (respEntity rsp) = pk \<and> respTick rsp = tickView v \<and> length (respSiblings rsp) = d \<and>
      (if isZero pk \<or> pk \<notin> publicKey ` set (spectrum s)
       then rsp = \<lparr>respEntity = emptyEntity\<lparr>publicKey := pk\<rparr>, respTick = tickView v, respSpectrumIndex = - 1, respSiblings = replicate d 0\<rparr>
       else sint (balance (respEntity rsp)) = balances (spectrum s) pk \<and>
         pathRoot k12 (nat (respSpectrumIndex rsp)) (k12 (entity_words (respEntity rsp))) (respSiblings rsp) = root)
    else processRequestEntity d header pk v = Some []"
proof (cases "checkPayloadSize header 32 \<and> \<not> isZero pk")
  case False
  then show ?thesis by (auto simp: processRequestEntity_def spectrumIndex_def Let_def)
next
  case True
  then have nz: "\<not> isZero pk" and size: "checkPayloadSize header 32" by simp_all
  from getSpectrumDigest_ok [OF tr, of tick] dg have root: "root = spectrumRoot k12 d (spectrum s)"
    and s': "spectrum s' = spectrum s" and tree: "tree_ok k12 d (leafDigests k12 (spectrum s)) (spectrumDigests s')" by auto
  have ok': "spectrum_ok d s'" by (rule getSpectrumDigest_spectrum_ok [OF ok dg])
  note L = other_steps [OF lookup ok' nz]
  note S = other_steps [OF siblings conjunct1 [OF L] nz]
  have un: "entity_untouched pk s' (siblingsView v)" "\<And>j. j < 8 \<Longrightarrow> entity_untouched pk s' (copyViews v j)"
    using L S copy entity_untouched_trans [of pk s' "lookupView v"] by blast+
  show ?thesis
  proof (cases "pk \<in> publicKey ` set (spectrum s)")
    case False
    then have "spectrumIndex (lookupView v) pk = Some (- 1)"
      using spectrumIndex_cases [OF conjunct1 [OF L] nz] L s' by (auto simp: key_present)
    then show ?thesis using False size by (simp add: processRequestEntity_def)
  next
    case True
    then obtain i where i: "i < length (spectrum (lookupView v))" "spectrumIndex (lookupView v) pk = Some (int i)" "publicKey (spectrum (lookupView v) ! i) = pk"
      using spectrumIndex_cases [OF conjunct1 [OF L] nz] L s' by auto
    have si: "i < length (spectrum s)" "publicKey (spectrum s ! i) = pk"
      using untouched_slot [of d "lookupView v" pk s' i] L True nz i s' by simp_all
    show ?thesis
      using found_entity_verifies [OF ok tree s' si nz un(2,1)] True nz size i(2) root si(2) getSiblings_length
      by (simp add: processRequestEntity_def)
  qed
qed

text \<open>A request for entity 5; entity 9 is credited while the handler copies the record.\<close>

definition demoDigested :: spectrum_state where
  "demoDigested = snd (getSpectrumDigest demoHash 7 demoSpectrum)"

definition demoLater :: spectrum_state where
  "demoLater = the (increaseEnergy demoHash 8 False 9 50 demoDigested)"

definition demoViews :: EntityViews where
  "demoViews = \<lparr>lookupView = demoDigested, tickView = 8, copyViews = (\<lambda>j. if j < 4 then demoDigested else demoLater), siblingsView = demoLater\<rparr>"

lemma demoSpectrum_small: "numberOfEntities demoSpectrum \<le> 1" "circulation (spectrum demoSpectrum) = 100"
proof -
  have z: "circulation (spectrum demoStart) = 0" "spectrum demoStart = replicate 64 emptyEntity"
    by (simp_all add: demoStart_def initialSpectrumDigest_def updateSpectrumInfo_def initSpectrum_def
        case_prod_beta circulation_def sum_list_replicate)
  have n: "numberOfEntities demoStart = 0" using spectrum_okD(2) [OF demoStart_ok] z(2) by (simp add: population_def unat_eq_0)
  then have quiet: "antiDust demoHash False demoStart = Some demoStart" using z by (simp add: antiDust_def)
  obtain s' where s: "increaseEnergy demoHash 7 False 5 100 demoStart = Some s'" "circulation (spectrum s') = 100"
    using increaseEnergy_ok [OF demoStart_ok, of 5 100 demoHash False 7] z(1) quiet by (auto simp: isZero_def MAX_SUPPLY_def)
  then obtain i where "s' = creditSlot 7 False 5 100 i demoStart"
    using quiet by (auto simp: increaseEnergy_def isZero_def word_sle_eq split: option.splits if_splits)
  then have "numberOfEntities s' \<le> 1" using n by (simp add: creditSlot_def Let_def)
  then show "numberOfEntities demoSpectrum \<le> 1" "circulation (spectrum demoSpectrum) = 100" using s by (simp_all add: demoSpectrum_def)
qed

lemma demoLater_step: "other_step demoHash 8 5 demoDigested demoLater" "(other_step demoHash 8 5)\<^sup>*\<^sup>* demoDigested demoLater" "demoLater \<noteq> demoDigested"
proof -
  obtain root where d: "getSpectrumDigest demoHash 7 demoSpectrum = (root, demoDigested)"
    unfolding demoDigested_def by (cases "getSpectrumDigest demoHash 7 demoSpectrum") simp
  have sp: "spectrum demoDigested = spectrum demoSpectrum" using getSpectrumDigest_ok [OF demoSpectrum_ok(2), of 7] d by auto
  have ok: "spectrum_ok 6 demoDigested" by (rule getSpectrumDigest_spectrum_ok [OF demoSpectrum_ok(1) d])
  have n: "unat (numberOfEntities demoDigested) \<le> 1"
    using spectrum_okD(2) [OF ok] spectrum_okD(2) [OF demoSpectrum_ok(1)] demoSpectrum_small(1) sp by (simp add: word_le_nat_alt)
  have l: "length (spectrum demoDigested) = 64" using ledger_tableD(1) [OF spectrum_okD(1) [OF ok]] by simp
  have "antiDust demoHash False demoDigested = Some demoDigested" using n l by (simp add: antiDust_def)
  then have i: "increaseEnergy demoHash 8 False 9 50 demoDigested = Some demoLater" and c: "circulation (spectrum demoLater) = 150"
    using increaseEnergy_ok [OF ok, of 9 50 demoHash False 8] demoSpectrum_small(2) sp by (auto simp: isZero_def MAX_SUPPLY_def demoLater_def)
  show st: "other_step demoHash 8 5 demoDigested demoLater"
    using i n l demoSpectrum_small(2) sp by (intro credit_other [of 9 5 50]) (simp_all add: isZero_def MAX_SUPPLY_def)
  show "(other_step demoHash 8 5)\<^sup>*\<^sup>* demoDigested demoLater" by (rule r_into_rtranclp, rule st)
  show "demoLater \<noteq> demoDigested" using c demoSpectrum_small(2) sp by auto
qed

theorem processRequestEntity_verifiable_witness:
  "checkPayloadSize demoHeader 32 \<and> demoLater \<noteq> demoDigested \<and>
   (\<exists>rsp. processRequestEntity 6 demoHeader 5 demoViews =
       Some [\<lparr>rspSize = 264, rspType = 32, rspDejavu = 77, rspData = Some rsp\<rparr>] \<and>
     publicKey (respEntity rsp) = 5 \<and> sint (balance (respEntity rsp)) = 100 \<and> length (respSiblings rsp) = 6 \<and>
     pathRoot demoHash (nat (respSpectrumIndex rsp)) (demoHash (entity_words (respEntity rsp))) (respSiblings rsp) =
       fst (getSpectrumDigest demoHash 7 demoSpectrum))"
proof -
  note h = demoHeader_ok(1)
  have "balances (spectrum demoSpectrum) 5 \<noteq> 0" using demoSpectrum_ok(3) by simp
  then have k: "5 \<in> publicKey ` set (spectrum demoSpectrum)"
    by (auto simp: balances_def split: option.splits dest!: table_map_SomeD)
  obtain root where d: "getSpectrumDigest demoHash 7 demoSpectrum = (root, demoDigested)"
    unfolding demoDigested_def by (cases "getSpectrumDigest demoHash 7 demoSpectrum") simp
  have u: "entity_untouched 5 demoDigested demoLater"
    using other_steps [OF demoLater_step(2) getSpectrumDigest_spectrum_ok [OF demoSpectrum_ok(1) d]] by (simp add: isZero_def)
  have "\<forall>j<8. entity_untouched 5 (lookupView demoViews) (copyViews demoViews j)"
    using u by (simp add: demoViews_def entity_untouched_refl)
  from processRequestEntity_verifiable [OF demoSpectrum_ok(1,2) d _ this, where tick' = 8 and header = demoHeader]
  obtain rsp where r: "processRequestEntity 6 demoHeader 5 demoViews =
      Some [\<lparr>rspSize = sizeofRespondEntity 6, rspType = RESPOND_ENTITY, rspDejavu = hdrDejavu demoHeader, rspData = Some rsp\<rparr>]"
    "publicKey (respEntity rsp) = 5" "length (respSiblings rsp) = 6" "sint (balance (respEntity rsp)) = 100"
    "pathRoot demoHash (nat (respSpectrumIndex rsp)) (demoHash (entity_words (respEntity rsp))) (respSiblings rsp) = root"
    using demoLater_step(2) h k demoSpectrum_ok(3) by (auto simp: demoViews_def isZero_def)
  show ?thesis using demoHeader_ok demoLater_step(3) d r by (simp add: sizeofRespondEntity_def RESPOND_ENTITY_def)
qed

end
