(* ===== verification/Slot_Flags.thy ===== *)
theory Slot_Flags
  imports Prelude
begin

text \<open>
  The occupation flags of the containers of contracts (\<open>HashMap\<close>, \<open>HashSet\<close> and
  \<open>Collection\<close>): two bits per slot, 32 slots to a 64-bit word, read 32 slots at a time by
  \<open>_getEncodedOccupationFlags\<close>, and the double loop in which the containers probe them.
\<close>

section \<open>Flags\<close>

text \<open>0: not occupied, 1: occupied, 2: occupied but marked for removal.\<close>

definition slotFlag :: "u64 list \<Rightarrow> nat \<Rightarrow> u64" where
  "slotFlag flags i = drop_bit (2 * (i mod 32)) (flags ! (i div 32)) AND 3"

definition nEncodedFlags :: "nat \<Rightarrow> nat" where
  "nEncodedFlags L = (if 32 < L then 32 else L)"

definition getEncodedOccupationFlags :: "nat \<Rightarrow> u64 list \<Rightarrow> nat \<Rightarrow> u64" where
  "getEncodedOccupationFlags L flags elementIndex =
     (let offset = push_bit 1 (elementIndex AND 31);
          f = drop_bit offset (flags ! drop_bit 5 elementIndex)
      in if 0 < offset
         then f OR push_bit (2 * nEncodedFlags L - offset) (flags ! drop_bit 5 ((elementIndex + 32) AND (L - 1)))
         else f)"

text \<open>\<open>flags[i >> 5] |= (1ULL << ((i & 31) << 1))\<close>\<close>

definition markOccupied :: "u64 list \<Rightarrow> nat \<Rightarrow> u64 list" where
  "markOccupied flags i = flags[drop_bit 5 i := flags ! drop_bit 5 i OR push_bit (push_bit 1 (i AND 31)) 1]"

text \<open>\<open>flags[i >> 5] ^= (3ULL << ((i & 31) << 1))\<close>\<close>

definition toggleRemoved :: "u64 list \<Rightarrow> nat \<Rightarrow> u64 list" where
  "toggleRemoved flags i = flags[drop_bit 5 i := flags ! drop_bit 5 i XOR push_bit (push_bit 1 (i AND 31)) 3]"

section \<open>The probing loop over groups of flags\<close>

text \<open>
  \<^verbatim>\<open>
  for (counter = 0; counter < L; counter += 32) {
    flags = _getEncodedOccupationFlags(_occupationFlags, index);
    for (i = 0; i < _nEncodedFlags; i++, flags >>= 2) {
      switch (flags & 3) { ... }
      index = (index + 1) & (L - 1);
    }
  }
  \<close>
  \<open>body\<close> is the switch: it leaves the loop with a result or goes on with a new value of
  the local variables.
\<close>

fun scanGroup ::
  "nat \<Rightarrow> (u64 \<Rightarrow> nat \<Rightarrow> 's \<Rightarrow> 'r + 's) \<Rightarrow> nat \<Rightarrow> u64 \<Rightarrow> nat \<Rightarrow> 's \<Rightarrow> 'r + nat \<times> 's" where
  "scanGroup L body 0 flags index s = Inr (index, s)"
| "scanGroup L body (Suc n) flags index s =
     (case body (flags AND 3) index s of
        Inl r \<Rightarrow> Inl r
      | Inr s' \<Rightarrow> scanGroup L body n (drop_bit 2 flags) ((index + 1) AND (L - 1)) s')"

fun scanGroups ::
  "nat \<Rightarrow> u64 list \<Rightarrow> (u64 \<Rightarrow> nat \<Rightarrow> 's \<Rightarrow> 'r + 's) \<Rightarrow> nat \<Rightarrow> nat \<Rightarrow> 's \<Rightarrow> 'r + 's" where
  "scanGroups L fl body 0 index s = Inr s"
| "scanGroups L fl body (Suc g) index s =
     (case scanGroup L body (nEncodedFlags L) (getEncodedOccupationFlags L fl index) index s of
        Inl r \<Rightarrow> Inl r
      | Inr (index', s') \<Rightarrow> scanGroups L fl body g index' s')"

text \<open>The number of values of \<open>counter\<close>.\<close>

definition scanSlots :: "nat \<Rightarrow> u64 list \<Rightarrow> (u64 \<Rightarrow> nat \<Rightarrow> 's \<Rightarrow> 'r + 's) \<Rightarrow> nat \<Rightarrow> 's \<Rightarrow> 'r + 's" where
  "scanSlots L fl body index s = scanGroups L fl body ((L + 31) div 32) index s"

section \<open>Reading the flags\<close>

definition flags_wf :: "nat \<Rightarrow> u64 list \<Rightarrow> bool" where
  "flags_wf d fl \<longleftrightarrow> length fl = (2 ^ d * 2 + 63) div 64 \<and>
     (d < 5 \<longrightarrow> (\<forall>b. 2 * 2 ^ d \<le> b \<longrightarrow> \<not> bit (fl ! 0) b))"

lemma flag_word_index: "drop_bit 5 i = i div 32" "i AND 31 = i mod 32" for i :: nat
  using and_pow2_mask [of i 5] by (simp_all add: drop_bit_eq_div)

lemma three_mask: "(3::u64) = mask 2"
  by (simp add: mask_eq_exp_minus_1)

lemma and_3: "x AND 3 = take_bit 2 x" for x :: u64
  by (simp only: three_mask take_bit_eq_mask)

lemma bit_push_3: "bit (push_bit k 3 :: u64) n \<longleftrightarrow> k \<le> n \<and> n < k + 2 \<and> n < 64"
  unfolding three_mask by (auto simp: bit_push_bit_iff bit_mask_iff)

lemma bit_3_int: "bit (3::int) n \<longleftrightarrow> n < 2"
proof -
  have "(3::int) = mask 2" by (simp add: mask_eq_exp_minus_1)
  then show ?thesis by (simp only: bit_mask_iff) simp
qed

lemma bit_slotFlag: "bit (slotFlag fl i) n \<longleftrightarrow> n < 2 \<and> bit (fl ! (i div 32)) (2 * (i mod 32) + n)"
  by (auto simp: slotFlag_def and_3 bit_take_bit_iff bit_drop_bit_eq)

lemma slotFlag_less: "unat (slotFlag fl i) < 4"
proof -
  have "unat (slotFlag fl i) = take_bit 2 (unat (drop_bit (2 * (i mod 32)) (fl ! (i div 32))))"
    unfolding slotFlag_def and_3 by (rule unsigned_take_bit_eq)
  then show ?thesis using take_bit_nat_less_exp [of 2] by simp
qed

lemma slotFlag_cases: "slotFlag fl i \<in> {0, 1, 2, 3}"
proof -
  define n where "n = unat (slotFlag fl i)"
  have n: "slotFlag fl i = of_nat n" "n = 0 \<or> n = 1 \<or> n = 2 \<or> n = 3"
    using slotFlag_less [of fl i] by (auto simp: n_def)
  from n(2) show ?thesis by (elim disjE) (simp_all add: n(1))
qed

lemma flags_wf_word: "flags_wf d fl \<Longrightarrow> i < 2 ^ d \<Longrightarrow> i div 32 < length fl"
  by (auto simp: flags_wf_def)

lemma group_mod: "5 \<le> d \<Longrightarrow> (x mod 2 ^ d) div 32 = (x div 32) mod 2 ^ (d - 5)" for x :: nat
proof -
  assume "5 \<le> d"
  then obtain k where "d = 5 + k" using le_Suc_ex by blast
  then show ?thesis by (simp add: power_add mod_mult2_eq)
qed

lemma group_mod_inner: "5 \<le> d \<Longrightarrow> (x mod 2 ^ d) mod 32 = x mod 32" for x :: nat
proof -
  assume "5 \<le> d"
  then have "(32::nat) dvd 2 ^ d" using le_imp_power_dvd [of 5 d "2::nat"] by simp
  then show ?thesis by (simp add: mod_mod_cancel)
qed

lemma bit_encoded:
  assumes i: "i < 2 ^ d" and n: "n < 64"
  shows "bit (getEncodedOccupationFlags (2 ^ d) fl i) n \<longleftrightarrow>
    bit (fl ! (i div 32)) (2 * (i mod 32) + n) \<or>
    0 < i mod 32 \<and> 2 * nEncodedFlags (2 ^ d) \<le> 2 * (i mod 32) + n \<and>
      bit (fl ! (((i + 32) mod 2 ^ d) div 32)) (2 * (i mod 32) + n - 2 * nEncodedFlags (2 ^ d))"
proof -
  have o: "push_bit 1 (i AND 31) = 2 * (i mod 32)" by (simp add: flag_word_index)
  have w: "drop_bit 5 ((i + 32) AND (2 ^ d - 1)) = ((i + 32) mod 2 ^ d) div 32"
    by (simp only: flag_word_index and_pow2_mask)
  have e: "2 * nEncodedFlags (2 ^ d) - 2 * (i mod 32) \<le> n \<longleftrightarrow> 2 * nEncodedFlags (2 ^ d) \<le> 2 * (i mod 32) + n"
    by linarith
  have le: "2 * (i mod 32) \<le> 2 * nEncodedFlags (2 ^ d)" using i by (auto simp: nEncodedFlags_def)
  then have e': "n - (2 * nEncodedFlags (2 ^ d) - 2 * (i mod 32)) = 2 * (i mod 32) + n - 2 * nEncodedFlags (2 ^ d)"
    by linarith
  show ?thesis
    unfolding getEncodedOccupationFlags_def Let_def o w flag_word_index(1) [of i]
    using n by (auto simp: bit_or_iff bit_drop_bit_eq bit_push_bit_iff e e')
qed

lemma div_mod_group:
  fixes i j :: nat
  assumes "i mod 32 + j < 32"
  shows "(i + j) div 32 = i div 32" and "(i + j) mod 32 = i mod 32 + j"
proof -
  have "i + j = (i mod 32 + j) + 32 * (i div 32)" using mult_div_mod_eq [of 32 i] by linarith
  then have "(i + j) div 32 = (i mod 32 + j + 32 * (i div 32)) div 32"
    "(i + j) mod 32 = (i mod 32 + j + 32 * (i div 32)) mod 32" by simp_all
  moreover have "(i mod 32 + j + 32 * (i div 32)) div 32 = i div 32"
    using assms by (subst div_mult_self2) simp_all
  moreover have "(i mod 32 + j + 32 * (i div 32)) mod 32 = i mod 32 + j"
    using assms by (subst mod_mult_self2) simp
  ultimately show "(i + j) div 32 = i div 32" "(i + j) mod 32 = i mod 32 + j" by simp_all
qed

lemma div_mod_group_next:
  fixes i j :: nat
  assumes "\<not> i mod 32 + j < 32" and "j < 32"
  shows "(i + j) div 32 = (i + 32) div 32" and "(i + j) mod 32 = i mod 32 + j - 32"
proof -
  have r: "i mod 32 + j - 32 < 32" using assms(2) mod_less_divisor [of 32 i] by linarith
  have "i + j = (i mod 32 + j - 32) + 32 * Suc (i div 32)"
    using mult_div_mod_eq [of 32 i] assms(1) by simp
  then have "(i + j) div 32 = (i mod 32 + j - 32 + 32 * Suc (i div 32)) div 32"
    "(i + j) mod 32 = (i mod 32 + j - 32 + 32 * Suc (i div 32)) mod 32" by simp_all
  moreover have "(i mod 32 + j - 32 + 32 * Suc (i div 32)) div 32 = Suc (i div 32)"
    using r by (subst div_mult_self2) simp_all
  moreover have "(i mod 32 + j - 32 + 32 * Suc (i div 32)) mod 32 = i mod 32 + j - 32"
    using r by (subst mod_mult_self2) simp
  moreover have "(i + 32) div 32 = Suc (i div 32)" using div_add_self2 [of 32 i] by simp
  ultimately show "(i + j) div 32 = (i + 32) div 32" "(i + j) mod 32 = i mod 32 + j - 32" by simp_all
qed

text \<open>The \<open>j\<close>-th flag of a group is that of the \<open>j\<close>-th slot from the start, cyclically.\<close>

lemma encoded_large:
  assumes d: "5 \<le> d" and i: "i < 2 ^ d" and j: "j < 32" and n: "n < 2"
  shows "bit (getEncodedOccupationFlags (2 ^ d) fl i) (2 * j + n) \<longleftrightarrow> bit (slotFlag fl ((i + j) mod 2 ^ d)) n"
proof -
  have "(32::nat) \<le> 2 ^ d" using power_increasing [OF d, of "2::nat"] by simp
  then have L: "nEncodedFlags (2 ^ d) = 32" by (auto simp: nEncodedFlags_def)
  note E = bit_encoded [OF i, of "2 * j + n" fl]
  have m: "((i + j) mod 2 ^ d) mod 32 = (i + j) mod 32" by (rule group_mod_inner [OF d])
  show ?thesis
  proof (cases "i mod 32 + j < 32")
    case True
    note g = div_mod_group(1) [OF True] div_mod_group(2) [OF True]
    have "i div 32 mod 2 ^ (d - 5) = i div 32" using group_mod [OF d, of i] i by simp
    then show ?thesis
      using E True n j g by (simp add: L bit_slotFlag m group_mod [OF d] algebra_simps)
  next
    case False
    note g = div_mod_group_next [OF False j]
    have "\<not> bit (fl ! (i div 32)) (2 * (i mod 32) + (2 * j + n))"
      using False bit_imp_le_length [of "fl ! (i div 32)" "2 * (i mod 32) + (2 * j + n)"] by auto
    moreover have "2 * (i mod 32) + (2 * j + n) - 64 = 2 * (i mod 32 + j - 32) + n" using False by simp
    moreover have "0 < i mod 32" using False j by linarith
    moreover have "2 * j + n < 64" "64 \<le> 2 * (i mod 32) + (2 * j + n)" using False j n by linarith+
    ultimately show ?thesis
      using E n by (simp add: L bit_slotFlag m group_mod [OF d] g)
  qed
qed

lemma encoded_small:
  assumes wf: "flags_wf d fl" and d: "d < 5" and i: "i < 2 ^ d" and j: "j < 2 ^ d" and n: "n < 2"
  shows "bit (getEncodedOccupationFlags (2 ^ d) fl i) (2 * j + n) \<longleftrightarrow> bit (slotFlag fl ((i + j) mod 2 ^ d)) n"
proof -
  have L: "(2::nat) ^ d < 32" using power_strict_increasing [OF d, of "2::nat"] by simp
  then have enc: "nEncodedFlags (2 ^ d) = 2 ^ d" by (simp add: nEncodedFlags_def)
  have z: "i div 32 = 0" "i mod 32 = i" "(x mod 2 ^ d) div 32 = 0" "(x mod 2 ^ d) mod 32 = x mod 2 ^ d" for x :: nat
    using i L less_trans [OF mod_less_divisor L, of x] by auto
  have high: "\<not> bit (fl ! 0) b" if "2 * 2 ^ d \<le> b" for b using wf d that by (simp add: flags_wf_def)
  note E = bit_encoded [OF i, of "2 * j + n" fl]
  show ?thesis
  proof (cases "i + j < 2 ^ d")
    case True
    then show ?thesis using E n L j by (auto simp: bit_slotFlag z enc algebra_simps)
  next
    case False
    then have "(i + j) mod 2 ^ d = i + j - 2 ^ d" using i j by (simp add: mod_if)
    then show ?thesis
      using E n L i j False high [of "2 * i + (2 * j + n)"] by (auto simp: bit_slotFlag z enc algebra_simps)
  qed
qed

lemma encoded_slot:
  assumes wf: "flags_wf d fl" and i: "i < 2 ^ d" and j: "j < nEncodedFlags (2 ^ d)"
  shows "drop_bit (2 * j) (getEncodedOccupationFlags (2 ^ d) fl i) AND 3 = slotFlag fl ((i + j) mod 2 ^ d)"
proof (rule bit_word_eqI)
  fix n
  have "bit (getEncodedOccupationFlags (2 ^ d) fl i) (2 * j + n) \<longleftrightarrow> bit (slotFlag fl ((i + j) mod 2 ^ d)) n"
    if n: "n < 2"
  proof (cases "5 \<le> d")
    case True
    have "j < 32" using j by (simp add: nEncodedFlags_def split: if_splits)
    with encoded_large [OF True i _ n] show ?thesis by blast
  next
    case False
    have "j < 2 ^ d" using j by (simp add: nEncodedFlags_def split: if_splits)
    with encoded_small [OF wf _ i _ n] False show ?thesis by simp
  qed
  then show "bit (drop_bit (2 * j) (getEncodedOccupationFlags (2 ^ d) fl i) AND 3) n \<longleftrightarrow>
      bit (slotFlag fl ((i + j) mod 2 ^ d)) n"
    by (cases "n < 2") (auto simp: and_3 bit_take_bit_iff bit_drop_bit_eq bit_slotFlag)
qed

section \<open>Changing the flags\<close>

lemma flag_pos_eq_iff: "2 * (k mod 32) \<le> 2 * (i mod 32) + n \<and> 2 * (i mod 32) + n < 2 * (k mod 32) + 2 \<longleftrightarrow>
    k mod 32 = i mod 32" if "n < 2" for i k n :: nat
  using that by linarith

lemma word_slot_eq: "k div 32 = i div 32 \<Longrightarrow> k mod 32 = i mod 32 \<Longrightarrow> k = i" for i k :: nat
  by (metis mult_div_mod_eq)

lemma slotFlag_update:
  assumes i: "i div 32 < length fl"
    and eq: "\<And>n. bit w n \<longleftrightarrow> (if 2 * (i mod 32) \<le> n \<and> n < 2 * (i mod 32) + 2
      then bit v (n - 2 * (i mod 32)) else bit (fl ! (i div 32)) n)"
    and v: "unat (v::u64) < 4"
  shows "slotFlag (fl[i div 32 := w]) k = (if k = i then v else slotFlag fl k)"
proof (rule bit_word_eqI)
  fix n
  have hi: "\<not> bit v n" if "2 \<le> n"
  proof
    assume "bit v n"
    then have "2 ^ n \<le> unat v" by (rule bit_word_le)
    moreover have "(2::nat) ^ 2 \<le> 2 ^ n" using that by (intro power_increasing) auto
    ultimately show False using v by simp
  qed
  show "bit (slotFlag (fl[i div 32 := w]) k) n \<longleftrightarrow> bit (if k = i then v else slotFlag fl k) n"
  proof (cases "n < 2")
    case True
    show ?thesis
    proof (cases "k div 32 = i div 32")
      case same: True
      then have "k = i \<longleftrightarrow> k mod 32 = i mod 32" using word_slot_eq by blast
      then show ?thesis
        using same i True eq [of "2 * (k mod 32) + n"] flag_pos_eq_iff [OF True, of i k]
        by (auto simp: bit_slotFlag)
    next
      case False
      then show ?thesis by (auto simp: bit_slotFlag)
    qed
  next
    case False
    then show ?thesis using hi by (auto simp: bit_slotFlag)
  qed
qed

lemma slotFlag_markOccupied:
  assumes wf: "flags_wf d fl" and i: "i < 2 ^ d" and free: "slotFlag fl i = 0"
  shows "slotFlag (markOccupied fl i) k = (if k = i then 1 else slotFlag fl k)"
proof -
  have z: "\<not> bit (fl ! (i div 32)) n" if "2 * (i mod 32) \<le> n" "n < 2 * (i mod 32) + 2" for n
    using free that bit_slotFlag [of fl i "n - 2 * (i mod 32)"] by auto
  have "i mod 32 < 32" by simp
  then have r: "2 * (i mod 32) < 63" by linarith
  have "bit (fl ! (i div 32) OR push_bit (push_bit 1 (i AND 31)) 1) n \<longleftrightarrow>
    (if 2 * (i mod 32) \<le> n \<and> n < 2 * (i mod 32) + 2 then bit (1::u64) (n - 2 * (i mod 32))
     else bit (fl ! (i div 32)) n)" for n
    using z [of n] r
    by (cases "2 * (i mod 32) \<le> n \<and> n < 2 * (i mod 32) + 2") (auto simp: bit_or_iff bit_push_bit_iff bit_1_iff bit_exp_iff flag_word_index)
  then show ?thesis
    unfolding markOccupied_def flag_word_index(1)
    by (intro slotFlag_update) (use flags_wf_word [OF wf i] in auto)
qed

lemma slotFlag_toggleRemoved:
  assumes wf: "flags_wf d fl" and i: "i < 2 ^ d"
  shows "slotFlag (toggleRemoved fl i) k = (if k = i then slotFlag fl i XOR 3 else slotFlag fl k)"
proof -
  have "i mod 32 < 32" by simp
  then have r: "2 * (i mod 32) < 63" by linarith
  have "bit (fl ! (i div 32) XOR push_bit (push_bit 1 (i AND 31)) 3) n \<longleftrightarrow>
    (if 2 * (i mod 32) \<le> n \<and> n < 2 * (i mod 32) + 2 then bit (slotFlag fl i XOR 3) (n - 2 * (i mod 32))
     else bit (fl ! (i div 32)) n)" for n
    using r by (auto simp: bit_xor_iff bit_push_3 bit_slotFlag bit_3_int flag_word_index)
  moreover have "unat (slotFlag fl i XOR 3) < 4"
    by (rule word_less_exp_bits [where n = 2, simplified])
       (auto simp: bit_xor_iff bit_3_int bit_slotFlag)
  ultimately show ?thesis
    unfolding toggleRemoved_def flag_word_index(1)
    by (intro slotFlag_update) (use flags_wf_word [OF wf i] in auto)
qed

lemma flags_wf_update:
  assumes wf: "flags_wf d fl" and i: "i < 2 ^ d"
    and "\<And>n. 2 * (i mod 32) + 2 \<le> n \<Longrightarrow> bit w n \<longleftrightarrow> bit (fl ! (i div 32)) n"
  shows "flags_wf d (fl[i div 32 := w])"
proof -
  have "\<not> bit (fl[i div 32 := w] ! 0) b" if d: "d < 5" and b: "2 * 2 ^ d \<le> b" for b
  proof -
    have "(2::nat) ^ d < 32" using power_strict_increasing [OF d, of "2::nat"] by simp
    then have "i div 32 = 0" "i mod 32 = i" using i by simp_all
    moreover have "2 * i + 2 \<le> b" using i b by linarith
    ultimately show ?thesis using assms(3) [of b] wf d b by (cases fl) (auto simp: flags_wf_def)
  qed
  then show ?thesis using wf by (simp add: flags_wf_def)
qed

lemma flags_wf_markOccupied: "flags_wf d fl \<Longrightarrow> i < 2 ^ d \<Longrightarrow> flags_wf d (markOccupied fl i)"
  unfolding markOccupied_def flag_word_index(1)
  by (rule flags_wf_update) (auto simp: bit_or_iff bit_push_bit_iff bit_1_iff bit_exp_iff flag_word_index)

lemma flags_wf_toggleRemoved: "flags_wf d fl \<Longrightarrow> i < 2 ^ d \<Longrightarrow> flags_wf d (toggleRemoved fl i)"
  unfolding toggleRemoved_def flag_word_index(1)
  by (rule flags_wf_update) (auto simp: bit_xor_iff bit_push_3 flag_word_index)

lemma flags_wf_zero: "flags_wf d (replicate ((2 ^ d * 2 + 63) div 64) 0)"
proof -
  have "(64::nat) \<le> 2 ^ d * 2 + 63" using one_le_power [of "2::nat" d] by linarith
  then have "0 < ((2::nat) ^ d * 2 + 63) div 64" by (simp add: div_greater_zero_iff)
  then show ?thesis by (simp add: flags_wf_def)
qed

lemma slotFlag_zero: "i < 2 ^ d \<Longrightarrow> slotFlag (replicate ((2 ^ d * 2 + 63) div 64) 0) i = 0"
  using flags_wf_word [OF flags_wf_zero] by (simp add: slotFlag_def)

section \<open>The loop over groups visits every slot once\<close>

text \<open>The loop over single slots, each with its flag.\<close>

fun slotLoop :: "nat \<Rightarrow> (nat \<Rightarrow> u64) \<Rightarrow> (u64 \<Rightarrow> nat \<Rightarrow> 's \<Rightarrow> 'r + 's) \<Rightarrow> nat \<Rightarrow> nat \<Rightarrow> 's \<Rightarrow> 'r + 's" where
  "slotLoop L flag body 0 index s = Inr s"
| "slotLoop L flag body (Suc n) index s =
     (case body (flag index) index s of
        Inl r \<Rightarrow> Inl r
      | Inr s' \<Rightarrow> slotLoop L flag body n (Suc index mod L) s')"

lemma scanGroup_slotLoop:
  assumes "\<And>j. j < n \<Longrightarrow> drop_bit (2 * j) f AND 3 = flag ((i + j) mod 2 ^ d)" and "i < 2 ^ d"
  shows "(case scanGroup (2 ^ d) body n f i s of
      Inl r \<Rightarrow> Inl r | Inr (i', s') \<Rightarrow> slotLoop (2 ^ d) flag body m i' s') = slotLoop (2 ^ d) flag body (n + m) i s
    \<and> (\<forall>i' s'. scanGroup (2 ^ d) body n f i s = Inr (i', s') \<longrightarrow> i' < 2 ^ d)"
  using assms
proof (induction n arbitrary: f i s)
  case 0
  then show ?case by simp
next
  case (Suc n)
  have f: "f AND 3 = flag i" using Suc.prems(1) [of 0] Suc.prems(2) by simp
  have g: "drop_bit (2 * j) (drop_bit 2 f) AND 3 = flag ((Suc i mod 2 ^ d + j) mod 2 ^ d)" if "j < n" for j
    using Suc.prems(1) [of "Suc j"] that by (simp add: mod_simps algebra_simps)
  note IH = Suc.IH [of "drop_bit 2 f" "Suc i mod 2 ^ d", OF g]
  have i': "(i + 1) AND (2 ^ d - 1) = Suc i mod 2 ^ d" by (simp only: and_pow2_mask Suc_eq_plus1)
  show ?case
  proof (cases "body (flag i) i s")
    case (Inl r)
    then show ?thesis by (simp add: f)
  next
    case (Inr s')
    then show ?thesis using IH [of s'] by (simp only: scanGroup.simps f i' add_Suc slotLoop.simps sum.case) simp
  qed
qed

lemma scanGroups_slotLoop:
  assumes wf: "flags_wf d fl" and "i < 2 ^ d"
  shows "scanGroups (2 ^ d) fl body g i s = slotLoop (2 ^ d) (slotFlag fl) body (g * nEncodedFlags (2 ^ d)) i s"
  using assms(2)
proof (induction g arbitrary: i s)
  case 0
  then show ?case by simp
next
  case (Suc g)
  let ?n = "nEncodedFlags (2 ^ d)" and ?f = "getEncodedOccupationFlags (2 ^ d) fl i"
  note G = scanGroup_slotLoop [of ?n ?f "slotFlag fl" i d body "g * ?n" s, OF encoded_slot [OF wf Suc.prems] Suc.prems]
  show ?case
  proof (cases "scanGroup (2 ^ d) body ?n ?f i s")
    case (Inl r)
    with G show ?thesis by simp
  next
    case (Inr p)
    obtain i' s' where p: "p = (i', s')" by (cases p)
    with Inr G Suc.IH [of i' s'] show ?thesis by simp
  qed
qed

lemma nEncodedFlags_32: "1 \<le> n \<Longrightarrow> nEncodedFlags (32 * n) = 32"
  by (cases "n = 1") (auto simp: nEncodedFlags_def)

lemma groups_cover: "(2 ^ d + 31) div 32 * nEncodedFlags (2 ^ d) = 2 ^ d"
proof (cases "5 \<le> d")
  case True
  then obtain k where "d = 5 + k" using le_Suc_ex by blast
  then have x: "(2::nat) ^ d = 32 * 2 ^ k" by (simp add: power_add)
  have "(31 + 32 * 2 ^ k) div 32 = (2::nat) ^ k" by (subst div_mult_self2) simp_all
  then show ?thesis using nEncodedFlags_32 [of "2 ^ k"] by (simp add: x add.commute)
next
  case False
  then have "(2::nat) ^ d < 32" using power_strict_increasing [of d 5 "2::nat"] by simp
  moreover have "1 \<le> (2::nat) ^ d" by simp
  ultimately have "(2 ^ d + 31) div 32 = (1::nat)" by linarith
  with \<open>2 ^ d < 32\<close> show ?thesis by (simp add: nEncodedFlags_def)
qed

lemma scanSlots_slotLoop:
  assumes "flags_wf d fl" and "i < 2 ^ d"
  shows "scanSlots (2 ^ d) fl body i s = slotLoop (2 ^ d) (slotFlag fl) body (2 ^ d) i s"
  by (simp add: scanSlots_def scanGroups_slotLoop [OF assms] groups_cover)

end
