(* ===== verification/Hash_Map.thy ===== *)
theory Hash_Map
  imports Slot_Flags Linear_Probing
begin

text \<open>
  The containers \<open>QPI::HashMap\<close> and \<open>QPI::HashSet\<close> of contracts: open addressing with
  linear probing, slots marked for removal, reuse of such slots, and \<open>cleanup\<close>. The
  capacity \<open>L\<close> is the length of the element array. The hash function \<open>HashFunc::hash\<close> and
  the element of zero bytes are parameters.
\<close>

section \<open>State\<close>

record ('k, 'v) HashMap =
  elements :: "('k \<times> 'v) list"
  occupationFlags :: "u64 list"
  hm_population :: u64
  markRemovalCounter :: u64

abbreviation hm_capacity :: "('k, 'v) HashMap \<Rightarrow> nat" where
  "hm_capacity h \<equiv> length (elements h)"

definition hm_reset :: "('k \<times> 'v) \<Rightarrow> ('k, 'v) HashMap \<Rightarrow> ('k, 'v) HashMap" where
  "hm_reset z h = \<lparr>elements = replicate (hm_capacity h) z,
     occupationFlags = replicate ((hm_capacity h * 2 + 63) div 64) 0,
     hm_population = 0, markRemovalCounter = 0\<rparr>"

section \<open>Lookup\<close>

text \<open>\<open>HashFunc::hash(key) & (L - 1)\<close>\<close>

definition hm_home :: "('k \<Rightarrow> u64) \<Rightarrow> nat \<Rightarrow> 'k \<Rightarrow> nat" where
  "hm_home hash L k = unat (hash k) AND (L - 1)"

definition lookupBody :: "('k \<times> 'v) list \<Rightarrow> 'k \<Rightarrow> u64 \<Rightarrow> nat \<Rightarrow> unit \<Rightarrow> nat option + unit" where
  "lookupBody els k f index s =
     (if f = 0 then Inl None
      else if f = 1 then (if fst (els ! index) = k then Inl (Some index) else Inr ())
      else Inr ())"

definition hm_getElementIndex :: "('k \<Rightarrow> u64) \<Rightarrow> ('k, 'v) HashMap \<Rightarrow> 'k \<Rightarrow> nat option" where
  "hm_getElementIndex hash h k =
     (case scanSlots (hm_capacity h) (occupationFlags h) (lookupBody (elements h) k)
             (hm_home hash (hm_capacity h) k) () of
        Inl r \<Rightarrow> r
      | Inr _ \<Rightarrow> None)"

definition hm_contains :: "('k \<Rightarrow> u64) \<Rightarrow> ('k, 'v) HashMap \<Rightarrow> 'k \<Rightarrow> bool" where
  "hm_contains hash h k \<longleftrightarrow> hm_getElementIndex hash h k \<noteq> None"

definition hm_get :: "('k \<Rightarrow> u64) \<Rightarrow> ('k, 'v) HashMap \<Rightarrow> 'k \<Rightarrow> 'v option" where
  "hm_get hash h k =
     (case hm_getElementIndex hash h k of
        Some elementIndex \<Rightarrow> Some (snd (elements h ! elementIndex))
      | None \<Rightarrow> None)"

text \<open>\<open>elementIndex & (L - 1)\<close> of a signed index.\<close>

definition hm_mask :: "nat \<Rightarrow> int \<Rightarrow> nat" where
  "hm_mask L i = nat (i AND (int L - 1))"

definition hm_key :: "('k, 'v) HashMap \<Rightarrow> int \<Rightarrow> 'k" where
  "hm_key h elementIndex = fst (elements h ! hm_mask (hm_capacity h) elementIndex)"

definition hm_value :: "('k, 'v) HashMap \<Rightarrow> int \<Rightarrow> 'v" where
  "hm_value h elementIndex = snd (elements h ! hm_mask (hm_capacity h) elementIndex)"

definition hm_isEmptySlot :: "('k, 'v) HashMap \<Rightarrow> int \<Rightarrow> bool" where
  "hm_isEmptySlot h elementIndex \<longleftrightarrow>
     getEncodedOccupationFlags (hm_capacity h) (occupationFlags h) (hm_mask (hm_capacity h) elementIndex) AND 3 \<noteq> 1"

section \<open>Insertion\<close>

text \<open>How the search in \<open>set\<close> ends: the label or the case it reaches.\<close>

datatype set_slot = EmptySlot nat | Present nat | Reuse nat

definition setBody :: "('k \<times> 'v) list \<Rightarrow> 'k \<Rightarrow> u64 \<Rightarrow> nat \<Rightarrow> nat option \<Rightarrow> set_slot + nat option" where
  "setBody els k f index marked =
     (if f = 0 then Inl (case marked of Some j \<Rightarrow> Reuse j | None \<Rightarrow> EmptySlot index)
      else if f = 1 then (if fst (els ! index) = k then Inl (Present index) else Inr marked)
      else if f = 2 then Inr (if marked = None then Some index else marked)
      else Inr marked)"

definition hm_reuse :: "'k \<Rightarrow> 'v \<Rightarrow> nat \<Rightarrow> ('k, 'v) HashMap \<Rightarrow> ('k, 'v) HashMap" where
  "hm_reuse k v index h = h\<lparr>occupationFlags := toggleRemoved (occupationFlags h) index,
     elements := (elements h)[index := (k, v)], hm_population := hm_population h + 1\<rparr>"

definition hm_set ::
  "('k \<Rightarrow> u64) \<Rightarrow> 'k \<Rightarrow> 'v \<Rightarrow> ('k, 'v) HashMap \<Rightarrow> nat option \<times> ('k, 'v) HashMap" where
  "hm_set hash k v h =
     (if unat (hm_population h) < hm_capacity h
      then case scanSlots (hm_capacity h) (occupationFlags h) (setBody (elements h) k)
                  (hm_home hash (hm_capacity h) k) None of
             Inl (EmptySlot index) \<Rightarrow>
               (Some index, h\<lparr>occupationFlags := markOccupied (occupationFlags h) index,
                  elements := (elements h)[index := (k, v)], hm_population := hm_population h + 1\<rparr>)
           | Inl (Present index) \<Rightarrow>
               (Some index, h\<lparr>elements := (elements h)[index := (fst (elements h ! index), v)]\<rparr>)
           | Inl (Reuse index) \<Rightarrow> (Some index, hm_reuse k v index h)
           | Inr (Some index) \<Rightarrow> (Some index, hm_reuse k v index h)
           | Inr None \<Rightarrow> (None, h)
      else case hm_getElementIndex hash h k of
             Some index \<Rightarrow> (Some index, h\<lparr>elements := (elements h)[index := (fst (elements h ! index), v)]\<rparr>)
           | None \<Rightarrow> (None, h))"

definition hm_replace ::
  "('k \<Rightarrow> u64) \<Rightarrow> 'k \<Rightarrow> 'v \<Rightarrow> ('k, 'v) HashMap \<Rightarrow> bool \<times> ('k, 'v) HashMap" where
  "hm_replace hash k v h =
     (case hm_getElementIndex hash h k of
        Some index \<Rightarrow> (True, h\<lparr>elements := (elements h)[index := (fst (elements h ! index), v)]\<rparr>)
      | None \<Rightarrow> (False, h))"

section \<open>Removal\<close>

definition hm_removeByIndex :: "('k \<times> 'v) \<Rightarrow> int \<Rightarrow> ('k, 'v) HashMap \<Rightarrow> ('k, 'v) HashMap" where
  "hm_removeByIndex z elementIdx h =
     (let i = hm_mask (hm_capacity h) elementIdx
      in if getEncodedOccupationFlags (hm_capacity h) (occupationFlags h) i AND 3 = 1
         then h\<lparr>hm_population := hm_population h - 1, markRemovalCounter := markRemovalCounter h + 1,
                occupationFlags := toggleRemoved (occupationFlags h) i, elements := (elements h)[i := z]\<rparr>
         else h)"

definition hm_removeByKey ::
  "('k \<Rightarrow> u64) \<Rightarrow> ('k \<times> 'v) \<Rightarrow> 'k \<Rightarrow> ('k, 'v) HashMap \<Rightarrow> nat option \<times> ('k, 'v) HashMap" where
  "hm_removeByKey hash z k h =
     (case hm_getElementIndex hash h k of
        None \<Rightarrow> (None, h)
      | Some i \<Rightarrow> (Some i, hm_removeByIndex z (int i) h))"

section \<open>Iteration\<close>

text \<open>
  The read of the word after the last one, whose value the code never uses, is 0 here.
\<close>

definition flagWord :: "u64 list \<Rightarrow> nat \<Rightarrow> u64" where
  "flagWord fl i = (if i < length fl then fl ! i else 0)"

fun nextInGroup :: "nat \<Rightarrow> nat \<Rightarrow> u64 \<Rightarrow> nat option" where
  "nextInGroup 0 i f = None"
| "nextInGroup (Suc n) i f =
     (if f = 0 then None else if f AND 3 = 1 then Some i else nextInGroup n (i + 1) (drop_bit 2 f))"

fun nextGroups :: "nat \<Rightarrow> u64 list \<Rightarrow> nat \<Rightarrow> nat \<Rightarrow> nat \<Rightarrow> u64 \<Rightarrow> nat option" where
  "nextGroups L fl 0 flagsIdx offset f = None"
| "nextGroups L fl (Suc g) flagsIdx offset f =
     (case nextInGroup (nEncodedFlags L - offset) offset f of
        Some i \<Rightarrow> Some (push_bit 5 flagsIdx + i)
      | None \<Rightarrow> nextGroups L fl g (flagsIdx + 1) 0 (flagWord fl (flagsIdx + 1)))"

definition hm_nextElementIndex :: "('k, 'v) HashMap \<Rightarrow> int \<Rightarrow> nat option" where
  "hm_nextElementIndex h elementIndex =
     (if hm_population h = 0 then None
      else let e = (if elementIndex < 0 then 0 else nat elementIndex + 1);
               flagsLength = max (drop_bit 5 (hm_capacity h)) 1;
               flagsIdx = drop_bit 5 e; offset = e AND 31
           in nextGroups (hm_capacity h) (occupationFlags h) (flagsLength - flagsIdx) flagsIdx offset
                (drop_bit (2 * offset) (flagWord (occupationFlags h) flagsIdx)))"

section \<open>Cleanup\<close>

definition hm_needsCleanup :: "u64 \<Rightarrow> ('k, 'v) HashMap \<Rightarrow> bool" where
  "hm_needsCleanup removalThresholdPercent h \<longleftrightarrow>
     removalThresholdPercent * of_nat (hm_capacity h) div 100 < markRemovalCounter h"

text \<open>The search of an empty position in the new map.\<close>

fun findFreeGroup :: "nat \<Rightarrow> nat \<Rightarrow> u64 \<Rightarrow> nat option" where
  "findFreeGroup 0 i f = None"
| "findFreeGroup (Suc n) i f = (if f AND 3 = 0 then Some i else findFreeGroup n (i + 1) (drop_bit 2 f))"

fun findFree :: "nat \<Rightarrow> u64 list \<Rightarrow> nat \<Rightarrow> nat \<Rightarrow> nat option" where
  "findFree L fl 0 newIndex = None"
| "findFree L fl (Suc g) newIndex =
     (case findFreeGroup (nEncodedFlags L) 0 (getEncodedOccupationFlags L fl newIndex) of
        Some i \<Rightarrow> Some ((newIndex + i) AND (L - 1))
      | None \<Rightarrow> findFree L fl g ((newIndex + nEncodedFlags L) AND (L - 1)))"

text \<open>The buffers: new elements, new flags and \<open>newPopulation\<close>; and how the transfer goes on.\<close>

type_synonym ('k, 'v) clean_buffers = "('k \<times> 'v) list \<times> u64 list \<times> u64"

datatype ('k, 'v) clean_outcome =
  CleanupBug | Transferred "('k \<times> 'v) list" "u64 list" | Continue "('k, 'v) clean_buffers"

definition moveElement ::
  "('k \<Rightarrow> u64) \<Rightarrow> ('k, 'v) HashMap \<Rightarrow> nat \<Rightarrow> ('k, 'v) clean_buffers \<Rightarrow> ('k, 'v) clean_outcome" where
  "moveElement hash h oldIndex = (\<lambda>(els, fl, newPopulation).
     case findFree (hm_capacity h) fl ((hm_capacity h + 31) div 32)
            (hm_home hash (hm_capacity h) (fst (elements h ! oldIndex))) of
       None \<Rightarrow> CleanupBug
     | Some newIndex \<Rightarrow>
         let fl' = markOccupied fl newIndex; els' = els[newIndex := elements h ! oldIndex]
         in if newPopulation + 1 = hm_population h then Transferred els' fl'
            else Continue (els', fl', newPopulation + 1))"

text \<open>The loop over the bits of one group of flags.\<close>

function cleanSlots ::
  "('k \<Rightarrow> u64) \<Rightarrow> ('k, 'v) HashMap \<Rightarrow> nat \<Rightarrow> nat \<Rightarrow> nat \<Rightarrow> u64 \<Rightarrow> ('k, 'v) clean_buffers
     \<Rightarrow> ('k, 'v) clean_outcome" where
  "cleanSlots hash h oldIndexGroup oldIndexOffsetEnd oldIndexOffset maskBits b =
     (if oldIndexOffset < oldIndexOffsetEnd
      then if maskBits AND 3 \<noteq> 0
           then case moveElement hash h (push_bit 5 oldIndexGroup + drop_bit 1 oldIndexOffset) b of
                  Continue b' \<Rightarrow> cleanSlots hash h oldIndexGroup oldIndexOffsetEnd (oldIndexOffset + 2)
                                   (drop_bit 2 maskBits) b'
                | r \<Rightarrow> r
           else cleanSlots hash h oldIndexGroup oldIndexOffsetEnd (oldIndexOffset + 2) (drop_bit 2 maskBits) b
      else Continue b)"
  by pat_completeness auto
termination
  by (relation "measure (\<lambda>(hash, h, g, e, off, m, b). e - off)") auto

declare cleanSlots.simps [simp del]

definition cleanMask :: "u64 \<Rightarrow> u64" where
  "cleanMask flags =
     (let maskBits = 0xAAAAAAAAAAAAAAAA AND push_bit 1 flags
      in maskBits AND (maskBits XOR (flags AND 0xAAAAAAAAAAAAAAAA)))"

fun cleanGroups ::
  "('k \<Rightarrow> u64) \<Rightarrow> ('k, 'v) HashMap \<Rightarrow> nat list \<Rightarrow> ('k, 'v) clean_buffers \<Rightarrow> ('k, 'v) clean_outcome" where
  "cleanGroups hash h [] b = Continue b"
| "cleanGroups hash h (g # gs) b =
     (let maskBits = cleanMask (occupationFlags h ! g);
          oldIndexOffset = tzcnt64 maskBits AND 0xFE;
          oldIndexOffsetEnd = 64 - (lzcnt64 maskBits AND 0xFE)
      in case cleanSlots hash h g oldIndexOffsetEnd oldIndexOffset (drop_bit oldIndexOffset maskBits) b of
           Continue b' \<Rightarrow> cleanGroups hash h gs b'
         | r \<Rightarrow> r)"

text \<open>On \<open>cleanupBug\<close> the map is left as it was.\<close>

definition hm_cleanup :: "('k \<Rightarrow> u64) \<Rightarrow> ('k \<times> 'v) \<Rightarrow> ('k, 'v) HashMap \<Rightarrow> ('k, 'v) HashMap" where
  "hm_cleanup hash z h =
     (if markRemovalCounter h = 0 then h
      else if hm_population h = 0 then hm_reset z h
      else case cleanGroups hash h [0..<if drop_bit 5 (hm_capacity h) \<noteq> 0 then drop_bit 5 (hm_capacity h) else 1]
                  (replicate (hm_capacity h) z, replicate (length (occupationFlags h)) 0, 0) of
             Transferred els fl \<Rightarrow> h\<lparr>elements := els, occupationFlags := fl, markRemovalCounter := 0\<rparr>
           | _ \<Rightarrow> h)"

definition hm_cleanupIfNeeded ::
  "('k \<Rightarrow> u64) \<Rightarrow> ('k \<times> 'v) \<Rightarrow> u64 \<Rightarrow> ('k, 'v) HashMap \<Rightarrow> ('k, 'v) HashMap" where
  "hm_cleanupIfNeeded hash z removalThresholdPercent h =
     (if removalThresholdPercent * of_nat (hm_capacity h) div 100 < markRemovalCounter h
      then hm_cleanup hash z h else h)"

section \<open>The map that the slots hold\<close>

type_synonym ('k, 'v) slot = "u64 \<times> 'k \<times> 'v"

definition slot_vacant :: "('k, 'v) slot \<Rightarrow> bool" where "slot_vacant e \<longleftrightarrow> fst e = 0"
definition slot_live :: "('k, 'v) slot \<Rightarrow> bool" where "slot_live e \<longleftrightarrow> fst e = 1"
definition slot_key :: "('k, 'v) slot \<Rightarrow> 'k" where "slot_key e = fst (snd e)"

lemmas slot_defs = slot_vacant_def slot_live_def slot_key_def

definition slots :: "('k \<times> 'v) list \<Rightarrow> u64 list \<Rightarrow> ('k, 'v) slot list" where
  "slots els fl = map (\<lambda>i. (slotFlag fl i, els ! i)) [0..<length els]"

abbreviation hm_slots :: "('k, 'v) HashMap \<Rightarrow> ('k, 'v) slot list" where
  "hm_slots h \<equiv> slots (elements h) (occupationFlags h)"

definition hm_map :: "('k, 'v) HashMap \<Rightarrow> 'k \<rightharpoonup> 'v" where
  "hm_map h k = map_option (\<lambda>e. snd (snd e)) (table_map slot_live slot_key (hm_slots h) k)"

definition hash_map_ok :: "('k \<Rightarrow> u64) \<Rightarrow> nat \<Rightarrow> ('k, 'v) HashMap \<Rightarrow> bool" where
  "hash_map_ok hash d h \<longleftrightarrow> d < 63 \<and> hm_capacity h = 2 ^ d \<and> flags_wf d (occupationFlags h) \<and>
     chained slot_vacant slot_live slot_key (hm_home hash) (hm_slots h) \<and>
     keys_unique slot_live slot_key (hm_slots h) \<and>
     (\<forall>i<2 ^ d. slotFlag (occupationFlags h) i \<noteq> 3) \<and>
     unat (hm_population h) = length (filter slot_live (hm_slots h))"

interpretation hm_tbl: probing_table "slot_vacant :: ('k, 'v) slot \<Rightarrow> bool" slot_live slot_key "hm_home hash"
  for hash :: "'k \<Rightarrow> u64"
  by unfold_locales (auto simp: slot_defs hm_home_def mask_simps)

lemma hash_map_okD:
  assumes "hash_map_ok hash d h"
  shows "d < 63" "hm_capacity h = 2 ^ d" "flags_wf d (occupationFlags h)"
    "chained slot_vacant slot_live slot_key (hm_home hash) (hm_slots h)"
    "keys_unique slot_live slot_key (hm_slots h)"
    "\<And>i. i < 2 ^ d \<Longrightarrow> slotFlag (occupationFlags h) i \<noteq> 3"
    "unat (hm_population h) = length (filter slot_live (hm_slots h))"
  using assms by (simp_all add: hash_map_ok_def)

lemma length_slots [simp]: "length (slots els fl) = length els"
  by (simp add: slots_def)

lemma nth_slots [simp]: "i < length els \<Longrightarrow> slots els fl ! i = (slotFlag fl i, els ! i)"
  by (simp add: slots_def)

lemma hm_home_less: "hm_home hash (2 ^ d) k < 2 ^ d"
  by (simp add: hm_home_def mask_simps)

lemma slots_update:
  assumes "i < length els" and "\<And>k. slotFlag fl' k = (if k = i then f else slotFlag fl k)"
  shows "slots (els[i := e]) fl' = (slots els fl)[i := (f, e)]"
  using assms by (auto intro!: nth_equalityI simp: nth_list_update)

section \<open>The loops as probes\<close>

definition stop_at :: "(nat \<Rightarrow> u64) \<Rightarrow> ('k \<times> 'v) list \<Rightarrow> 'k \<Rightarrow> nat \<Rightarrow> bool" where
  "stop_at flag els k i \<longleftrightarrow> flag i = 0 \<or> flag i = 1 \<and> fst (els ! i) = k"

lemma lookup_loop:
  "slotLoop (2 ^ d) flag (lookupBody els k) n i () =
    (case probe (2 ^ d) (stop_at flag els k) n i of
       None \<Rightarrow> Inr () | Some j \<Rightarrow> Inl (if flag j = 1 then Some j else None))"
  by (induction n arbitrary: i) (auto simp: stop_at_def lookupBody_def mask_simps)

lemma set_loop_marked:
  "slotLoop (2 ^ d) flag (setBody els k) n i (Some t) =
    (case probe (2 ^ d) (stop_at flag els k) n i of
       None \<Rightarrow> Inr (Some t) | Some j \<Rightarrow> Inl (if flag j = 1 then Present j else Reuse t))"
  by (induction n arbitrary: i) (auto simp: stop_at_def setBody_def mask_simps)

lemma set_loop:
  "slotLoop (2 ^ d) flag (setBody els k) n i None =
    (case probe (2 ^ d) (\<lambda>i. stop_at flag els k i \<or> flag i = 2) n i of
       None \<Rightarrow> Inr None
     | Some t \<Rightarrow>
         if flag t = 2
         then (case probe (2 ^ d) (stop_at flag els k) n i of
                 None \<Rightarrow> Inr (Some t) | Some j \<Rightarrow> Inl (if flag j = 1 then Present j else Reuse t))
         else Inl (if flag t = 1 then Present t else EmptySlot t))"
proof (induction n arbitrary: i)
  case (Suc n)
  consider "stop_at flag els k i" | "\<not> stop_at flag els k i" "flag i = 2"
    | "\<not> stop_at flag els k i" "flag i \<noteq> 2" by blast
  then show ?case
  proof cases
    case 1
    then show ?thesis by (auto simp: stop_at_def setBody_def)
  next
    case 2
    then have "setBody els k (flag i) i None = Inr (Some i)" by (simp add: setBody_def)
    with 2 show ?thesis by (simp add: mask_simps set_loop_marked)
  next
    case 3
    then have "setBody els k (flag i) i None = Inr None" by (auto simp: stop_at_def setBody_def)
    with 3 Suc.IH show ?thesis by (simp add: mask_simps split: option.split)
  qed
qed simp

lemma find_slot_probe:
  assumes "hm_capacity h = 2 ^ d"
  shows "find_slot slot_vacant slot_live slot_key (hm_home hash) (hm_slots h) k =
    probe (2 ^ d) (stop_at (slotFlag (occupationFlags h)) (elements h) k) (2 ^ d) (hm_home hash (2 ^ d) k)"
  unfolding find_slot_def length_slots assms
  by (rule probe_cong) (auto simp: stop_at_def slot_defs assms hm_home_less)

lemma hm_getElementIndex_eq:
  assumes ok: "hash_map_ok hash d h"
  shows "hm_getElementIndex hash h k =
    (case find_slot slot_vacant slot_live slot_key (hm_home hash) (hm_slots h) k of
       None \<Rightarrow> None | Some j \<Rightarrow> if slotFlag (occupationFlags h) j = 1 then Some j else None)"
proof -
  note O = hash_map_okD [OF ok]
  show ?thesis
    by (simp add: hm_getElementIndex_def O(2) scanSlots_slotLoop [OF O(3) hm_home_less] lookup_loop
        find_slot_probe [OF O(2)] split: option.split)
qed

section \<open>Lookup is correct\<close>

lemma hm_map_eq:
  "hm_map h k = (case table_map slot_live slot_key (hm_slots h) k of None \<Rightarrow> None | Some e \<Rightarrow> Some (snd (snd e)))"
  by (simp add: hm_map_def map_option_case)

lemma hm_getElementIndex_correct:
  assumes ok: "hash_map_ok hash d h"
  shows "(case hm_getElementIndex hash h k of
      None \<Rightarrow> table_map slot_live slot_key (hm_slots h) k = None
    | Some i \<Rightarrow> i < 2 ^ d \<and> slotFlag (occupationFlags h) i = 1 \<and> fst (elements h ! i) = k \<and>
        table_map slot_live slot_key (hm_slots h) k = Some (1, elements h ! i))"
proof (cases "find_slot slot_vacant slot_live slot_key (hm_home hash) (hm_slots h) k")
  case None
  note O = hash_map_okD [OF ok]
  have len: "length (hm_slots h) = 2 ^ d" using O(2) by simp
  have "table_map slot_live slot_key (hm_slots h) k = None"
  proof (rule ccontr)
    assume "table_map slot_live slot_key (hm_slots h) k \<noteq> None"
    then obtain i where "i < length (hm_slots h)" "slot_live (hm_slots h ! i)" "slot_key (hm_slots h ! i) = k"
      by (auto simp: table_map_None_iff)
    with hm_tbl.find_slot_live [OF len O(4,5), of i] None show False by simp
  qed
  with None show ?thesis by (simp add: hm_getElementIndex_eq [OF ok])
next
  case (Some j)
  note O = hash_map_okD [OF ok]
  have len: "length (hm_slots h) = 2 ^ d" using O(2) by simp
  note F = hm_tbl.find_slot_SomeD [OF len O(4) Some]
  show ?thesis
  proof (cases "slotFlag (occupationFlags h) j = 1")
    case True
    with F have "slot_live (hm_slots h ! j)" "slot_key (hm_slots h ! j) = k"
      by (auto simp: slot_defs)
    moreover from table_map_live [OF O(5) F(1) this(1)] this(2)
    have "table_map slot_live slot_key (hm_slots h) k = Some (hm_slots h ! j)" by simp
    ultimately show ?thesis
      using F(1) True Some O(2) by (simp add: hm_getElementIndex_eq [OF ok] slot_defs)
  next
    case False
    with F have "table_map slot_live slot_key (hm_slots h) k = None" by (auto simp: slot_live_def)
    with False Some show ?thesis by (simp add: hm_getElementIndex_eq [OF ok])
  qed
qed

lemma hm_get_correct:
  assumes "hash_map_ok hash d h"
  shows "hm_get hash h k = hm_map h k"
  using hm_getElementIndex_correct [OF assms, of k]
  by (auto simp: hm_get_def hm_map_eq split: option.splits)

section \<open>Insertion is correct\<close>

lemma hm_map_upd:
  assumes "table_map slot_live slot_key (slots els' fl') = (table_map slot_live slot_key (hm_slots h))(k \<mapsto> (1, e))"
    and "elements h' = els'" "occupationFlags h' = fl'"
  shows "hm_map h' = (hm_map h)(k \<mapsto> snd e)"
  using assms by (auto simp: hm_map_def fun_eq_iff)

lemma hm_overwrite_ok:
  assumes ok: "hash_map_ok hash d h" and i: "i < 2 ^ d" "slotFlag (occupationFlags h) i = 1"
    and k: "fst (elements h ! i) = k"
    and h'_def: "h' = h\<lparr>elements := (elements h)[i := (fst (elements h ! i), v)]\<rparr>"
  shows "hash_map_ok hash d h'" and "hm_map h' = (hm_map h)(k \<mapsto> v)"
proof -
  note O = hash_map_okD [OF ok]
  have len: "length (hm_slots h) = 2 ^ d" using O(2) by simp
  have il: "i < length (hm_slots h)" using i(1) len by simp
  have live: "slot_live (hm_slots h ! i)" using i O(2) by (simp add: slot_live_def)
  have s: "slots ((elements h)[i := (k, v)]) (occupationFlags h) = (hm_slots h)[i := (1, k, v)]"
    using i O(2) by (intro slots_update) auto
  have e: "slot_live (1, k, v)" "slot_key (1, k, v) = slot_key (hm_slots h ! i)"
    using i(1) O(2) k by (simp_all add: slot_defs)
  note W = hm_tbl.overwrite [OF len O(4,5) il live e]
  have n: "length (filter slot_live ((hm_slots h)[i := (1, k, v)])) = length (filter slot_live (hm_slots h))"
    using length_filter_update [OF il, of slot_live "(1, k, v)"] live e by simp
  show "hash_map_ok hash d h'"
    using O W n s k by (simp add: hash_map_ok_def h'_def)
  show "hm_map h' = (hm_map h)(k \<mapsto> v)"
    using hm_map_upd [where e = "(k, v)" and h' = h' and els' = "(elements h)[i := (k, v)]"
        and fl' = "occupationFlags h" and k = k and h = h] W(3) s k
    by (simp add: h'_def slot_key_def)
qed

lemma hm_fill_ok:
  assumes ok: "hash_map_ok hash d h" and t: "t < 2 ^ d" "slotFlag (occupationFlags h) t \<noteq> 1"
    and absent: "table_map slot_live slot_key (hm_slots h) k = None"
    and room: "unat (hm_population h) < 2 ^ d"
    and path: "\<And>j. j < 2 ^ d \<Longrightarrow> steps_to (2 ^ d) (hm_home hash (2 ^ d) k) j
      < steps_to (2 ^ d) (hm_home hash (2 ^ d) k) t \<Longrightarrow> slotFlag (occupationFlags h) j \<noteq> 0"
    and fl: "flags_wf d fl" "\<And>j. slotFlag fl j = (if j = t then 1 else slotFlag (occupationFlags h) j)"
    and h'_def: "h' = h\<lparr>occupationFlags := fl, elements := (elements h)[t := (k, v)],
      hm_population := hm_population h + 1\<rparr>"
  shows "hash_map_ok hash d h'" and "hm_map h' = (hm_map h)(k \<mapsto> v)"
proof -
  note O = hash_map_okD [OF ok]
  have len: "length (hm_slots h) = 2 ^ d" using O(2) by simp
  have tl: "t < length (hm_slots h)" using t(1) len by simp
  have nl: "\<not> slot_live (hm_slots h ! t)" using t O(2) by (simp add: slot_live_def)
  have s: "slots ((elements h)[t := (k, v)]) fl = (hm_slots h)[t := (1, k, v)]"
    using t fl(2) O(2) by (intro slots_update) auto
  have e: "slot_live (1, k, v)" "slot_key (1, k, v) = k" by (simp_all add: slot_defs)
  have p: "\<not> slot_vacant (hm_slots h ! j)" if "j < 2 ^ d"
    "steps_to (2 ^ d) (hm_home hash (2 ^ d) (slot_key (1, k, v))) j
      < steps_to (2 ^ d) (hm_home hash (2 ^ d) (slot_key (1, k, v))) t" for j
    using path that O(2) by (simp add: slot_defs)
  have absent': "table_map slot_live slot_key (hm_slots h) (slot_key (1, k, v)) = None"
    using absent e(2) by simp
  note F = hm_tbl.fill [OF len O(4,5) tl nl absent' e(1) p]
  have n: "length (filter slot_live ((hm_slots h)[t := (1, k, v)])) = Suc (length (filter slot_live (hm_slots h)))"
    using length_filter_update [OF tl, of slot_live "(1, k, v)"] nl e by simp
  have "(2::nat) ^ d \<le> 2 ^ 63" using O(1) by (intro power_increasing) auto
  then have "unat (hm_population h + 1) = Suc (unat (hm_population h))"
    using room by (simp add: unat_word_ariths unat_1)
  moreover have "slotFlag fl j \<noteq> 3" if "j < 2 ^ d" for j using fl(2) O(6) that by simp
  ultimately show "hash_map_ok hash d h'"
    using O F n s fl(1) by (simp add: hash_map_ok_def h'_def)
  show "hm_map h' = (hm_map h)(k \<mapsto> v)"
    using hm_map_upd [where e = "(k, v)" and h' = h' and els' = "(elements h)[t := (k, v)]"
        and fl' = fl and k = k and h = h] F(3) s e(2)
    by (simp add: h'_def)
qed

lemma absent_unless_found:
  assumes ok: "hash_map_ok hash d h"
    and "\<And>j. probe (2 ^ d) (stop_at (slotFlag (occupationFlags h)) (elements h) k) (2 ^ d) (hm_home hash (2 ^ d) k)
      = Some j \<Longrightarrow> slotFlag (occupationFlags h) j \<noteq> 1"
  shows "table_map slot_live slot_key (hm_slots h) k = None"
  using hm_getElementIndex_correct [OF ok, of k] assms(2)
  by (auto simp: hm_getElementIndex_eq [OF ok] find_slot_probe [OF hash_map_okD(2) [OF ok]] split: option.splits if_splits)

lemma full_map:
  assumes ok: "hash_map_ok hash d h"
    and "\<And>i. i < 2 ^ d \<Longrightarrow> slotFlag (occupationFlags h) i \<noteq> 0 \<and> slotFlag (occupationFlags h) i \<noteq> 2"
  shows "unat (hm_population h) = 2 ^ d"
proof -
  note O = hash_map_okD [OF ok]
  have "slotFlag (occupationFlags h) i = 1" if "i < 2 ^ d" for i
    using slotFlag_cases [of "occupationFlags h" i] assms(2) [OF that] O(6) [OF that] by auto
  then have "filter slot_live (hm_slots h) = hm_slots h"
    by (auto simp: filter_id_conv in_set_conv_nth slot_live_def O(2))
  then show ?thesis using O(2,7) by simp
qed

definition set_outcome ::
  "('k \<Rightarrow> u64) \<Rightarrow> nat \<Rightarrow> 'k \<Rightarrow> 'v \<Rightarrow> ('k, 'v) HashMap \<Rightarrow> nat option \<times> ('k, 'v) HashMap \<Rightarrow> bool" where
  "set_outcome hash d k v h = (\<lambda>(r, h').
     if k \<in> dom (hm_map h) \<or> unat (hm_population h) < hm_capacity h
     then (\<exists>i<hm_capacity h. r = Some i \<and> elements h' ! i = (k, v)) \<and>
       hash_map_ok hash d h' \<and> hm_map h' = (hm_map h)(k \<mapsto> v)
     else r = None \<and> h' = h)"

lemma hm_set_present:
  assumes ok: "hash_map_ok hash d h" and "hm_getElementIndex hash h k = Some i"
  shows "set_outcome hash d k v h (Some i, h\<lparr>elements := (elements h)[i := (fst (elements h ! i), v)]\<rparr>)"
proof -
  have i: "i < 2 ^ d" "slotFlag (occupationFlags h) i = 1" "fst (elements h ! i) = k"
    "table_map slot_live slot_key (hm_slots h) k = Some (1, elements h ! i)"
    using hm_getElementIndex_correct [OF ok, of k] assms(2) by simp_all
  have "k \<in> dom (hm_map h)" using i(4) by (simp add: hm_map_eq dom_def)
  then show ?thesis
    using hm_overwrite_ok [OF ok i(1-3) refl, of v] i hash_map_okD(2) [OF ok] by (simp add: set_outcome_def)
qed

lemma hm_set_fill:
  assumes ok: "hash_map_ok hash d h" and room: "unat (hm_population h) < hm_capacity h"
    and t: "t < 2 ^ d" "slotFlag (occupationFlags h) t \<noteq> 1"
    and absent: "table_map slot_live slot_key (hm_slots h) k = None"
    and path: "\<And>j. j < 2 ^ d \<Longrightarrow> steps_to (2 ^ d) (hm_home hash (2 ^ d) k) j
      < steps_to (2 ^ d) (hm_home hash (2 ^ d) k) t \<Longrightarrow> slotFlag (occupationFlags h) j \<noteq> 0"
    and fl: "flags_wf d fl" "\<And>j. slotFlag fl j = (if j = t then 1 else slotFlag (occupationFlags h) j)"
  shows "set_outcome hash d k v h (Some t, h\<lparr>occupationFlags := fl, elements := (elements h)[t := (k, v)],
      hm_population := hm_population h + 1\<rparr>)"
proof -
  have r: "unat (hm_population h) < 2 ^ d" using room hash_map_okD(2) [OF ok] by simp
  show ?thesis
    using hm_fill_ok [OF ok t absent r path fl refl, of v] room t hash_map_okD(2) [OF ok]
    by (simp add: set_outcome_def)
qed

lemma hm_set_reuse:
  assumes ok: "hash_map_ok hash d h" and room: "unat (hm_population h) < hm_capacity h"
    and t: "probe (2 ^ d) (\<lambda>i. stop_at (slotFlag (occupationFlags h)) (elements h) k i \<or> slotFlag (occupationFlags h) i = 2)
      (2 ^ d) (hm_home hash (2 ^ d) k) = Some t" and f: "slotFlag (occupationFlags h) t = 2"
    and absent: "table_map slot_live slot_key (hm_slots h) k = None"
  shows "set_outcome hash d k v h (Some t, hm_reuse k v t h)"
proof -
  note O = hash_map_okD [OF ok]
  have tl: "t < 2 ^ d" using probe_less [OF t hm_home_less] by simp
  show ?thesis
    unfolding hm_reuse_def
  proof (rule hm_set_fill [OF ok room tl _ absent])
    show "slotFlag (occupationFlags h) t \<noteq> 1" using f by simp
    show "flags_wf d (toggleRemoved (occupationFlags h) t)" by (rule flags_wf_toggleRemoved [OF O(3) tl])
    show "slotFlag (toggleRemoved (occupationFlags h) t) j = (if j = t then 1 else slotFlag (occupationFlags h) j)" for j
      by (simp add: slotFlag_toggleRemoved [OF O(3) tl] f)
    show "slotFlag (occupationFlags h) j \<noteq> 0"
      if "j < 2 ^ d" "steps_to (2 ^ d) (hm_home hash (2 ^ d) k) j < steps_to (2 ^ d) (hm_home hash (2 ^ d) k) t" for j
      using probe_first [OF t hm_home_less order_refl that] by (simp add: stop_at_def)
  qed
qed

lemma hm_set_probed:
  assumes ok: "hash_map_ok hash d h" and room: "unat (hm_population h) < hm_capacity h"
  shows "hm_set hash k v h =
   (let flag = slotFlag (occupationFlags h); stop = stop_at flag (elements h) k; home = hm_home hash (2 ^ d) k
    in case probe (2 ^ d) (\<lambda>i. stop i \<or> flag i = 2) (2 ^ d) home of
         None \<Rightarrow> (None, h)
       | Some t \<Rightarrow>
           if flag t = 2
           then (case probe (2 ^ d) stop (2 ^ d) home of
                   None \<Rightarrow> (Some t, hm_reuse k v t h)
                 | Some j \<Rightarrow> if flag j = 1
                     then (Some j, h\<lparr>elements := (elements h)[j := (fst (elements h ! j), v)]\<rparr>)
                     else (Some t, hm_reuse k v t h))
           else if flag t = 1 then (Some t, h\<lparr>elements := (elements h)[t := (fst (elements h ! t), v)]\<rparr>)
           else (Some t, h\<lparr>occupationFlags := markOccupied (occupationFlags h) t,
                  elements := (elements h)[t := (k, v)], hm_population := hm_population h + 1\<rparr>))"
proof -
  note O = hash_map_okD [OF ok]
  show ?thesis
    using room
    by (simp add: hm_set_def O(2) scanSlots_slotLoop [OF O(3) hm_home_less] set_loop Let_def split: option.split)
qed

lemma hm_set_ok:
  assumes ok: "hash_map_ok hash d h"
  shows "set_outcome hash d k v h (hm_set hash k v h)"
proof (cases "unat (hm_population h) < hm_capacity h")
  case room: True
  note O = hash_map_okD [OF ok]
  let ?flag = "slotFlag (occupationFlags h)" and ?home = "hm_home hash (2 ^ d) k"
  let ?stop = "stop_at ?flag (elements h) k"
  show ?thesis
  proof (cases "probe (2 ^ d) (\<lambda>i. ?stop i \<or> ?flag i = 2) (2 ^ d) ?home")
    case None
    have "?flag i \<noteq> 0 \<and> ?flag i \<noteq> 2" if "i < 2 ^ d" for i
      using probe_NoneD [OF None hm_home_less, of "steps_to (2 ^ d) ?home i"] that
      by (simp add: steps_to_less steps_to_reaches [OF hm_home_less that] stop_at_def)
    from full_map [OF ok this] room O(2) show ?thesis by simp
  next
    case (Some t)
    have t: "t < 2 ^ d" "?stop t \<or> ?flag t = 2" using probe_less [OF Some hm_home_less] by simp_all
    show ?thesis
    proof (cases "?flag t = 2")
      case True
      show ?thesis
      proof (cases "\<exists>j. probe (2 ^ d) ?stop (2 ^ d) ?home = Some j \<and> ?flag j = 1")
        case found: True
        then obtain j where j: "probe (2 ^ d) ?stop (2 ^ d) ?home = Some j" "?flag j = 1" by blast
        then have "hm_getElementIndex hash h k = Some j"
          by (simp add: hm_getElementIndex_eq [OF ok] find_slot_probe [OF O(2)])
        from hm_set_present [OF ok this, of v] show ?thesis
          by (simp add: hm_set_probed [OF ok room] Some True j Let_def)
      next
        case False
        then have "table_map slot_live slot_key (hm_slots h) k = None"
          by (intro absent_unless_found [OF ok]) auto
        from hm_set_reuse [OF ok room Some True this, of v] show ?thesis
          using False by (auto simp: hm_set_probed [OF ok room] Some True Let_def split: option.split)
      qed
    next
      case no2: False
      have p: "probe (2 ^ d) ?stop (2 ^ d) ?home = Some t"
        by (rule probe_stronger [OF Some]) (use t(2) no2 in auto)
      show ?thesis
      proof (cases "?flag t = 1")
        case True
        with p have "hm_getElementIndex hash h k = Some t"
          by (simp add: hm_getElementIndex_eq [OF ok] find_slot_probe [OF O(2)])
        from hm_set_present [OF ok this, of v] show ?thesis
          by (simp add: hm_set_probed [OF ok room] Some True Let_def)
      next
        case False
        with t no2 have z: "?flag t = 0" by (simp add: stop_at_def)
        have "table_map slot_live slot_key (hm_slots h) k = None"
          using p z by (intro absent_unless_found [OF ok]) auto
        moreover have "?flag j \<noteq> 0" if "j < 2 ^ d" "steps_to (2 ^ d) ?home j < steps_to (2 ^ d) ?home t" for j
          using probe_first [OF p hm_home_less order_refl that] by (simp add: stop_at_def)
        ultimately show ?thesis
          using hm_set_fill [OF ok room t(1) False _ _ flags_wf_markOccupied [OF O(3) t(1)]
              slotFlag_markOccupied [OF O(3) t(1) z], where v = v and k = k]
          by (simp add: hm_set_probed [OF ok room] Some no2 z Let_def)
      qed
    qed
  qed
next
  case False
  show ?thesis
  proof (cases "hm_getElementIndex hash h k")
    case None
    with hm_getElementIndex_correct [OF ok, of k] have "hm_map h k = None" by (simp add: hm_map_eq)
    with None False show ?thesis by (simp add: hm_set_def set_outcome_def domIff)
  next
    case (Some i)
    from hm_set_present [OF ok Some, of v] Some False show ?thesis by (simp add: hm_set_def)
  qed
qed

section \<open>Removal is correct\<close>

lemma hm_mask_eq: "hm_mask (2 ^ d) i = nat (i mod 2 ^ d)"
proof -
  have "i AND (2 ^ d - 1) = take_bit d i" by (metis mask_eq_exp_minus_1 take_bit_eq_mask)
  then show ?thesis by (simp add: hm_mask_def take_bit_eq_mod)
qed

lemma hm_mask_less: "hm_mask (2 ^ d) i < 2 ^ d"
proof -
  have "i mod 2 ^ d < 2 ^ d" by simp
  then show ?thesis unfolding hm_mask_eq by (simp add: nat_less_iff)
qed

lemma encoded_first:
  assumes "flags_wf d fl" and "i < 2 ^ d"
  shows "getEncodedOccupationFlags (2 ^ d) fl i AND 3 = slotFlag fl i"
  using encoded_slot [OF assms, of 0] assms(2) by (simp add: nEncodedFlags_def)

lemma hm_removeByIndex_ok:
  assumes ok: "hash_map_ok hash d h" and i: "i < 2 ^ d" "slotFlag (occupationFlags h) i = 1"
  shows "hash_map_ok hash d (hm_removeByIndex z (int i) h)"
    and "hm_map (hm_removeByIndex z (int i) h) = (hm_map h)(fst (elements h ! i) := None)"
proof -
  note O = hash_map_okD [OF ok]
  let ?h = "hm_removeByIndex z (int i) h"
  have mi: "hm_mask (2 ^ d) (int i) = i" using i(1) by (simp add: hm_mask_eq nat_mod_distrib nat_power_eq)
  have len: "length (hm_slots h) = 2 ^ d" using O(2) by simp
  have il: "i < length (hm_slots h)" using i(1) len by simp
  have live: "slot_live (hm_slots h ! i)" "slot_key (hm_slots h ! i) = fst (elements h ! i)"
    using i O(2) by (simp_all add: slot_defs)
  have fl: "slotFlag (toggleRemoved (occupationFlags h) i) k = (if k = i then 2 else slotFlag (occupationFlags h) k)" for k
    by (simp add: slotFlag_toggleRemoved [OF O(3) i(1)] i(2))
  have h: "elements ?h = (elements h)[i := z]" "occupationFlags ?h = toggleRemoved (occupationFlags h) i"
    "hm_population ?h = hm_population h - 1"
    using i(2) encoded_first [OF O(3) i(1)] by (simp_all add: hm_removeByIndex_def O(2) mi Let_def)
  have s: "hm_slots ?h = (hm_slots h)[i := (2, z)]"
    unfolding h using i(1) O(2) fl by (intro slots_update) auto
  have e: "\<not> slot_live (2, z)" "\<not> slot_vacant (2, z)" by (simp_all add: slot_defs)
  note M = hm_tbl.mark_removed [OF len O(4,5) il live(1) e]
  have "Suc (length (filter slot_live ((hm_slots h)[i := (2, z)]))) = length (filter slot_live (hm_slots h))"
    using length_filter_update [OF il, of slot_live "(2, z)"] live e by simp
  moreover have "unat (hm_population h - 1) = unat (hm_population h) - 1"
    using calculation O(7) by (intro unat_minus_one) (auto simp: word_unat_eq_iff)
  moreover have "slotFlag (toggleRemoved (occupationFlags h) i) k \<noteq> 3" if "k < 2 ^ d" for k
    using fl O(6) that by simp
  ultimately show "hash_map_ok hash d ?h"
    using O(1,2,7) M s h flags_wf_toggleRemoved [OF O(3) i(1)] by (simp add: hash_map_ok_def)
  show "hm_map ?h = (hm_map h)(fst (elements h ! i) := None)"
    using M(3) live(2) by (simp add: hm_map_def s fun_eq_iff)
qed

lemma hm_removeByKey_ok:
  assumes ok: "hash_map_ok hash d h" and eq: "hm_removeByKey hash z k h = (r, h')"
  shows "hash_map_ok hash d h'" and "hm_map h' = (hm_map h)(k := None)" and "r = None \<longleftrightarrow> k \<notin> dom (hm_map h)"
proof -
  note G = hm_getElementIndex_correct [OF ok, of k]
  have "hash_map_ok hash d h' \<and> hm_map h' = (hm_map h)(k := None) \<and> (r = None \<longleftrightarrow> k \<notin> dom (hm_map h))"
  proof (cases "hm_getElementIndex hash h k")
    case None
    then show ?thesis using G eq ok by (auto simp: hm_removeByKey_def hm_map_eq domIff fun_eq_iff)
  next
    case (Some i)
    with G have i: "i < 2 ^ d" "slotFlag (occupationFlags h) i = 1" "fst (elements h ! i) = k"
      "k \<in> dom (hm_map h)" by (auto simp: hm_map_eq)
    have "r = Some i" "h' = hm_removeByIndex z (int i) h" using eq Some by (simp_all add: hm_removeByKey_def)
    then show ?thesis using hm_removeByIndex_ok [OF ok i(1,2), of z] i(3,4) by simp
  qed
  then show "hash_map_ok hash d h'" "hm_map h' = (hm_map h)(k := None)" "r = None \<longleftrightarrow> k \<notin> dom (hm_map h)"
    by auto
qed

section \<open>Iteration is correct\<close>

lemma nextInGroup_find:
  assumes "\<And>j. j < n \<Longrightarrow> drop_bit (2 * j) f AND 3 = slotFlag fl (b + i + j)"
  shows "nextInGroup n i f = find (\<lambda>x. slotFlag fl (b + x) = 1) [i..<i + n]"
  using assms
proof (induction n arbitrary: i f)
  case (Suc n)
  show ?case
  proof (cases "f = 0")
    case True
    then have "slotFlag fl (b + x) = 0" if "i \<le> x" "x < i + Suc n" for x
      using Suc.prems [of "x - i"] that by simp
    then have "find (\<lambda>x. slotFlag fl (b + x) = 1) [i..<i + Suc n] = None"
      by (auto simp: find_None_iff)
    with True show ?thesis by simp
  next
    case False
    have "f AND 3 = slotFlag fl (b + i)" using Suc.prems [of 0] by simp
    moreover have "drop_bit (2 * j) (drop_bit 2 f) AND 3 = slotFlag fl (b + Suc i + j)" if "j < n" for j
      using Suc.prems [of "Suc j"] that by (simp add: algebra_simps)
    moreover have "[i..<i + Suc n] = i # [Suc i..<Suc i + n]" by (simp add: upt_conv_Cons del: upt_Suc)
    ultimately show ?thesis using False Suc.IH [of "drop_bit 2 f" "Suc i"] by (simp del: upt_Suc)
  qed
qed simp

lemma group_flags:
  assumes "off + j < 32"
  shows "drop_bit (2 * j) (drop_bit (2 * off) (fl ! idx)) AND 3 = slotFlag fl (32 * idx + off + j)"
proof -
  have "(32 * idx + off + j) div 32 = idx" "(32 * idx + off + j) mod 32 = off + j"
    using assms by (simp_all add: add.assoc)
  then show ?thesis by (simp add: slotFlag_def algebra_simps)
qed

lemma find_append: "find P (xs @ ys) = (case find P xs of None \<Rightarrow> find P ys | Some x \<Rightarrow> Some x)"
  by (induction xs) auto

lemma find_shift: "find P [b + i..<b + j] = map_option (\<lambda>x. b + x) (find (\<lambda>x. P (b + x)) [i..<j])"
proof -
  have "find P (map f xs) = map_option f (find (\<lambda>x. P (f x)) xs)" for f :: "nat \<Rightarrow> nat" and xs
    by (induction xs) auto
  moreover have "map ((+) b) [i..<j] = [b + i..<b + j]" by (induction j) auto
  ultimately show ?thesis by metis
qed

lemma nextGroups_find:
  assumes "nEncodedFlags L = 32" and "idx + g \<le> length fl" and "off \<le> 32"
    and "f = drop_bit (2 * off) (flagWord fl idx)"
  shows "nextGroups L fl g idx off f = find (\<lambda>x. slotFlag fl x = 1) [32 * idx + off..<max (32 * idx + off) (32 * (idx + g))]"
  using assms(2-4)
proof (induction g arbitrary: idx off f)
  case 0
  then show ?case by simp
next
  case (Suc g)
  have "nextInGroup (32 - off) off f = find (\<lambda>x. slotFlag fl (32 * idx + x) = 1) [off..<off + (32 - off)]"
    using Suc.prems by (intro nextInGroup_find) (simp add: flagWord_def group_flags [simplified])
  then have A: "map_option (\<lambda>x. 32 * idx + x) (nextInGroup (32 - off) off f) =
    find (\<lambda>x. slotFlag fl x = 1) [32 * idx + off..<32 * idx + 32]"
    using find_shift [of "\<lambda>x. slotFlag fl x = 1" "32 * idx" off 32] Suc.prems(2) by simp
  have B: "nextGroups L fl g (Suc idx) 0 (flagWord fl (Suc idx)) =
    find (\<lambda>x. slotFlag fl x = 1) [32 * idx + 32..<32 * (idx + Suc g)]"
    using Suc.IH [of "Suc idx" 0] Suc.prems(1) by (simp add: add.commute)
  have "[32 * idx + off..<max (32 * idx + off) (32 * (idx + Suc g))] =
    [32 * idx + off..<32 * idx + 32] @ [32 * idx + 32..<32 * (idx + Suc g)]"
    using Suc.prems(2) upt_add_eq_append [of "32 * idx + off" "32 * idx + 32" "32 * g"]
    by (simp add: max_def algebra_simps)
  then show ?case
    unfolding nextGroups.simps assms(1) using A B
    by (auto simp: find_append push_bit_eq_mult mult.commute split: option.splits)
qed

text \<open>The next occupied slot after an index, in the order of the slots.\<close>

lemma hm_nextElementIndex_correct:
  assumes ok: "hash_map_ok hash d h"
  shows "hm_nextElementIndex h e =
    find (\<lambda>i. slotFlag (occupationFlags h) i = 1) [if e < 0 then 0 else nat e + 1..<hm_capacity h]"
proof (cases "hm_population h = 0")
  case True
  note O = hash_map_okD [OF ok]
  have "filter slot_live (hm_slots h) = []" using True O(7) by simp
  then have "slotFlag (occupationFlags h) i \<noteq> 1" if "i < hm_capacity h" for i
    using that by (force simp: filter_empty_conv in_set_conv_nth slot_live_def)
  then show ?thesis using True by (auto simp: hm_nextElementIndex_def find_None_iff2)
next
  case False
  note O = hash_map_okD [OF ok]
  define s where "s = (if e < 0 then 0 else nat e + 1)"
  let ?fl = "occupationFlags h"
  have s: "s = 32 * (s div 32) + s mod 32" by simp
  show ?thesis
  proof (cases "5 \<le> d")
    case True
    then obtain k where k: "d = 5 + k" using le_Suc_ex by blast
    have L: "(2::nat) ^ d = 32 * 2 ^ k" by (simp add: k power_add)
    have enc: "nEncodedFlags (2 ^ d) = 32" using nEncodedFlags_32 [of "2 ^ k"] by (simp add: L)
    have len: "length ?fl = 2 ^ k" using O(3) by (simp add: flags_wf_def L)
    have "hm_nextElementIndex h e = nextGroups (2 ^ d) ?fl (2 ^ k - s div 32) (s div 32) (s mod 32)
        (drop_bit (2 * (s mod 32)) (flagWord ?fl (s div 32)))"
      using False max_absorb1 [OF one_le_power [of "2::nat" k]]
      by (simp add: hm_nextElementIndex_def O(2) s_def [symmetric] flag_word_index Let_def L)
    also have "\<dots> = find (\<lambda>x. slotFlag ?fl x = 1) [s..<2 ^ d]"
    proof (cases "s div 32 \<le> 2 ^ k")
      case True
      then show ?thesis
        using nextGroups_find [of "2 ^ d" "s div 32" "2 ^ k - s div 32" ?fl "s mod 32"] enc len
        by (auto simp: L max_def)
    next
      case False
      then have "32 * 2 ^ k \<le> s" by linarith
      with False show ?thesis by (simp add: L)
    qed
    finally show ?thesis by (simp add: O(2) s_def)
  next
    case small: False
    then have L: "(2::nat) ^ d < 32" using power_strict_increasing [of d 5 "2::nat"] by simp
    then have enc: "nEncodedFlags (2 ^ d) = 2 ^ d" "max ((2::nat) ^ d div 32) 1 = 1"
      by (simp_all add: nEncodedFlags_def)
    have "((2::nat) ^ d * 2 + 63) div 64 = 1" using L one_le_power [of "2::nat" d] by linarith
    then have len: "length ?fl = 1" using O(3) by (simp add: flags_wf_def)
    have eq: "hm_nextElementIndex h e = nextGroups (2 ^ d) ?fl (1 - s div 32) (s div 32) (s mod 32)
        (drop_bit (2 * (s mod 32)) (flagWord ?fl (s div 32)))"
      using False enc by (simp add: hm_nextElementIndex_def O(2) s_def [symmetric] flag_word_index Let_def)
    have "nextGroups (2 ^ d) ?fl (1 - s div 32) (s div 32) (s mod 32)
        (drop_bit (2 * (s mod 32)) (flagWord ?fl (s div 32))) = find (\<lambda>x. slotFlag ?fl x = 1) [s..<2 ^ d]"
    proof (cases "s < 32")
      case True
      have "nextInGroup (2 ^ d - s) s (drop_bit (2 * s) (?fl ! 0)) =
        find (\<lambda>x. slotFlag ?fl (0 + x) = 1) [s..<s + (2 ^ d - s)]"
        using L by (intro nextInGroup_find) (use group_flags [of s _ ?fl 0] in simp)
      then show ?thesis
        using True len L by (cases "s \<le> 2 ^ d") (auto simp: enc flagWord_def split: option.split)
    next
      case False
      then have "1 - s div 32 = 0" "2 ^ d \<le> s" using L by simp_all
      then show ?thesis by simp
    qed
    with eq show ?thesis by (simp add: O(2) s_def)
  qed
qed

end
