(* ===== verification/Hash_Map_Cleanup.thy ===== *)
theory Hash_Map_Cleanup
  imports Hash_Map
begin

text \<open>
  \<open>HashMap::cleanup\<close> rebuilds the table without the slots marked for removal: the bit tricks
  that enumerate the occupied slots visit each once, the rebuilt table holds the same map,
  and the error exit is unreachable. Then the properties of the map.
\<close>

section \<open>Finding an empty position\<close>

lemma findFreeGroup_probe:
  assumes "\<And>j. j < n \<Longrightarrow> drop_bit (2 * j) f AND 3 = slotFlag fl ((b + i + j) mod 2 ^ d)"
  shows "(case findFreeGroup n i f of Some x \<Rightarrow> Some ((b + x) mod 2 ^ d)
      | None \<Rightarrow> probe (2 ^ d) (\<lambda>j. slotFlag fl j = 0) m ((b + i + n) mod 2 ^ d)) =
    probe (2 ^ d) (\<lambda>j. slotFlag fl j = 0) (n + m) ((b + i) mod 2 ^ d)"
  using assms
proof (induction n arbitrary: i f)
  case (Suc n)
  have "f AND 3 = slotFlag fl ((b + i) mod 2 ^ d)" using Suc.prems [of 0] by simp
  moreover have "drop_bit (2 * j) (drop_bit 2 f) AND 3 = slotFlag fl ((b + Suc i + j) mod 2 ^ d)" if "j < n" for j
    using Suc.prems [of "Suc j"] that by (simp add: algebra_simps)
  moreover have "((b + i) mod 2 ^ d + 1) AND (2 ^ d - 1) = (b + Suc i) mod 2 ^ d"
    by (simp only: and_pow2_mask mod_simps) simp
  ultimately show ?case using Suc.IH [of "drop_bit 2 f" "Suc i"] by (simp split: option.splits)
qed simp

lemma findFree_probe:
  assumes wf: "flags_wf d fl" and "i < 2 ^ d"
  shows "findFree (2 ^ d) fl g i = probe (2 ^ d) (\<lambda>j. slotFlag fl j = 0) (g * nEncodedFlags (2 ^ d)) i"
  using assms(2)
proof (induction g arbitrary: i)
  case (Suc g)
  let ?n = "nEncodedFlags (2 ^ d)"
  have "(i + ?n) mod 2 ^ d < 2 ^ d" by simp
  note IH = Suc.IH [OF this]
  have "drop_bit (2 * j) (getEncodedOccupationFlags (2 ^ d) fl i) AND 3 = slotFlag fl ((i + 0 + j) mod 2 ^ d)"
    if "j < ?n" for j
    using encoded_slot [OF wf Suc.prems that] by simp
  from findFreeGroup_probe [of ?n "getEncodedOccupationFlags (2 ^ d) fl i" fl i 0 d "g * ?n", OF this]
  show ?case using IH Suc.prems by (simp add: mask_simps split: option.splits)
qed simp

section \<open>Enumerating the occupied slots\<close>

lemma bit_AA: "bit (0xAAAAAAAAAAAAAAAA :: u64) n \<longleftrightarrow> n < 64 \<and> odd n"
proof -
  have "\<forall>n\<in>set [0..<64]. bit (0xAAAAAAAAAAAAAAAA :: int) n \<longleftrightarrow> odd n" by code_simp
  then show ?thesis by (cases "n < 64") (auto simp: bit_numeral_word_iff)
qed

lemma bit_cleanMask: "bit (cleanMask f) n \<longleftrightarrow> n < 64 \<and> odd n \<and> bit f (n - 1) \<and> \<not> bit f n"
  unfolding cleanMask_def Let_def bit_and_iff bit_xor_iff bit_AA bit_push_bit_iff
  by (auto simp: Suc_le_eq odd_pos)

lemma and_3_zero: "x AND 3 \<noteq> 0 \<longleftrightarrow> bit x 0 \<or> bit x 1" for x :: u64
proof -
  have "x AND 3 = 0 \<longleftrightarrow> (\<forall>n<2. \<not> bit x n)"
    unfolding and_3 by (auto simp: bit_eq_iff bit_take_bit_iff)
  then show ?thesis by (auto simp: less_2_cases_iff)
qed

lemma slotFlag_1_iff:
  "slotFlag fl i = 1 \<longleftrightarrow> bit (fl ! (i div 32)) (2 * (i mod 32)) \<and> \<not> bit (fl ! (i div 32)) (2 * (i mod 32) + 1)"
proof
  assume "slotFlag fl i = 1"
  then have "bit (slotFlag fl i) 0" "\<not> bit (slotFlag fl i) 1" by simp_all
  then show "bit (fl ! (i div 32)) (2 * (i mod 32)) \<and> \<not> bit (fl ! (i div 32)) (2 * (i mod 32) + 1)"
    by (simp add: bit_slotFlag)
next
  assume *: "bit (fl ! (i div 32)) (2 * (i mod 32)) \<and> \<not> bit (fl ! (i div 32)) (2 * (i mod 32) + 1)"
  have "bit (slotFlag fl i) n \<longleftrightarrow> n = 0" for n
    using * by (cases "n < 2") (auto simp: bit_slotFlag less_2_cases_iff)
  then show "slotFlag fl i = 1" by (intro bit_word_eqI) (simp add: bit_1_iff)
qed

lemma cleanMask_slot:
  assumes "k < 32"
  shows "drop_bit (2 * k) (cleanMask (fl ! g)) AND 3 \<noteq> 0 \<longleftrightarrow> slotFlag fl (32 * g + k) = 1"
proof -
  have "(32 * g + k) div 32 = g" "(32 * g + k) mod 32 = k" using assms by simp_all
  then show ?thesis
    using assms by (auto simp: and_3_zero slotFlag_1_iff bit_drop_bit_eq bit_cleanMask)
qed

fun cleanList ::
  "('k \<Rightarrow> u64) \<Rightarrow> ('k, 'v) HashMap \<Rightarrow> nat list \<Rightarrow> ('k, 'v) clean_buffers \<Rightarrow> ('k, 'v) clean_outcome" where
  "cleanList hash h [] b = Continue b"
| "cleanList hash h (i # is) b = (case moveElement hash h i b of Continue b' \<Rightarrow> cleanList hash h is b' | r \<Rightarrow> r)"

lemma cleanList_append:
  "cleanList hash h (is @ js) b = (case cleanList hash h is b of Continue b' \<Rightarrow> cleanList hash h js b' | r \<Rightarrow> r)"
  by (induction "is" arbitrary: b) (auto split: clean_outcome.split)

abbreviation occupied_slots :: "('k, 'v) HashMap \<Rightarrow> nat \<Rightarrow> nat \<Rightarrow> nat list" where
  "occupied_slots h i j \<equiv> filter (\<lambda>i. slotFlag (occupationFlags h) i = 1) [i..<j]"

lemma cleanSlots_list:
  assumes "q \<le> 32"
  shows "cleanSlots hash h g (2 * q) (2 * p) (drop_bit (2 * p) (cleanMask (occupationFlags h ! g))) b =
    cleanList hash h (occupied_slots h (32 * g + p) (32 * g + q)) b"
proof (induction "q - p" arbitrary: p b)
  case 0
  then show ?case by (subst cleanSlots.simps) simp
next
  case (Suc n)
  then have pq: "p < q" by simp
  then have l: "[32 * g + p..<32 * g + q] = (32 * g + p) # [32 * g + Suc p..<32 * g + q]"
    by (simp add: upt_conv_Cons)
  have IH: "cleanSlots hash h g (2 * q) (2 * p + 2) (drop_bit 2 (drop_bit (2 * p) (cleanMask (occupationFlags h ! g)))) b' =
    cleanList hash h (occupied_slots h (32 * g + Suc p) (32 * g + q)) b'" for b'
    using Suc.hyps(1) [of "Suc p" b'] Suc.hyps(2) by (simp add: algebra_simps)
  have i: "push_bit 5 g + drop_bit 1 (2 * p) = 32 * g + p" by (simp add: push_bit_eq_mult drop_bit_eq_div)
  note M = cleanMask_slot [of p "occupationFlags h" g]
  show ?case
  proof (cases "slotFlag (occupationFlags h) (32 * g + p) = 1")
    case True
    then show ?thesis
      unfolding l using pq assms M
      by (subst cleanSlots.simps) (simp add: i [unfolded One_nat_def] IH [simplified] split: clean_outcome.split)
  next
    case False
    then show ?thesis
      unfolding l using pq assms M by (subst cleanSlots.simps) (simp add: IH [simplified])
  qed
qed

lemma cleanGroup_list:
  "(let maskBits = cleanMask (occupationFlags h ! g);
        oldIndexOffset = tzcnt64 maskBits AND 0xFE;
        oldIndexOffsetEnd = 64 - (lzcnt64 maskBits AND 0xFE)
    in cleanSlots hash h g oldIndexOffsetEnd oldIndexOffset (drop_bit oldIndexOffset maskBits) b) =
   cleanList hash h (occupied_slots h (32 * g) (32 * g + 32)) b"
proof -
  define m p q where "m = cleanMask (occupationFlags h ! g)" and "p = tzcnt64 m div 2" and "q = 32 - lzcnt64 m div 2"
  have p: "tzcnt64 m AND 0xFE = 2 * p" using tzcnt64_le [of m] by (simp add: and_FE p_def)
  have q: "64 - (lzcnt64 m AND 0xFE) = 2 * q" using lzcnt64_le [of m] by (simp add: and_FE q_def)
  have live: "slotFlag (occupationFlags h) (32 * g + k) = 1 \<longleftrightarrow> bit m (2 * k + 1)" if "k < 32" for k
    using cleanMask_slot [OF that, of "occupationFlags h" g]
    by (auto simp: and_3_zero bit_drop_bit_eq m_def bit_cleanMask)
  have low: "slotFlag (occupationFlags h) (32 * g + k) \<noteq> 1" if "k < p" for k
  proof -
    have "2 * k + 1 < tzcnt64 m" using that by (simp add: p_def)
    then show ?thesis using live [of k] tzcnt64_zeros tzcnt64_le [of m] by auto
  qed
  have high: "slotFlag (occupationFlags h) (32 * g + k) \<noteq> 1" if "q \<le> k" "k < 32" for k
  proof -
    have "64 - lzcnt64 m \<le> 2 * k + 1" using that(1) by (simp add: q_def)
    then show ?thesis using live [OF that(2)] lzcnt64_zeros by blast
  qed
  have "occupied_slots h (32 * g + p) (32 * g + q) = occupied_slots h (32 * g) (32 * g + 32)"
  proof (cases "p \<le> q")
    case True
    have "q \<le> 32" by (simp add: q_def)
    then have "[32 * g..<32 * g + 32] = [32 * g..<32 * g + p] @ [32 * g + p..<32 * g + q] @ [32 * g + q..<32 * g + 32]"
      using True upt_add_eq_append [of "32 * g" "32 * g + p" "32 - p"]
        upt_add_eq_append [of "32 * g + p" "32 * g + q" "32 - q"] by (simp add: add.assoc)
    moreover have "occupied_slots h (32 * g) (32 * g + p) = []" "occupied_slots h (32 * g + q) (32 * g + 32) = []"
      using low high by (auto simp: filter_empty_conv le_iff_add add.assoc)
    ultimately show ?thesis by simp
  next
    case False
    then have "slotFlag (occupationFlags h) (32 * g + k) \<noteq> 1" if "k < 32" for k
      using low [of k] high [of k] that by linarith
    then have "occupied_slots h (32 * g) (32 * g + 32) = []"
      by (auto simp: filter_empty_conv le_iff_add)
    with False show ?thesis by simp
  qed
  moreover have "q \<le> 32" by (simp add: q_def)
  ultimately show ?thesis
    using cleanSlots_list [of q hash h g p b] unfolding m_def [symmetric] Let_def p q by simp
qed

lemma cleanGroups_list:
  "cleanGroups hash h [g..<g + n] b = cleanList hash h (occupied_slots h (32 * g) (32 * (g + n))) b"
proof (induction n arbitrary: g b)
  case (Suc n)
  have "[g..<g + Suc n] = g # [Suc g..<Suc g + n]" by (simp add: upt_conv_Cons del: upt_Suc)
  moreover have "[32 * g..<32 * (g + Suc n)] = [32 * g..<32 * g + 32] @ [32 * Suc g..<32 * (Suc g + n)]"
    using upt_add_eq_append [of "32 * g" "32 * g + 32" "32 * n"] by (simp add: algebra_simps)
  ultimately show ?case
    using Suc.IH [of "Suc g"] cleanGroup_list [of h g hash b]
    by (simp add: cleanList_append Let_def del: upt_Suc split: clean_outcome.split)
qed simp

section \<open>The rebuilt table\<close>

lemma slot_key_pair: "slot_key (f, e) = fst e"
  by (simp add: slot_key_def)

lemma moveElement_step:
  assumes L: "hm_capacity h = 2 ^ d" "length els = 2 ^ d" and wf: "flags_wf d fl"
    and p: "probe (2 ^ d) (\<lambda>j. slot_vacant (slots els fl ! j)) (2 ^ d)
      (hm_home hash (2 ^ d) (fst (elements h ! i))) = Some j"
  shows "moveElement hash h i (els, fl, n) =
      (if n + 1 = hm_population h then Transferred (els[j := elements h ! i]) (markOccupied fl j)
       else Continue (els[j := elements h ! i], markOccupied fl j, n + 1))"
    and "slots (els[j := elements h ! i]) (markOccupied fl j) = (slots els fl)[j := (1, elements h ! i)]"
    and "flags_wf d (markOccupied fl j)"
proof -
  let ?home = "hm_home hash (2 ^ d) (fst (elements h ! i))"
  have eq: "probe (2 ^ d) (\<lambda>j. slotFlag fl j = 0) (2 ^ d) ?home = Some j"
    unfolding p [symmetric] by (rule probe_cong) (auto simp: slot_defs L hm_home_less)
  note j = probe_less [OF eq hm_home_less]
  have "findFree (2 ^ d) fl ((2 ^ d + 31) div 32) ?home = Some j"
    by (simp add: findFree_probe [OF wf hm_home_less] groups_cover eq)
  then show "moveElement hash h i (els, fl, n) =
      (if n + 1 = hm_population h then Transferred (els[j := elements h ! i]) (markOccupied fl j)
       else Continue (els[j := elements h ! i], markOccupied fl j, n + 1))"
    by (simp add: moveElement_def L Let_def)
  show "slots (els[j := elements h ! i]) (markOccupied fl j) = (slots els fl)[j := (1, elements h ! i)]"
    using j L slotFlag_markOccupied [OF wf j] by (intro slots_update) auto
  show "flags_wf d (markOccupied fl j)" by (rule flags_wf_markOccupied [OF wf j(1)])
qed

lemma cleanList_transfers:
  assumes L: "hm_capacity h = 2 ^ d"
    and "length els = 2 ^ d" and "flags_wf d fl" and "is \<noteq> []"
    and "unat n + length is = unat (hm_population h)"
    and "rehash slot_vacant slot_key (hm_home hash) (map (\<lambda>i. (1, elements h ! i)) is) (slots els fl) = Some tbl"
  shows "\<exists>els' fl'. cleanList hash h is (els, fl, n) = Transferred els' fl' \<and> slots els' fl' = tbl \<and>
    flags_wf d fl' \<and> length els' = 2 ^ d"
  using assms(2-)
proof (induction "is" arbitrary: els fl n)
  case (Cons i "is")
  obtain j where j: "probe (2 ^ d) (\<lambda>j. slot_vacant (slots els fl ! j)) (2 ^ d)
      (hm_home hash (2 ^ d) (fst (elements h ! i))) = Some j"
    and r: "rehash slot_vacant slot_key (hm_home hash) (map (\<lambda>i. (1, elements h ! i)) is)
      ((slots els fl)[j := (1, elements h ! i)]) = Some tbl"
    using Cons.prems(1,5) slot_key_pair [of 1 "elements h ! i"] by (auto split: option.splits)
  note M = moveElement_step [OF L Cons.prems(1,2) j]
  have n1: "unat (n + 1) = Suc (unat n)"
    using Cons.prems(4) unat_less_64 [of "hm_population h"] by (simp add: unat_word_ariths unat_1)
  moreover have "unat n + Suc (length is) = unat (hm_population h)" using Cons.prems(4) by simp
  ultimately have "unat (n + 1) = unat (hm_population h) \<longleftrightarrow> length is = 0" by linarith
  then have last: "n + 1 = hm_population h \<longleftrightarrow> is = []" by (simp add: word_unat_eq_iff)
  show ?case
  proof (cases "is = []")
    case True
    then show ?thesis using M last r Cons.prems(1) by (simp add: M(1))
  next
    case False
    have "unat (n + 1) + length is = unat (hm_population h)" using n1 Cons.prems(4) by simp
    from Cons.IH [OF _ M(3) False this, of "els[j := elements h ! i]"] r M(2) Cons.prems(1)
    show ?thesis using last False by (simp add: M(1))
  qed
qed simp

lemma occupied_slots_live:
  assumes ok: "hash_map_ok hash d h"
  shows "map (\<lambda>i. (1, elements h ! i)) (occupied_slots h 0 (hm_capacity h)) = filter slot_live (hm_slots h)"
proof -
  have "map (\<lambda>i. (1, elements h ! i)) (filter (\<lambda>i. slotFlag fl i = 1) xs) =
    filter slot_live (map (\<lambda>i. (slotFlag fl i, elements h ! i)) xs)" for fl xs
    by (induction xs) (auto simp: slot_live_def)
  then show ?thesis by (simp add: slots_def)
qed

lemma cleanup_covers:
  assumes ok: "hash_map_ok hash d h"
  shows "cleanGroups hash h [0..<if drop_bit 5 (hm_capacity h) \<noteq> 0 then drop_bit 5 (hm_capacity h) else 1] b =
    cleanList hash h (occupied_slots h 0 (hm_capacity h)) b"
proof (cases "5 \<le> d")
  case True
  then obtain k where "d = 5 + k" using le_Suc_ex by blast
  then have L: "hm_capacity h = 32 * 2 ^ k" using hash_map_okD(2) [OF ok] by (simp add: power_add)
  then show ?thesis using cleanGroups_list [of hash h 0 "2 ^ k"] by (simp add: flag_word_index)
next
  case False
  note O = hash_map_okD [OF ok]
  have l: "(2::nat) ^ d < 32" using False power_strict_increasing [of d 5 "2::nat"] by simp
  have "slotFlag (occupationFlags h) i \<noteq> 1" if "2 ^ d \<le> i" "i < 32" for i
    using O(3) False that by (auto simp: slotFlag_1_iff flags_wf_def)
  then have "occupied_slots h (2 ^ d) 32 = []" by (auto simp: filter_empty_conv)
  moreover have "[0..<32] = [0..<2 ^ d] @ [2 ^ d..<32]"
    using upt_add_eq_append [of 0 "2 ^ d" "32 - 2 ^ d"] l by simp
  ultimately have "occupied_slots h 0 32 = occupied_slots h 0 (2 ^ d)" by simp
  then show ?thesis using cleanGroups_list [of hash h 0 1] l by (simp add: flag_word_index O(2))
qed

lemma hm_cleanup_ok:
  assumes ok: "hash_map_ok hash d h" and c: "markRemovalCounter h \<noteq> 0"
  shows "hash_map_ok hash d (hm_cleanup hash z h)" and "hm_map (hm_cleanup hash z h) = hm_map h"
    and "\<forall>i<hm_capacity h. slotFlag (occupationFlags (hm_cleanup hash z h)) i \<in> {0, 1}"
    and "markRemovalCounter (hm_cleanup hash z h) = 0" and "hm_population (hm_cleanup hash z h) = hm_population h"
proof -
  note O = hash_map_okD [OF ok]
  let ?h = "hm_cleanup hash z h" and ?es = "filter slot_live (hm_slots h)"
  let ?new = "slots (replicate (2 ^ d) z) (replicate (length (occupationFlags h)) 0)"
  have fl0: "length (occupationFlags h) = (2 ^ d * 2 + 63) div 64" using O(3) by (simp add: flags_wf_def)
  have new: "?new = replicate (2 ^ d) (0, z)"
    by (auto intro!: nth_equalityI simp: fl0 slotFlag_zero)
  have "\<exists>tbl'. rehash slot_vacant slot_key (hm_home hash) ?es ?new = Some tbl' \<and> length tbl' = 2 ^ d \<and>
    chained slot_vacant slot_live slot_key (hm_home hash) tbl' \<and> keys_unique slot_live slot_key tbl' \<and>
    (\<forall>e\<in>set tbl'. slot_live e \<or> slot_vacant e \<and> e \<in> set ?new) \<and>
    mset (filter slot_live tbl') = mset (filter slot_live ?new) + mset ?es"
    by (rule hm_tbl.rehash_correct)
       (use length_filter_le [of slot_live "hm_slots h"] keys_unique_distinct [OF O(5)] O(2)
        in \<open>auto simp: new chained_def keys_unique_def slot_defs\<close>)
  then obtain tbl where t: "rehash slot_vacant slot_key (hm_home hash) ?es ?new = Some tbl" "length tbl = 2 ^ d"
    "chained slot_vacant slot_live slot_key (hm_home hash) tbl" "keys_unique slot_live slot_key tbl"
    "\<And>e. e \<in> set tbl \<Longrightarrow> slot_live e \<or> slot_vacant e"
    "mset (filter slot_live tbl) = mset ?es"
    by (auto simp: new slot_defs)
  have "\<exists>els fl. elements ?h = els \<and> occupationFlags ?h = fl \<and> slots els fl = tbl \<and> flags_wf d fl \<and>
    length els = 2 ^ d \<and> markRemovalCounter ?h = 0 \<and> hm_population ?h = hm_population h"
  proof (cases "hm_population h = 0")
    case True
    then have "?es = []" using O(7) by simp
    then have "tbl = ?new" using t(1) by simp
    then show ?thesis
      using c True O(2) fl0 flags_wf_zero [of d] by (simp add: hm_cleanup_def hm_reset_def)
  next
    case False
    let ?is = "occupied_slots h 0 (hm_capacity h)"
    have "length ?is = length ?es" using occupied_slots_live [OF ok] by (metis length_map)
    then have len: "unat (0::u64) + length ?is = unat (hm_population h)" using O(7) by simp
    with False have "?is \<noteq> []" by (auto simp: unat_eq_0)
    from cleanList_transfers [OF O(2) _ _ this len, of "replicate (2 ^ d) z" "replicate (length (occupationFlags h)) 0" hash tbl]
    obtain els fl where "cleanList hash h ?is (replicate (2 ^ d) z, replicate (length (occupationFlags h)) 0, 0) =
        Transferred els fl" "slots els fl = tbl" "flags_wf d fl" "length els = 2 ^ d"
      using t(1) flags_wf_zero [of d] fl0 by (auto simp: occupied_slots_live [OF ok])
    then have "?h = h\<lparr>elements := els, occupationFlags := fl, markRemovalCounter := 0\<rparr>"
      unfolding hm_cleanup_def cleanup_covers [OF ok] using c False by (simp only: O(2)) simp
    then show ?thesis using \<open>slots els fl = tbl\<close> \<open>flags_wf d fl\<close> \<open>length els = 2 ^ d\<close> by simp
  qed
  then have h: "hm_slots ?h = tbl" "flags_wf d (occupationFlags ?h)" "hm_capacity ?h = 2 ^ d"
    "markRemovalCounter ?h = 0" "hm_population ?h = hm_population h" by auto
  have f: "slotFlag (occupationFlags ?h) i \<in> {0, 1}" if "i < 2 ^ d" for i
    using t(5) [of "hm_slots ?h ! i"] that h(1,3) nth_mem [of i tbl] t(2) by (auto simp: slot_defs)
  have "length (filter slot_live tbl) = length ?es" using t(6) by (metis size_mset)
  then show "hash_map_ok hash d ?h"
    using O(1,7) h t(3,4) f by (fastforce simp: hash_map_ok_def)
  have "table_map slot_live slot_key tbl = table_map slot_live slot_key (hm_slots h)"
    using mset_eq_setD [OF t(6)] by (intro table_map_eqI [OF t(4) O(5)]) auto
  then show "hm_map ?h = hm_map h" by (simp add: hm_map_def h(1) fun_eq_iff)
  show "\<forall>i<hm_capacity h. slotFlag (occupationFlags ?h) i \<in> {0, 1}" using f O(2) by simp
  show "markRemovalCounter ?h = 0" "hm_population ?h = hm_population h" by (fact h)+
qed

section \<open>HashSet\<close>

text \<open>
  \<open>QPI::HashSet\<close> repeats the code of \<open>HashMap\<close> without the value member of the elements; it
  is the map with values of type \<open>unit\<close>.
\<close>

type_synonym 'k HashSet = "('k, unit) HashMap"

definition hs_getElementIndex :: "('k \<Rightarrow> u64) \<Rightarrow> 'k HashSet \<Rightarrow> 'k \<Rightarrow> nat option" where
  "hs_getElementIndex hash h k = hm_getElementIndex hash h k"

definition hs_contains :: "('k \<Rightarrow> u64) \<Rightarrow> 'k HashSet \<Rightarrow> 'k \<Rightarrow> bool" where
  "hs_contains hash h k \<longleftrightarrow> hs_getElementIndex hash h k \<noteq> None"

definition hs_add :: "('k \<Rightarrow> u64) \<Rightarrow> 'k \<Rightarrow> 'k HashSet \<Rightarrow> nat option \<times> 'k HashSet" where
  "hs_add hash k h = hm_set hash k () h"

definition hs_removeByIndex :: "'k \<Rightarrow> int \<Rightarrow> 'k HashSet \<Rightarrow> 'k HashSet" where
  "hs_removeByIndex z i h = hm_removeByIndex (z, ()) i h"

definition hs_remove :: "('k \<Rightarrow> u64) \<Rightarrow> 'k \<Rightarrow> 'k \<Rightarrow> 'k HashSet \<Rightarrow> nat option \<times> 'k HashSet" where
  "hs_remove hash z k h =
     (case hs_getElementIndex hash h k of
        None \<Rightarrow> (None, h)
      | Some i \<Rightarrow> (Some i, hs_removeByIndex z (int i) h))"

definition hs_nextElementIndex :: "'k HashSet \<Rightarrow> int \<Rightarrow> nat option" where
  "hs_nextElementIndex h i = hm_nextElementIndex h i"

definition hs_cleanup :: "('k \<Rightarrow> u64) \<Rightarrow> 'k \<Rightarrow> 'k HashSet \<Rightarrow> 'k HashSet" where
  "hs_cleanup hash z h = hm_cleanup hash (z, ()) h"

definition hs_reset :: "'k \<Rightarrow> 'k HashSet \<Rightarrow> 'k HashSet" where
  "hs_reset z h = hm_reset (z, ()) h"

section \<open>The map as an abstract data type\<close>

lemma hm_reset_ok:
  assumes "hm_capacity h = 2 ^ d" and "d < 63"
  shows "hash_map_ok hash d (hm_reset z h)" and "hm_map (hm_reset z h) = Map.empty"
proof -
  have s: "hm_slots (hm_reset z h) = replicate (2 ^ d) (0, z)"
    using assms(1) by (auto intro!: nth_equalityI simp: hm_reset_def slotFlag_zero)
  then show "hash_map_ok hash d (hm_reset z h)"
    using assms flags_wf_zero [of d] slotFlag_zero [of _ d]
    by (auto simp: hash_map_ok_def hm_reset_def chained_def keys_unique_def slot_defs)
  show "hm_map (hm_reset z h) = Map.empty"
    by (auto simp: hm_map_def s fun_eq_iff table_map_None_iff slot_defs)
qed

lemma dom_hm_map:
  assumes ok: "hash_map_ok hash d h"
  shows "unat (hm_population h) = card (dom (hm_map h))" and "finite (dom (hm_map h))"
proof -
  have d: "dom (hm_map h) = set (map slot_key (filter slot_live (hm_slots h)))"
    by (auto simp: hm_map_def dom_def table_map_def map_of_eq_None_iff image_iff)
  show "unat (hm_population h) = card (dom (hm_map h))"
    using hash_map_okD(7) [OF ok] distinct_card [OF keys_unique_distinct [OF hash_map_okD(5) [OF ok]]] d by simp
  show "finite (dom (hm_map h))" using d by simp
qed

datatype ('k, 'v) map_op = OpSet 'k 'v | OpReplace 'k 'v | OpRemove 'k | OpCleanup u64 | OpReset

text \<open>The operation on the container, and what it means for a map of bounded size.\<close>

fun hm_run :: "('k \<Rightarrow> u64) \<Rightarrow> ('k \<times> 'v) \<Rightarrow> ('k, 'v) map_op \<Rightarrow> ('k, 'v) HashMap \<Rightarrow> ('k, 'v) HashMap" where
  "hm_run hash z (OpSet k v) h = snd (hm_set hash k v h)"
| "hm_run hash z (OpReplace k v) h = snd (hm_replace hash k v h)"
| "hm_run hash z (OpRemove k) h = snd (hm_removeByKey hash z k h)"
| "hm_run hash z (OpCleanup t) h = hm_cleanupIfNeeded hash z t h"
| "hm_run hash z OpReset h = hm_reset z h"

fun map_run :: "nat \<Rightarrow> ('k, 'v) map_op \<Rightarrow> ('k \<rightharpoonup> 'v) \<Rightarrow> ('k \<rightharpoonup> 'v)" where
  "map_run cap (OpSet k v) m = (if k \<in> dom m \<or> card (dom m) < cap then m(k \<mapsto> v) else m)"
| "map_run cap (OpReplace k v) m = (if k \<in> dom m then m(k \<mapsto> v) else m)"
| "map_run cap (OpRemove k) m = m(k := None)"
| "map_run cap (OpCleanup t) m = m"
| "map_run cap OpReset m = Map.empty"

lemma hm_replace_ok:
  assumes ok: "hash_map_ok hash d h"
  shows "hash_map_ok hash d (snd (hm_replace hash k v h)) \<and>
    hm_map (snd (hm_replace hash k v h)) = (if k \<in> dom (hm_map h) then (hm_map h)(k \<mapsto> v) else hm_map h)"
proof (cases "hm_getElementIndex hash h k")
  case None
  with hm_getElementIndex_correct [OF ok, of k] ok show ?thesis
    by (simp add: hm_replace_def hm_map_eq domIff)
next
  case (Some i)
  with hm_getElementIndex_correct [OF ok, of k] have i: "i < 2 ^ d" "slotFlag (occupationFlags h) i = 1"
    "fst (elements h ! i) = k" "k \<in> dom (hm_map h)" by (auto simp: hm_map_eq)
  with hm_overwrite_ok [OF ok i(1-3) refl, of v] Some show ?thesis by (simp add: hm_replace_def)
qed

lemma hm_run_ok:
  assumes ok: "hash_map_ok hash d h"
  shows "hash_map_ok hash d (hm_run hash z op h) \<and> hm_map (hm_run hash z op h) = map_run (2 ^ d) op (hm_map h)"
proof (cases op)
  case (OpSet k v)
  obtain r h' where "hm_set hash k v h = (r, h')" by fastforce
  with hm_set_ok [OF ok, of k v] ok show ?thesis
    using OpSet dom_hm_map(1) [OF ok] hash_map_okD(2) [OF ok] by (auto simp: set_outcome_def split: if_splits)
next
  case (OpReplace k v)
  with hm_replace_ok [OF ok, of k v] show ?thesis by simp
next
  case (OpRemove k)
  obtain r h' where "hm_removeByKey hash z k h = (r, h')" by fastforce
  with hm_removeByKey_ok [OF ok this] OpRemove show ?thesis by simp
next
  case (OpCleanup t)
  show ?thesis
  proof (cases "markRemovalCounter h = 0")
    case True
    then show ?thesis using ok OpCleanup by (simp add: hm_cleanupIfNeeded_def hm_cleanup_def)
  next
    case False
    with hm_cleanup_ok [OF ok False, of z] ok OpCleanup show ?thesis by (simp add: hm_cleanupIfNeeded_def)
  qed
next
  case OpReset
  then show ?thesis
    using hm_reset_ok(1) [OF hash_map_okD(2,1) [OF ok], of hash z] hm_reset_ok(2) [OF hash_map_okD(2,1) [OF ok], of z]
    by simp
qed

lemma hm_contains_iff: "hm_contains hash h k \<longleftrightarrow> hm_get hash h k \<noteq> None"
  by (simp add: hm_contains_def hm_get_def split: option.split)

lemma hm_fold_ok:
  "hash_map_ok hash d h \<Longrightarrow> hash_map_ok hash d (fold (hm_run hash z) ops h) \<and>
    hm_map (fold (hm_run hash z) ops h) = fold (map_run (2 ^ d)) ops (hm_map h)"
  by (induction ops arbitrary: h) (simp_all add: hm_run_ok)

section \<open>Properties\<close>

text \<open>A map of four slots in which two keys were set and one of them removed.\<close>

definition sampleMap :: "(u64, nat) HashMap" where
  "sampleMap = fold (hm_run id (0, 0)) [OpSet 1 10, OpSet 5 50, OpRemove 1]
     (hm_reset (0, 0) \<lparr>elements = replicate 4 (0, 0), occupationFlags = [], hm_population = 0, markRemovalCounter = 0\<rparr>)"

lemma sampleMap_ok: "hash_map_ok id 2 sampleMap" "markRemovalCounter sampleMap = 1"
proof -
  have "hash_map_ok id 2 (hm_reset (0 :: u64, 0 :: nat) \<lparr>elements = replicate 4 (0, 0), occupationFlags = [],
      hm_population = 0, markRemovalCounter = 0\<rparr>)"
    by (rule hm_reset_ok) simp_all
  then show "hash_map_ok id 2 sampleMap" unfolding sampleMap_def using hm_fold_ok by blast
  show "markRemovalCounter sampleMap = 1" by code_simp
qed

text \<open>
  C8: every sequence of operations on a fresh \<open>HashMap\<close> leaves it in a well-formed state that
  stands for the map obtained by the same operations on a map bounded by the capacity: \<open>get\<close>
  returns what was last set and not removed, \<open>set\<close> of a new key fails exactly on a full map,
  \<open>cleanup\<close> changes nothing, and \<open>population()\<close> is the number of keys.
\<close>

theorem HashMap_refines_map:
  assumes "d < 63" and "hm_capacity h0 = 2 ^ d"
  shows "let h = fold (hm_run hash z) ops (hm_reset z h0); m = fold (map_run (2 ^ d)) ops Map.empty
    in hash_map_ok hash d h \<and> (\<forall>k. hm_get hash h k = m k) \<and> (\<forall>k. hm_contains hash h k \<longleftrightarrow> k \<in> dom m) \<and>
       unat (hm_population h) = card (dom m)"
proof -
  let ?h = "fold (hm_run hash z) ops (hm_reset z h0)" and ?m = "fold (map_run (2 ^ d)) ops Map.empty"
  have ok: "hash_map_ok hash d ?h" and m: "hm_map ?h = ?m"
    using hm_fold_ok [OF hm_reset_ok(1) [OF assms(2,1)], of hash z ops] hm_reset_ok(2) [OF assms(2,1), of z] by simp_all
  have "hm_contains hash ?h k \<longleftrightarrow> k \<in> dom ?m" for k
    using hm_get_correct [OF ok, of k] m by (simp add: hm_contains_iff domIff)
  then show ?thesis using ok m hm_get_correct [OF ok] dom_hm_map(1) [OF ok] by simp
qed

theorem HashMap_refines_map_witness:
  "let h0 = \<lparr>elements = replicate 4 (0, 0), occupationFlags = [], hm_population = 0, markRemovalCounter = 0\<rparr>;
       ops = [OpSet 1 10, OpSet 5 50, OpRemove 1, OpSet 9 90, OpCleanup 0, OpReplace 5 51];
       h = fold (hm_run id (0 :: u64, 0 :: nat)) ops (hm_reset (0, 0) h0)
   in hm_get id h 1 = None \<and> hm_get id h 5 = Some 51 \<and> hm_get id h 9 = Some 90 \<and> unat (hm_population h) = 2"
proof -
  let ?ops = "[OpSet 1 10, OpSet 5 50, OpRemove 1, OpSet 9 90, OpCleanup 0, OpReplace 5 51] :: (u64, nat) map_op list"
  let ?h0 = "\<lparr>elements = replicate 4 (0, 0), occupationFlags = [], hm_population = 0, markRemovalCounter = 0\<rparr>
    :: (u64, nat) HashMap"
  have "fold (map_run 4) ?ops Map.empty = [5 \<mapsto> 51, 9 \<mapsto> 90]" by (auto simp: fun_eq_iff)
  moreover have "dom [5 \<mapsto> 51, 9 \<mapsto> 90 :: nat] = {5, 9 :: u64}" by auto
  ultimately show ?thesis
    using HashMap_refines_map [of 2 ?h0 id "(0, 0)" ?ops] unfolding Let_def by simp
qed

text \<open>
  C9: \<open>cleanup\<close> of a map in which something was removed rebuilds it: the contents and the
  number of elements stay, no slot marked for removal is left, the counter of removals is 0
  and the table is well formed. The exit \<open>cleanupBug\<close> is never taken.
\<close>

theorem HashMap_cleanup_preserves:
  assumes "hash_map_ok hash d h" and "markRemovalCounter h \<noteq> 0"
  shows "hash_map_ok hash d (hm_cleanup hash z h) \<and> (\<forall>k. hm_get hash (hm_cleanup hash z h) k = hm_get hash h k) \<and>
    hm_population (hm_cleanup hash z h) = hm_population h \<and> markRemovalCounter (hm_cleanup hash z h) = 0 \<and>
    (\<forall>i. i < hm_capacity h \<longrightarrow> slotFlag (occupationFlags (hm_cleanup hash z h)) i \<noteq> 2)"
proof -
  note C = hm_cleanup_ok [OF assms, of z]
  have "slotFlag (occupationFlags (hm_cleanup hash z h)) i \<noteq> 2" if "i < hm_capacity h" for i
    using C(3) that by fastforce
  then show ?thesis using C hm_get_correct [OF assms(1)] hm_get_correct [OF C(1)] by simp
qed

theorem HashMap_cleanup_preserves_witness:
  "hash_map_ok id 2 (hm_cleanup id (0, 0) sampleMap) \<and>
    (\<forall>k. hm_get id (hm_cleanup id (0, 0) sampleMap) k = hm_get id sampleMap k) \<and>
    markRemovalCounter (hm_cleanup id (0, 0) sampleMap) = 0"
  using HashMap_cleanup_preserves [OF sampleMap_ok(1), of "(0, 0)"] sampleMap_ok(2) by simp

text \<open>
  C10: \<open>nextElementIndex\<close> enumerates the elements: it returns the first occupied slot after the
  given index (from the first slot on, for a negative index), or \<open>NULL_INDEX\<close> when there is
  none.
\<close>

theorem HashMap_nextElementIndex_next:
  assumes "hash_map_ok hash d h"
  shows "(case hm_nextElementIndex h e of
      Some i \<Rightarrow> e < int i \<and> i < hm_capacity h \<and> \<not> hm_isEmptySlot h (int i) \<and>
        (\<forall>j<i. e < int j \<longrightarrow> hm_isEmptySlot h (int j))
    | None \<Rightarrow> (\<forall>j<hm_capacity h. e < int j \<longrightarrow> hm_isEmptySlot h (int j)))"
proof -
  note O = hash_map_okD [OF assms]
  let ?live = "\<lambda>i. slotFlag (occupationFlags h) i = 1"
  define s where "s = (if e < 0 then 0 else nat e + 1)"
  have eq: "hm_nextElementIndex h e = find ?live [s..<2 ^ d]"
    by (simp add: hm_nextElementIndex_correct [OF assms] s_def O(2))
  have empty: "hm_isEmptySlot h (int j) \<longleftrightarrow> \<not> ?live j" if "j < 2 ^ d" for j
    using that encoded_first [OF O(3) that]
    by (simp add: hm_isEmptySlot_def O(2) hm_mask_eq nat_mod_distrib nat_power_eq)
  have ge: "s \<le> j \<longleftrightarrow> e < int j" for j by (auto simp: s_def)
  show ?thesis
  proof (cases "find ?live [s..<2 ^ d]")
    case None
    then have "\<forall>j<2 ^ d. s \<le> j \<longrightarrow> \<not> ?live j" by (auto simp: find_None_iff)
    then show ?thesis using None empty ge by (simp add: eq O(2))
  next
    case (Some i)
    then obtain n where n: "n < 2 ^ d - s" "?live (s + n)" "i = s + n" "\<forall>m<n. \<not> ?live (s + m)"
      by (auto simp: find_Some_iff)
    then have "\<not> ?live j" if "j < i" "s \<le> j" for j
      using that n(4) [rule_format, of "j - s"] by auto
    moreover have "i < 2 ^ d" "s \<le> i" using n(1,3) by linarith+
    moreover have "?live i" using n(2,3) by simp
    ultimately show ?thesis using Some empty ge O(2) by (simp add: eq)
  qed
qed


theorem HashMap_nextElementIndex_next_witness:
  "(case hm_nextElementIndex sampleMap 0 of
      Some i \<Rightarrow> 0 < int i \<and> i < hm_capacity sampleMap \<and> \<not> hm_isEmptySlot sampleMap (int i) \<and>
        (\<forall>j<i. 0 < int j \<longrightarrow> hm_isEmptySlot sampleMap (int j))
    | None \<Rightarrow> (\<forall>j<hm_capacity sampleMap. 0 < int j \<longrightarrow> hm_isEmptySlot sampleMap (int j)))"
  by (rule HashMap_nextElementIndex_next [OF sampleMap_ok(1)])

end
