(* ===== verification/Linked_List.thy ===== *)
theory Linked_List
  imports Bit_Flags
begin

text \<open>
  The container \<open>QPI::LinkedList\<close>: a doubly linked list in an array of nodes, with a free
  list of recycled nodes and a counter of never used ones. Indices are \<^typ>\<open>int\<close> with
  \<open>NULL_INDEX = -1\<close>; \<open>_nextUnusedIndex\<close> and \<open>_population\<close> stay below the capacity, so they
  are natural numbers.
\<close>

section \<open>State\<close>

record 'a ll_node =
  ll_value :: 'a
  nextIndex :: int
  prevIndex :: int

record 'a LinkedList =
  nodes :: "'a ll_node list"
  occupiedFlags :: "u64 list"
  ll_head :: int
  ll_tail :: int
  freeHeadIndex :: int
  nextUnusedIndex :: nat
  ll_population :: nat

abbreviation ll_capacity :: "'a LinkedList \<Rightarrow> nat" where
  "ll_capacity h \<equiv> length (nodes h)"

definition NULL_INDEX :: int where
  "NULL_INDEX = - 1"

definition isValidAndOccupied :: "'a LinkedList \<Rightarrow> int \<Rightarrow> bool" where
  "isValidAndOccupied h elementIndex \<longleftrightarrow>
     \<not> (elementIndex < 0 \<or> int (ll_capacity h) \<le> elementIndex) \<and> testFlag (occupiedFlags h) (nat elementIndex)"

section \<open>Nodes\<close>

definition initIfNeeded :: "'a LinkedList \<Rightarrow> 'a LinkedList" where
  "initIfNeeded h =
     (if ll_population h = 0 \<and> nextUnusedIndex h = 0
      then h\<lparr>ll_head := NULL_INDEX, ll_tail := NULL_INDEX, freeHeadIndex := NULL_INDEX\<rparr> else h)"

definition allocateNode :: "'a LinkedList \<Rightarrow> int \<times> 'a LinkedList" where
  "allocateNode h0 =
     (let h = initIfNeeded h0
      in if freeHeadIndex h \<noteq> NULL_INDEX
         then (freeHeadIndex h, h\<lparr>freeHeadIndex := nextIndex (nodes h ! nat (freeHeadIndex h))\<rparr>)
         else if nextUnusedIndex h < ll_capacity h
         then (int (nextUnusedIndex h), h\<lparr>nextUnusedIndex := nextUnusedIndex h + 1\<rparr>)
         else (NULL_INDEX, h))"

text \<open>Assignments to one member of a node.\<close>

definition setNode :: "int \<Rightarrow> ('a ll_node \<Rightarrow> 'a ll_node) \<Rightarrow> 'a LinkedList \<Rightarrow> 'a LinkedList" where
  "setNode i f h = h\<lparr>nodes := (nodes h)[nat i := f (nodes h ! nat i)]\<rparr>"

definition freeNode :: "'a \<Rightarrow> int \<Rightarrow> 'a LinkedList \<Rightarrow> 'a LinkedList" where
  "freeNode z nodeIndex h0 =
     (let h = h0\<lparr>occupiedFlags := clearFlag (occupiedFlags h0) (nat nodeIndex)\<rparr>;
          h = setNode nodeIndex (\<lambda>n. n\<lparr>ll_value := z\<rparr>) h;
          h = setNode nodeIndex (\<lambda>n. n\<lparr>nextIndex := freeHeadIndex h, prevIndex := NULL_INDEX\<rparr>) h
      in h\<lparr>freeHeadIndex := nodeIndex\<rparr>)"

section \<open>Access\<close>

definition ll_headIndex :: "'a LinkedList \<Rightarrow> int" where
  "ll_headIndex h = (if ll_population h = 0 then NULL_INDEX else ll_head h)"

definition ll_tailIndex :: "'a LinkedList \<Rightarrow> int" where
  "ll_tailIndex h = (if ll_population h = 0 then NULL_INDEX else ll_tail h)"

definition ll_nextElementIndex :: "'a LinkedList \<Rightarrow> int \<Rightarrow> int" where
  "ll_nextElementIndex h i = (if \<not> isValidAndOccupied h i then NULL_INDEX else nextIndex (nodes h ! nat i))"

definition ll_prevElementIndex :: "'a LinkedList \<Rightarrow> int \<Rightarrow> int" where
  "ll_prevElementIndex h i = (if \<not> isValidAndOccupied h i then NULL_INDEX else prevIndex (nodes h ! nat i))"

definition ll_element :: "'a LinkedList \<Rightarrow> int \<Rightarrow> 'a" where
  "ll_element h i = ll_value (nodes h ! nat (i AND (int (ll_capacity h) - 1)))"

definition ll_isEmptySlot :: "'a LinkedList \<Rightarrow> int \<Rightarrow> bool" where
  "ll_isEmptySlot h i \<longleftrightarrow> \<not> isValidAndOccupied h i"

section \<open>Insertion and removal\<close>

definition occupyNode :: "int \<Rightarrow> 'a LinkedList \<Rightarrow> 'a LinkedList" where
  "occupyNode i h = h\<lparr>occupiedFlags := setFlag (occupiedFlags h) (nat i)\<rparr>"

definition addHead :: "'a \<Rightarrow> 'a LinkedList \<Rightarrow> int \<times> 'a LinkedList" where
  "addHead v h0 =
     (let (nodeIndex, h) = allocateNode h0
      in if nodeIndex = NULL_INDEX then (NULL_INDEX, h)
         else let h = occupyNode nodeIndex h;
                  h = setNode nodeIndex (\<lambda>n. n\<lparr>ll_value := v, prevIndex := NULL_INDEX, nextIndex := ll_head h\<rparr>) h;
                  h = (if ll_head h \<noteq> NULL_INDEX then setNode (ll_head h) (\<lambda>n. n\<lparr>prevIndex := nodeIndex\<rparr>) h
                       else h\<lparr>ll_tail := nodeIndex\<rparr>)
              in (nodeIndex, h\<lparr>ll_head := nodeIndex, ll_population := ll_population h + 1\<rparr>))"

definition addTail :: "'a \<Rightarrow> 'a LinkedList \<Rightarrow> int \<times> 'a LinkedList" where
  "addTail v h0 =
     (let (nodeIndex, h) = allocateNode h0
      in if nodeIndex = NULL_INDEX then (NULL_INDEX, h)
         else let h = occupyNode nodeIndex h;
                  h = setNode nodeIndex (\<lambda>n. n\<lparr>ll_value := v, prevIndex := ll_tail h, nextIndex := NULL_INDEX\<rparr>) h;
                  h = (if ll_tail h \<noteq> NULL_INDEX then setNode (ll_tail h) (\<lambda>n. n\<lparr>nextIndex := nodeIndex\<rparr>) h
                       else h\<lparr>ll_head := nodeIndex\<rparr>)
              in (nodeIndex, h\<lparr>ll_tail := nodeIndex, ll_population := ll_population h + 1\<rparr>))"

definition insertAfter :: "int \<Rightarrow> 'a \<Rightarrow> 'a LinkedList \<Rightarrow> int \<times> 'a LinkedList" where
  "insertAfter elementIndex v h0 =
     (if \<not> isValidAndOccupied h0 elementIndex then (NULL_INDEX, h0)
      else if elementIndex = ll_tail h0 then addTail v h0
      else let (nodeIndex, h) = allocateNode h0
           in if nodeIndex = NULL_INDEX then (NULL_INDEX, h)
              else let h = occupyNode nodeIndex h;
                       nextIdx = nextIndex (nodes h ! nat elementIndex);
                       h = setNode nodeIndex
                             (\<lambda>n. n\<lparr>ll_value := v, prevIndex := elementIndex, nextIndex := nextIdx\<rparr>) h;
                       h = setNode elementIndex (\<lambda>n. n\<lparr>nextIndex := nodeIndex\<rparr>) h;
                       h = (if nextIdx \<noteq> NULL_INDEX then setNode nextIdx (\<lambda>n. n\<lparr>prevIndex := nodeIndex\<rparr>) h else h)
                   in (nodeIndex, h\<lparr>ll_population := ll_population h + 1\<rparr>))"

definition insertBefore :: "int \<Rightarrow> 'a \<Rightarrow> 'a LinkedList \<Rightarrow> int \<times> 'a LinkedList" where
  "insertBefore elementIndex v h0 =
     (if \<not> isValidAndOccupied h0 elementIndex then (NULL_INDEX, h0)
      else if elementIndex = ll_head h0 then addHead v h0
      else let (nodeIndex, h) = allocateNode h0
           in if nodeIndex = NULL_INDEX then (NULL_INDEX, h)
              else let h = occupyNode nodeIndex h;
                       prevIdx = prevIndex (nodes h ! nat elementIndex);
                       h = setNode nodeIndex
                             (\<lambda>n. n\<lparr>ll_value := v, prevIndex := prevIdx, nextIndex := elementIndex\<rparr>) h;
                       h = setNode elementIndex (\<lambda>n. n\<lparr>prevIndex := nodeIndex\<rparr>) h;
                       h = (if prevIdx \<noteq> NULL_INDEX then setNode prevIdx (\<lambda>n. n\<lparr>nextIndex := nodeIndex\<rparr>) h else h)
                   in (nodeIndex, h\<lparr>ll_population := ll_population h + 1\<rparr>))"

definition ll_remove :: "'a \<Rightarrow> int \<Rightarrow> 'a LinkedList \<Rightarrow> 'a LinkedList" where
  "ll_remove z elementIndex h =
     (if \<not> isValidAndOccupied h elementIndex then h
      else let prevIdx = prevIndex (nodes h ! nat elementIndex);
               nextIdx = nextIndex (nodes h ! nat elementIndex);
               h = (if prevIdx \<noteq> NULL_INDEX then setNode prevIdx (\<lambda>n. n\<lparr>nextIndex := nextIdx\<rparr>) h
                    else h\<lparr>ll_head := nextIdx\<rparr>);
               h = (if nextIdx \<noteq> NULL_INDEX then setNode nextIdx (\<lambda>n. n\<lparr>prevIndex := prevIdx\<rparr>) h
                    else h\<lparr>ll_tail := prevIdx\<rparr>)
           in freeNode z elementIndex (h\<lparr>ll_population := ll_population h - 1\<rparr>))"

definition ll_replace :: "int \<Rightarrow> 'a \<Rightarrow> 'a LinkedList \<Rightarrow> bool \<times> 'a LinkedList" where
  "ll_replace elementIndex v h =
     (if \<not> isValidAndOccupied h elementIndex then (False, h)
      else (True, setNode elementIndex (\<lambda>n. n\<lparr>ll_value := v\<rparr>) h))"

text \<open>The zero bytes of a node, and of a contract state in which the list was never used.\<close>

definition zeroList :: "'a \<Rightarrow> nat \<Rightarrow> 'a LinkedList" where
  "zeroList z L = \<lparr>nodes = replicate L \<lparr>ll_value = z, nextIndex = 0, prevIndex = 0\<rparr>,
     occupiedFlags = replicate ((L + 63) div 64) 0, ll_head = 0, ll_tail = 0, freeHeadIndex = 0,
     nextUnusedIndex = 0, ll_population = 0\<rparr>"

definition ll_reset :: "'a \<Rightarrow> 'a LinkedList \<Rightarrow> 'a LinkedList" where
  "ll_reset z h = (zeroList z (ll_capacity h))\<lparr>ll_head := NULL_INDEX, ll_tail := NULL_INDEX, freeHeadIndex := NULL_INDEX\<rparr>"

section \<open>The list that the nodes hold\<close>

text \<open>
  \<open>is\<close> are the indices of the nodes in order, \<open>p\<close> is what the first one points back to and \<open>q\<close>
  what the last one points to.
\<close>

fun firstOr :: "int \<Rightarrow> nat list \<Rightarrow> int" where
  "firstOr q [] = q"
| "firstOr q (i # is) = int i"

definition lastOr :: "int \<Rightarrow> nat list \<Rightarrow> int" where
  "lastOr p is = (if is = [] then p else int (last is))"

fun links :: "'a ll_node list \<Rightarrow> int \<Rightarrow> nat list \<Rightarrow> int \<Rightarrow> bool" where
  "links ns p [] q \<longleftrightarrow> True"
| "links ns p (i # is) q \<longleftrightarrow> prevIndex (ns ! i) = p \<and> nextIndex (ns ! i) = firstOr q is \<and> links ns (int i) is q"

text \<open>The free list is linked through \<open>nextIndex\<close> only.\<close>

fun free_links :: "'a ll_node list \<Rightarrow> nat list \<Rightarrow> bool" where
  "free_links ns [] \<longleftrightarrow> True"
| "free_links ns (i # is) \<longleftrightarrow> nextIndex (ns ! i) = firstOr NULL_INDEX is \<and> free_links ns is"

definition ll_rep :: "'a LinkedList \<Rightarrow> nat list \<Rightarrow> nat list \<Rightarrow> bool" where
  "ll_rep h is fs \<longleftrightarrow>
     length (occupiedFlags h) = (ll_capacity h + 63) div 64 \<and> nextUnusedIndex h \<le> ll_capacity h \<and>
     distinct (is @ fs) \<and> set (is @ fs) = {0..<nextUnusedIndex h} \<and>
     (\<forall>i<ll_capacity h. flagBit (occupiedFlags h) i \<longleftrightarrow> i \<in> set is) \<and>
     ll_population h = length is \<and>
     (nextUnusedIndex h = 0 \<or> ll_head h = firstOr NULL_INDEX is \<and> ll_tail h = lastOr NULL_INDEX is \<and>
        freeHeadIndex h = firstOr NULL_INDEX fs) \<and>
     links (nodes h) NULL_INDEX is NULL_INDEX \<and> free_links (nodes h) fs"

definition ll_ok :: "'a LinkedList \<Rightarrow> bool" where
  "ll_ok h \<longleftrightarrow> (\<exists>k. ll_capacity h = 2 ^ k) \<and> (\<exists>is fs. ll_rep h is fs)"

text \<open>How a contract walks through the list, and the elements it sees.\<close>

fun walk :: "'a LinkedList \<Rightarrow> nat \<Rightarrow> int \<Rightarrow> int list" where
  "walk h 0 i = []"
| "walk h (Suc n) i = (if i = NULL_INDEX then [] else i # walk h n (ll_nextElementIndex h i))"

definition ll_indices :: "'a LinkedList \<Rightarrow> int list" where
  "ll_indices h = walk h (ll_population h) (ll_headIndex h)"

definition ll_elements :: "'a LinkedList \<Rightarrow> 'a list" where
  "ll_elements h = map (ll_element h) (ll_indices h)"

section \<open>Chains of links\<close>

lemma NULL_INDEX_neq [simp]: "int i \<noteq> NULL_INDEX" "NULL_INDEX \<noteq> int i"
  by (simp_all add: NULL_INDEX_def)

lemma firstOr_append: "firstOr q (xs @ ys) = firstOr (firstOr q ys) xs"
  by (cases xs) auto

lemma lastOr_simps [simp]: "lastOr p [] = p" "lastOr p (xs @ [i]) = int i" "lastOr p (i # xs) = lastOr (int i) xs"
  by (simp_all add: lastOr_def)

lemma lastOr_append: "lastOr p (xs @ ys) = lastOr (lastOr p xs) ys"
  by (simp add: lastOr_def)

lemma links_append: "links ns p (xs @ ys) q \<longleftrightarrow> links ns p xs (firstOr q ys) \<and> links ns (lastOr p xs) ys q"
  by (induction xs arbitrary: p) (auto simp: firstOr_append)

lemma links_redirect_last:
  assumes "links ns p xs q" and "distinct xs"
    and "\<And>k. k \<in> set xs \<Longrightarrow> prevIndex (ns' ! k) = prevIndex (ns ! k) \<and>
      nextIndex (ns' ! k) = (if k = last xs then q' else nextIndex (ns ! k))"
  shows "links ns' p xs q'"
  using assms
proof (induction xs arbitrary: p)
  case (Cons i xs)
  show ?case
  proof (cases "xs = []")
    case True
    with Cons.prems show ?thesis by simp
  next
    case False
    then have "links ns' (int i) xs q'"
      using Cons.prems by (intro Cons.IH) auto
    moreover have "i \<noteq> last xs" using Cons.prems(2) False by auto
    moreover have "firstOr q xs = firstOr q' xs" using False by (cases xs) auto
    ultimately show ?thesis using Cons.prems(1) Cons.prems(3) [of i] False by auto
  qed
qed simp

lemma links_redirect_first:
  assumes "links ns p ys q" and "distinct ys"
    and "\<And>k. k \<in> set ys \<Longrightarrow> nextIndex (ns' ! k) = nextIndex (ns ! k) \<and>
      prevIndex (ns' ! k) = (if k = hd ys then p' else prevIndex (ns ! k))"
  shows "links ns' p' ys q"
proof (cases ys)
  case (Cons i js)
  have "links ns' r zs q" if "links ns r zs q" "\<And>k. k \<in> set zs \<Longrightarrow> nextIndex (ns' ! k) = nextIndex (ns ! k) \<and>
      prevIndex (ns' ! k) = prevIndex (ns ! k)" for r zs
    using that by (induction zs arbitrary: r) auto
  moreover have "k \<noteq> i" if "k \<in> set js" for k using assms(2) Cons that by auto
  ultimately have "links ns' (int i) js q" using assms(1) assms(3) Cons by simp
  then show ?thesis using assms(1) assms(3) [of i] Cons by simp
qed simp

lemma links_insert:
  assumes l: "links ns p (xs @ ys) q" and d: "distinct (xs @ ys)"
    and i: "prevIndex (ns' ! i) = lastOr p xs" "nextIndex (ns' ! i) = firstOr q ys"
    and "\<And>k. k \<in> set xs \<Longrightarrow> prevIndex (ns' ! k) = prevIndex (ns ! k) \<and>
      nextIndex (ns' ! k) = (if k = last xs then int i else nextIndex (ns ! k))"
    and "\<And>k. k \<in> set ys \<Longrightarrow> nextIndex (ns' ! k) = nextIndex (ns ! k) \<and>
      prevIndex (ns' ! k) = (if k = hd ys then int i else prevIndex (ns ! k))"
  shows "links ns' p (xs @ i # ys) q"
proof -
  have a: "links ns p xs (firstOr q ys)" "links ns (lastOr p xs) ys q" "distinct xs" "distinct ys"
    using l d by (simp_all add: links_append)
  have "links ns' p xs (int i)" by (rule links_redirect_last [OF a(1,3) assms(5)])
  moreover have "links ns' (int i) ys q" by (rule links_redirect_first [OF a(2,4) assms(6)])
  ultimately show ?thesis using i by (simp add: links_append)
qed

lemma links_remove:
  assumes l: "links ns p (xs @ i # ys) q" and d: "distinct (xs @ ys)"
    and "\<And>k. k \<in> set xs \<Longrightarrow> prevIndex (ns' ! k) = prevIndex (ns ! k) \<and>
      nextIndex (ns' ! k) = (if k = last xs then firstOr q ys else nextIndex (ns ! k))"
    and "\<And>k. k \<in> set ys \<Longrightarrow> nextIndex (ns' ! k) = nextIndex (ns ! k) \<and>
      prevIndex (ns' ! k) = (if k = hd ys then lastOr p xs else prevIndex (ns ! k))"
  shows "links ns' p (xs @ ys) q"
proof -
  have a: "links ns p xs (int i)" "links ns (int i) ys q" "distinct xs" "distinct ys"
    using l d by (simp_all add: links_append)
  have "links ns' p xs (firstOr q ys)" by (rule links_redirect_last [OF a(1,3) assms(3)])
  moreover have "links ns' (lastOr p xs) ys q" by (rule links_redirect_first [OF a(2,4) assms(4)])
  ultimately show ?thesis by (simp add: links_append)
qed

lemma free_links_cong:
  "(\<And>k. k \<in> set fs \<Longrightarrow> nextIndex (ns' ! k) = nextIndex (ns ! k)) \<Longrightarrow> free_links ns' fs \<longleftrightarrow> free_links ns fs"
  by (induction fs) auto

section \<open>Walking\<close>

lemma ll_repD:
  assumes "ll_rep h is fs"
  shows "length (occupiedFlags h) = (ll_capacity h + 63) div 64" "nextUnusedIndex h \<le> ll_capacity h"
    "distinct (is @ fs)" "set (is @ fs) = {0..<nextUnusedIndex h}"
    "\<And>i. i < ll_capacity h \<Longrightarrow> flagBit (occupiedFlags h) i \<longleftrightarrow> i \<in> set is"
    "ll_population h = length is"
    "nextUnusedIndex h = 0 \<or> ll_head h = firstOr NULL_INDEX is \<and> ll_tail h = lastOr NULL_INDEX is \<and>
        freeHeadIndex h = firstOr NULL_INDEX fs"
    "links (nodes h) NULL_INDEX is NULL_INDEX" "free_links (nodes h) fs"
  using assms by (simp_all add: ll_rep_def)

lemma ll_rep_less:
  assumes "ll_rep h is fs" and "i \<in> set is \<union> set fs"
  shows "i < ll_capacity h"
  using ll_repD(2,4) [OF assms(1)] assms(2) by (metis Un_iff atLeastLessThan_iff order_less_le_trans set_append)

lemma isValid_iff:
  assumes "ll_rep h is fs"
  shows "isValidAndOccupied h j \<longleftrightarrow> (\<exists>i\<in>set is. j = int i)"
proof
  assume "isValidAndOccupied h j"
  then have "0 \<le> j" "j < int (ll_capacity h)" "flagBit (occupiedFlags h) (nat j)"
    by (auto simp: isValidAndOccupied_def)
  then show "\<exists>i\<in>set is. j = int i" using ll_repD(5) [OF assms, of "nat j"] by (intro bexI [of _ "nat j"]) auto
next
  assume "\<exists>i\<in>set is. j = int i"
  then obtain i where i: "i \<in> set is" "j = int i" by blast
  with ll_rep_less [OF assms, of i] ll_repD(5) [OF assms, of i] show "isValidAndOccupied h j"
    by (simp add: isValidAndOccupied_def)
qed

lemma walk_links:
  assumes "links (nodes h) p is NULL_INDEX" and "\<And>i. i \<in> set is \<Longrightarrow> isValidAndOccupied h (int i)"
  shows "walk h (length is) (firstOr NULL_INDEX is) = map int is"
  using assms
  by (induction "is" arbitrary: p) (auto simp: ll_nextElementIndex_def)

lemma ll_indices_rep:
  assumes "ll_rep h is fs"
  shows "ll_indices h = map int is"
proof (cases "is = []")
  case True
  then show ?thesis using ll_repD(6) [OF assms] by (simp add: ll_indices_def)
next
  case False
  then have "nextUnusedIndex h \<noteq> 0" using ll_repD(4) [OF assms] by (cases "nextUnusedIndex h = 0") auto
  then have "ll_head h = firstOr NULL_INDEX is" using ll_repD(7) [OF assms] by simp
  then show ?thesis
    using walk_links [OF ll_repD(8) [OF assms]] isValid_iff [OF assms] ll_repD(6) [OF assms] False
    by (simp add: ll_indices_def ll_headIndex_def)
qed

lemma ll_element_nth:
  assumes "ll_capacity h = 2 ^ k" and "i < 2 ^ k"
  shows "ll_element h (int i) = ll_value (nodes h ! i)"
proof -
  have "int i AND (2 ^ k - 1) = take_bit k (int i)" by (metis mask_eq_exp_minus_1 take_bit_eq_mask)
  also have "\<dots> = int i" using assms(2) by (simp add: take_bit_int_eq_self)
  finally show ?thesis by (simp add: ll_element_def assms(1))
qed

lemma ll_elements_rep:
  assumes "ll_rep h is fs" and "ll_capacity h = 2 ^ k"
  shows "ll_elements h = map (\<lambda>i. ll_value (nodes h ! i)) is"
  using ll_rep_less [OF assms(1)] assms(2) ll_element_nth [OF assms(2)]
  by (simp add: ll_elements_def ll_indices_rep [OF assms(1)])

section \<open>Allocation\<close>

text \<open>After \<open>_allocateNode\<close> the node \<open>i\<close> is in neither list.\<close>

definition alloc_rep :: "'a LinkedList \<Rightarrow> nat \<Rightarrow> nat list \<Rightarrow> nat list \<Rightarrow> bool" where
  "alloc_rep h i is fs \<longleftrightarrow>
     length (occupiedFlags h) = (ll_capacity h + 63) div 64 \<and> nextUnusedIndex h \<le> ll_capacity h \<and>
     distinct (i # is @ fs) \<and> set (i # is @ fs) = {0..<nextUnusedIndex h} \<and>
     (\<forall>i<ll_capacity h. flagBit (occupiedFlags h) i \<longleftrightarrow> i \<in> set is) \<and> ll_population h = length is \<and>
     ll_head h = firstOr NULL_INDEX is \<and> ll_tail h = lastOr NULL_INDEX is \<and>
     freeHeadIndex h = firstOr NULL_INDEX fs \<and>
     links (nodes h) NULL_INDEX is NULL_INDEX \<and> free_links (nodes h) fs"

lemma initIfNeeded_rep:
  assumes "ll_rep h is fs"
  shows "ll_rep (initIfNeeded h) is fs" and "ll_head (initIfNeeded h) = firstOr NULL_INDEX is"
    "ll_tail (initIfNeeded h) = lastOr NULL_INDEX is" "freeHeadIndex (initIfNeeded h) = firstOr NULL_INDEX fs"
    "nodes (initIfNeeded h) = nodes h"
proof -
  note R = ll_repD [OF assms]
  have "is = [] \<and> fs = []" if "nextUnusedIndex h = 0" using R(4) that by simp
  then show "ll_head (initIfNeeded h) = firstOr NULL_INDEX is"
    "ll_tail (initIfNeeded h) = lastOr NULL_INDEX is" "freeHeadIndex (initIfNeeded h) = firstOr NULL_INDEX fs"
    using R(6,7) by (auto simp: initIfNeeded_def)
  show "nodes (initIfNeeded h) = nodes h" by (simp add: initIfNeeded_def)
  show "ll_rep (initIfNeeded h) is fs" using assms by (auto simp: ll_rep_def initIfNeeded_def)
qed

lemma allocateNode_ok:
  assumes rep: "ll_rep h is fs"
  shows "length is = ll_capacity h \<and> (\<exists>h'. allocateNode h = (NULL_INDEX, h') \<and> ll_rep h' is fs \<and> nodes h' = nodes h) \<or>
    length is < ll_capacity h \<and> (\<exists>i fs' h'. allocateNode h = (int i, h') \<and> alloc_rep h' i is fs' \<and> nodes h' = nodes h)"
proof -
  define h1 where "h1 = initIfNeeded h"
  have r1: "ll_rep h1 is fs" "ll_head h1 = firstOr NULL_INDEX is" "ll_tail h1 = lastOr NULL_INDEX is"
    "freeHeadIndex h1 = firstOr NULL_INDEX fs" "nodes h1 = nodes h"
    using initIfNeeded_rep [OF rep] by (simp_all add: h1_def)
  note R = ll_repD [OF r1(1)]
  have eq: "length is + length fs = nextUnusedIndex h1"
    using distinct_card [OF R(3)] R(4) by simp
  show ?thesis
  proof (cases fs)
    case (Cons i fs')
    let ?h = "h1\<lparr>freeHeadIndex := nextIndex (nodes h1 ! i)\<rparr>"
    have "allocateNode h = (int i, ?h)"
      using r1(4) Cons by (simp add: allocateNode_def h1_def [symmetric] Let_def)
    moreover have "alloc_rep ?h i is fs'"
      using R r1(2,3) Cons by (auto simp: alloc_rep_def)
    moreover have "length is < ll_capacity h" using eq R(2) Cons r1(5) by simp
    ultimately show ?thesis using r1(5) by auto
  next
    case Nil
    show ?thesis
    proof (cases "nextUnusedIndex h1 < ll_capacity h1")
      case True
      let ?h = "h1\<lparr>nextUnusedIndex := nextUnusedIndex h1 + 1\<rparr>"
      have "allocateNode h = (int (nextUnusedIndex h1), ?h)"
        using r1(4) Nil True by (simp add: allocateNode_def h1_def [symmetric] Let_def)
      moreover have "alloc_rep ?h (nextUnusedIndex h1) is []"
        using R r1(2-4) Nil True by (auto simp: alloc_rep_def)
      moreover have "length is < ll_capacity h" using eq True Nil r1(5) by simp
      ultimately show ?thesis using r1(5) by auto
    next
      case False
      then have "allocateNode h = (NULL_INDEX, h1)"
        using r1(4) Nil by (simp add: allocateNode_def h1_def [symmetric] Let_def)
      then show ?thesis using r1(1,5) eq False R(2) Nil by auto
    qed
  qed
qed

section \<open>Splicing a node into the list\<close>

definition spliced :: "'a LinkedList \<Rightarrow> 'a LinkedList \<Rightarrow> nat \<Rightarrow> 'a \<Rightarrow> nat list \<Rightarrow> nat list \<Rightarrow> bool" where
  "spliced h h' i v xs ys \<longleftrightarrow>
     ll_capacity h' = ll_capacity h \<and> occupiedFlags h' = setFlag (occupiedFlags h) i \<and>
     nextUnusedIndex h' = nextUnusedIndex h \<and> freeHeadIndex h' = freeHeadIndex h \<and>
     ll_population h' = ll_population h + 1 \<and>
     ll_head h' = firstOr NULL_INDEX (xs @ i # ys) \<and> ll_tail h' = lastOr NULL_INDEX (xs @ i # ys) \<and>
     ll_value (nodes h' ! i) = v \<and> prevIndex (nodes h' ! i) = lastOr NULL_INDEX xs \<and>
     nextIndex (nodes h' ! i) = firstOr NULL_INDEX ys \<and>
     (\<forall>k<ll_capacity h. k \<noteq> i \<longrightarrow> ll_value (nodes h' ! k) = ll_value (nodes h ! k) \<and>
        nextIndex (nodes h' ! k) = (if xs \<noteq> [] \<and> k = last xs then int i else nextIndex (nodes h ! k)) \<and>
        prevIndex (nodes h' ! k) = (if ys \<noteq> [] \<and> k = hd ys then int i else prevIndex (nodes h ! k)))"

lemma alloc_rep_less:
  assumes "alloc_rep h i is fs" and "k = i \<or> k \<in> set is \<or> k \<in> set fs"
  shows "k < ll_capacity h"
proof -
  have "k \<in> {0..<nextUnusedIndex h}" using assms by (auto simp: alloc_rep_def)
  then show ?thesis using assms(1) by (simp add: alloc_rep_def)
qed

lemma spliced_rep:
  assumes a: "alloc_rep h i (xs @ ys) fs" and s: "spliced h h' i v xs ys"
  shows "ll_rep h' (xs @ i # ys) fs"
proof -
  note A = a [unfolded alloc_rep_def] and S = s [unfolded spliced_def]
  have less: "k < ll_capacity h" if "k = i \<or> k \<in> set xs \<or> k \<in> set ys \<or> k \<in> set fs" for k
    using alloc_rep_less [OF a, of k] that by auto
  have i: "i \<notin> set xs" "i \<notin> set ys" "i \<notin> set fs" using A by auto
  have disj: "set xs \<inter> set ys = {}" "set xs \<inter> set fs = {}" "set ys \<inter> set fs = {}" using A by auto
  have "links (nodes h') NULL_INDEX (xs @ i # ys) NULL_INDEX"
  proof (rule links_insert)
    show "links (nodes h) NULL_INDEX (xs @ ys) NULL_INDEX" "distinct (xs @ ys)" using A by auto
    show "prevIndex (nodes h' ! i) = lastOr NULL_INDEX xs" "nextIndex (nodes h' ! i) = firstOr NULL_INDEX ys"
      using S by auto
    show "prevIndex (nodes h' ! k) = prevIndex (nodes h ! k) \<and>
      nextIndex (nodes h' ! k) = (if k = last xs then int i else nextIndex (nodes h ! k))" if "k \<in> set xs" for k
    proof -
      have "k \<noteq> i" "\<not> (ys \<noteq> [] \<and> k = hd ys)" "xs \<noteq> []" using that i disj(1) by (auto dest: hd_in_set)
      then show ?thesis using S less [of k] that by auto
    qed
    show "nextIndex (nodes h' ! k) = nextIndex (nodes h ! k) \<and>
      prevIndex (nodes h' ! k) = (if k = hd ys then int i else prevIndex (nodes h ! k))" if "k \<in> set ys" for k
    proof -
      have "k \<noteq> i" "\<not> (xs \<noteq> [] \<and> k = last xs)" "ys \<noteq> []" using that i disj(1) by (auto dest: last_in_set)
      then show ?thesis using S less [of k] that by auto
    qed
  qed
  moreover have "free_links (nodes h') fs"
  proof -
    have "nextIndex (nodes h' ! k) = nextIndex (nodes h ! k)" if "k \<in> set fs" for k
    proof -
      have "k \<noteq> i" "\<not> (xs \<noteq> [] \<and> k = last xs)" using that i disj(2) by (auto dest: last_in_set)
      then show ?thesis using S less [of k] that by auto
    qed
    then show ?thesis using A free_links_cong [of fs "nodes h'" "nodes h"] by simp
  qed
  moreover have "flagBit (occupiedFlags h') k \<longleftrightarrow> k \<in> set (xs @ i # ys)" if "k < ll_capacity h'" for k
  proof -
    have "ll_capacity h \<le> 64 * length (occupiedFlags h)" using A by auto
    then have "flagBit (occupiedFlags h') k \<longleftrightarrow> k = i \<or> flagBit (occupiedFlags h) k"
      using S less [of i] by (subst S [THEN conjunct2, THEN conjunct1]) (simp add: flagBit_setFlag)
    then show ?thesis using A S that by auto
  qed
  ultimately show ?thesis using A S by (auto simp: ll_rep_def)
qed

lemma spliced_values:
  assumes "alloc_rep h i (xs @ ys) fs" and "spliced h h' i v xs ys"
  shows "map (\<lambda>i. ll_value (nodes h' ! i)) (xs @ i # ys) =
    map (\<lambda>i. ll_value (nodes h ! i)) xs @ v # map (\<lambda>i. ll_value (nodes h ! i)) ys"
proof -
  have "ll_value (nodes h' ! k) = ll_value (nodes h ! k)" if "k \<in> set xs \<union> set ys" for k
  proof -
    have "k \<noteq> i" using assms(1) that by (auto simp: alloc_rep_def)
    then show ?thesis using assms(2) alloc_rep_less [OF assms(1), of k] that by (auto simp: spliced_def)
  qed
  then show ?thesis using assms(2) by (simp add: spliced_def)
qed

text \<open>
  What every insertion at the position between \<open>xs\<close> and \<open>ys\<close> does: it fails and changes
  nothing visible when all nodes are in use, and otherwise inserts a node.
\<close>

definition inserts :: "'a LinkedList \<Rightarrow> 'a \<Rightarrow> nat list \<Rightarrow> nat list \<Rightarrow> nat list \<Rightarrow> int \<times> 'a LinkedList \<Rightarrow> bool" where
  "inserts h v xs ys fs = (\<lambda>(r, h').
     ll_capacity h' = ll_capacity h \<and>
     (if length (xs @ ys) = ll_capacity h then r = NULL_INDEX \<and> ll_rep h' (xs @ ys) fs \<and> nodes h' = nodes h
      else \<exists>i fs'. r = int i \<and> i \<notin> set (xs @ ys) \<and> ll_rep h' (xs @ i # ys) fs' \<and>
        map (\<lambda>i. ll_value (nodes h' ! i)) (xs @ i # ys) =
          map (\<lambda>i. ll_value (nodes h ! i)) xs @ v # map (\<lambda>i. ll_value (nodes h ! i)) ys))"

lemma inserts_full:
  "length (xs @ ys) = ll_capacity h \<Longrightarrow> ll_rep h' (xs @ ys) fs \<Longrightarrow> nodes h' = nodes h \<Longrightarrow>
   inserts h v xs ys fs (NULL_INDEX, h')"
  by (simp add: inserts_def)

lemma inserts_spliced:
  assumes "length (xs @ ys) < ll_capacity h" and a: "alloc_rep h1 i (xs @ ys) fs'" and n: "nodes h1 = nodes h"
    and s: "spliced h1 h' i v xs ys"
  shows "inserts h v xs ys fs (int i, h')"
proof -
  have "i \<notin> set (xs @ ys)" using a by (auto simp: alloc_rep_def)
  moreover have "ll_capacity h' = ll_capacity h" using s n by (simp add: spliced_def)
  ultimately show ?thesis
    using assms(1) spliced_rep [OF a s] spliced_values [OF a s] n by (auto simp: inserts_def)
qed

lemma links_at:
  assumes "links ns p (xs @ ys) q"
  shows "xs \<noteq> [] \<Longrightarrow> nextIndex (ns ! last xs) = firstOr q ys" and "ys \<noteq> [] \<Longrightarrow> prevIndex (ns ! hd ys) = lastOr p xs"
proof -
  show "nextIndex (ns ! last xs) = firstOr q ys" if "xs \<noteq> []"
    using assms that by (cases xs rule: rev_cases) (auto simp: links_append)
  show "prevIndex (ns ! hd ys) = lastOr p xs" if "ys \<noteq> []"
    using assms that by (cases ys) (auto simp: links_append)
qed

lemma alloc_repD:
  assumes "alloc_rep h i is fs"
  shows "ll_head h = firstOr NULL_INDEX is" "ll_tail h = lastOr NULL_INDEX is" "i < ll_capacity h"
    "links (nodes h) NULL_INDEX is NULL_INDEX" "\<And>k. k \<in> set is \<Longrightarrow> k \<noteq> i \<and> k < ll_capacity h"
  using assms alloc_rep_less [OF assms] by (auto simp: alloc_rep_def)

lemma setNode_simps [simp]:
  "nodes (setNode i f h) = (nodes h)[nat i := f (nodes h ! nat i)]"
  "occupiedFlags (setNode i f h) = occupiedFlags h" "ll_head (setNode i f h) = ll_head h"
  "ll_tail (setNode i f h) = ll_tail h" "freeHeadIndex (setNode i f h) = freeHeadIndex h"
  "nextUnusedIndex (setNode i f h) = nextUnusedIndex h" "ll_population (setNode i f h) = ll_population h"
  by (simp_all add: setNode_def)

lemma occupyNode_simps [simp]:
  "nodes (occupyNode i h) = nodes h" "occupiedFlags (occupyNode i h) = setFlag (occupiedFlags h) (nat i)"
  "ll_head (occupyNode i h) = ll_head h" "ll_tail (occupyNode i h) = ll_tail h"
  "freeHeadIndex (occupyNode i h) = freeHeadIndex h" "nextUnusedIndex (occupyNode i h) = nextUnusedIndex h"
  "ll_population (occupyNode i h) = ll_population h"
  by (simp_all add: occupyNode_def)

lemma addHead_inserts:
  assumes rep: "ll_rep h is fs"
  shows "inserts h v [] is fs (addHead v h)"
  using allocateNode_ok [OF rep]
proof (elim disjE conjE exE)
  fix h'
  assume "length is = ll_capacity h" "allocateNode h = (NULL_INDEX, h')" "ll_rep h' is fs" "nodes h' = nodes h"
  then show ?thesis using inserts_full [of "[]" "is" h h' fs v] by (simp add: addHead_def)
next
  fix i fs' h1
  assume len: "length is < ll_capacity h" and al: "allocateNode h = (int i, h1)"
    and a: "alloc_rep h1 i is fs'" and n: "nodes h1 = nodes h"
  note A = alloc_repD [OF a]
  obtain h' where h': "addHead v h = (int i, h')" "spliced h1 h' i v [] is"
  proof (cases "is = []")
    case True
    with that show ?thesis
      using al A by (simp add: addHead_def Let_def spliced_def)
  next
    case False
    then obtain j js where "is = j # js" by (cases "is") auto
    with that show ?thesis
      using al A(1-3) A(5) [of j] by (simp add: addHead_def Let_def spliced_def nth_list_update)
  qed
  show ?thesis unfolding h'(1) by (rule inserts_spliced [OF _ _ n h'(2)]) (use len a in simp_all)
qed

lemma addTail_inserts:
  assumes rep: "ll_rep h is fs"
  shows "inserts h v is [] fs (addTail v h)"
  using allocateNode_ok [OF rep]
proof (elim disjE conjE exE)
  fix h'
  assume "length is = ll_capacity h" "allocateNode h = (NULL_INDEX, h')" "ll_rep h' is fs" "nodes h' = nodes h"
  then show ?thesis using inserts_full [of "is" "[]" h h' fs v] by (simp add: addTail_def)
next
  fix i fs' h1
  assume len: "length is < ll_capacity h" and al: "allocateNode h = (int i, h1)"
    and a: "alloc_rep h1 i is fs'" and n: "nodes h1 = nodes h"
  note A = alloc_repD [OF a]
  obtain h' where h': "addTail v h = (int i, h')" "spliced h1 h' i v is []"
  proof (cases "is" rule: rev_cases)
    case Nil
    with that show ?thesis
      using al A by (simp add: addTail_def Let_def spliced_def)
  next
    case (snoc js j)
    have "firstOr NULL_INDEX (js @ [j, i]) = firstOr NULL_INDEX (js @ [j])" by (cases js) auto
    with that show ?thesis
      using snoc al A(1-3) A(5) [of j]
      by (simp add: addTail_def Let_def spliced_def nth_list_update lastOr_append)
  qed
  show ?thesis unfolding h'(1) by (rule inserts_spliced [OF _ _ n h'(2)]) (use len a in simp_all)
qed

text \<open>The two insertions in the middle: \<open>a\<close> is the node before and \<open>b\<close> the node after.\<close>

lemma spliced_middle:
  assumes a: "alloc_rep h1 i (xs @ ys) fs" and "xs \<noteq> []" "ys \<noteq> []" "last xs \<noteq> hd ys"
    and ns: "nodes h' = (nodes h1)
      [i := (nodes h1 ! i)\<lparr>ll_value := v, prevIndex := int (last xs), nextIndex := int (hd ys)\<rparr>,
       last xs := (nodes h1 ! last xs)\<lparr>nextIndex := int i\<rparr>, hd ys := (nodes h1 ! hd ys)\<lparr>prevIndex := int i\<rparr>]"
    and rest: "occupiedFlags h' = setFlag (occupiedFlags h1) i" "nextUnusedIndex h' = nextUnusedIndex h1"
      "freeHeadIndex h' = freeHeadIndex h1" "ll_population h' = ll_population h1 + 1"
      "ll_head h' = ll_head h1" "ll_tail h' = ll_tail h1"
  shows "spliced h1 h' i v xs ys"
proof -
  note A = alloc_repD [OF a]
  have l: "last xs \<in> set xs" "hd ys \<in> set ys" using assms(2,3) by auto
  have less: "last xs \<noteq> i" "last xs < ll_capacity h1" "hd ys \<noteq> i" "hd ys < ll_capacity h1"
    using A(5) [of "last xs"] A(5) [of "hd ys"] l by auto
  have "firstOr NULL_INDEX ys = int (hd ys)" "lastOr NULL_INDEX xs = int (last xs)"
    using assms(2,3) by (cases ys; simp add: lastOr_def)+
  moreover have "firstOr NULL_INDEX (xs @ i # ys) = firstOr NULL_INDEX (xs @ ys)" using assms(2) by (cases xs) auto
  moreover have "lastOr NULL_INDEX (xs @ i # ys) = lastOr NULL_INDEX (xs @ ys)" using assms(3) by (simp add: lastOr_def)
  ultimately show ?thesis
    using A(1-3) less assms(2-4) rest by (auto simp: spliced_def ns nth_list_update)
qed

lemma split_after:
  assumes "links ns NULL_INDEX is NULL_INDEX" and "e \<in> set is" and "int e \<noteq> lastOr NULL_INDEX is" and "distinct is"
  obtains xs ys where "is = xs @ ys" "xs \<noteq> []" "ys \<noteq> []" "last xs = e" "nextIndex (ns ! e) = int (hd ys)" "hd ys \<noteq> e"
proof -
  obtain us vs where s: "is = us @ e # vs" using assms(2) by (meson split_list)
  then have v: "vs \<noteq> []" using assms(3) by (auto simp: lastOr_def)
  have "nextIndex (ns ! e) = int (hd vs)" using links_at(1) [of ns NULL_INDEX "us @ [e]" vs] assms(1) s v
    by (cases vs) auto
  moreover have "hd vs \<noteq> e" using s v assms(4) by (cases vs) auto
  ultimately show ?thesis using that [of "us @ [e]" vs] s v by simp
qed

lemma split_before:
  assumes "links ns NULL_INDEX is NULL_INDEX" and "e \<in> set is" and "int e \<noteq> firstOr NULL_INDEX is" and "distinct is"
  obtains xs ys where "is = xs @ ys" "xs \<noteq> []" "ys \<noteq> []" "hd ys = e" "prevIndex (ns ! e) = int (last xs)" "last xs \<noteq> e"
proof -
  obtain us vs where s: "is = us @ e # vs" using assms(2) by (meson split_list)
  then have u: "us \<noteq> []" using assms(3) by auto
  have "prevIndex (ns ! e) = int (last us)" using links_at(2) [of ns NULL_INDEX us "e # vs"] assms(1) s u
    by (auto simp: lastOr_def)
  moreover have "last us \<noteq> e" using s u assms(4) by (auto dest: last_in_set)
  ultimately show ?thesis using that [of us "e # vs"] s u by simp
qed

lemma ll_rep_ends:
  assumes "ll_rep h is fs" and "is \<noteq> []"
  shows "ll_head h = firstOr NULL_INDEX is" "ll_tail h = lastOr NULL_INDEX is" "freeHeadIndex h = firstOr NULL_INDEX fs"
proof -
  have "nextUnusedIndex h \<noteq> 0" using ll_repD(4) [OF assms(1)] assms(2) by (cases "nextUnusedIndex h = 0") auto
  then show "ll_head h = firstOr NULL_INDEX is" "ll_tail h = lastOr NULL_INDEX is"
    "freeHeadIndex h = firstOr NULL_INDEX fs" using ll_repD(7) [OF assms(1)] by auto
qed

lemma insertAfter_inserts:
  assumes rep: "ll_rep h is fs" and e: "e \<in> set is"
  shows "\<exists>xs ys. is = xs @ ys \<and> xs \<noteq> [] \<and> last xs = e \<and> inserts h v xs ys fs (insertAfter (int e) v h)"
proof -
  have ne: "is \<noteq> []" using e by auto
  have valid: "isValidAndOccupied h (int e)" using isValid_iff [OF rep] e by auto
  have d: "distinct is" using ll_repD(3) [OF rep] by simp
  show ?thesis
  proof (cases "int e = lastOr NULL_INDEX is")
    case True
    then have "insertAfter (int e) v h = addTail v h" "last is = e"
      using valid ll_rep_ends(2) [OF rep ne] ne by (auto simp: insertAfter_def lastOr_def)
    then show ?thesis using addTail_inserts [OF rep, of v] ne by (intro exI [of _ "is"] exI [of _ "[]"]) auto
  next
    case False
    obtain xs ys where s: "is = xs @ ys" "xs \<noteq> []" "ys \<noteq> []" "last xs = e"
      "nextIndex (nodes h ! e) = int (hd ys)" "hd ys \<noteq> e"
      by (rule split_after [OF ll_repD(8) [OF rep] e False d])
    have "inserts h v xs ys fs (insertAfter (int e) v h)"
      using allocateNode_ok [OF rep]
    proof (elim disjE conjE exE)
      fix h'
      assume "length is = ll_capacity h" "allocateNode h = (NULL_INDEX, h')" "ll_rep h' is fs" "nodes h' = nodes h"
      then show ?thesis
        using inserts_full [of xs ys h h' fs v] valid False ll_rep_ends(2) [OF rep ne] s(1)
        by (simp add: insertAfter_def)
    next
      fix i fs' h1
      assume len: "length is < ll_capacity h" and al: "allocateNode h = (int i, h1)"
        and a: "alloc_rep h1 i is fs'" and n: "nodes h1 = nodes h"
      note A = alloc_repD [OF a]
      have ei: "e \<noteq> i" "hd ys \<noteq> i" using A(5) [of e] A(5) [of "hd ys"] e s by auto
      obtain h' where h': "insertAfter (int e) v h = (int i, h')" "spliced h1 h' i v xs ys"
      proof (rule that)
        show "insertAfter (int e) v h = (int i, snd (insertAfter (int e) v h))"
          using valid False ll_rep_ends(2) [OF rep ne] al by (simp add: insertAfter_def Let_def)
        show "spliced h1 (snd (insertAfter (int e) v h)) i v xs ys"
          by (rule spliced_middle [OF a [unfolded s(1)] s(2,3)])
             (use valid False ll_rep_ends(2) [OF rep ne] al s n ei in \<open>simp_all add: insertAfter_def Let_def\<close>)
      qed
      show ?thesis unfolding h'(1) by (rule inserts_spliced [OF _ _ n h'(2)]) (use len a s(1) in simp_all)
    qed
    with s show ?thesis by blast
  qed
qed

lemma insertBefore_inserts:
  assumes rep: "ll_rep h is fs" and e: "e \<in> set is"
  shows "\<exists>xs ys. is = xs @ ys \<and> ys \<noteq> [] \<and> hd ys = e \<and> inserts h v xs ys fs (insertBefore (int e) v h)"
proof -
  have ne: "is \<noteq> []" using e by auto
  have valid: "isValidAndOccupied h (int e)" using isValid_iff [OF rep] e by auto
  have d: "distinct is" using ll_repD(3) [OF rep] by simp
  show ?thesis
  proof (cases "int e = firstOr NULL_INDEX is")
    case True
    then have "insertBefore (int e) v h = addHead v h" "hd is = e"
      using valid ll_rep_ends(1) [OF rep ne] ne by (auto simp: insertBefore_def neq_Nil_conv)
    then show ?thesis using addHead_inserts [OF rep, of v] ne by (intro exI [of _ "[]"] exI [of _ "is"]) auto
  next
    case False
    obtain xs ys where s: "is = xs @ ys" "xs \<noteq> []" "ys \<noteq> []" "hd ys = e"
      "prevIndex (nodes h ! e) = int (last xs)" "last xs \<noteq> e"
      by (rule split_before [OF ll_repD(8) [OF rep] e False d])
    have "inserts h v xs ys fs (insertBefore (int e) v h)"
      using allocateNode_ok [OF rep]
    proof (elim disjE conjE exE)
      fix h'
      assume "length is = ll_capacity h" "allocateNode h = (NULL_INDEX, h')" "ll_rep h' is fs" "nodes h' = nodes h"
      then show ?thesis
        using inserts_full [of xs ys h h' fs v] valid False ll_rep_ends(1) [OF rep ne] s(1)
        by (simp add: insertBefore_def)
    next
      fix i fs' h1
      assume len: "length is < ll_capacity h" and al: "allocateNode h = (int i, h1)"
        and a: "alloc_rep h1 i is fs'" and n: "nodes h1 = nodes h"
      note A = alloc_repD [OF a]
      have ei: "e \<noteq> i" "last xs \<noteq> i" using A(5) [of e] A(5) [of "last xs"] e s by auto
      obtain h' where h': "insertBefore (int e) v h = (int i, h')" "spliced h1 h' i v xs ys"
      proof (rule that)
        show "insertBefore (int e) v h = (int i, snd (insertBefore (int e) v h))"
          using valid False ll_rep_ends(1) [OF rep ne] al by (simp add: insertBefore_def Let_def)
        show "spliced h1 (snd (insertBefore (int e) v h)) i v xs ys"
          by (rule spliced_middle [OF a [unfolded s(1)] s(2,3)])
             (use valid False ll_rep_ends(1) [OF rep ne] al s n ei in
              \<open>simp_all add: insertBefore_def Let_def list_update_swap [of e "last xs"]\<close>)
      qed
      show ?thesis unfolding h'(1) by (rule inserts_spliced [OF _ _ n h'(2)]) (use len a s(1) in simp_all)
    qed
    with s show ?thesis by blast
  qed
qed

section \<open>Removing a node\<close>

lemma ll_remove_effect:
  assumes rep: "ll_rep h (xs @ e # ys) fs" and h'_def: "h' = ll_remove z (int e) h"
  shows "ll_capacity h' = ll_capacity h" "occupiedFlags h' = clearFlag (occupiedFlags h) e"
    "nextUnusedIndex h' = nextUnusedIndex h" "freeHeadIndex h' = int e" "ll_population h' = length (xs @ ys)"
    "ll_head h' = firstOr NULL_INDEX (xs @ ys)" "ll_tail h' = lastOr NULL_INDEX (xs @ ys)"
    "nextIndex (nodes h' ! e) = firstOr NULL_INDEX fs"
    "\<And>k. k \<noteq> e \<Longrightarrow> k < ll_capacity h \<Longrightarrow> ll_value (nodes h' ! k) = ll_value (nodes h ! k) \<and>
       nextIndex (nodes h' ! k) = (if xs \<noteq> [] \<and> k = last xs then firstOr NULL_INDEX ys else nextIndex (nodes h ! k)) \<and>
       prevIndex (nodes h' ! k) = (if ys \<noteq> [] \<and> k = hd ys then lastOr NULL_INDEX xs else prevIndex (nodes h ! k))"
proof -
  note R = ll_repD [OF rep]
  have valid: "isValidAndOccupied h (int e)" using isValid_iff [OF rep] by auto
  have e: "e < ll_capacity h" using ll_rep_less [OF rep] by simp
  note E = ll_rep_ends [OF rep]
  have pn: "prevIndex (nodes h ! e) = lastOr NULL_INDEX xs" "nextIndex (nodes h ! e) = firstOr NULL_INDEX ys"
    using R(8) by (auto simp: links_append)
  have less: "k < ll_capacity h \<and> k \<noteq> e" if "k \<in> set xs \<union> set ys" for k
    using ll_rep_less [OF rep, of k] that R(3) by auto
  have X: "xs = [] \<or> xs \<noteq> [] \<and> lastOr NULL_INDEX xs = int (last xs) \<and> last xs < ll_capacity h \<and> last xs \<noteq> e"
    using less [of "last xs"] by (cases "xs = []") (auto simp: lastOr_def)
  have Y: "ys = [] \<or> ys \<noteq> [] \<and> firstOr NULL_INDEX ys = int (hd ys) \<and> hd ys < ll_capacity h \<and> hd ys \<noteq> e"
    using less [of "hd ys"] by (cases ys) auto
  have XY: "last xs \<noteq> hd ys" if "xs \<noteq> []" "ys \<noteq> []"
    using R(3) last_in_set [OF that(1)] hd_in_set [OF that(2)] by auto
  have ht: "firstOr NULL_INDEX (xs @ ys) = (if xs = [] then firstOr NULL_INDEX ys else firstOr NULL_INDEX (xs @ e # ys))"
    "lastOr NULL_INDEX (xs @ ys) = (if ys = [] then lastOr NULL_INDEX xs else lastOr NULL_INDEX (xs @ e # ys))"
    by (auto simp: firstOr_append lastOr_append lastOr_def) (cases xs; simp)
  note defs = h'_def ll_remove_def freeNode_def Let_def valid pn
  show "ll_capacity h' = ll_capacity h" "occupiedFlags h' = clearFlag (occupiedFlags h) e"
    "nextUnusedIndex h' = nextUnusedIndex h" "freeHeadIndex h' = int e" "ll_population h' = length (xs @ ys)"
    using R(6) by (simp_all add: defs)
  show "ll_head h' = firstOr NULL_INDEX (xs @ ys)" "ll_tail h' = lastOr NULL_INDEX (xs @ ys)"
    using X Y E unfolding ht by (cases "xs = []"; cases "ys = []"; simp add: defs)+
  show "nextIndex (nodes h' ! e) = firstOr NULL_INDEX fs"
    using X Y E e by (cases "xs = []"; cases "ys = []") (simp_all add: defs)
  show "ll_value (nodes h' ! k) = ll_value (nodes h ! k) \<and>
       nextIndex (nodes h' ! k) = (if xs \<noteq> [] \<and> k = last xs then firstOr NULL_INDEX ys else nextIndex (nodes h ! k)) \<and>
       prevIndex (nodes h' ! k) = (if ys \<noteq> [] \<and> k = hd ys then lastOr NULL_INDEX xs else prevIndex (nodes h ! k))"
    if "k \<noteq> e" "k < ll_capacity h" for k
    using X Y XY that by (cases "xs = []"; cases "ys = []") (simp_all add: defs nth_list_update)
qed

lemma ll_remove_rep:
  assumes rep: "ll_rep h (xs @ e # ys) fs"
  shows "ll_rep (ll_remove z (int e) h) (xs @ ys) (e # fs)"
    and "map (\<lambda>i. ll_value (nodes (ll_remove z (int e) h) ! i)) (xs @ ys) = map (\<lambda>i. ll_value (nodes h ! i)) (xs @ ys)"
proof -
  note R = ll_repD [OF rep] and F = ll_remove_effect [OF rep refl, where z = z]
  let ?h = "ll_remove z (int e) h"
  have less: "k < ll_capacity h \<and> k \<noteq> e" if "k \<in> set xs \<union> set ys \<union> set fs" for k
    using ll_rep_less [OF rep, of k] that R(3) by auto
  have disj: "set xs \<inter> set ys = {}" "set xs \<inter> set fs = {}" using R(3) by auto
  have "links (nodes ?h) NULL_INDEX (xs @ ys) NULL_INDEX"
  proof (rule links_remove [OF R(8)])
    show "distinct (xs @ ys)" using R(3) by auto
    show "prevIndex (nodes ?h ! k) = prevIndex (nodes h ! k) \<and>
      nextIndex (nodes ?h ! k) = (if k = last xs then firstOr NULL_INDEX ys else nextIndex (nodes h ! k))" if "k \<in> set xs" for k
    proof -
      have "\<not> (ys \<noteq> [] \<and> k = hd ys)" "xs \<noteq> []" using that disj(1) by (auto dest: hd_in_set)
      then show ?thesis using F(9) [of k] less [of k] that by auto
    qed
    show "nextIndex (nodes ?h ! k) = nextIndex (nodes h ! k) \<and>
      prevIndex (nodes ?h ! k) = (if k = hd ys then lastOr NULL_INDEX xs else prevIndex (nodes h ! k))" if "k \<in> set ys" for k
    proof -
      have "\<not> (xs \<noteq> [] \<and> k = last xs)" "ys \<noteq> []" using that disj(1) by (auto dest: last_in_set)
      then show ?thesis using F(9) [of k] less [of k] that by auto
    qed
  qed
  moreover have "free_links (nodes ?h) (e # fs)"
  proof -
    have "nextIndex (nodes ?h ! k) = nextIndex (nodes h ! k)" if "k \<in> set fs" for k
    proof -
      have "\<not> (xs \<noteq> [] \<and> k = last xs)" using that disj(2) by (auto dest: last_in_set)
      then show ?thesis using F(9) [of k] less [of k] that by auto
    qed
    then show ?thesis using R(9) F(8) free_links_cong [of fs "nodes ?h" "nodes h"] by simp
  qed
  moreover have "flagBit (occupiedFlags ?h) k \<longleftrightarrow> k \<in> set (xs @ ys)" if "k < ll_capacity ?h" for k
  proof -
    have "ll_capacity h \<le> 64 * length (occupiedFlags h)" "e < ll_capacity h"
      using R(1) ll_rep_less [OF rep, of e] by auto
    then have "flagBit (occupiedFlags ?h) k \<longleftrightarrow> k \<noteq> e \<and> flagBit (occupiedFlags h) k"
      by (simp add: F(2) flagBit_clearFlag)
    then show ?thesis using R(3,5) F(1) that by auto
  qed
  ultimately show "ll_rep ?h (xs @ ys) (e # fs)"
    using R(1-4) F(1-7) by (auto simp: ll_rep_def)
  show "map (\<lambda>i. ll_value (nodes ?h ! i)) (xs @ ys) = map (\<lambda>i. ll_value (nodes h ! i)) (xs @ ys)"
    using F(9) less by simp
qed

section \<open>Properties\<close>

lemma zeroList_rep: "ll_rep (zeroList z L) [] []" "ll_rep (ll_reset z h) [] []"
proof -
  have "\<not> flagBit (replicate ((n + 63) div 64) 0) i" if "i < n" for i n
  proof -
    have "i div 64 < (n + 63) div 64" using that by auto
    then show ?thesis by (simp add: flagBit_def)
  qed
  then show "ll_rep (zeroList z L) [] []" "ll_rep (ll_reset z h) [] []"
    by (simp_all add: ll_rep_def zeroList_def ll_reset_def)
qed

definition inserted_at :: "nat \<Rightarrow> 'a \<Rightarrow> 'a LinkedList \<Rightarrow> int \<times> 'a LinkedList \<Rightarrow> bool" where
  "inserted_at n v h = (\<lambda>(r, h'). ll_ok h' \<and>
     (if ll_population h < ll_capacity h
      then r \<notin> set (ll_indices h) \<and> ll_indices h' = take n (ll_indices h) @ r # drop n (ll_indices h) \<and>
        ll_elements h' = take n (ll_elements h) @ v # drop n (ll_elements h)
      else r = NULL_INDEX \<and> ll_indices h' = ll_indices h \<and> ll_elements h' = ll_elements h))"

lemma ll_okE:
  assumes "ll_ok h"
  obtains k "is" fs where "ll_capacity h = 2 ^ k" "ll_rep h is fs"
  using assms by (auto simp: ll_ok_def)

lemma inserts_inserted_at:
  assumes rep: "ll_rep h (xs @ ys) fs" and k: "ll_capacity h = 2 ^ k" and i: "inserts h v xs ys fs rh"
  shows "inserted_at (length xs) v h rh"
proof -
  obtain r h' where rh: "rh = (r, h')" by (cases rh)
  have c: "ll_capacity h' = 2 ^ k" using i k by (simp add: inserts_def rh)
  note ix = ll_indices_rep [OF rep] and el = ll_elements_rep [OF rep k]
  have "length (xs @ ys) \<le> ll_capacity h"
  proof -
    have "card (set (xs @ ys)) \<le> card {0..<ll_capacity h}"
      using ll_rep_less [OF rep] by (intro card_mono) auto
    moreover have "distinct (xs @ ys)" using ll_repD(3) [OF rep] by auto
    ultimately show ?thesis using distinct_card [of "xs @ ys"] by simp
  qed
  then have full: "length (xs @ ys) = ll_capacity h \<longleftrightarrow> \<not> ll_population h < ll_capacity h"
    using ll_repD(6) [OF rep] by auto
  show ?thesis
  proof (cases "ll_population h < ll_capacity h")
    case True
    then obtain i fs' where "r = int i" "i \<notin> set (xs @ ys)" and r': "ll_rep h' (xs @ i # ys) fs'"
      "map (\<lambda>i. ll_value (nodes h' ! i)) (xs @ i # ys) =
          map (\<lambda>i. ll_value (nodes h ! i)) xs @ v # map (\<lambda>i. ll_value (nodes h ! i)) ys"
      using i full by (auto simp: inserts_def rh)
    then show ?thesis
      using True c ll_indices_rep [OF r'(1)] ll_elements_rep [OF r'(1) c] ix el
      by (auto simp: inserted_at_def rh ll_ok_def)
  next
    case False
    then have r': "r = NULL_INDEX" "ll_rep h' (xs @ ys) fs" "nodes h' = nodes h"
      using i full by (auto simp: inserts_def rh)
    then show ?thesis
      using False c ll_indices_rep [OF r'(2)] ll_elements_rep [OF r'(2) c] ix el
      by (auto simp: inserted_at_def rh ll_ok_def)
  qed
qed

lemma split_position:
  assumes "distinct is" and "is = xs @ ys" and "n < length is"
  shows "xs \<noteq> [] \<Longrightarrow> last xs = is ! n \<Longrightarrow> length xs = Suc n" and "ys \<noteq> [] \<Longrightarrow> hd ys = is ! n \<Longrightarrow> length xs = n"
proof -
  show "length xs = Suc n" if "xs \<noteq> []" "last xs = is ! n"
  proof -
    have "is ! (length xs - 1) = is ! n" using that assms(2) by (simp add: last_conv_nth nth_append)
    then have "length xs - 1 = n" using that assms nth_eq_iff_index_eq [of "is" "length xs - 1" n] by auto
    then show ?thesis using that(1) by (cases xs) auto
  qed
  show "length xs = n" if "ys \<noteq> []" "hd ys = is ! n"
  proof -
    have "is ! length xs = is ! n" using that assms(2) by (simp add: hd_conv_nth nth_append)
    then show ?thesis using that assms nth_eq_iff_index_eq [of "is" "length xs" n] by auto
  qed
qed

text \<open>A list of four nodes with two elements.\<close>

definition sampleList :: "nat LinkedList" where
  "sampleList = snd (addTail 20 (snd (addTail 10 (zeroList 0 4))))"

lemma addTail_ok: "ll_ok h \<Longrightarrow> ll_ok (snd (addTail v h))"
proof -
  assume "ll_ok h"
  then obtain k "is" fs where k: "ll_capacity h = 2 ^ k" and rep: "ll_rep h is fs" by (rule ll_okE)
  have "inserted_at (length is) v h (addTail v h)"
    using inserts_inserted_at [of h "is" "[]" fs k v] addTail_inserts [OF rep] rep k by simp
  then show ?thesis by (auto simp: inserted_at_def)
qed

lemma sampleList_ok: "ll_ok sampleList"
proof -
  have "ll_capacity (zeroList (0::nat) 4) = 2 ^ 2" by (simp add: zeroList_def)
  then have "ll_ok (zeroList (0::nat) 4)" using zeroList_rep(1) [of "0::nat" 4] unfolding ll_ok_def by blast
  then show ?thesis unfolding sampleList_def by (intro addTail_ok)
qed

text \<open>
  C11: insertions into a \<open>LinkedList\<close> put the new element at the head, at the tail, or next to
  the element of the given index, keep the order and the indices of all others, return the
  index of the new element, and fail without effect exactly when the list is full or the
  given index is not that of an element.
\<close>

theorem LinkedList_insertions:
  assumes "ll_ok h"
  shows "inserted_at 0 v h (addHead v h) \<and> inserted_at (length (ll_indices h)) v h (addTail v h) \<and>
    (\<forall>n<length (ll_indices h). inserted_at (Suc n) v h (insertAfter (ll_indices h ! n) v h) \<and>
       inserted_at n v h (insertBefore (ll_indices h ! n) v h)) \<and>
    (\<forall>j. j \<notin> set (ll_indices h) \<longrightarrow> insertAfter j v h = (NULL_INDEX, h) \<and> insertBefore j v h = (NULL_INDEX, h))"
proof -
  obtain k "is" fs where k: "ll_capacity h = 2 ^ k" and rep: "ll_rep h is fs" using assms by (rule ll_okE)
  note ix = ll_indices_rep [OF rep]
  have d: "distinct is" using ll_repD(3) [OF rep] by simp
  have "inserted_at 0 v h (addHead v h)"
    using inserts_inserted_at [of h "[]" "is" fs k v] addHead_inserts [OF rep] rep k by simp
  moreover have "inserted_at (length (ll_indices h)) v h (addTail v h)"
    using inserts_inserted_at [of h "is" "[]" fs k v] addTail_inserts [OF rep] rep k ix by simp
  moreover have "inserted_at (Suc n) v h (insertAfter (ll_indices h ! n) v h) \<and>
       inserted_at n v h (insertBefore (ll_indices h ! n) v h)" if "n < length (ll_indices h)" for n
  proof -
    have n: "n < length is" "is ! n \<in> set is" "ll_indices h ! n = int (is ! n)" using that ix by simp_all
    obtain xs ys where a: "is = xs @ ys" "xs \<noteq> []" "last xs = is ! n"
      "inserts h v xs ys fs (insertAfter (int (is ! n)) v h)"
      using insertAfter_inserts [OF rep n(2), of v] by auto
    obtain us ws where b: "is = us @ ws" "ws \<noteq> []" "hd ws = is ! n"
      "inserts h v us ws fs (insertBefore (int (is ! n)) v h)"
      using insertBefore_inserts [OF rep n(2), of v] by auto
    show ?thesis
      using inserts_inserted_at [OF rep [unfolded a(1)] k a(4)] inserts_inserted_at [OF rep [unfolded b(1)] k b(4)]
        split_position(1) [OF d a(1) n(1) a(2,3)] split_position(2) [OF d b(1) n(1) b(2,3)] n(3) by simp
  qed
  moreover have "insertAfter j v h = (NULL_INDEX, h) \<and> insertBefore j v h = (NULL_INDEX, h)"
    if "j \<notin> set (ll_indices h)" for j
    using that ix isValid_iff [OF rep, of j] by (auto simp: insertAfter_def insertBefore_def)
  ultimately show ?thesis by blast
qed

theorem LinkedList_insertions_witness:
  "ll_elements sampleList = [10, 20] \<and> ll_elements (snd (addHead 5 sampleList)) = [5, 10, 20] \<and>
    ll_elements (snd (insertBefore 1 15 sampleList)) = [10, 15, 20]"
proof -
  have e: "ll_elements sampleList = [10, 20]" "ll_indices sampleList = [0, 1]" "ll_population sampleList = 2"
    "ll_capacity sampleList = 4" by code_simp+
  obtain r1 h1 r2 h2 where rh: "addHead 5 sampleList = (r1, h1)" "insertBefore 1 15 sampleList = (r2, h2)" by fastforce
  have "inserted_at 0 5 sampleList (addHead 5 sampleList)" "inserted_at 1 15 sampleList (insertBefore 1 15 sampleList)"
    using LinkedList_insertions [OF sampleList_ok, of 5]
      LinkedList_insertions [OF sampleList_ok, of 15, THEN conjunct2, THEN conjunct2, THEN conjunct1, rule_format, of 1]
    by (simp_all add: e)
  then show ?thesis using e by (simp add: inserted_at_def rh)
qed

text \<open>
  C12: \<open>remove\<close> of the element at a position of a \<open>LinkedList\<close> takes exactly that element out
  of the list and keeps the order and the indices of the others; with any other index it
  does nothing.
\<close>

theorem LinkedList_remove:
  assumes "ll_ok h"
  shows "(\<forall>n<length (ll_indices h). let h' = ll_remove z (ll_indices h ! n) h
      in ll_ok h' \<and> ll_indices h' = take n (ll_indices h) @ drop (Suc n) (ll_indices h) \<and>
         ll_elements h' = take n (ll_elements h) @ drop (Suc n) (ll_elements h)) \<and>
    (\<forall>j. j \<notin> set (ll_indices h) \<longrightarrow> ll_remove z j h = h)"
proof -
  obtain k "is" fs where k: "ll_capacity h = 2 ^ k" and rep: "ll_rep h is fs" using assms by (rule ll_okE)
  note ix = ll_indices_rep [OF rep] and el = ll_elements_rep [OF rep k]
  have "let h' = ll_remove z (ll_indices h ! n) h
      in ll_ok h' \<and> ll_indices h' = take n (ll_indices h) @ drop (Suc n) (ll_indices h) \<and>
         ll_elements h' = take n (ll_elements h) @ drop (Suc n) (ll_elements h)"
    if "n < length (ll_indices h)" for n
  proof -
    have n: "n < length is" "ll_indices h ! n = int (is ! n)" using that ix by simp_all
    have s: "is = take n is @ is ! n # drop (Suc n) is" using id_take_nth_drop [OF n(1)] .
    let ?h = "ll_remove z (int (is ! n)) h"
    have r: "ll_rep h (take n is @ is ! n # drop (Suc n) is) fs" using rep s by simp
    note R = ll_remove_rep [OF r, of z]
    have c: "ll_capacity ?h = 2 ^ k" using ll_remove_effect(1) [OF r refl] k by simp
    show ?thesis
      using R ll_indices_rep [OF R(1)] ll_elements_rep [OF R(1) c] c ix el n(2)
      by (auto simp: ll_ok_def Let_def take_map drop_map)
  qed
  moreover have "ll_remove z j h = h" if "j \<notin> set (ll_indices h)" for j
    using that ix isValid_iff [OF rep, of j] by (auto simp: ll_remove_def)
  ultimately show ?thesis by blast
qed

theorem LinkedList_remove_witness:
  "ll_elements (ll_remove 0 0 sampleList) = [20] \<and> ll_remove 0 3 sampleList = sampleList"
proof -
  have e: "ll_elements sampleList = [10, 20]" "ll_indices sampleList = [0, 1]" by code_simp+
  show ?thesis
    using LinkedList_remove [OF sampleList_ok, of 0, THEN conjunct1, rule_format, of 0]
      LinkedList_remove [OF sampleList_ok, of 0, THEN conjunct2, rule_format, of 3]
    by (simp add: e Let_def)
qed

end
