(* ===== verification/Uint128.thy ===== *)
theory Uint128
  imports Prelude
begin

text \<open>
  The class \<open>uint128_t\<close> (\<open>platform/uint128.h\<close>): 128-bit unsigned arithmetic on two 64-bit
  words, compared with arithmetic modulo \<open>2 ^ 128\<close> on its value.
\<close>

section \<open>Operations\<close>

record uint128_t =
  u128_low :: u64
  u128_high :: u64

text \<open>The constructor \<open>uint128_t(i_high, i_low)\<close>.\<close>

definition u128 :: "u64 \<Rightarrow> u64 \<Rightarrow> uint128_t" where
  "u128 i_high i_low = \<lparr>u128_low = i_low, u128_high = i_high\<rparr>"

definition u128_bool :: "uint128_t \<Rightarrow> bool" where
  "u128_bool x \<longleftrightarrow> u128_high x OR u128_low x \<noteq> 0"

definition u128_eq :: "uint128_t \<Rightarrow> uint128_t \<Rightarrow> bool" where
  "u128_eq x rhs \<longleftrightarrow> u128_high x = u128_high rhs \<and> u128_low x = u128_low rhs"

definition u128_less :: "uint128_t \<Rightarrow> uint128_t \<Rightarrow> bool" where
  "u128_less x rhs \<longleftrightarrow>
     (if u128_high x = u128_high rhs then u128_low x < u128_low rhs else u128_high x < u128_high rhs)"

definition u128_greater :: "uint128_t \<Rightarrow> uint128_t \<Rightarrow> bool" where
  "u128_greater x rhs \<longleftrightarrow>
     (if u128_high x = u128_high rhs then u128_low rhs < u128_low x else u128_high rhs < u128_high x)"

definition u128_ge :: "uint128_t \<Rightarrow> uint128_t \<Rightarrow> bool" where
  "u128_ge x rhs \<longleftrightarrow> u128_greater x rhs \<or> u128_eq x rhs"

definition u128_le :: "uint128_t \<Rightarrow> uint128_t \<Rightarrow> bool" where
  "u128_le x rhs \<longleftrightarrow> u128_less x rhs \<or> u128_eq x rhs"

definition u128_shl :: "uint128_t \<Rightarrow> uint128_t \<Rightarrow> uint128_t" where
  "u128_shl x rhs =
     (let shift = u128_low rhs
      in if u128_high rhs \<noteq> 0 \<or> 128 \<le> shift then u128 0 0
         else if shift = 64 then u128 (u128_low x) 0
         else if shift = 0 then x
         else if shift < 64
         then u128 (push_bit (unat shift) (u128_high x) + drop_bit (unat (64 - shift)) (u128_low x))
                   (push_bit (unat shift) (u128_low x))
         else if 64 < shift then u128 (push_bit (unat (shift - 64)) (u128_low x)) 0
         else u128 0 0)"

definition u128_shr :: "uint128_t \<Rightarrow> uint128_t \<Rightarrow> uint128_t" where
  "u128_shr x rhs =
     (let shift = u128_low rhs
      in if u128_high rhs \<noteq> 0 \<or> 128 \<le> shift then u128 0 0
         else if shift = 64 then u128 0 (u128_high x)
         else if shift = 0 then x
         else if shift < 64
         then u128 (drop_bit (unat shift) (u128_high x))
                   (push_bit (unat (64 - shift)) (u128_high x) + drop_bit (unat shift) (u128_low x))
         else if 64 < shift then u128 0 (drop_bit (unat (shift - 64)) (u128_high x))
         else u128 0 0)"

definition u128_and :: "uint128_t \<Rightarrow> uint128_t \<Rightarrow> uint128_t" where
  "u128_and x rhs = u128 (u128_high x AND u128_high rhs) (u128_low x AND u128_low rhs)"

text \<open>\<open>while (up) { up >>= 1; out++; }\<close>\<close>

function bitsLoop :: "u64 \<Rightarrow> u8 \<Rightarrow> u8" where
  "bitsLoop up out = (if up \<noteq> 0 then bitsLoop (drop_bit 1 up) (out + 1) else out)"
  by pat_completeness auto
termination
  by (relation "measure (\<lambda>(up, out). unat up)")
     (simp_all only: wf_measure in_measure case_prod_conv unat_drop_bit, simp add: unat_gt_0)

declare bitsLoop.simps [simp del]

definition u128_bits :: "uint128_t \<Rightarrow> u8" where
  "u128_bits x = (if u128_high x \<noteq> 0 then bitsLoop (u128_high x) 64 else bitsLoop (u128_low x) 0)"

definition u128_add :: "uint128_t \<Rightarrow> uint128_t \<Rightarrow> uint128_t" where
  "u128_add x rhs = u128 (u128_high x + u128_high rhs + (if u128_low x + u128_low rhs < u128_low x then 1 else 0))
                         (u128_low x + u128_low rhs)"

definition u128_sub :: "uint128_t \<Rightarrow> uint128_t \<Rightarrow> uint128_t" where
  "u128_sub x rhs = u128 (u128_high x - u128_high rhs - (if u128_low x < u128_low x - u128_low rhs then 1 else 0))
                         (u128_low x - u128_low rhs)"

definition u128_inc :: "uint128_t \<Rightarrow> uint128_t" where
  "u128_inc x = u128_add x (u128 0 1)"

text \<open>The long division; the loop variable runs from \<open>lhs.bits()\<close> down to 1.\<close>

fun divmodLoop :: "uint128_t \<Rightarrow> uint128_t \<Rightarrow> nat \<Rightarrow> uint128_t \<Rightarrow> uint128_t \<Rightarrow> uint128_t \<times> uint128_t" where
  "divmodLoop lhs rhs 0 q r = (q, r)"
| "divmodLoop lhs rhs (Suc x) q r =
     (let q = u128_shl q (u128 0 1);
          r = u128_shl r (u128 0 1);
          r = (if u128_bool (u128_and (u128_shr lhs (u128 0 (of_nat x))) (u128 0 1)) then u128_inc r else r)
      in if u128_ge r rhs then divmodLoop lhs rhs x (u128_inc q) (u128_sub r rhs)
         else divmodLoop lhs rhs x q r)"

definition u128_divmod :: "uint128_t \<Rightarrow> uint128_t \<Rightarrow> uint128_t \<times> uint128_t" where
  "u128_divmod lhs rhs =
     (if u128_eq rhs (u128 0 1) then (lhs, u128 0 0)
      else if u128_eq lhs rhs then (u128 0 1, u128 0 0)
      else if u128_eq lhs (u128 0 0) \<or> u128_less lhs rhs then (u128 0 0, lhs)
      else divmodLoop lhs rhs (unat (u128_bits lhs)) (u128 0 0) (u128 0 0))"

definition u128_div :: "uint128_t \<Rightarrow> uint128_t \<Rightarrow> uint128_t" where
  "u128_div x rhs = fst (u128_divmod x rhs)"

definition lo32 :: "u64 \<Rightarrow> u64" where "lo32 x = x AND 0xffffffff"
definition hi32 :: "u64 \<Rightarrow> u64" where "hi32 x = drop_bit 32 x"

text \<open>\<open>p i y\<close> is \<open>products[i][y]\<close>.\<close>

definition u128_mul :: "uint128_t \<Rightarrow> uint128_t \<Rightarrow> uint128_t" where
  "u128_mul x rhs =
     (let top = [hi32 (u128_high x), lo32 (u128_high x), hi32 (u128_low x), lo32 (u128_low x)];
          bottom = [hi32 (u128_high rhs), lo32 (u128_high rhs), hi32 (u128_low rhs), lo32 (u128_low rhs)];
          p = (\<lambda>i y. top ! (3 - i) * bottom ! y);
          fourth32 = lo32 (p 0 3);
          third32 = lo32 (p 0 2) + hi32 (p 0 3);
          second32 = lo32 (p 0 1) + hi32 (p 0 2);
          first32 = lo32 (p 0 0) + hi32 (p 0 1);
          third32 = third32 + lo32 (p 1 3);
          second32 = second32 + (lo32 (p 1 2) + hi32 (p 1 3));
          first32 = first32 + (lo32 (p 1 1) + hi32 (p 1 2));
          second32 = second32 + lo32 (p 2 3);
          first32 = first32 + (lo32 (p 2 2) + hi32 (p 2 3));
          first32 = first32 + lo32 (p 3 3);
          third32 = third32 + hi32 fourth32;
          second32 = second32 + hi32 third32;
          first32 = first32 + hi32 second32;
          fourth32 = lo32 fourth32;
          third32 = lo32 third32;
          second32 = lo32 second32;
          first32 = lo32 first32
      in u128 (push_bit 32 first32 OR second32) (push_bit 32 third32 OR fourth32))"

section \<open>Values\<close>

definition u128_val :: "uint128_t \<Rightarrow> nat" where
  "u128_val x = unat (u128_high x) * 2 ^ 64 + unat (u128_low x)"

lemma u128_simps [simp]: "u128_low (u128 h l) = l" "u128_high (u128 h l) = h"
  by (simp_all add: u128_def)

lemma u128_val_u128: "u128_val (u128 h l) = unat h * 2 ^ 64 + unat l"
  by (simp add: u128_val_def)

lemma u128_val_less: "u128_val x < 2 ^ 128"
proof -
  have "unat (u128_high x) \<le> 2 ^ 64 - 1" "unat (u128_low x) < 2 ^ 64"
    using unat_less_64 [of "u128_high x"] unat_less_64 [of "u128_low x"] by simp_all
  then show ?thesis by (simp add: u128_val_def)
qed

lemma u128_val_inj: "u128_val x = u128_val y \<longleftrightarrow> u128_high x = u128_high y \<and> u128_low x = u128_low y"
proof -
  have "a * 2 ^ 64 + b = c * 2 ^ 64 + e \<longleftrightarrow> a = c \<and> b = e" if "b < 2 ^ 64" "e < 2 ^ 64" for a b c e :: nat
    using that by (cases "a = c") auto
  then show ?thesis
    using unat_less_64 by (simp add: u128_val_def word_unat_eq_iff)
qed

lemma u128_eq_val: "u128_eq x y \<longleftrightarrow> u128_val x = u128_val y"
  by (simp add: u128_eq_def u128_val_inj)

lemma u128_less_val: "u128_less x y \<longleftrightarrow> u128_val x < u128_val y"
proof -
  have "a * 2 ^ 64 + b < c * 2 ^ 64 + e \<longleftrightarrow> (if a = c then b < e else a < c)"
    if "b < 2 ^ 64" "e < 2 ^ 64" for a b c e :: nat
    using that by auto
  then show ?thesis
    using unat_less_64 by (simp add: u128_less_def u128_val_def word_less_nat_alt word_unat_eq_iff)
qed

lemma u128_greater_val: "u128_greater x y \<longleftrightarrow> u128_val y < u128_val x"
  using u128_less_val [of y x] by (auto simp: u128_greater_def u128_less_def)

lemma u128_ge_val: "u128_ge x y \<longleftrightarrow> u128_val y \<le> u128_val x"
  by (auto simp: u128_ge_def u128_greater_val u128_eq_val)

lemma u128_le_val: "u128_le x y \<longleftrightarrow> u128_val x \<le> u128_val y"
  by (auto simp: u128_le_def u128_less_val u128_eq_val)

lemma mod_128_split: "x mod 2 ^ 128 = (x div 2 ^ 64 mod 2 ^ 64) * 2 ^ 64 + x mod (2 ^ 64 :: nat)"
proof -
  have "x mod (2 ^ 64 * 2 ^ 64) = 2 ^ 64 * (x div 2 ^ 64 mod 2 ^ 64) + x mod (2 ^ 64 :: nat)"
    by (rule mod_mult2_eq)
  then show ?thesis by (simp add: mult.commute)
qed

lemma u128_val_eqI:
  assumes "unat h = x div 2 ^ 64 mod 2 ^ 64" and "unat l = x mod 2 ^ 64"
  shows "u128_val (u128 h l) = x mod 2 ^ 128"
  unfolding u128_val_u128 assms mod_128_split [of x] ..

lemma parts_mod: "(h * 2 ^ 64 + l) mod 2 ^ 64 = l mod (2 ^ 64 :: nat)"
  by (simp only: mod_mult_self3)

lemma parts_div: "(h * 2 ^ 64 + l) div 2 ^ 64 = h + l div (2 ^ 64 :: nat)"
  by (rule div_mult_self3) simp

lemma wrapped_difference:
  assumes "a = (d + b) mod m" and "d < m" and "b < m" and "b \<le> a"
  shows "d = a - (b :: nat)"
proof (cases "d + b < m")
  case False
  then have "(d + b) mod m = d + b - m" using assms(2,3) by (simp add: le_mod_geq)
  with assms False show ?thesis by linarith
qed (use assms in simp)

lemma u128_val_parts:
  "u128_val x div 2 ^ 64 = unat (u128_high x)" "u128_val x mod 2 ^ 64 = unat (u128_low x)"
  using unat_less_64 [of "u128_low x"] by (simp_all add: u128_val_def)

section \<open>Addition and subtraction\<close>

lemma u128_add_val: "u128_val (u128_add x y) = (u128_val x + u128_val y) mod 2 ^ 128"
  unfolding u128_add_def
proof (rule u128_val_eqI)
  let ?a = "unat (u128_low x)" and ?b = "unat (u128_low y)"
  let ?h = "unat (u128_high x) + unat (u128_high y)"
  have s: "u128_val x + u128_val y = ?h * 2 ^ 64 + (?a + ?b)" by (simp add: u128_val_def)
  show "unat (u128_low x + u128_low y) = (u128_val x + u128_val y) mod 2 ^ 64"
    unfolding s parts_mod unat_add_64 ..
  have lt: "?a < 2 ^ 64" "?b < 2 ^ 64" by (fact unat_less_64)+
  have carry: "u128_low x + u128_low y < u128_low x \<longleftrightarrow> 2 ^ 64 \<le> ?a + ?b"
    unfolding word_less_nat_alt unat_add_64 using lt by (cases "?a + ?b < 2 ^ 64") (auto simp: mod_if)
  have "(?a + ?b) div 2 ^ 64 = (if 2 ^ 64 \<le> ?a + ?b then 1 else 0)"
    using lt by (cases "?a + ?b < 2 ^ 64") (auto simp: div_if)
  then have "(u128_val x + u128_val y) div 2 ^ 64 = ?h + (if 2 ^ 64 \<le> ?a + ?b then 1 else 0)"
    unfolding s parts_div by simp
  then show "unat (u128_high x + u128_high y + (if u128_low x + u128_low y < u128_low x then 1 else 0)) =
    (u128_val x + u128_val y) div 2 ^ 64 mod 2 ^ 64"
    by (simp add: carry unat_add_64 mod_simps)
qed

lemma u128_sub_add: "u128_add (u128_sub x y) y = x"
proof -
  have b: "u128_low x < u128_low x - u128_low y \<longleftrightarrow> u128_low x - u128_low y + u128_low y < u128_low x - u128_low y"
    by simp
  have "u128_low (u128_add (u128_sub x y) y) = u128_low x" by (simp add: u128_add_def u128_sub_def)
  moreover have "u128_high (u128_add (u128_sub x y) y) = u128_high x"
    by (simp add: u128_add_def u128_sub_def)
  ultimately show ?thesis by (simp add: u128_add_def u128_sub_def u128_def)
qed

lemma u128_sub_val:
  assumes "u128_val y \<le> u128_val x"
  shows "u128_val (u128_sub x y) = u128_val x - u128_val y"
proof -
  let ?d = "u128_val (u128_sub x y)" and ?a = "u128_val x" and ?b = "u128_val y"
  have "?a = (?d + ?b) mod 2 ^ 128" using u128_add_val [of "u128_sub x y" y] by (simp add: u128_sub_add)
  then show ?thesis using u128_val_less u128_val_less assms by (rule wrapped_difference)
qed

lemma u128_inc_val: "u128_val x + 1 < 2 ^ 128 \<Longrightarrow> u128_val (u128_inc x) = u128_val x + 1"
  by (simp add: u128_inc_def u128_add_val u128_val_u128)

section \<open>Shifts\<close>

lemma shift_amounts:
  fixes w :: u64
  shows "w < 64 \<longleftrightarrow> unat w < 64" "64 < w \<longleftrightarrow> 64 < unat w" "w = 64 \<longleftrightarrow> unat w = 64" "w = 0 \<longleftrightarrow> unat w = 0"
    "128 \<le> w \<longleftrightarrow> 128 \<le> unat w" "w < 64 \<Longrightarrow> unat (64 - w) = 64 - unat w" "64 < w \<Longrightarrow> unat (w - 64) = unat w - 64"
  by (simp_all add: word_less_nat_alt word_le_nat_alt word_unat_eq_iff unat_sub)

lemma shl_high: "s \<le> 64 \<Longrightarrow> l * 2 ^ s div 2 ^ 64 = l div 2 ^ (64 - s)" for l :: nat
proof -
  assume "s \<le> 64"
  then have "(2::nat) ^ 64 = 2 ^ s * 2 ^ (64 - s)" by (simp only: power_add [symmetric]) simp
  then have "l * 2 ^ s div 2 ^ 64 = l * 2 ^ s div 2 ^ s div 2 ^ (64 - s)" by (simp only: div_mult2_eq)
  then show ?thesis by simp
qed

lemma u128_shl_val:
  assumes "u128_high r = 0" and "unat (u128_low r) < 128"
  shows "u128_val (u128_shl x r) = (u128_val x * 2 ^ unat (u128_low r)) mod 2 ^ 128"
proof -
  define s where "s = unat (u128_low r)"
  let ?h = "unat (u128_high x)" and ?l = "unat (u128_low x)"
  have v: "u128_val x * 2 ^ s = (?h * 2 ^ s) * 2 ^ 64 + ?l * 2 ^ s" by (simp add: u128_val_def algebra_simps)
  have s128: "s < 128" using assms(2) by (simp add: s_def)
  consider "s = 0" | "s = 64" | "0 < s" "s < 64" | "64 < s" by linarith
  then have "u128_val (u128_shl x r) = (u128_val x * 2 ^ s) mod 2 ^ 128"
  proof cases
    case 1
    then have "u128_shl x r = x" using assms by (simp add: u128_shl_def Let_def shift_amounts s_def)
    with 1 show ?thesis using u128_val_less [of x] by simp
  next
    case 2
    then have "u128_shl x r = u128 (u128_low x) 0" using assms by (simp add: u128_shl_def Let_def shift_amounts s_def)
    moreover have "u128_val (u128 (u128_low x) 0) = (u128_val x * 2 ^ s) mod 2 ^ 128"
    proof (rule u128_val_eqI)
      show "unat (u128_low x) = u128_val x * 2 ^ s div 2 ^ 64 mod 2 ^ 64"
        unfolding v parts_div using unat_less_64 [of "u128_low x"] by (simp add: 2)
      show "unat 0 = u128_val x * 2 ^ s mod 2 ^ 64" unfolding v parts_mod by (simp add: 2)
    qed
    ultimately show ?thesis by simp
  next
    case 3
    then have "u128_shl x r = u128 (push_bit s (u128_high x) + drop_bit (64 - s) (u128_low x)) (push_bit s (u128_low x))"
      using assms by (simp add: u128_shl_def Let_def shift_amounts s_def)
    moreover have "u128_val \<dots> = (u128_val x * 2 ^ s) mod 2 ^ 128"
    proof (rule u128_val_eqI)
      show "unat (push_bit s (u128_low x)) = u128_val x * 2 ^ s mod 2 ^ 64"
        unfolding v parts_mod unat_push_bit_64 ..
      have "?l * 2 ^ s div 2 ^ 64 = ?l div 2 ^ (64 - s)" using 3 by (intro shl_high) simp
      then show "unat (push_bit s (u128_high x) + drop_bit (64 - s) (u128_low x)) =
          u128_val x * 2 ^ s div 2 ^ 64 mod 2 ^ 64"
        unfolding v parts_div by (simp only: unat_add_64 unat_push_bit_64 unat_drop_bit mod_simps)
    qed
    ultimately show ?thesis by simp
  next
    case 4
    then obtain k where k: "s = 64 + k" using less_imp_add_positive by blast
    have "u128_shl x r = u128 (push_bit k (u128_low x)) 0"
      using assms 4 k by (simp add: u128_shl_def Let_def shift_amounts s_def)
    moreover have "u128_val \<dots> = (u128_val x * 2 ^ s) mod 2 ^ 128"
    proof (rule u128_val_eqI)
      have p: "a * 2 ^ s = (a * 2 ^ k) * 2 ^ 64" for a :: nat by (simp add: k power_add)
      have w: "u128_val x * 2 ^ k = (?h * 2 ^ k) * 2 ^ 64 + ?l * 2 ^ k" by (simp add: u128_val_def algebra_simps)
      have "u128_val x * 2 ^ s div 2 ^ 64 = u128_val x * 2 ^ k" unfolding p by simp
      then show "unat (push_bit k (u128_low x)) = u128_val x * 2 ^ s div 2 ^ 64 mod 2 ^ 64"
        by (simp only: w parts_mod unat_push_bit_64)
      show "unat 0 = u128_val x * 2 ^ s mod 2 ^ 64" unfolding p by simp
    qed
    ultimately show ?thesis by simp
  qed
  then show ?thesis by (simp add: s_def)
qed

lemma u128_shl_one: "u128_val (u128_shl x (u128 0 1)) = (2 * u128_val x) mod 2 ^ 128"
  using u128_shl_val [of "u128 0 1" x] by (simp add: mult.commute)

lemma u128_shr_val:
  assumes "u128_high r = 0" and "unat (u128_low r) < 128"
  shows "u128_val (u128_shr x r) = u128_val x div 2 ^ unat (u128_low r)"
proof -
  define s where "s = unat (u128_low r)"
  let ?h = "unat (u128_high x)" and ?l = "unat (u128_low x)"
  have s128: "s < 128" using assms(2) by (simp add: s_def)
  have small: "u128_val x div 2 ^ s mod 2 ^ 128 = u128_val x div 2 ^ s"
    using u128_val_less [of x] div_le_dividend [of "u128_val x" "2 ^ s"] by (intro mod_less) linarith
  have hi: "u128_val x div 2 ^ s div 2 ^ 64 = ?h div 2 ^ s"
    by (metis div_mult2_eq mult.commute u128_val_parts(1))
  consider "s = 0" | "s = 64" | "0 < s" "s < 64" | "64 < s" by linarith
  then have "u128_val (u128_shr x r) = u128_val x div 2 ^ s"
  proof cases
    case 1
    then show ?thesis using assms by (simp add: u128_shr_def Let_def shift_amounts s_def)
  next
    case 2
    then have "u128_shr x r = u128 0 (u128_high x)" using assms by (simp add: u128_shr_def Let_def shift_amounts s_def)
    then show ?thesis using u128_val_parts(1) [of x] by (simp add: u128_val_u128 2)
  next
    case 3
    have e: "(2::nat) ^ 64 = 2 ^ (64 - s) * 2 ^ s" using 3 by (simp only: power_add [symmetric]) simp
    have "u128_val x div 2 ^ s = ?h * 2 ^ (64 - s) + ?l div 2 ^ s"
      unfolding u128_val_def e by (simp add: mult.assoc [symmetric])
    then have lo: "u128_val x div 2 ^ s mod 2 ^ 64 = (?h * 2 ^ (64 - s) + ?l div 2 ^ s) mod 2 ^ 64" by simp
    have "u128_shr x r = u128 (drop_bit s (u128_high x)) (push_bit (64 - s) (u128_high x) + drop_bit s (u128_low x))"
      using assms 3 by (simp add: u128_shr_def Let_def shift_amounts s_def)
    also have "u128_val \<dots> = u128_val x div 2 ^ s mod 2 ^ 128"
    proof (rule u128_val_eqI)
      have "?h div 2 ^ s < 2 ^ 64" using unat_less_64 [of "u128_high x"] div_le_dividend order_le_less_trans by blast
      then show "unat (drop_bit s (u128_high x)) = u128_val x div 2 ^ s div 2 ^ 64 mod 2 ^ 64"
        unfolding hi by (simp add: unat_drop_bit)
      show "unat (push_bit (64 - s) (u128_high x) + drop_bit s (u128_low x)) = u128_val x div 2 ^ s mod 2 ^ 64"
        unfolding lo by (simp only: unat_add_64 unat_push_bit_64 unat_drop_bit mod_simps)
    qed
    finally show ?thesis using small by simp
  next
    case 4
    then obtain k where k: "s = 64 + k" using less_imp_add_positive by blast
    have "u128_shr x r = u128 0 (drop_bit k (u128_high x))"
      using assms 4 k by (simp add: u128_shr_def Let_def shift_amounts s_def)
    moreover have "u128_val x div 2 ^ s = ?h div 2 ^ k"
      unfolding k power_add div_mult2_eq u128_val_parts(1) ..
    ultimately show ?thesis by (simp add: u128_val_u128 unat_drop_bit)
  qed
  then show ?thesis by (simp add: s_def)
qed

section \<open>Number of bits\<close>

lemma bitsLoop_bound:
  assumes "unat up < 2 ^ n" and "unat out + n < 256"
  shows "unat out \<le> unat (bitsLoop up out) \<and> unat (bitsLoop up out) \<le> unat out + n \<and>
    unat up < 2 ^ (unat (bitsLoop up out) - unat out)"
  using assms
proof (induction n arbitrary: up out)
  case 0
  then have "up = 0" by (simp add: unat_eq_0)
  then show ?case by (simp add: bitsLoop.simps)
next
  case (Suc n)
  show ?case
  proof (cases "up = 0")
    case True
    then show ?thesis by (simp add: bitsLoop.simps)
  next
    case False
    have o: "unat (out + 1) = unat out + 1" using Suc.prems(2) by (simp add: unat_word_ariths)
    have d: "unat (drop_bit 1 up) = unat up div 2" by (simp add: unat_drop_bit)
    have "unat (drop_bit 1 up) < 2 ^ n" "unat (out + 1) + n < 256" using Suc.prems o d by simp_all
    from Suc.IH [OF this] have IH: "unat out + 1 \<le> unat (bitsLoop (drop_bit 1 up) (out + 1))"
      "unat (bitsLoop (drop_bit 1 up) (out + 1)) \<le> unat out + 1 + n"
      "unat up div 2 < 2 ^ (unat (bitsLoop (drop_bit 1 up) (out + 1)) - (unat out + 1))"
      unfolding o d by auto
    have eq: "bitsLoop up out = bitsLoop (drop_bit 1 up) (out + 1)" using False by (subst bitsLoop.simps) simp
    let ?m = "unat (bitsLoop (drop_bit 1 up) (out + 1)) - (unat out + 1)"
    have "unat up < 2 * 2 ^ ?m" using IH(3) by linarith
    moreover have "unat (bitsLoop (drop_bit 1 up) (out + 1)) - unat out = Suc ?m" using IH(1) by linarith
    ultimately show ?thesis using IH(1,2) unfolding eq by simp
  qed
qed

lemma u128_bits_val: "unat (u128_bits x) \<le> 128 \<and> u128_val x < 2 ^ unat (u128_bits x)"
proof (cases "u128_high x = 0")
  case True
  then show ?thesis
    using bitsLoop_bound [of "u128_low x" 64 0] unat_less_64 [of "u128_low x"] by (simp add: u128_bits_def u128_val_def)
next
  case False
  let ?n = "unat (bitsLoop (u128_high x) 64)"
  have B: "64 \<le> ?n" "?n \<le> 128" "unat (u128_high x) < 2 ^ (?n - 64)"
    using bitsLoop_bound [of "u128_high x" 64 64] unat_less_64 [of "u128_high x"] by simp_all
  have "u128_val x < (unat (u128_high x) + 1) * 2 ^ 64"
    using unat_less_64 [of "u128_low x"] by (simp add: u128_val_def)
  also have "\<dots> \<le> 2 ^ (?n - 64) * 2 ^ 64" using B(3) by (intro mult_right_mono) simp_all
  also have "\<dots> = 2 ^ ?n" using B(1) by (simp only: power_add [symmetric]) simp
  finally show ?thesis using False B(2) by (simp add: u128_bits_def)
qed

section \<open>Division\<close>

lemma even_word_unat: "even (unat w) \<longleftrightarrow> even w" for w :: u64
  using bit_unsigned_iff [where ?'b = 64 and ?'a = nat, of w 0] by (simp add: bit_0)

lemma u128_bool_and_1: "u128_bool (u128_and y (u128 0 1)) \<longleftrightarrow> odd (u128_val y)"
proof -
  have "u128_low y AND 1 = of_bool (odd (u128_low y))" by (simp add: and_one_eq odd_iff_mod_2_eq_one)
  moreover have "odd (u128_val y) \<longleftrightarrow> odd (u128_low y)" by (simp add: u128_val_def even_word_unat)
  ultimately show ?thesis by (simp add: u128_bool_def u128_and_def)
qed

lemma divmod_step:
  fixes v R :: nat
  assumes "0 < R" and "q = p div R" and "r = p mod R" and "p' = 2 * p + b" and "b < 2"
  shows "p' div R = (if R \<le> 2 * r + b then 2 * q + 1 else 2 * q)"
    and "p' mod R = (if R \<le> 2 * r + b then 2 * r + b - R else 2 * r + b)"
proof -
  have r: "r < R" using assms(1,3) by simp
  have "p = q * R + r" using assms(2,3) by simp
  then have p: "p' = (2 * q) * R + (2 * r + b)" using assms(4) by simp
  have "(2 * r + b) div R = (if R \<le> 2 * r + b then 1 else 0) \<and>
    (2 * r + b) mod R = (if R \<le> 2 * r + b then 2 * r + b - R else 2 * r + b)"
    using r assms(5) by (auto simp: le_div_geq le_mod_geq)
  then show "p' div R = (if R \<le> 2 * r + b then 2 * q + 1 else 2 * q)"
    "p' mod R = (if R \<le> 2 * r + b then 2 * r + b - R else 2 * r + b)"
    using assms(1) unfolding p by (auto simp: div_mult_self3)
qed

lemma divmodLoop_val:
  assumes "0 < u128_val rhs" and "x \<le> 128"
    and "u128_val q = u128_val lhs div 2 ^ x div u128_val rhs"
    and "u128_val r = u128_val lhs div 2 ^ x mod u128_val rhs"
  shows "u128_val (fst (divmodLoop lhs rhs x q r)) = u128_val lhs div u128_val rhs \<and>
    u128_val (snd (divmodLoop lhs rhs x q r)) = u128_val lhs mod u128_val rhs"
  using assms(2-)
proof (induction x arbitrary: q r)
  case 0
  then show ?case by simp
next
  case (Suc x)
  define p p' b where "p = u128_val lhs div 2 ^ Suc x" and "p' = u128_val lhs div 2 ^ x" and "b = p' mod 2"
  have x: "x < 128" "unat (of_nat x :: u64) = x" using Suc.prems(1) by (simp_all add: unsigned_of_nat take_bit_nat_eq_self)
  have "p = p' div 2" by (simp only: p_def p'_def power_Suc2 div_mult2_eq)
  then have pp: "p' = 2 * p + b" by (simp add: b_def)
  have "p' < 2 ^ 128"
    unfolding p'_def using u128_val_less [of lhs] div_le_dividend order_le_less_trans by blast
  have q: "u128_val q = p div u128_val rhs" and r: "u128_val r = p mod u128_val rhs"
    using Suc.prems(2,3) by (simp_all add: p_def)
  have qp: "2 * u128_val q + 1 \<le> p' \<or> p' = 2 * u128_val q" "2 * u128_val r + b \<le> p'"
    unfolding pp q r using div_le_dividend [of p "u128_val rhs"] mod_less_eq_dividend [of p "u128_val rhs"] by linarith+
  note D = divmod_step [OF assms(1) q r pp, unfolded b_def, simplified]
  define q1 where "q1 = u128_shl q (u128 0 1)"
  define r1 where "r1 = (if u128_bool (u128_and (u128_shr lhs (u128 0 (of_nat x))) (u128 0 1))
    then u128_inc (u128_shl r (u128 0 1)) else u128_shl r (u128 0 1))"
  have q1: "u128_val q1 = 2 * u128_val q"
    using qp(1) \<open>p' < 2 ^ 128\<close> by (auto simp: q1_def u128_shl_one)
  have "u128_val (u128_shl r (u128 0 1)) = 2 * u128_val r"
    using qp(2) \<open>p' < 2 ^ 128\<close> by (simp add: u128_shl_one)
  moreover have "u128_bool (u128_and (u128_shr lhs (u128 0 (of_nat x))) (u128 0 1)) \<longleftrightarrow> b = 1"
    using x by (simp add: u128_bool_and_1 u128_shr_val b_def p'_def odd_iff_mod_2_eq_one)
  moreover have "b = 0 \<or> b = 1" by (auto simp: b_def)
  ultimately have r1: "u128_val r1 = 2 * u128_val r + b"
    using qp(2) \<open>p' < 2 ^ 128\<close> by (auto simp: r1_def u128_inc_val)
  show ?case
  proof (cases "u128_val rhs \<le> u128_val r1")
    case True
    have "u128_val (u128_inc q1) = p' div u128_val rhs" "u128_val (u128_sub r1 rhs) = p' mod u128_val rhs"
      using D True r1 q1 qp(1) \<open>p' < 2 ^ 128\<close> by (auto simp: b_def u128_inc_val u128_sub_val)
    with True Suc.IH [of "u128_inc q1" "u128_sub r1 rhs"] Suc.prems(1) show ?thesis
      by (simp add: Let_def q1_def [symmetric] r1_def [symmetric] u128_ge_val p'_def)
  next
    case False
    have "u128_val q1 = p' div u128_val rhs" "u128_val r1 = p' mod u128_val rhs"
      using D False r1 q1 by (auto simp: b_def)
    with False Suc.IH [of q1 r1] Suc.prems(1) show ?thesis
      by (simp add: Let_def q1_def [symmetric] r1_def [symmetric] u128_ge_val p'_def)
  qed
qed

lemma u128_divmod_val:
  assumes "0 < u128_val rhs"
  shows "u128_val (fst (u128_divmod lhs rhs)) = u128_val lhs div u128_val rhs"
    and "u128_val (snd (u128_divmod lhs rhs)) = u128_val lhs mod u128_val rhs"
proof -
  have c: "u128_val (u128 0 0) = 0" "u128_val (u128 0 1) = 1" by (simp_all add: u128_val_u128)
  have "u128_val lhs div 2 ^ unat (u128_bits lhs) = 0" using u128_bits_val [of lhs] by simp
  then have "u128_val (fst (divmodLoop lhs rhs (unat (u128_bits lhs)) (u128 0 0) (u128 0 0))) = u128_val lhs div u128_val rhs
    \<and> u128_val (snd (divmodLoop lhs rhs (unat (u128_bits lhs)) (u128 0 0) (u128 0 0))) = u128_val lhs mod u128_val rhs"
    using u128_bits_val [of lhs] assms c by (intro divmodLoop_val) simp_all
  then have "u128_val (fst (u128_divmod lhs rhs)) = u128_val lhs div u128_val rhs \<and>
    u128_val (snd (u128_divmod lhs rhs)) = u128_val lhs mod u128_val rhs"
    using assms by (auto simp: u128_divmod_def u128_eq_val u128_less_val c)
  then show "u128_val (fst (u128_divmod lhs rhs)) = u128_val lhs div u128_val rhs"
    "u128_val (snd (u128_divmod lhs rhs)) = u128_val lhs mod u128_val rhs" by simp_all
qed

section \<open>Multiplication\<close>

lemma unat_lo32: "unat (lo32 x) = unat x mod 2 ^ 32"
proof -
  have "lo32 x = take_bit 32 x" by (simp add: lo32_def take_bit_eq_mask mask_eq_exp_minus_1)
  then have "unat (lo32 x) = take_bit 32 (unat x)" by (simp only: unsigned_take_bit_eq)
  then show ?thesis by (simp only: take_bit_eq_mod)
qed

lemma unat_hi32: "unat (hi32 x) = unat x div 2 ^ 32"
  by (simp add: hi32_def unat_drop_bit)

lemma lo32_less: "unat (lo32 x) < 2 ^ 32"
  by (simp add: unat_lo32)

lemma hi32_less: "unat (hi32 x) < 2 ^ 32"
  using unat_less_64 [of x] by (simp add: unat_hi32)

lemma unat_product:
  assumes "unat a < 2 ^ 32" and "unat b < 2 ^ 32"
  shows "unat (a * b :: u64) = unat a * unat b"
proof -
  have "unat a * unat b \<le> (2 ^ 32 - 1) * (2 ^ 32 - 1)" using assms by (intro mult_mono) simp_all
  then have "unat a * unat b < 2 ^ 64" by simp
  then show ?thesis unfolding unat_mult_64 by (rule mod_less)
qed

lemma combine_digits:
  assumes "unat a < 2 ^ 32" and "unat b < 2 ^ 32"
  shows "unat (push_bit 32 a OR b :: u64) = unat a * 2 ^ 32 + unat b"
proof -
  have "push_bit 32 a OR b = push_bit 32 a + b"
  proof (rule disjunctive_add_eq_or [symmetric], rule bit_word_eqI)
    fix n
    have "\<not> bit b n" if "32 \<le> n"
      using bit_word_le [of b n] assms(2) power_increasing [OF that, of "2::nat"] by auto
    then show "bit (push_bit 32 a AND b) n \<longleftrightarrow> bit (0::u64) n"
      by (cases "32 \<le> n") (auto simp: bit_and_iff bit_push_bit_iff)
  qed
  moreover have "unat (push_bit 32 a) = unat a * 2 ^ 32" using assms(1) by (simp add: unat_push_bit_64)
  ultimately show ?thesis using assms by (simp add: unat_add_64)
qed

text \<open>Schoolbook multiplication with digits to the base \<open>B\<close>: \<open>l i j\<close> and \<open>h i j\<close> are the digits of a product.\<close>

lemma mul_digits:
  fixes l h :: "nat \<Rightarrow> nat \<Rightarrow> nat"
  assumes t: "t = l 0 1 + h 0 0 + l 1 0"
    and s: "s = l 0 2 + h 0 1 + (l 1 1 + h 1 0) + l 2 0 + t div B"
    and f: "f = l 0 3 + h 0 2 + (l 1 2 + h 1 1) + (l 2 1 + h 2 0) + l 3 0 + s div B"
  defines "p \<equiv> \<lambda>i j. B * h i j + l i j"
  shows "p 0 0 + B * (p 0 1 + p 1 0) + B ^ 2 * (p 0 2 + p 1 1 + p 2 0) + B ^ 3 * (p 0 3 + p 1 2 + p 2 1 + p 3 0) =
    l 0 0 + B * (t mod B) + B ^ 2 * (s mod B) + B ^ 3 * (f mod B) + B ^ 4 * (f div B + h 0 3 + h 1 2 + h 2 1 + h 3 0)"
proof -
  define S F where "S = l 0 2 + h 0 1 + (l 1 1 + h 1 0) + l 2 0"
    and "F = l 0 3 + h 0 2 + (l 1 2 + h 1 1) + (l 2 1 + h 2 0) + l 3 0"
  have e: "B * (t div B) + t mod B = t" "B * (s div B) + s mod B = S + t div B" "B * (f div B) + f mod B = F + s div B"
    using s f by (simp_all add: S_def F_def)
  have "p 0 0 + B * (p 0 1 + p 1 0) + B ^ 2 * (p 0 2 + p 1 1 + p 2 0) + B ^ 3 * (p 0 3 + p 1 2 + p 2 1 + p 3 0) =
    l 0 0 + B * t + B ^ 2 * S + B ^ 3 * F + B ^ 4 * (h 0 3 + h 1 2 + h 2 1 + h 3 0)"
    by (simp add: p_def t S_def F_def algebra_simps power2_eq_square power3_eq_cube power4_eq_xxxx)
  also have "B * t = B * (t mod B) + B ^ 2 * (t div B)"
    using arg_cong [OF e(1) [symmetric], of "\<lambda>x. B * x"] by (simp only: distrib_left power2_eq_square mult.assoc add.commute)
  also have "l 0 0 + (B * (t mod B) + B ^ 2 * (t div B)) + B ^ 2 * S = l 0 0 + B * (t mod B) + B ^ 2 * (S + t div B)"
    by (simp add: algebra_simps)
  also have "B ^ 2 * (S + t div B) = B ^ 2 * (s mod B) + B ^ 3 * (s div B)"
    using arg_cong [OF e(2) [symmetric], of "\<lambda>x. B ^ 2 * x"]
    by (simp only: distrib_left power2_eq_square power3_eq_cube mult.assoc add.commute)
  also have "l 0 0 + B * (t mod B) + (B ^ 2 * (s mod B) + B ^ 3 * (s div B)) + B ^ 3 * F =
    l 0 0 + B * (t mod B) + B ^ 2 * (s mod B) + B ^ 3 * (F + s div B)"
    by (simp add: algebra_simps)
  also have "B ^ 3 * (F + s div B) = B ^ 3 * (f mod B) + B ^ 4 * (f div B)"
    using arg_cong [OF e(3) [symmetric], of "\<lambda>x. B ^ 3 * x"]
    by (simp only: distrib_left power3_eq_cube power4_eq_xxxx mult.assoc add.commute)
  finally show ?thesis by (simp add: algebra_simps)
qed

lemma digit_recombine:
  fixes a b c d B :: nat
  assumes "a < B" and "b < B" and "c < B" and "d < B"
  shows "a + B * b + B ^ 2 * c + B ^ 3 * d < B ^ 4"
proof -
  have step: "u + n * v < n * m" if "u < n" "v < m" for u v n m :: nat
  proof -
    have "u + n * v < n * Suc v" using that(1) by simp
    also have "\<dots> \<le> n * m" using that(2) by (intro mult_le_mono2) simp
    finally show ?thesis .
  qed
  have "a + B * b < B ^ 2" using step [OF assms(1,2)] by (simp add: power2_eq_square)
  from step [OF this assms(3)] have "a + B * b + B ^ 2 * c < B ^ 3" by (simp add: power2_eq_square power3_eq_cube)
  from step [OF this assms(4)] show ?thesis by (simp add: power3_eq_cube power4_eq_xxxx)
qed

text \<open>The low half of a product of four-digit numbers depends on the ten products below the diagonal only.\<close>

lemma four_digit_product:
  fixes x y :: "nat \<Rightarrow> nat"
  shows "(x 0 + B * x 1 + B ^ 2 * x 2 + B ^ 3 * x 3) * (y 0 + B * y 1 + B ^ 2 * y 2 + B ^ 3 * y 3) mod B ^ 4 =
    (x 0 * y 0 + B * (x 0 * y 1 + x 1 * y 0) + B ^ 2 * (x 0 * y 2 + x 1 * y 1 + x 2 * y 0) +
      B ^ 3 * (x 0 * y 3 + x 1 * y 2 + x 2 * y 1 + x 3 * y 0)) mod B ^ 4" (is "?l mod _ = ?r mod _")
proof -
  have "?l = ?r + B ^ 4 * (x 1 * y 3 + x 2 * y 2 + x 3 * y 1 + B * (x 2 * y 3 + x 3 * y 2) + B ^ 2 * (x 3 * y 3))"
    by (simp add: algebra_simps power2_eq_square power3_eq_cube power4_eq_xxxx)
  then show ?thesis by simp
qed

lemma split32: "unat w = unat (lo32 w) + 2 ^ 32 * unat (hi32 w)"
  by (simp only: unat_lo32 unat_hi32 mod_mult_div_eq)

definition digit :: "uint128_t \<Rightarrow> nat \<Rightarrow> u64" where
  "digit x i = [lo32 (u128_low x), hi32 (u128_low x), lo32 (u128_high x), hi32 (u128_high x)] ! i"

lemma digit_simps:
  "digit x 0 = lo32 (u128_low x)" "digit x 1 = hi32 (u128_low x)"
  "digit x 2 = lo32 (u128_high x)" "digit x 3 = hi32 (u128_high x)"
  by (simp_all add: digit_def)

lemma u128_val_digits:
  "u128_val x = unat (digit x 0) + 2 ^ 32 * unat (digit x 1) + (2 ^ 32) ^ 2 * unat (digit x 2) + (2 ^ 32) ^ 3 * unat (digit x 3)"
proof -
  have "(2 ^ 32) ^ 2 = (2 ^ 64 :: nat)" "(2 ^ 32) ^ 3 = (2 ^ 64 * 2 ^ 32 :: nat)" by simp_all
  then show ?thesis unfolding u128_val_def digit_simps
    by (subst split32 [of "u128_high x"], subst split32 [of "u128_low x"]) (simp only: algebra_simps)
qed

lemma digit_less: "i < 4 \<Longrightarrow> unat (digit x i) < 2 ^ 32"
proof -
  assume "i < 4"
  then have "i = 0 \<or> i = 1 \<or> i = 2 \<or> i = 3" by linarith
  then show ?thesis by (elim disjE) (simp_all only: digit_simps lo32_less hi32_less)
qed

lemma lo32_lo32: "lo32 (lo32 w) = lo32 w"
  by (simp add: lo32_def and.assoc)

lemma lo32_hi32: "hi32 (lo32 w) = 0"
  using lo32_less [of w] by (intro word_unat_eq_iff [THEN iffD2]) (simp add: unat_hi32)

text \<open>The four digits \<open>operator*\<close> adds up, as words, and the sums they are.\<close>

lemma unat_sum3:
  assumes "unat a < 2 ^ 32" "unat b < 2 ^ 32" "unat c < 2 ^ 32"
  shows "unat (a + b + c :: u64) = unat a + unat b + unat c"
  using assms by (simp add: unat_add_64)

lemma unat_sum6:
  assumes "unat a < 2 ^ 32" "unat b < 2 ^ 32" "unat c < 2 ^ 32" "unat d < 2 ^ 32" "unat e < 2 ^ 32" "unat f < 2 ^ 32"
  shows "unat (a + b + (c + d) + e + f :: u64) = unat a + unat b + (unat c + unat d) + unat e + unat f"
  using assms by (simp add: unat_add_64 mod_simps)

lemma unat_sum8:
  assumes "unat a < 2 ^ 32" "unat b < 2 ^ 32" "unat c < 2 ^ 32" "unat d < 2 ^ 32" "unat e < 2 ^ 32" "unat f < 2 ^ 32"
    "unat g < 2 ^ 32" "unat h < 2 ^ 32"
  shows "unat (a + b + (c + d) + (e + f) + g + h :: u64) =
    unat a + unat b + (unat c + unat d) + (unat e + unat f) + unat g + unat h"
  using assms by (simp add: unat_add_64 mod_simps)

lemma u128_mul_val: "u128_val (u128_mul x y) = u128_val x * u128_val y mod 2 ^ 128"
proof -
  define P where "P i j = digit x i * digit y j" for i j
  define l h where "l i j = unat (lo32 (P i j))" and "h i j = unat (hi32 (P i j))" for i j
  define tw where "tw = lo32 (P 0 1) + hi32 (P 0 0) + lo32 (P 1 0)"
  define sw where "sw = lo32 (P 0 2) + hi32 (P 0 1) + (lo32 (P 1 1) + hi32 (P 1 0)) + lo32 (P 2 0) + hi32 tw"
  define fw where "fw = lo32 (P 0 3) + hi32 (P 0 2) + (lo32 (P 1 2) + hi32 (P 1 1)) + (lo32 (P 2 1) + hi32 (P 2 0)) + lo32 (P 3 0) + hi32 sw"
  let ?B = "2 ^ 32 :: nat"
  have mul: "u128_mul x y = u128 (push_bit 32 (lo32 fw) OR lo32 sw) (push_bit 32 (lo32 tw) OR lo32 (P 0 0))"
    by (simp add: u128_mul_def Let_def fw_def sw_def tw_def P_def digit_def lo32_lo32 lo32_hi32)
  have t: "unat tw = l 0 1 + h 0 0 + l 1 0"
    unfolding tw_def l_def h_def by (rule unat_sum3) (rule lo32_less hi32_less)+
  have s: "unat sw = l 0 2 + h 0 1 + (l 1 1 + h 1 0) + l 2 0 + unat tw div ?B"
    unfolding sw_def l_def h_def unat_hi32 [of tw, symmetric] by (rule unat_sum6) (rule lo32_less hi32_less)+
  have f: "unat fw = l 0 3 + h 0 2 + (l 1 2 + h 1 1) + (l 2 1 + h 2 0) + l 3 0 + unat sw div ?B"
    unfolding fw_def l_def h_def unat_hi32 [of sw, symmetric] by (rule unat_sum8) (rule lo32_less hi32_less)+
  have p: "unat (digit x i) * unat (digit y j) = ?B * h i j + l i j" if "i < 4" "j < 4" for i j
    using unat_product [OF digit_less [OF that(1)] digit_less [OF that(2)], of x y] split32 [of "P i j"]
    by (simp only: P_def l_def h_def add.commute)
  have B4: "(2::nat) ^ 128 = ?B ^ 4" by simp
  have "u128_val x * u128_val y mod 2 ^ 128 =
    (l 0 0 + ?B * (unat tw mod ?B) + ?B ^ 2 * (unat sw mod ?B) + ?B ^ 3 * (unat fw mod ?B)) mod ?B ^ 4"
    unfolding u128_val_digits B4 four_digit_product [of "\<lambda>i. unat (digit x i)" _ "\<lambda>j. unat (digit y j)"]
    by (simp only: p zero_less_numeral one_less_numeral_iff numeral_less_iff less_num_simps mul_digits [OF t s f] mod_mult_self2)
  also have "\<dots> = l 0 0 + ?B * (unat tw mod ?B) + ?B ^ 2 * (unat sw mod ?B) + ?B ^ 3 * (unat fw mod ?B)"
    by (rule mod_less, rule digit_recombine) (simp_all add: l_def lo32_less [simplified])
  also have "\<dots> = u128_val (u128_mul x y)"
    unfolding mul u128_val_u128 by (simp add: combine_digits lo32_less unat_lo32 l_def)
  finally show ?thesis by simp
qed

section \<open>Correctness\<close>

lemma u128_sub_wrap: "u128_val (u128_sub x y) = (u128_val x + 2 ^ 128 - u128_val y) mod 2 ^ 128"
proof -
  let ?d = "u128_val (u128_sub x y)" and ?a = "u128_val x" and ?b = "u128_val y"
  have "?a = (?d + ?b) mod 2 ^ 128" using u128_add_val [of "u128_sub x y" y] by (simp add: u128_sub_add)
  moreover have "?d < 2 ^ 128" "?b < 2 ^ 128" by (rule u128_val_less)+
  ultimately show ?thesis by (cases "?d + ?b < 2 ^ 128") (simp_all add: le_mod_geq not_less)
qed

text \<open>
  C13: on every pair of values the operators \<open>+\<close>, \<open>-\<close> and \<open>*\<close> of \<open>uint128_t\<close> compute sum, difference and
  product modulo \<open>2^128\<close> (carry, borrow and the schoolbook product over 32-bit digits lose nothing), and \<open><\<close>,
  \<open>==\<close> compare the values.
\<close>

theorem uint128_ring:
  "u128_val (u128_add x y) = (u128_val x + u128_val y) mod 2 ^ 128 \<and>
   u128_val (u128_sub x y) = (u128_val x + 2 ^ 128 - u128_val y) mod 2 ^ 128 \<and>
   u128_val (u128_mul x y) = (u128_val x * u128_val y) mod 2 ^ 128 \<and>
   (u128_less x y \<longleftrightarrow> u128_val x < u128_val y) \<and> (u128_eq x y \<longleftrightarrow> u128_val x = u128_val y)"
  by (simp only: u128_add_val u128_sub_wrap u128_mul_val u128_less_val u128_eq_val)

text \<open>
  C14: for every non-zero divisor \<open>divmod\<close>, a restoring division that runs over the \<open>bits()\<close> of the dividend, gives
  quotient and remainder, and \<open>operator/\<close> the quotient: none of the shifts, increments and subtractions wraps.
\<close>

theorem uint128_division:
  assumes "u128_val y \<noteq> 0"
  shows "u128_val (u128_div x y) = u128_val x div u128_val y \<and>
    u128_val (fst (u128_divmod x y)) = u128_val x div u128_val y \<and>
    u128_val (snd (u128_divmod x y)) = u128_val x mod u128_val y"
  using assms by (simp add: u128_div_def u128_divmod_val)

theorem uint128_division_witness:
  "u128_val (u128 0 10) \<noteq> 0 \<and> u128_val (u128_div (u128 1 6) (u128 0 10)) = (2 ^ 64 + 6) div 10"
proof
  show n: "u128_val (u128 0 10) \<noteq> 0" by (simp add: u128_val_u128)
  show "u128_val (u128_div (u128 1 6) (u128 0 10)) = (2 ^ 64 + 6) div 10"
    using uint128_division [OF n, of "u128 1 6"] by (simp add: u128_val_u128)
qed

end
