(* ===== verification/Math_Lib.thy ===== *)
theory Math_Lib
  imports Prelude
begin

text \<open>
  The arithmetic helpers of \<open>src/src/contracts/math_lib.h\<close>: division rounding up, the next power of two,
  saturating multiplication and addition at both widths and signs, the greatest common divisor, saturating
  integer powers and the integer \<open>k\<close>-th root. Signed values are words read by \<open>sint\<close>; a signed sum wraps.
\<close>

unbundle bit_operations_syntax

type_synonym i32 = "32 word"

section \<open>Operations\<close>

definition INT64_MAX :: i64 where "INT64_MAX = 0x7FFFFFFFFFFFFFFF"
definition INT64_MIN :: i64 where "INT64_MIN = 0x8000000000000000"
definition UINT64_MAX :: u64 where "UINT64_MAX = 0xFFFFFFFFFFFFFFFF"
definition INT32_MAX :: i32 where "INT32_MAX = 0x7FFFFFFF"
definition INT32_MIN :: i32 where "INT32_MIN = 0x80000000"
definition UINT32_MAX :: u32 where "UINT32_MAX = 0xFFFFFFFF"

definition abs64 :: "i64 \<Rightarrow> i64" where
  "abs64 a = (if a <s 0 then - a else a)"

definition divUp64 :: "u64 \<Rightarrow> u64 \<Rightarrow> u64" where
  "divUp64 a b = (if b \<noteq> 0 then (a + b - 1) div b else 0)"

definition divUp32 :: "u32 \<Rightarrow> u32 \<Rightarrow> u32" where
  "divUp32 a b = (if b \<noteq> 0 then (a + b - 1) div b else 0)"

text \<open>Below the width of \<open>int\<close> the operands are promoted, so that only the result is cut.\<close>

definition divUp16 :: "u16 \<Rightarrow> u16 \<Rightarrow> u16" where
  "divUp16 a b = (if b \<noteq> 0 then word_of_int ((uint a + uint b - 1) div uint b) else 0)"

definition divUp8 :: "u8 \<Rightarrow> u8 \<Rightarrow> u8" where
  "divUp8 a b = (if b \<noteq> 0 then word_of_int ((uint a + uint b - 1) div uint b) else 0)"

definition findNextPowerOf2 :: "u64 \<Rightarrow> u64" where
  "findNextPowerOf2 num =
     (if num = 0 then 1
      else let num = num - 1;
               num = num OR drop_bit 1 num;
               num = num OR drop_bit 2 num;
               num = num OR drop_bit 4 num;
               num = num OR drop_bit 8 num;
               num = num OR drop_bit 16 num;
               num = num OR drop_bit 32 num
           in num + 1)"

text \<open>\<open>_mul128\<close> and \<open>_umul128\<close>: the low half is the result, the high half is written to \<open>hi\<close>.\<close>

definition mul128 :: "i64 \<Rightarrow> i64 \<Rightarrow> i64 \<times> i64" where
  "mul128 a b = (let r = sint a * sint b in (word_of_int r, word_of_int (r div 2 ^ 64)))"

definition umul128 :: "u64 \<Rightarrow> u64 \<Rightarrow> u64 \<times> u64" where
  "umul128 a b = (let r = uint a * uint b in (word_of_int r, word_of_int (r div 2 ^ 64)))"

definition smul64 :: "i64 \<Rightarrow> i64 \<Rightarrow> i64" where
  "smul64 a b =
     (let (lo, hi) = mul128 a b
      in if hi \<noteq> signed_drop_bit 63 lo
         then (if (0 <s a) = (0 <s b) then INT64_MAX else INT64_MIN)
         else lo)"

definition smulu64 :: "u64 \<Rightarrow> u64 \<Rightarrow> u64" where
  "smulu64 a b = (let (lo, hi) = umul128 a b in if hi \<noteq> 0 then UINT64_MAX else lo)"

definition smul32 :: "i32 \<Rightarrow> i32 \<Rightarrow> i32" where
  "smul32 a b =
     (let r = (scast a :: i64) * scast b
      in if r <s scast INT32_MIN then INT32_MIN
         else if scast INT32_MAX <s r then INT32_MAX
         else ucast r)"

definition smulu32 :: "u32 \<Rightarrow> u32 \<Rightarrow> u32" where
  "smulu32 a b = (let r = (ucast a :: u64) * ucast b in if ucast UINT32_MAX < r then UINT32_MAX else ucast r)"

text \<open>The signed sum wraps around, and the test for overflow looks at the wrapped sum.\<close>

definition sadd64 :: "i64 \<Rightarrow> i64 \<Rightarrow> i64" where
  "sadd64 a b =
     (let sum = a + b
      in if a <s 0 \<and> b <s 0 \<and> 0 <s sum then INT64_MIN
         else if 0 <s a \<and> 0 <s b \<and> sum <s 0 then INT64_MAX
         else sum)"

definition saddu64 :: "u64 \<Rightarrow> u64 \<Rightarrow> u64" where
  "saddu64 a b = (if UINT64_MAX - a < b then UINT64_MAX else a + b)"

definition sadd32 :: "i32 \<Rightarrow> i32 \<Rightarrow> i32" where
  "sadd32 a b =
     (let sum = (scast a :: i64) + scast b
      in if sum <s scast INT32_MIN then INT32_MIN
         else if scast INT32_MAX <s sum then INT32_MAX
         else ucast sum)"

definition saddu32 :: "u32 \<Rightarrow> u32 \<Rightarrow> u32" where
  "saddu32 a b = (let sum = (ucast a :: u64) + ucast b in if ucast UINT32_MAX < sum then UINT32_MAX else ucast sum)"

text \<open>\<open>%\<close> on signed operands truncates toward zero.\<close>

definition i64_rem :: "i64 \<Rightarrow> i64 \<Rightarrow> i64" where
  "i64_rem a b = word_of_int (sgn (sint a) * (\<bar>sint a\<bar> mod \<bar>sint b\<bar>))"

lemma sint_of_int_64: "- (2 ^ 63) \<le> k \<Longrightarrow> k < 2 ^ 63 \<Longrightarrow> sint (word_of_int k :: i64) = k"
  by (simp add: sint_sbintrunc' signed_take_bit_int_eq_self)

lemma i64_rem_decreases: "b \<noteq> 0 \<Longrightarrow> nat \<bar>sint (i64_rem a b)\<bar> < nat \<bar>sint b\<bar>"
proof -
  assume "b \<noteq> 0"
  then have b: "0 < \<bar>sint b\<bar>" by (simp add: signed_eq_0_iff)
  have "\<bar>sint b\<bar> \<le> 2 ^ 63" using sint_range_size [of b] by (simp add: word_size abs_le_iff)
  moreover define q where "q = sgn (sint a) * (\<bar>sint a\<bar> mod \<bar>sint b\<bar>)"
  have "\<bar>q\<bar> < \<bar>sint b\<bar>" using b by (simp add: q_def abs_mult abs_sgn_eq)
  ultimately show ?thesis
    unfolding i64_rem_def q_def [symmetric] using b by (subst sint_of_int_64) linarith+
qed

function gcdLoop :: "i64 \<Rightarrow> i64 \<Rightarrow> i64" where
  "gcdLoop a b = (if b \<noteq> 0 then gcdLoop b (i64_rem a b) else a)"
  by auto
termination
  by (relation "measure (\<lambda>(a, b). nat \<bar>sint b\<bar>)") (auto dest: i64_rem_decreases)

declare gcdLoop.simps [simp del]

definition greatestCommonDivisor :: "i64 \<Rightarrow> i64 \<Rightarrow> i64" where
  "greatestCommonDivisor a b = (if a <s 0 \<or> b <s 0 then 0 else gcdLoop a b)"

text \<open>\<open>ipow\<close> squares and multiplies, and gives up with the largest value at the first product that does not fit.\<close>

function ipowLoop :: "u64 \<Rightarrow> u64 \<Rightarrow> u32 \<Rightarrow> u64" where
  "ipowLoop r v e =
     (if e = 0 then r
      else if e AND 1 \<noteq> 0 \<and> UINT64_MAX div v < r then UINT64_MAX
      else let r' = (if e AND 1 \<noteq> 0 then r * v else r);
               e' = drop_bit 1 e
           in if e' \<noteq> 0
              then (if UINT64_MAX div v < v then UINT64_MAX else ipowLoop r' (v * v) e')
              else r')"
  by auto
termination
proof (relation "measure (\<lambda>(r, v, e). unat e)", goal_cases)
  case (2 r v e)
  then show ?case by (auto simp: unat_drop_bit unat_gt_0)
qed simp

declare ipowLoop.simps [simp del]

definition ipow :: "u64 \<Rightarrow> u32 \<Rightarrow> u64" where
  "ipow v e =
     (if v = 0 then (if e = 0 then 1 else 0)
      else if v = 1 then 1
      else ipowLoop 1 v e)"

definition IROOT_NEWTON_CAP :: nat where "IROOT_NEWTON_CAP = 100"

definition bitLength :: "u64 \<Rightarrow> nat" where
  "bitLength x = (if x = 0 then 0 else 64 - lzcnt64 x)"

fun powerLoop :: "u64 \<Rightarrow> u64 \<Rightarrow> nat \<Rightarrow> u64 \<Rightarrow> bool" where
  "powerLoop x maxAllowed 0 p = True"
| "powerLoop x maxAllowed (Suc i) p = (if maxAllowed div x < p then False else powerLoop x maxAllowed i (p * x))"

definition powerLessOrEqual :: "u64 \<Rightarrow> nat \<Rightarrow> u64 \<Rightarrow> bool" where
  "powerLessOrEqual x exp maxAllowed =
     (if exp = 0 then 1 \<le> maxAllowed
      else if x \<le> 1 then x \<le> maxAllowed
      else powerLoop x maxAllowed exp 1)"

text \<open>The power loop of \<open>irootNewtonStep\<close>: \<open>None\<close> is \<open>overflowed\<close>.\<close>

fun newtonPower :: "u64 \<Rightarrow> nat \<Rightarrow> u64 \<Rightarrow> u64 option" where
  "newtonPower x 0 p = Some p"
| "newtonPower x (Suc j) p = (if UINT64_MAX div x < p then None else newtonPower x j (p * x))"

definition irootNewtonStep :: "nat \<Rightarrow> u64 \<Rightarrow> u64 \<Rightarrow> u64" where
  "irootNewtonStep k n x =
     (let divTerm = (case newtonPower x (k - 1) 1 of None \<Rightarrow> 0 | Some xPowKm1 \<Rightarrow> n div xPowKm1)
      in if x \<le> divTerm then x + (divTerm - x) div of_nat k
         else x - (x - divTerm + of_nat (k - 1)) div of_nat k)"

fun newtonLoop :: "nat \<Rightarrow> u64 \<Rightarrow> nat \<Rightarrow> u64 \<Rightarrow> u64 \<Rightarrow> u64" where
  "newtonLoop k n 0 x t = x"
| "newtonLoop k n (Suc iter) x t = (if t < x then newtonLoop k n iter t (irootNewtonStep k n t) else x)"

partial_function (option) rootDown :: "nat \<Rightarrow> u64 \<Rightarrow> u64 \<Rightarrow> u64 option" where
  "rootDown k n x = (if powerLessOrEqual x k n then Some x else rootDown k n (x - 1))"

function rootUp :: "nat \<Rightarrow> u64 \<Rightarrow> u64 \<Rightarrow> u64" where
  "rootUp k n x = (if x < UINT64_MAX \<and> powerLessOrEqual (x + 1) k n then rootUp k n (x + 1) else x)"
  by auto
termination
proof (relation "measure (\<lambda>(k, n, x). 2 ^ 64 - unat x)", goal_cases)
  case (2 k n x)
  then have "unat x < 2 ^ 64 - 1" by (simp add: UINT64_MAX_def word_less_nat_alt)
  then have "unat (x + 1) = unat x + 1" "unat x < 2 ^ 64" by (simp_all add: unat_add_64)
  then show ?case by simp
qed simp

declare rootUp.simps [simp del]

definition irootK64 :: "nat \<Rightarrow> u64 \<Rightarrow> u64 option" where
  "irootK64 k n =
     (if k = 1 then Some n
      else if n < 2 then Some n
      else let seedShift = (bitLength n + k - 1) div k;
               x = push_bit seedShift 1;
               x = newtonLoop k n IROOT_NEWTON_CAP x (irootNewtonStep k n x)
           in map_option (rootUp k n) (rootDown k n x))"

section \<open>Saturation\<close>

definition clamp :: "nat \<Rightarrow> int \<Rightarrow> int" where
  "clamp w x = max (- (2 ^ (w - 1))) (min x (2 ^ (w - 1) - 1))"

lemma sint_bounds:
  "- (2 ^ 63) \<le> sint (a::i64)" "sint (a::i64) < 2 ^ 63"
  "- (2 ^ 31) \<le> sint (c::i32)" "sint (c::i32) < 2 ^ 31"
  using sint_range_size [of a] sint_range_size [of c] by (simp_all add: word_size)

lemma sint_limits:
  "sint INT64_MAX = 2 ^ 63 - 1" "sint INT64_MIN = - (2 ^ 63)" "unat UINT64_MAX = 2 ^ 64 - 1"
  "sint INT32_MAX = 2 ^ 31 - 1" "sint INT32_MIN = - (2 ^ 31)" "unat UINT32_MAX = 2 ^ 32 - 1"
  by (simp_all add: INT64_MAX_def INT64_MIN_def UINT64_MAX_def INT32_MAX_def INT32_MIN_def UINT32_MAX_def)

text \<open>A product fits 64 bits exactly when its high half is the sign extension of its low half.\<close>

lemma high_half_sign:
  fixes p :: int
  assumes "- (2 ^ 127) \<le> p" and "p < 2 ^ 127"
  shows "word_of_int (p div 2 ^ 64) = signed_drop_bit 63 (word_of_int p :: i64) \<longleftrightarrow> - (2 ^ 63) \<le> p \<and> p < 2 ^ 63"
proof -
  define q r where "q = p div 2 ^ 64" and "r = p mod 2 ^ 64"
  have p: "p = q * 2 ^ 64 + r" and r: "0 \<le> r" "r < 2 ^ 64" by (simp_all add: q_def r_def)
  have q: "- (2 ^ 63) \<le> q" "q < 2 ^ 63" using p r assms by simp_all
  have lo: "sint (word_of_int p :: i64) = (if r < 2 ^ 63 then r else r - 2 ^ 64)"
  proof -
    have "(p + 2 ^ 63) mod 2 ^ 64 = (r + 2 ^ 63) mod 2 ^ 64" by (simp add: r_def mod_simps)
    also have "\<dots> = (if r < 2 ^ 63 then r + 2 ^ 63 else r - 2 ^ 63)"
    proof (cases "r < 2 ^ 63")
      case False
      then have "r + 2 ^ 63 = (r - 2 ^ 63) + 2 ^ 64" by simp
      then have "(r + 2 ^ 63) mod 2 ^ 64 = (r - 2 ^ 63) mod 2 ^ 64" by (simp only: mod_add_self2)
      then show ?thesis using False r by simp
    qed (use r in simp)
    finally show ?thesis by (simp add: int_word_sint)
  qed
  have "sint (signed_drop_bit 63 (word_of_int p :: i64)) = (if r < 2 ^ 63 then 0 else - 1)"
  proof -
    have "drop_bit 63 (r - 2 ^ 64) = - 1" if "\<not> r < 2 ^ 63"
      unfolding drop_bit_eq_div using that r
      by (intro int_div_pos_eq [of _ _ _ "r - 2 ^ 63"]) simp_all
    then show ?thesis using r by (simp add: sint_signed_drop_bit_eq lo drop_bit_eq_div)
  qed
  moreover have "sint (word_of_int q :: i64) = q" using q by (rule sint_of_int_64)
  ultimately have "word_of_int q = signed_drop_bit 63 (word_of_int p :: i64) \<longleftrightarrow> q = (if r < 2 ^ 63 then 0 else - 1)"
    by (metis signed_word_eqI)
  also have "\<dots> \<longleftrightarrow> - (2 ^ 63) \<le> p \<and> p < 2 ^ 63" using p r by auto
  finally show ?thesis by (simp add: q_def)
qed

lemma product_bounds:
  fixes x y :: int
  assumes "\<bar>x\<bar> \<le> m" and "\<bar>y\<bar> \<le> m"
  shows "- (m * m) \<le> x * y" "x * y \<le> m * m"
  using mult_mono [OF assms] assms(1) by (auto simp: abs_mult [symmetric] abs_le_iff)

lemma smul64_clamps: "sint (smul64 a b) = clamp 64 (sint a * sint b)"
proof -
  let ?p = "sint a * sint b"
  have "\<bar>sint a\<bar> \<le> 2 ^ 63" "\<bar>sint b\<bar> \<le> 2 ^ 63" using sint_bounds(1,2) [of a] sint_bounds(1,2) [of b] by (simp_all add: abs_le_iff)
  from product_bounds [OF this] have "- (2 ^ 127) \<le> ?p" "?p < 2 ^ 127" by simp_all
  note fits = high_half_sign [OF this]
  show ?thesis
  proof (cases "- (2 ^ 63) \<le> ?p \<and> ?p < 2 ^ 63")
    case True
    then have "sint (word_of_int ?p :: i64) = ?p" by (intro sint_of_int_64) simp_all
    then show ?thesis using True fits by (simp add: smul64_def mul128_def Let_def clamp_def)
  next
    case False
    then have nz: "sint a \<noteq> 0" "sint b \<noteq> 0" by auto
    then have "0 < ?p \<longleftrightarrow> (0 < sint a) = (0 < sint b)" by (auto simp: zero_less_mult_iff)
    moreover have "smul64 a b = (if (0 < sint a) = (0 < sint b) then INT64_MAX else INT64_MIN)"
      using False fits by (simp add: smul64_def mul128_def Let_def word_sless_alt)
    moreover have "?p < - (2 ^ 63) \<or> 2 ^ 63 \<le> ?p" using False by auto
    ultimately show ?thesis by (auto simp: clamp_def sint_limits)
  qed
qed

lemma smulu64_clamps: "unat (smulu64 a b) = min (unat a * unat b) (2 ^ 64 - 1)"
proof -
  let ?p = "unat a * unat b"
  have bound: "?p div 2 ^ 64 < 2 ^ 64"
  proof -
    have "?p \<le> (2 ^ 64 - 1) * (2 ^ 64 - 1)" using unat_less_64 [of a] unat_less_64 [of b] by (intro mult_mono) simp_all
    then show ?thesis by simp
  qed
  have hi: "word_of_int (uint a * uint b div 2 ^ 64) = (0::u64) \<longleftrightarrow> ?p < 2 ^ 64"
  proof -
    have "uint a * uint b div 2 ^ 64 = int (?p div 2 ^ 64)" by (simp add: zdiv_int)
    then have "word_of_int (uint a * uint b div 2 ^ 64) = (of_nat (?p div 2 ^ 64) :: u64)" by (simp only: of_int_of_nat_eq)
    moreover have "unat (of_nat (?p div 2 ^ 64) :: u64) = ?p div 2 ^ 64"
      using bound by (simp add: unsigned_of_nat take_bit_nat_eq_self)
    ultimately show ?thesis by (metis div_eq_0_iff unat_eq_zero power_not_zero zero_neq_numeral)
  qed
  have "word_of_int (uint a * uint b) = a * b" by simp
  then show ?thesis using hi
    by (simp add: smulu64_def umul128_def Let_def sint_limits unat_mult_64 min_def del: of_int_mult)
qed

lemma sint_scast_32: "sint (scast (a::i32) :: i64) = sint a"
  by (rule sint_up_scast) (simp add: is_up)

lemma sint_ucast_32:
  assumes "- (2 ^ 31) \<le> sint (r::i64)" and "sint r < 2 ^ 31"
  shows "sint (ucast r :: i32) = sint r"
proof -
  have "(ucast r :: i32) = word_of_int (sint r)" by (rule bit_word_eqI) (simp add: bit_simps)
  then have "sint (ucast r :: i32) = signed_take_bit 31 (sint r)" by (simp only: sint_sbintrunc') simp
  then show ?thesis using assms by (simp add: signed_take_bit_int_eq_self)
qed

lemma clamp_32:
  fixes r :: i64
  shows "sint (if r <s scast INT32_MIN then INT32_MIN else if scast INT32_MAX <s r then INT32_MAX else ucast r) = clamp 32 (sint r)"
  using sint_ucast_32 [of r]
  by (auto simp: clamp_def word_sless_alt sint_scast_32 sint_limits not_less)

lemma smul32_clamps: "sint (smul32 a b) = clamp 32 (sint a * sint b)"
proof -
  have "\<bar>sint a\<bar> \<le> 2 ^ 31" "\<bar>sint b\<bar> \<le> 2 ^ 31" using sint_bounds(3,4) [of a] sint_bounds(3,4) [of b] by (simp_all add: abs_le_iff)
  from product_bounds [OF this] have "sint ((scast a :: i64) * scast b) = sint a * sint b"
    by (simp add: sint_word_ariths sint_scast_32 signed_take_bit_int_eq_self)
  then show ?thesis unfolding smul32_def Let_def by (simp only: clamp_32)
qed

lemma sadd32_clamps: "sint (sadd32 a b) = clamp 32 (sint a + sint b)"
proof -
  have "sint ((scast a :: i64) + scast b) = sint a + sint b"
    using sint_bounds(3,4) [of a] sint_bounds(3,4) [of b]
    by (simp add: sint_word_ariths sint_scast_32 signed_take_bit_int_eq_self)
  then show ?thesis unfolding sadd32_def Let_def by (simp only: clamp_32)
qed

lemma clamp_u32: "unat (if ucast UINT32_MAX < r then UINT32_MAX else ucast r) = min (unat r) (2 ^ 32 - 1)" for r :: u64
proof -
  have "unat (ucast r :: u32) = unat r mod 2 ^ 32" by (simp add: unsigned_ucast_eq take_bit_eq_mod)
  then show ?thesis by (auto simp: word_less_nat_alt unat_ucast_32 sint_limits min_def)
qed

lemma smulu32_clamps: "unat (smulu32 a b) = min (unat a * unat b) (2 ^ 32 - 1)"
proof -
  have "unat a * unat b \<le> (2 ^ 32 - 1) * (2 ^ 32 - 1)"
    using unat_less_32 [of a] unat_less_32 [of b] by (intro mult_mono) simp_all
  then have "unat ((ucast a :: u64) * ucast b) = unat a * unat b" by (simp add: unat_mult_64 unat_ucast_32)
  then show ?thesis unfolding smulu32_def Let_def by (simp only: clamp_u32)
qed

lemma saddu32_clamps: "unat (saddu32 a b) = min (unat a + unat b) (2 ^ 32 - 1)"
proof -
  have "unat ((ucast a :: u64) + ucast b) = unat a + unat b"
    using unat_less_32 [of a] unat_less_32 [of b] by (simp add: unat_add_64 unat_ucast_32)
  then show ?thesis unfolding saddu32_def Let_def by (simp only: clamp_u32)
qed

lemma saddu64_clamps: "unat (saddu64 a b) = min (unat a + unat b) (2 ^ 64 - 1)"
proof -
  have "unat (UINT64_MAX - a) = 2 ^ 64 - 1 - unat a"
    using unat_less_64 [of a] by (subst unat_sub) (simp_all add: word_le_nat_alt sint_limits)
  then have "UINT64_MAX - a < b \<longleftrightarrow> 2 ^ 64 \<le> unat a + unat b"
    using unat_less_64 [of a] by (auto simp: word_less_nat_alt)
  then show ?thesis by (simp add: saddu64_def sint_limits unat_add_64 min_def)
qed

lemma sadd64_clamps:
  assumes "a \<noteq> INT64_MIN \<or> b \<noteq> INT64_MIN"
  shows "sint (sadd64 a b) = clamp 64 (sint a + sint b)"
proof -
  have ne: "sint a + sint b \<noteq> - (2 ^ 64)"
  proof
    assume "sint a + sint b = - (2 ^ 64)"
    then have "sint a = sint INT64_MIN" "sint b = sint INT64_MIN"
      using sint_bounds(1) [of a] sint_bounds(1) [of b] by (simp_all add: sint_limits)
    then show False using assms by (auto dest: signed_word_eqI)
  qed
  have sum: "sint (a + b) = (sint a + sint b + 2 ^ 63) mod 2 ^ 64 - 2 ^ 63"
    by (simp add: sint_word_ariths signed_take_bit_eq_take_bit_shift take_bit_eq_mod)
  consider "sint a + sint b < - (2 ^ 63)" | "- (2 ^ 63) \<le> sint a + sint b" "sint a + sint b < 2 ^ 63" | "2 ^ 63 \<le> sint a + sint b"
    by linarith
  then show ?thesis
  proof cases
    case 1
    then have "sint (a + b) = sint a + sint b + 2 ^ 64"
      unfolding sum using ne sint_bounds(1) [of a] sint_bounds(1) [of b] mod_add_self2 [of "sint a + sint b + 2 ^ 63" "2 ^ 64"]
      by simp
    then show ?thesis using 1 ne sint_bounds(1,2) [of a] sint_bounds(1,2) [of b]
      by (simp add: sadd64_def Let_def word_sless_alt clamp_def sint_limits)
  next
    case 2
    then have "sint (a + b) = sint a + sint b" by (rule sint_add_exact)
    then show ?thesis using 2 by (simp add: sadd64_def Let_def word_sless_alt clamp_def)
  next
    case 3
    then have "(sint a + sint b + 2 ^ 63) mod 2 ^ 64 = sint a + sint b - 2 ^ 63"
      using sint_bounds(2) [of a] sint_bounds(2) [of b] by (intro int_mod_pos_eq [where q = 1]) simp_all
    then have "sint (a + b) = sint a + sint b - 2 ^ 64" unfolding sum by simp
    then show ?thesis using 3 sint_bounds(1,2) [of a] sint_bounds(1,2) [of b]
      by (simp add: sadd64_def Let_def word_sless_alt clamp_def sint_limits)
  qed
qed

section \<open>Powers, divisors and the next power of two\<close>

lemma div_less_mult: "0 < x \<Longrightarrow> m div x < p \<longleftrightarrow> m < p * x" for m x p :: nat
  by (simp add: div_less_iff_less_mult)

lemma word_div_less_mult: "x \<noteq> 0 \<Longrightarrow> m div x < p \<longleftrightarrow> unat m < unat p * unat x" for m x p :: u64
  by (simp add: word_less_nat_alt unat_div div_less_mult unat_gt_0)

lemma UINT64_div_less: "x \<noteq> 0 \<Longrightarrow> UINT64_MAX div x < p \<longleftrightarrow> 2 ^ 64 \<le> unat p * unat x"
  by (simp add: word_div_less_mult sint_limits) linarith

lemma word_parity: "e AND 1 \<noteq> 0 \<longleftrightarrow> odd (unat e)" for e :: "'a::len word"
proof -
  have "odd e \<longleftrightarrow> odd (unat e)" unfolding bit_0 [symmetric] by (simp only: bit_unsigned_iff) simp
  then show ?thesis by (simp add: and_one_eq mod_2_eq_odd)
qed

lemma power_halves: "(v::nat) ^ e = v ^ (e mod 2) * (v * v) ^ (e div 2)"
proof -
  have "v ^ e = v ^ (e mod 2 + 2 * (e div 2))" by simp
  also have "\<dots> = v ^ (e mod 2) * (v * v) ^ (e div 2)" by (simp only: power_add power_mult power2_eq_square)
  finally show ?thesis .
qed

lemma ipowLoop_saturates:
  assumes "1 \<le> unat r" and "2 \<le> unat v"
  shows "unat (ipowLoop r v e) = min (unat r * unat v ^ unat e) (2 ^ 64 - 1)"
  using assms
proof (induction r v e rule: ipowLoop.induct)
  case (1 r v e)
  let ?R = "unat r" and ?V = "unat v" and ?E = "unat e"
  have v0: "v \<noteq> 0" using 1(3) by auto
  define r' where "r' = (if e AND 1 \<noteq> 0 then r * v else r)"
  show ?case
  proof (cases "e = 0")
    case True
    then show ?thesis using unat_less_64 [of r] by (simp add: ipowLoop.simps min_def)
  next
    case e0: False
    show ?thesis
    proof (cases "e AND 1 \<noteq> 0 \<and> UINT64_MAX div v < r")
      case True
      then have "2 ^ 64 \<le> ?R * ?V" "1 \<le> ?E" using v0 e0 by (auto simp: UINT64_div_less word_parity intro: Suc_leI odd_pos)
      moreover have "?R * ?V \<le> ?R * ?V ^ ?E" using \<open>1 \<le> ?E\<close> 1(3) by (simp add: self_le_power)
      ultimately have "2 ^ 64 \<le> ?R * ?V ^ ?E" by linarith
      then show ?thesis using True e0 by (simp add: ipowLoop.simps [of r v e] sint_limits min_def)
    next
      case no_ovf: False
      have r': "unat r' = ?R * ?V ^ (?E mod 2)"
        using no_ovf v0 by (auto simp: r'_def UINT64_div_less word_parity unat_mult_64 odd_iff_mod_2_eq_one)
      have split: "?R * ?V ^ ?E = unat r' * (?V * ?V) ^ (?E div 2)"
        unfolding r' by (simp only: power_halves [of ?V ?E] mult.assoc)
      have r1: "1 \<le> unat r'" using r' 1(2,3) by simp
      show ?thesis
      proof (cases "drop_bit 1 e = 0")
        case True
        then have "?E div 2 = 0" by (metis unat_drop_bit power_one_right unat_eq_zero)
        then show ?thesis using True e0 no_ovf split unat_less_64 [of r']
          by (simp add: ipowLoop.simps [of r v e] r'_def [symmetric] min_def) linarith
      next
        case more: False
        then have pos: "1 \<le> ?E div 2" by (metis unat_drop_bit power_one_right unat_eq_zero less_one not_le)
        show ?thesis
        proof (cases "UINT64_MAX div v < v")
          case True
          then have "2 ^ 64 \<le> ?V * ?V" using v0 by (simp add: UINT64_div_less)
          moreover have "?V * ?V \<le> (?V * ?V) ^ (?E div 2)" using pos 1(3) by (simp add: self_le_power)
          moreover have "\<dots> \<le> ?R * ?V ^ ?E" unfolding split using r1 by simp
          ultimately have "2 ^ 64 \<le> ?R * ?V ^ ?E" by linarith
          then show ?thesis using True e0 no_ovf more
            by (simp add: ipowLoop.simps [of r v e] sint_limits min_def Let_def)
        next
          case False
          then have sq: "unat (v * v) = ?V * ?V" using v0 by (simp add: UINT64_div_less unat_mult_64)
          have "2 \<le> ?V * ?V" using mult_le_mono [OF 1(3) 1(3)] by simp
          with 1(1) [OF e0 no_ovf refl refl more False] r1 sq
          have "unat (ipowLoop r' (v * v) (drop_bit 1 e)) = min (unat r' * (?V * ?V) ^ (?E div 2)) (2 ^ 64 - 1)"
            by (simp add: r'_def unat_drop_bit)
          then show ?thesis using e0 no_ovf more False split
            by (auto simp add: ipowLoop.simps [of r v e] r'_def [symmetric] Let_def)
        qed
      qed
    qed
  qed
qed

lemma u64_small_cases: "v = 0 \<or> v = 1 \<or> 2 \<le> unat v" for v :: u64
proof -
  have "unat v = 0 \<or> unat v = 1 \<or> 2 \<le> unat v" by linarith
  then show ?thesis by (auto simp: word_unat_eq_iff)
qed

lemma ipow_saturates: "unat (ipow v e) = min (unat v ^ unat e) (2 ^ 64 - 1)"
proof -
  consider "v = 0" | "v = 1" | "2 \<le> unat v"
    using u64_small_cases by blast
  then show ?thesis
  proof cases
    case 1
    then show ?thesis by (simp add: ipow_def power_0_left unat_eq_zero)
  next
    case 2
    then show ?thesis by (simp add: ipow_def)
  next
    case 3
    then have "v \<noteq> 0" "v \<noteq> 1" by auto
    then show ?thesis using ipowLoop_saturates [of 1 v e] 3 by (simp add: ipow_def)
  qed
qed

lemma gcdLoop_gcd: "0 \<le> sint a \<Longrightarrow> 0 \<le> sint b \<Longrightarrow> sint (gcdLoop a b) = gcd (sint a) (sint b)"
proof (induction a b rule: gcdLoop.induct)
  case (1 a b)
  show ?case
  proof (cases "b = 0")
    case True
    then show ?thesis using 1(2) by (simp add: gcdLoop.simps)
  next
    case False
    then have b: "0 < sint b" using 1(3) by (simp add: signed_eq_0_iff order_less_le)
    have "sgn (sint a) * (sint a mod sint b) = sint a mod sint b" using 1(2) by (cases "sint a = 0") simp_all
    then have "i64_rem a b = word_of_int (sint a mod sint b)" using 1(2) b by (simp only: i64_rem_def abs_of_nonneg order_less_imp_le)
    moreover have "sint (word_of_int (sint a mod sint b) :: i64) = sint a mod sint b"
      using pos_mod_bound [OF b, of "sint a"] pos_mod_sign [OF b, of "sint a"] sint_bounds(2) [of b]
      by (intro sint_of_int_64) linarith+
    ultimately have r: "sint (i64_rem a b) = sint a mod sint b" by simp
    then have "sint (gcdLoop b (i64_rem a b)) = gcd (sint b) (sint a mod sint b)"
      using 1(1) [OF False 1(3)] b by simp
    then show ?thesis using False by (simp add: gcdLoop.simps [of a b] gcd_red_int [of "sint a"])
  qed
qed

lemma greatestCommonDivisor_gcd:
  "sint (greatestCommonDivisor a b) = (if sint a < 0 \<or> sint b < 0 then 0 else gcd (sint a) (sint b))"
  by (simp add: greatestCommonDivisor_def word_sless_alt gcdLoop_gcd)

lemma smear_step:
  fixes x y :: u64
  assumes "\<And>i. bit y i \<longleftrightarrow> (\<exists>j\<ge>i. j < i + w \<and> bit x j)"
  shows "bit (y OR drop_bit w y) i \<longleftrightarrow> (\<exists>j\<ge>i. j < i + 2 * w \<and> bit x j)"
proof -
  have "bit (y OR drop_bit w y) i \<longleftrightarrow> (\<exists>j\<ge>i. j < i + w \<and> bit x j) \<or> (\<exists>j\<ge>i + w. j < i + w + w \<and> bit x j)"
    by (simp add: bit_or_iff bit_drop_bit_eq assms add.commute)
  also have "\<dots> \<longleftrightarrow> (\<exists>j\<ge>i. j < i + 2 * w \<and> bit x j)"
    by (auto simp: not_less) (metis add.assoc le_trans le_add1 less_le_trans mult_2 not_less)+
  finally show ?thesis .
qed

lemma high_bits_iff: "(\<exists>j\<ge>i. bit x j) \<longleftrightarrow> 2 ^ i \<le> unat x" for x :: u64
proof
  assume "\<exists>j\<ge>i. bit x j"
  then obtain j where "i \<le> j" "2 ^ j \<le> unat x" using bit_word_le by blast
  then show "2 ^ i \<le> unat x" by (meson le_trans one_le_numeral power_increasing)
next
  assume "2 ^ i \<le> unat x"
  then show "\<exists>j\<ge>i. bit x j" using word_less_exp_bits [of i x] by (meson not_less)
qed

lemma findNextPowerOf2_mask:
  assumes "num \<noteq> 0"
  shows "\<exists>y. findNextPowerOf2 num = y + 1 \<and> (\<forall>i < 64. bit y i \<longleftrightarrow> 2 ^ i \<le> unat (num - 1))"
proof -
  define x where "x = num - 1"
  define s :: "u64 \<Rightarrow> nat \<Rightarrow> u64" where "s y w = y OR drop_bit w y" for y w
  define y where "y = s (s (s (s (s (s x 1) 2) 4) 8) 16) 32"
  have 0: "bit x i \<longleftrightarrow> (\<exists>j\<ge>i. j < i + 1 \<and> bit x j)" for i by (auto simp: less_Suc_eq_le dest: antisym)
  have step: "bit (s y w) i \<longleftrightarrow> (\<exists>j\<ge>i. j < i + v \<and> bit x j)"
    if "\<And>i. bit y i \<longleftrightarrow> (\<exists>j\<ge>i. j < i + w \<and> bit x j)" "v = 2 * w" for y w v i
    unfolding s_def that(2) using that(1) by (rule smear_step)
  have 1: "bit (s x 1) i \<longleftrightarrow> (\<exists>j\<ge>i. j < i + 2 \<and> bit x j)" for i by (rule step [OF 0]) simp
  have 2: "bit (s (s x 1) 2) i \<longleftrightarrow> (\<exists>j\<ge>i. j < i + 4 \<and> bit x j)" for i by (rule step [OF 1]) simp
  have 3: "bit (s (s (s x 1) 2) 4) i \<longleftrightarrow> (\<exists>j\<ge>i. j < i + 8 \<and> bit x j)" for i by (rule step [OF 2]) simp
  have 4: "bit (s (s (s (s x 1) 2) 4) 8) i \<longleftrightarrow> (\<exists>j\<ge>i. j < i + 16 \<and> bit x j)" for i by (rule step [OF 3]) simp
  have 5: "bit (s (s (s (s (s x 1) 2) 4) 8) 16) i \<longleftrightarrow> (\<exists>j\<ge>i. j < i + 32 \<and> bit x j)" for i by (rule step [OF 4]) simp
  have "bit y i \<longleftrightarrow> (\<exists>j\<ge>i. j < i + 64 \<and> bit x j)" for i unfolding y_def by (rule step [OF 5]) simp
  also have "(\<exists>j\<ge>i. j < i + 64 \<and> bit x j) \<longleftrightarrow> 2 ^ i \<le> unat x" for i
    unfolding high_bits_iff [symmetric] using bit_imp_le_length [of x] by fastforce
  finally have "\<forall>i < 64. bit y i \<longleftrightarrow> 2 ^ i \<le> unat (num - 1)" by (simp add: x_def)
  moreover have "findNextPowerOf2 num = y + 1"
    using assms unfolding y_def s_def findNextPowerOf2_def Let_def x_def by (rule if_not_P)
  ultimately show ?thesis by blast
qed

lemma unat_push_bit_one: "k < 64 \<Longrightarrow> unat (push_bit k 1 :: u64) = 2 ^ k"
  using power_strict_increasing [of k 64 "2::nat"] by (simp only: unat_push_bit_64) simp

lemma mask_plus_one:
  fixes y :: u64
  assumes "\<And>i. i < 64 \<Longrightarrow> bit y i \<longleftrightarrow> i < k" and "k < 64"
  shows "unat (y + 1) = 2 ^ k"
proof -
  have "y = mask k" by (rule bit_word_eqI) (use assms in \<open>simp add: bit_mask_iff\<close>)
  then have "y + 1 = 2 ^ k" by (simp add: mask_eq_exp_minus_1)
  then have "y + 1 = push_bit k 1" by simp
  then show ?thesis using assms(2) by (simp only: unat_push_bit_one)
qed

text \<open>
  C23: for every \<open>num\<close> up to \<open>2^63\<close> \<open>findNextPowerOf2\<close> returns the least power of two that is not below \<open>num\<close>
  (1 for 0); beyond \<open>2^63\<close> the increment wraps and the result is 0.
\<close>

theorem findNextPowerOf2_least:
  "if num = 0 then findNextPowerOf2 num = 1
   else if unat num \<le> 2 ^ 63
   then \<exists>k < 64. unat (findNextPowerOf2 num) = 2 ^ k \<and> unat num \<le> 2 ^ k \<and> 2 ^ k < 2 * unat num
   else findNextPowerOf2 num = 0"
proof (cases "num = 0")
  case False
  then obtain y where y: "findNextPowerOf2 num = y + 1" and b: "\<And>i. i < 64 \<Longrightarrow> bit y i \<longleftrightarrow> 2 ^ i \<le> unat (num - 1)"
    using findNextPowerOf2_mask by blast
  have m: "unat (num - 1) = unat num - 1" "1 \<le> unat num" using False by (simp_all add: unat_minus_one Suc_le_eq unat_gt_0)
  define k where "k = bitLength (num - 1)"
  have k: "2 ^ i \<le> unat (num - 1) \<longleftrightarrow> i < k" for i
  proof (cases "num - 1 = 0")
    case True
    then show ?thesis by (simp add: k_def bitLength_def)
  next
    case nz: False
    have l: "63 - lzcnt64 (num - 1) = k - 1" "k \<noteq> 0" using lzcnt64_bounds(1) [OF nz] nz by (simp_all add: k_def bitLength_def)
    then have "2 ^ (k - 1) \<le> unat (num - 1)" "unat (num - 1) < 2 ^ k"
      using lzcnt64_bounds [OF nz] nz by (simp_all add: k_def bitLength_def)
    moreover have "(2::nat) ^ i \<le> 2 ^ (k - 1)" if "i < k" using that by (intro power_increasing) simp_all
    moreover have "(2::nat) ^ k \<le> 2 ^ i" if "\<not> i < k" using that by (intro power_increasing) simp_all
    ultimately show ?thesis by (cases "i < k") linarith+
  qed
  show ?thesis
  proof (cases "unat num \<le> 2 ^ 63")
    case True
    have "k < 64" using k [of 63] m True by linarith
    then have r: "unat (findNextPowerOf2 num) = 2 ^ k" unfolding y using b k by (intro mask_plus_one) simp_all
    have "unat num \<le> 2 ^ k" using k [of k] m by simp
    moreover have "2 ^ k < 2 * unat num"
    proof (cases k)
      case (Suc k')
      then show ?thesis using k [of k'] m by simp
    qed (use m in simp)
    ultimately show ?thesis using False True r \<open>k < 64\<close> by auto
  next
    case big: False
    then have "bit y i" if "i < 64" for i
      using that b [of i] m power_increasing [of i 63 "2::nat"] by simp
    then have "y = - 1" by (intro bit_word_eqI) simp
    then show ?thesis using False big y by simp
  qed
qed (simp add: findNextPowerOf2_def)

section \<open>The integer root\<close>

lemma unat_ge_2: "\<not> x \<le> 1 \<longleftrightarrow> 2 \<le> unat x" for x :: u64
  by (simp add: word_le_nat_alt) linarith

lemma powerLoop_iff:
  assumes "2 \<le> unat x"
  shows "powerLoop x m n p \<longleftrightarrow> n = 0 \<or> unat p * unat x ^ n \<le> unat m"
proof (induction n arbitrary: p)
  case (Suc n)
  have x0: "x \<noteq> 0" using assms by auto
  have pos: "1 \<le> unat x ^ n" using assms by simp
  show ?case
  proof (cases "unat m < unat p * unat x")
    case True
    moreover have "unat p * unat x \<le> unat p * unat x ^ Suc n" using pos by simp
    ultimately have "\<not> unat p * unat x ^ Suc n \<le> unat m" by linarith
    then show ?thesis using True by (simp add: word_div_less_mult x0)
  next
    case False
    then have px: "unat (p * x) = unat p * unat x" using unat_less_64 [of m] by (simp add: unat_mult_64)
    show ?thesis
    proof (cases n)
      case 0
      then show ?thesis using False by (simp add: word_div_less_mult x0)
    next
      case (Suc n')
      then show ?thesis using False Suc.IH [of "p * x"] px by (simp add: word_div_less_mult x0 mult.assoc)
    qed
  qed
qed simp

lemma powerLessOrEqual_iff: "powerLessOrEqual x k m \<longleftrightarrow> unat x ^ k \<le> unat m"
proof -
  consider "k = 0" | "k \<noteq> 0" "x = 0" | "k \<noteq> 0" "x = 1" | "k \<noteq> 0" "2 \<le> unat x" "\<not> x \<le> 1"
    using u64_small_cases [of x] unat_ge_2 [of x] by blast
  then show ?thesis
    by cases (simp_all add: powerLessOrEqual_def word_le_nat_alt powerLoop_iff power_0_left)
qed

lemma newtonPower_value:
  assumes "x \<noteq> 0"
  shows "newtonPower x j p = (if 2 ^ 64 \<le> unat p * unat x ^ j then None else Some (p * x ^ j))
    \<or> (j = 0 \<and> newtonPower x j p = Some p)"
proof (induction j arbitrary: p)
  case (Suc j)
  have pos: "1 \<le> unat x ^ j" using assms by (simp add: Suc_le_eq unat_gt_0)
  show ?case
  proof (cases "2 ^ 64 \<le> unat p * unat x")
    case True
    moreover have "unat p * unat x \<le> unat p * unat x ^ Suc j" using pos by simp
    ultimately have "2 ^ 64 \<le> unat p * unat x ^ Suc j" by linarith
    then show ?thesis using True by (simp add: UINT64_div_less assms)
  next
    case False
    then have px: "unat (p * x) = unat p * unat x" by (simp add: unat_mult_64)
    have "newtonPower x (Suc j) p = newtonPower x j (p * x)" using False by (simp add: UINT64_div_less assms)
    also have "\<dots> = (if 2 ^ 64 \<le> unat p * unat x ^ Suc j then None else Some (p * x ^ Suc j))"
      using Suc.IH [of "p * x"] px False by (auto simp: mult.assoc)
    finally show ?thesis by simp
  qed
qed simp

lemma unat_power_exact: "unat x ^ j < 2 ^ 64 \<Longrightarrow> unat (x ^ j) = unat x ^ j" for x :: u64
proof -
  have "unat (x ^ j) = unat x ^ j mod 2 ^ 64"
  proof (induction j)
    case (Suc j)
    then show ?case by (simp add: unat_mult_64 mod_mult_right_eq)
  qed simp
  then show "unat x ^ j < 2 ^ 64 \<Longrightarrow> unat (x ^ j) = unat x ^ j" by simp
qed

lemma ceil_complement:
  fixes x d k :: nat
  assumes "d < x" and "1 \<le> k"
  shows "x - (x - d + (k - 1)) div k = ((k - 1) * x + d) div k" and "(x - d + (k - 1)) div k \<le> x"
proof -
  define q r where "q = (x - d + (k - 1)) div k" and "r = (x - d + (k - 1)) mod k"
  have e: "x - d + (k - 1) = k * q + r" and r: "r < k" using assms by (simp_all add: q_def r_def)
  have qx: "q \<le> x"
  proof -
    have "k * q \<le> x - d + (k - 1)" using e by simp
    also have "\<dots> < k * x + k" using assms by (cases k) simp_all
    also have "\<dots> = k * Suc x" by simp
    finally show ?thesis by (simp only: mult_less_cancel1) simp
  qed
  from qx obtain z where x: "x = q + z" by (metis le_add_diff_inverse)
  have "(k - 1) * x + x = k * q + k * z" using assms by (cases k) (simp_all add: x algebra_simps)
  then have "((k - 1) * x + d) div k = z"
    using e r assms x by (intro div_nat_eqI) simp_all
  then show "x - (x - d + (k - 1)) div k = ((k - 1) * x + d) div k"
    unfolding q_def [symmetric] using x by simp
  show "(x - d + (k - 1)) div k \<le> x" using qx by (simp add: q_def)
qed

lemma irootNewtonStep_value:
  assumes k: "2 \<le> k" "k \<le> 64" and x: "1 \<le> unat x" "unat x \<le> 2 ^ 63"
  shows "unat (irootNewtonStep k n x) = ((k - 1) * unat x + unat n div unat x ^ (k - 1)) div k"
proof -
  let ?X = "unat x" and ?D = "unat n div unat x ^ (k - 1)"
  define d where "d = (case newtonPower x (k - 1) 1 of None \<Rightarrow> 0 | Some xPowKm1 \<Rightarrow> n div xPowKm1)"
  have step: "irootNewtonStep k n x =
    (if x \<le> d then x + (d - x) div of_nat k else x - (x - d + of_nat (k - 1)) div of_nat k)"
    by (simp only: irootNewtonStep_def Let_def d_def)
  have x0: "x \<noteq> 0" using x by auto
  have p: "newtonPower x (k - 1) 1 = (if 2 ^ 64 \<le> ?X ^ (k - 1) then None else Some (x ^ (k - 1)))"
    using newtonPower_value [OF x0, of "k - 1" 1] k by auto
  have d: "unat d = ?D"
  proof (cases "2 ^ 64 \<le> ?X ^ (k - 1)")
    case True
    then have "?D = 0" using unat_less_64 [of n] by (intro div_less) linarith
    then show ?thesis using True p by (simp add: d_def)
  next
    case False
    then show ?thesis using p unat_power_exact [of x "k - 1"] by (simp add: d_def unat_div)
  qed
  have kw: "unat (of_nat k :: u64) = k" "unat (of_nat (k - 1) :: u64) = k - 1"
    using k by (simp_all add: unsigned_of_nat take_bit_nat_eq_self del: of_nat_diff)
  show ?thesis
  proof (cases "x \<le> d")
    case True
    then have le: "?X \<le> ?D" by (simp add: word_le_nat_alt d)
    have "unat (d - x) = ?D - ?X" using True by (simp add: unat_sub d)
    then have "unat ((d - x) div of_nat k) = (?D - ?X) div k" by (simp add: unat_div kw)
    moreover have "?X + (?D - ?X) div k \<le> ?D" using le div_le_dividend [of "?D - ?X" k] by linarith
    ultimately have "unat (irootNewtonStep k n x) = ?X + (?D - ?X) div k"
      using True unat_less_64 [of d] d by (simp add: step unat_add_64)
    also have "\<dots> = (k * ?X + (?D - ?X)) div k" using k by simp
    also have "k * ?X + (?D - ?X) = (k - 1) * ?X + ?D" using k le by (cases k) simp_all
    finally show ?thesis .
  next
    case False
    then have lt: "?D < ?X" by (simp add: word_le_nat_alt d not_le)
    have "unat (x - d) = ?X - ?D" using False by (simp add: unat_sub d)
    then have "unat (x - d + of_nat (k - 1)) = ?X - ?D + (k - 1)"
      using x k kw(2) by (simp add: unat_add_64 del: of_nat_diff)
    then have "unat ((x - d + of_nat (k - 1)) div of_nat k) = (?X - ?D + (k - 1)) div k" by (simp add: unat_div kw(1) del: of_nat_diff)
    moreover have "(?X - ?D + (k - 1)) div k \<le> ?X"
      using ceil_complement(2) [OF lt, of k] k by simp
    ultimately have "unat (irootNewtonStep k n x) = ?X - (?X - ?D + (k - 1)) div k"
      using False by (simp add: step unat_sub word_le_nat_alt del: of_nat_diff)
    also have "\<dots> = ((k - 1) * ?X + ?D) div k" using ceil_complement(1) [OF lt, of k] k by simp
    finally show ?thesis .
  qed
qed

lemma irootNewtonStep_positive:
  assumes "2 \<le> k" "k \<le> 64" "1 \<le> unat x" "unat x \<le> 2 ^ 63" "1 \<le> unat n"
  shows "1 \<le> unat (irootNewtonStep k n x)"
proof -
  have "k \<le> (k - 1) * unat x + unat n div unat x ^ (k - 1)"
  proof (cases "unat x = 1")
    case True
    then show ?thesis using assms by simp
  next
    case False
    then have "(k - 1) * 2 \<le> (k - 1) * unat x" using assms(3) by (intro mult_le_mono2) linarith
    then show ?thesis using assms(1) by linarith
  qed
  then have "1 \<le> ((k - 1) * unat x + unat n div unat x ^ (k - 1)) div k"
    using assms(1) by (simp add: Suc_le_eq div_greater_zero_iff)
  then show ?thesis using irootNewtonStep_value [OF assms(1-4)] by simp
qed

lemma newtonLoop_bounds:
  assumes "2 \<le> k" "k \<le> 64" "1 \<le> unat n" "1 \<le> unat x" "unat x \<le> 2 ^ 63"
  shows "1 \<le> unat (newtonLoop k n iter x (irootNewtonStep k n x)) \<and> unat (newtonLoop k n iter x (irootNewtonStep k n x)) \<le> 2 ^ 63"
  using assms(4,5)
proof (induction iter arbitrary: x)
  case (Suc iter)
  let ?t = "irootNewtonStep k n x"
  have "1 \<le> unat ?t" using assms Suc.prems by (intro irootNewtonStep_positive)
  moreover have "unat ?t \<le> 2 ^ 63" if "?t < x" using that Suc.prems(2) by (simp add: word_less_nat_alt)
  ultimately show ?case using Suc.IH [of ?t] Suc.prems by (cases "?t < x") simp_all
qed simp

lemma rootDown_returns:
  assumes "1 \<le> k" and "1 \<le> unat n" and "1 \<le> unat x"
  shows "\<exists>r. rootDown k n x = Some r \<and> unat r ^ k \<le> unat n"
  using assms(3)
proof (induction "unat x" arbitrary: x)
  case (Suc m)
  show ?case
  proof (cases "unat x ^ k \<le> unat n")
    case True
    then show ?thesis by (subst rootDown.simps) (simp add: powerLessOrEqual_iff)
  next
    case False
    then have "unat x \<noteq> 1" using assms(2) by auto
    moreover have m: "unat (x - 1) = m" using Suc.hyps(2) by (metis diff_Suc_1 unat_minus_one unat_eq_zero nat.distinct(1))
    ultimately have "\<exists>r. rootDown k n (x - 1) = Some r \<and> unat r ^ k \<le> unat n"
      using Suc.hyps Suc.prems by auto
    then show ?thesis using False by (subst rootDown.simps) (simp add: powerLessOrEqual_iff)
  qed
qed simp

lemma rootUp_floor:
  assumes "1 \<le> k" and "unat x ^ k \<le> unat n"
  shows "unat (rootUp k n x) ^ k \<le> unat n \<and> unat n < (unat (rootUp k n x) + 1) ^ k"
  using assms
proof (induction k n x rule: rootUp.induct)
  case (1 k n x)
  show ?case
  proof (cases "x < UINT64_MAX \<and> powerLessOrEqual (x + 1) k n")
    case True
    then show ?thesis using 1 by (simp add: rootUp.simps [of k n x] powerLessOrEqual_iff)
  next
    case False
    have "unat n < (unat x + 1) ^ k"
    proof (cases "x < UINT64_MAX")
      case True
      then have "unat (x + 1) = unat x + 1" by (simp add: word_less_nat_alt sint_limits unat_add_64)
      then show ?thesis using True False by (simp add: powerLessOrEqual_iff)
    next
      case max: False
      then have "unat x + 1 = 2 ^ 64" using unat_less_64 [of x] by (simp add: word_less_nat_alt sint_limits)
      moreover have "(2::nat) ^ 64 \<le> (2 ^ 64) ^ k" using 1(2) by (intro self_le_power) simp_all
      ultimately show ?thesis using unat_less_64 [of n] by simp
    qed
    moreover have "rootUp k n x = x" using False by (subst rootUp.simps) (rule if_not_P)
    ultimately show ?thesis using 1(3) by simp
  qed
qed

text \<open>
  C20: for every \<open>k\<close> from 1 to 64 and every 64-bit \<open>n\<close>, \<open>irootK64\<close> returns (its correction loops end, and no step
  divides by zero) the floor of the \<open>k\<close>-th root: the largest \<open>r\<close> with \<open>r^k \<le> n\<close>.
\<close>

theorem irootK64_floor:
  assumes "1 \<le> k" and "k \<le> 64"
  shows "\<exists>r. irootK64 k n = Some r \<and> unat r ^ k \<le> unat n \<and> unat n < (unat r + 1) ^ k"
proof -
  consider "k = 1" | "2 \<le> k" "n = 0" | "2 \<le> k" "n = 1" | "2 \<le> k" "2 \<le> unat n"
    using assms u64_small_cases [of n] by linarith
  then show ?thesis
  proof cases
    case 3
    then have "(1::nat) < 2 ^ k" by (intro one_less_power) simp_all
    then show ?thesis using 3 by (simp add: irootK64_def numeral_2_eq_2)
  next
    case 4
    define x where "x = (push_bit ((bitLength n + k - 1) div k) 1 :: u64)"
    define y where "y = newtonLoop k n IROOT_NEWTON_CAP x (irootNewtonStep k n x)"
    have "bitLength n \<le> 64" by (simp add: bitLength_def)
    then have "bitLength n + k - 1 < 64 * k" using 4(1) by linarith
    then have "(bitLength n + k - 1) div k \<le> 63" by (simp add: div_less_iff_less_mult less_Suc_eq_le [symmetric])
    then have "unat x = 2 ^ ((bitLength n + k - 1) div k)" and "(2::nat) ^ ((bitLength n + k - 1) div k) \<le> 2 ^ 63"
      unfolding x_def by (intro unat_push_bit_one power_increasing; simp)+
    then have "1 \<le> unat y" using newtonLoop_bounds [OF 4(1) assms(2), of n x] 4(2) by (simp add: y_def)
    then obtain r where r: "rootDown k n y = Some r" "unat r ^ k \<le> unat n"
      using rootDown_returns [OF assms(1), of n y] 4(2) by auto
    have "irootK64 k n = map_option (rootUp k n) (rootDown k n y)"
      unfolding y_def x_def irootK64_def Let_def using 4 by (simp add: word_less_nat_alt)
    then show ?thesis using r(1) rootUp_floor [OF assms(1) r(2)] by auto
  qed (simp_all add: irootK64_def)
qed

theorem irootK64_floor_witness:
  "\<exists>r. irootK64 3 1000 = Some r \<and> unat r ^ 3 \<le> unat (1000::u64) \<and> unat (1000::u64) < (unat r + 1) ^ 3"
  using irootK64_floor [of 3 1000] by simp


section \<open>Properties\<close>

text \<open>
  C21: the saturating operations return the exact product or sum clamped to the range of their type, at both
  widths and for both signs. The signed 64-bit sum does so for all operands but \<open>INT64_MIN + INT64_MIN\<close>.
\<close>

theorem saturating_arithmetic:
  "sint (smul64 a b) = clamp 64 (sint a * sint b) \<and>
   unat (smulu64 a b) = min (unat a * unat b) (2 ^ 64 - 1) \<and>
   sint (smul32 c d) = clamp 32 (sint c * sint d) \<and>
   unat (smulu32 c d) = min (unat c * unat d) (2 ^ 32 - 1) \<and>
   (a \<noteq> INT64_MIN \<or> b \<noteq> INT64_MIN \<longrightarrow> sint (sadd64 a b) = clamp 64 (sint a + sint b)) \<and>
   unat (saddu64 a b) = min (unat a + unat b) (2 ^ 64 - 1) \<and>
   sint (sadd32 c d) = clamp 32 (sint c + sint d) \<and>
   unat (saddu32 c d) = min (unat c + unat d) (2 ^ 32 - 1)"
  by (intro conjI impI smul64_clamps smulu64_clamps smul32_clamps smulu32_clamps sadd64_clamps saddu64_clamps
      sadd32_clamps saddu32_clamps)

theorem saturating_arithmetic_witness:
  "- 1 \<noteq> INT64_MIN \<and> sint (sadd64 (- 1) INT64_MIN) = - (2 ^ 63)"
proof
  show n: "- 1 \<noteq> INT64_MIN" by (simp add: INT64_MIN_def)
  have "sint (sadd64 (- 1) INT64_MIN) = clamp 64 (sint (- 1 :: i64) + sint INT64_MIN)"
    using saturating_arithmetic [of "- 1" INT64_MIN] n by blast
  then show "sint (sadd64 (- 1) INT64_MIN) = - (2 ^ 63)" by (simp add: clamp_def sint_limits)
qed

text \<open>The operands left out: the wrapped sum is 0, which the test \<open>sum > 0\<close> does not see.\<close>

lemma sadd64_min_min: "sadd64 INT64_MIN INT64_MIN = 0"
  by (simp add: sadd64_def INT64_MIN_def Let_def word_sless_alt)

text \<open>
  C22: \<open>ipow\<close> returns \<open>v^e\<close> when it fits 64 bits and the largest 64-bit value otherwise, whichever of its two overflow
  tests fires, and \<open>greatestCommonDivisor\<close> returns the greatest common divisor, or 0 for a negative operand.
\<close>

theorem ipow_gcd_correct:
  "unat (ipow v e) = min (unat v ^ unat e) (2 ^ 64 - 1) \<and>
   sint (greatestCommonDivisor a b) = (if sint a < 0 \<or> sint b < 0 then 0 else gcd (sint a) (sint b))"
  by (simp only: ipow_saturates greatestCommonDivisor_gcd simp_thms)

text \<open>The rounded-up quotient, as long as \<open>a + b - 1\<close> fits; the narrow versions never wrap.\<close>

lemma divUp_ceiling:
  "b \<noteq> 0 \<Longrightarrow> unat a + unat b \<le> 2 ^ 64 \<Longrightarrow> unat (divUp64 a b) = (unat a + unat b - 1) div unat b"
  "f \<noteq> 0 \<Longrightarrow> uint (divUp8 e f) = (uint e + uint f - 1) div uint f"
proof -
  assume b: "b \<noteq> 0" "unat a + unat b \<le> 2 ^ 64"
  then have "1 \<le> unat b" by (simp add: Suc_le_eq unat_gt_0)
  then have "unat (b - 1) = unat b - 1" using b by (simp add: unat_minus_one)
  then have "unat (a + b - 1) = unat a + unat b - 1"
    using b \<open>1 \<le> unat b\<close> by (subst add_diff_eq [symmetric]) (simp add: unat_add_64)
  then show "unat (divUp64 a b) = (unat a + unat b - 1) div unat b" using b by (simp add: divUp64_def unat_div)
next
  assume f: "f \<noteq> 0"
  then have "1 \<le> uint f" using uint_ge_0 [of f] by (simp add: unsigned_eq_0_iff order_less_le int_one_le_iff_zero_less)
  moreover have "uint e < 2 ^ 8" "uint f < 2 ^ 8" using uint_lt2p [of e] uint_lt2p [of f] by simp_all
  ultimately have n: "0 \<le> uint e + uint f - 1" "uint e + uint f - 1 \<le> 255 * uint f" "0 < uint f"
    using uint_ge_0 [of e] by (simp_all, linarith)
  then have "0 \<le> (uint e + uint f - 1) div uint f" by (simp add: pos_imp_zdiv_nonneg_iff)
  moreover have "(uint e + uint f - 1) div uint f \<le> 255"
    using zdiv_mono1 [OF n(2,3)] n(3) by simp
  ultimately show "uint (divUp8 e f) = (uint e + uint f - 1) div uint f"
    using f by (simp add: divUp8_def uint_word_of_int)
qed

end
