(* ===== verification/Assets.thy ===== *)
theory Assets
  imports Linear_Probing Bit_Flags
begin

text \<open>
  The universe of assets (\<open>src/src/assets/assets.h\<close>): one open-addressing table holds issuances, ownerships and
  possessions, linked by slot index, with linked lists over the slots and change flags for the digest. A search that
  never stops is \<^const>\<open>None\<close>. The lock of the universe is not modelled.
\<close>

unbundle bit_operations_syntax

section \<open>Records\<close>

text \<open>
  \<open>AssetRecord\<close>, a union tagged by its type byte. A name and a unit of measurement are their seven bytes read as
  a number. An empty record is all zero. Slot indices stay below the capacity, so they are natural numbers here.
\<close>

datatype AssetRecord =
    EMPTY
  | ISSUANCE m256i u64 u8 u64
  | OWNERSHIP m256i u16 nat i64
  | POSSESSION m256i u16 nat i64

fun asset_pk :: "AssetRecord \<Rightarrow> m256i" where
  "asset_pk EMPTY = 0"
| "asset_pk (ISSUANCE pk nm dp um) = pk"
| "asset_pk (OWNERSHIP pk mc k n) = pk"
| "asset_pk (POSSESSION pk mc k n) = pk"

fun asset_name :: "AssetRecord \<Rightarrow> u64" where
  "asset_name (ISSUANCE pk nm dp um) = nm"
| "asset_name r = 0"

fun asset_decimals :: "AssetRecord \<Rightarrow> u8" where
  "asset_decimals (ISSUANCE pk nm dp um) = dp"
| "asset_decimals r = 0"

fun asset_unit :: "AssetRecord \<Rightarrow> u64" where
  "asset_unit (ISSUANCE pk nm dp um) = um"
| "asset_unit r = 0"

fun asset_mc :: "AssetRecord \<Rightarrow> u16" where
  "asset_mc (OWNERSHIP pk mc k n) = mc"
| "asset_mc (POSSESSION pk mc k n) = mc"
| "asset_mc r = 0"

text \<open>\<open>ownership.issuanceIndex\<close> and \<open>possession.ownershipIndex\<close> are the same field.\<close>

fun asset_link :: "AssetRecord \<Rightarrow> nat option" where
  "asset_link (OWNERSHIP pk mc k n) = Some k"
| "asset_link (POSSESSION pk mc k n) = Some k"
| "asset_link r = None"

fun asset_shares :: "AssetRecord \<Rightarrow> i64" where
  "asset_shares (OWNERSHIP pk mc k n) = n"
| "asset_shares (POSSESSION pk mc k n) = n"
| "asset_shares r = 0"

fun add_shares :: "i64 \<Rightarrow> AssetRecord \<Rightarrow> AssetRecord" where
  "add_shares m (OWNERSHIP pk mc k n) = OWNERSHIP pk mc k (n + m)"
| "add_shares m (POSSESSION pk mc k n) = POSSESSION pk mc k (n + m)"
| "add_shares m r = r"

fun is_issuance :: "AssetRecord \<Rightarrow> bool" where
  "is_issuance (ISSUANCE pk nm dp um) = True"
| "is_issuance r = False"

fun is_ownership :: "AssetRecord \<Rightarrow> bool" where
  "is_ownership (OWNERSHIP pk mc k n) = True"
| "is_ownership r = False"

fun is_possession :: "AssetRecord \<Rightarrow> bool" where
  "is_possession (POSSESSION pk mc k n) = True"
| "is_possession r = False"

definition name_mask :: u64 where "name_mask = 0xFFFFFFFFFFFFFF"

text \<open>The messages the logger gets.\<close>

datatype asset_event =
    AssetIssuance m256i i64 u16 u64 u8 u64
  | AssetOwnershipChange m256i m256i m256i i64 u16 u64 u8 u64
  | AssetPossessionChange m256i m256i m256i i64 u16 u64 u8 u64
  | AssetOwnershipManagingContractChange m256i m256i u16 u16 i64 u64
  | AssetPossessionManagingContractChange m256i m256i m256i u16 u16 i64 u64

section \<open>Index lists\<close>

definition NO_ASSET_INDEX :: nat where "NO_ASSET_INDEX = 0xffffffff"

record IndexLists =
  issuancesFirstIdx :: nat
  ownershipsPossessionsFirstIdx :: "nat list"
  nextIdx :: "nat list"

definition addIssuance :: "nat \<Rightarrow> IndexLists \<Rightarrow> IndexLists" where
  "addIssuance newIdx l =
     l\<lparr>nextIdx := (nextIdx l)[newIdx := issuancesFirstIdx l], issuancesFirstIdx := newIdx\<rparr>"

text \<open>\<open>addOwnership\<close> and \<open>addPossession\<close> put a slot in front of the list of its issuance or ownership.\<close>

definition addOwnership :: "nat \<Rightarrow> nat \<Rightarrow> IndexLists \<Rightarrow> IndexLists" where
  "addOwnership issuanceIdx newIdx l =
     l\<lparr>nextIdx := (nextIdx l)[newIdx := ownershipsPossessionsFirstIdx l ! issuanceIdx],
       ownershipsPossessionsFirstIdx := (ownershipsPossessionsFirstIdx l)[issuanceIdx := newIdx]\<rparr>"

definition addPossession :: "nat \<Rightarrow> nat \<Rightarrow> IndexLists \<Rightarrow> IndexLists" where
  "addPossession ownershipIdx newIdx l =
     l\<lparr>nextIdx := (nextIdx l)[newIdx := ownershipsPossessionsFirstIdx l ! ownershipIdx],
       ownershipsPossessionsFirstIdx := (ownershipsPossessionsFirstIdx l)[ownershipIdx := newIdx]\<rparr>"

definition resetLists :: "nat \<Rightarrow> IndexLists" where
  "resetLists cap =
     \<lparr>issuancesFirstIdx = NO_ASSET_INDEX, ownershipsPossessionsFirstIdx = replicate cap NO_ASSET_INDEX,
      nextIdx = replicate cap NO_ASSET_INDEX\<rparr>"

definition rebuildStep :: "AssetRecord list \<Rightarrow> nat \<Rightarrow> IndexLists \<Rightarrow> IndexLists" where
  "rebuildStep as index l =
     (case as ! index of
        ISSUANCE pk nm dp um \<Rightarrow> addIssuance index l
      | OWNERSHIP pk mc k n \<Rightarrow> addOwnership k index l
      | POSSESSION pk mc k n \<Rightarrow> addPossession k index l
      | EMPTY \<Rightarrow> l)"

definition rebuildLists :: "AssetRecord list \<Rightarrow> IndexLists" where
  "rebuildLists as = foldr (rebuildStep as) [0..<length as] (resetLists (length as))"

record universe =
  assets :: "AssetRecord list"
  assetDigests :: "m256i list"
  assetChangeFlags :: "u64 list"
  indexLists :: IndexLists
  assetLog :: "asset_event list"

definition initAssets :: "nat \<Rightarrow> universe" where
  "initAssets cap = \<lparr>assets = replicate cap EMPTY, assetDigests = replicate (2 * cap - 1) 0,
     assetChangeFlags = replicate (cap div 64) (- 1), indexLists = resetLists cap, assetLog = []\<rparr>"

section \<open>Lookup\<close>

fun issuance_of :: "m256i \<Rightarrow> u64 \<Rightarrow> AssetRecord \<Rightarrow> bool" where
  "issuance_of issuer nm (ISSUANCE pk nm' dp um) \<longleftrightarrow> nm' = nm \<and> pk = issuer"
| "issuance_of issuer nm r \<longleftrightarrow> False"

fun ownership_of :: "m256i \<Rightarrow> u16 \<Rightarrow> nat \<Rightarrow> AssetRecord \<Rightarrow> bool" where
  "ownership_of owner mc k (OWNERSHIP pk mc' k' n) \<longleftrightarrow> mc' = mc \<and> k' = k \<and> pk = owner"
| "ownership_of owner mc k r \<longleftrightarrow> False"

fun possession_of :: "m256i \<Rightarrow> u16 \<Rightarrow> nat \<Rightarrow> AssetRecord \<Rightarrow> bool" where
  "possession_of possessor mc k (POSSESSION pk mc' k' n) \<longleftrightarrow> mc' = mc \<and> k' = k \<and> pk = possessor"
| "possession_of possessor mc k r \<longleftrightarrow> False"

text \<open>The search loop of all operations: from the home slot of a key to an empty slot or a match.\<close>

definition search :: "(AssetRecord \<Rightarrow> bool) \<Rightarrow> m256i \<Rightarrow> AssetRecord list \<Rightarrow> nat option" where
  "search match pk as =
     probe (length as) (\<lambda>i. as ! i = EMPTY \<or> match (as ! i)) (length as) (home_slot (length as) pk)"

definition issuanceIndex :: "m256i \<Rightarrow> u64 \<Rightarrow> AssetRecord list \<Rightarrow> nat option" where
  "issuanceIndex issuer assetName as =
     (case search (issuance_of issuer assetName) issuer as of
        None \<Rightarrow> None
      | Some idx \<Rightarrow> Some (if as ! idx = EMPTY then NO_ASSET_INDEX else idx))"

definition numberOfPossessedShares ::
  "u64 \<Rightarrow> m256i \<Rightarrow> m256i \<Rightarrow> m256i \<Rightarrow> u16 \<Rightarrow> u16 \<Rightarrow> AssetRecord list \<Rightarrow> i64 option" where
  "numberOfPossessedShares assetName issuer owner possessor omc pmc as =
     (case search (issuance_of issuer assetName) issuer as of
        None \<Rightarrow> None
      | Some ii \<Rightarrow> if as ! ii = EMPTY then Some 0 else
          (case search (ownership_of owner omc ii) owner as of
             None \<Rightarrow> None
           | Some oi \<Rightarrow> if as ! oi = EMPTY then Some 0 else
               (case search (possession_of possessor pmc oi) possessor as of
                  None \<Rightarrow> None
                | Some pi \<Rightarrow> if as ! pi = EMPTY then Some 0 else Some (asset_shares (as ! pi)))))"

section \<open>Issuing\<close>

text \<open>\<open>name\<close> is the zero-padded eight-byte buffer. Issuers that agree in the low 192 bits must not share a name.\<close>

fun same_issue :: "m256i \<Rightarrow> u64 \<Rightarrow> AssetRecord \<Rightarrow> bool" where
  "same_issue issuer name (ISSUANCE pk nm dp um) \<longleftrightarrow>
     nm = name AND name_mask \<and> m256i_u64 pk 0 = m256i_u64 issuer 0 \<and> m256i_u64 pk 1 = m256i_u64 issuer 1 \<and>
     m256i_u64 pk 2 = m256i_u64 issuer 2"
| "same_issue issuer name r \<longleftrightarrow> False"

definition next_empty :: "nat \<Rightarrow> AssetRecord list \<Rightarrow> nat option" where
  "next_empty i as = probe (length as) (\<lambda>i. as ! i = EMPTY) (length as) ((i + 1) AND (length as - 1))"

text \<open>
  The result is the number of shares, 0 when the asset exists, with the indices of the three new records.
  \<open>name\<close> is the buffer after the name was copied into it.
\<close>

definition issueAsset ::
  "m256i \<Rightarrow> u64 \<Rightarrow> u8 \<Rightarrow> u64 \<Rightarrow> i64 \<Rightarrow> u16 \<Rightarrow> universe \<Rightarrow> (i64 \<times> (nat \<times> nat \<times> nat) option \<times> universe) option" where
  "issueAsset issuer name decimals unit n mc u =
     (case search (same_issue issuer name) issuer (assets u) of
        None \<Rightarrow> None
      | Some ii \<Rightarrow>
          if assets u ! ii \<noteq> EMPTY then Some (0, None, u) else
          let as1 = (assets u)[ii := ISSUANCE issuer (name AND name_mask) decimals (unit AND name_mask)] in
          (case next_empty ii as1 of
             None \<Rightarrow> None
           | Some oi \<Rightarrow>
               let as2 = as1[oi := OWNERSHIP issuer mc ii n] in
               (case next_empty oi as2 of
                  None \<Rightarrow> None
                | Some pi \<Rightarrow>
                    Some (n, Some (ii, oi, pi),
                      u\<lparr>assets := as2[pi := POSSESSION issuer mc oi n],
                        assetChangeFlags := setFlag (setFlag (setFlag (assetChangeFlags u) ii) oi) pi,
                        indexLists := addPossession oi pi (addOwnership ii oi (addIssuance ii (indexLists u))),
                        assetLog := assetLog u @
                          [AssetIssuance issuer n mc (name AND name_mask) decimals (unit AND name_mask)]\<rparr>))))"

section \<open>Transfers\<close>

text \<open>
  The part common to both transfers: \<open>n\<close> shares leave the records \<open>so\<close> and \<open>sp\<close> and arrive at the ownership of
  \<open>opk\<close> managed by \<open>omc\<close> and the possession of \<open>ppk\<close> managed by \<open>pmc\<close>, which are created when they do not exist.
  The possession is searched in the table the ownership has been written to.
\<close>

definition moveShares ::
  "nat \<Rightarrow> nat \<Rightarrow> nat \<Rightarrow> m256i \<Rightarrow> u16 \<Rightarrow> m256i \<Rightarrow> u16 \<Rightarrow> i64 \<Rightarrow> universe \<Rightarrow> (nat \<times> nat \<times> universe) option" where
  "moveShares so sp iss opk omc ppk pmc n u =
     (case search (ownership_of opk omc iss) opk (assets u) of
        None \<Rightarrow> None
      | Some oi \<Rightarrow>
          let fresh = (assets u ! oi = EMPTY);
              as1 = (assets u)[so := add_shares (- n) (assets u ! so)];
              as2 = (if fresh then as1[oi := OWNERSHIP opk omc iss n] else as1[oi := add_shares n (as1 ! oi)]);
              l1 = (if fresh then addOwnership iss oi (indexLists u) else indexLists u)
          in (case search (possession_of ppk pmc oi) ppk as2 of
                None \<Rightarrow> None
              | Some pi \<Rightarrow>
                  let fresh' = (as2 ! pi = EMPTY);
                      as3 = as2[sp := add_shares (- n) (as2 ! sp)];
                      as4 = (if fresh' then as3[pi := POSSESSION ppk pmc oi n] else as3[pi := add_shares n (as3 ! pi)]);
                      l2 = (if fresh' then addPossession oi pi l1 else l1)
                  in Some (oi, pi, u\<lparr>assets := as4, indexLists := l2,
                       assetChangeFlags := setFlag (setFlag (setFlag (setFlag (assetChangeFlags u) so) sp) oi) pi\<rparr>)))"

definition transferShareManagementRights ::
  "nat \<Rightarrow> nat \<Rightarrow> u16 \<Rightarrow> u16 \<Rightarrow> i64 \<Rightarrow> universe \<Rightarrow> (bool \<times> (nat \<times> nat) option \<times> universe) option" where
  "transferShareManagementRights so sp omc' pmc' n u =
     (if n \<le>s 0 then Some (False, None, u) else
      case (assets u ! so, assets u ! sp) of
        (OWNERSHIP opk omc iss os, POSSESSION ppk pmc oi ps) \<Rightarrow>
          if os <s n \<or> ps <s n \<or> oi \<noteq> so then Some (False, None, u) else
          (case moveShares so sp iss opk omc' ppk pmc' n u of
             None \<Rightarrow> None
           | Some (oi', pi', u') \<Rightarrow>
               let i = assets u' ! iss in
               Some (True, Some (oi', pi'), u'\<lparr>assetLog := assetLog u' @
                 [AssetOwnershipManagingContractChange opk (asset_pk i) omc omc' n (asset_name i),
                  AssetPossessionManagingContractChange ppk opk (asset_pk i) pmc pmc' n (asset_name i)]\<rparr>))
      | _ \<Rightarrow> Some (False, None, u))"

definition transferShareOwnershipAndPossession ::
  "nat \<Rightarrow> nat \<Rightarrow> m256i \<Rightarrow> i64 \<Rightarrow> universe \<Rightarrow> (bool \<times> (nat \<times> nat) option \<times> universe) option" where
  "transferShareOwnershipAndPossession so sp dest n u =
     (if n \<le>s 0 then Some (False, None, u) else
      case (assets u ! so, assets u ! sp) of
        (OWNERSHIP opk omc iss os, POSSESSION ppk pmc oi ps) \<Rightarrow>
          if os <s n \<or> ps <s n \<or> oi \<noteq> so then Some (False, None, u)
          else let changes = (\<lambda>u'. let i = assets u' ! iss in u'\<lparr>assetLog := assetLog u' @
                 [AssetOwnershipChange opk dest (asset_pk i) n omc (asset_name i) (asset_decimals i) (asset_unit i),
                  AssetPossessionChange ppk dest (asset_pk i) n pmc (asset_name i) (asset_decimals i) (asset_unit i)]\<rparr>)
          in if isZero dest
             then if isZero (asset_pk (assets u ! iss)) then Some (False, None, u)
               else let as1 = (assets u)[so := add_shares (- n) (assets u ! so)];
                        as2 = as1[sp := add_shares (- n) (as1 ! sp)]
                    in Some (True, None, changes (u\<lparr>assets := as2,
                         assetChangeFlags := setFlag (setFlag (assetChangeFlags u) so) sp\<rparr>))
             else (case moveShares so sp iss dest omc dest pmc n u of
                     None \<Rightarrow> None
                   | Some (oi', pi', u') \<Rightarrow> Some (True, Some (oi', pi'), changes u'))
      | _ \<Rightarrow> Some (False, None, u))"

section \<open>End of epoch\<close>

definition asset_index :: "AssetRecord \<Rightarrow> nat" where
  "asset_index r = (case asset_link r of Some k \<Rightarrow> k | None \<Rightarrow> 0)"

text \<open>The body of the loop for slot \<open>i\<close> of the old table \<open>as\<close> and the new table \<open>new\<close>.\<close>

definition reorgAsset :: "AssetRecord list \<Rightarrow> nat \<Rightarrow> AssetRecord list \<Rightarrow> AssetRecord list option" where
  "reorgAsset as i new =
     (if is_possession (as ! i) \<and> 0 <s asset_shares (as ! i)
      then let own = as ! asset_index (as ! i);
               iss = as ! asset_index own
           in (case search (issuance_of (asset_pk iss) (asset_name iss)) (asset_pk iss) new of
                 None \<Rightarrow> None
               | Some ii \<Rightarrow>
                   let new1 = (if new ! ii = EMPTY then new[ii := iss] else new) in
                   (case search (ownership_of (asset_pk own) (asset_mc own) ii) (asset_pk own) new1 of
                      None \<Rightarrow> None
                    | Some oi \<Rightarrow>
                        let new2 = new1[oi := if new1 ! oi = EMPTY
                                              then OWNERSHIP (asset_pk own) (asset_mc own) ii (asset_shares (as ! i))
                                              else add_shares (asset_shares (as ! i)) (new1 ! oi)] in
                        (case search (possession_of (asset_pk (as ! i)) (asset_mc (as ! i)) oi) (asset_pk (as ! i)) new2 of
                           None \<Rightarrow> None
                         | Some pi \<Rightarrow>
                             Some (new2[pi := if new2 ! pi = EMPTY
                                              then POSSESSION (asset_pk (as ! i)) (asset_mc (as ! i)) oi (asset_shares (as ! i))
                                              else add_shares (asset_shares (as ! i)) (new2 ! pi)]))))
      else Some new)"

fun reorgAssets :: "AssetRecord list \<Rightarrow> nat list \<Rightarrow> AssetRecord list \<Rightarrow> AssetRecord list option" where
  "reorgAssets as [] new = Some new"
| "reorgAssets as (i # is) new = (case reorgAsset as i new of None \<Rightarrow> None | Some new' \<Rightarrow> reorgAssets as is new')"

definition assetsEndEpoch :: "universe \<Rightarrow> universe option" where
  "assetsEndEpoch u =
     (case reorgAssets (assets u) [0..<length (assets u)] (replicate (length (assets u)) EMPTY) of
        None \<Rightarrow> None
      | Some new \<Rightarrow> Some (u\<lparr>assets := new, assetChangeFlags := map (\<lambda>_. - 1) (assetChangeFlags u),
          indexLists := rebuildLists new\<rparr>))"

end
