(* ===== verification/Assets_Table.thy ===== *)
theory Assets_Table
  imports Assets
begin

text \<open>
  What the table of assets keeps: every record is found from the home slot of its key, links lead to records of the
  right kind, and amounts add up. \<open>held\<close> sums the records that link to a slot, \<open>sharesAt\<close> the possessions at
  a position, that is by issuer, name, owner, possessor and the two managing contracts.
\<close>

section \<open>The table\<close>

fun asset_key :: "AssetRecord \<Rightarrow> AssetRecord" where
  "asset_key EMPTY = EMPTY"
| "asset_key (ISSUANCE pk nm dp um) = ISSUANCE pk nm 0 0"
| "asset_key (OWNERSHIP pk mc k n) = OWNERSHIP pk mc k 0"
| "asset_key (POSSESSION pk mc k n) = POSSESSION pk mc k 0"

definition vacant :: "AssetRecord \<Rightarrow> bool" where "vacant r \<longleftrightarrow> r = EMPTY"
definition live :: "AssetRecord \<Rightarrow> bool" where "live r \<longleftrightarrow> r \<noteq> EMPTY"
definition asset_home :: "nat \<Rightarrow> AssetRecord \<Rightarrow> nat" where "asset_home cap r = home_slot cap (asset_pk r)"

interpretation as_tbl: probing_table vacant live asset_key asset_home
  by unfold_locales (auto simp: vacant_def live_def asset_home_def home_slot_less)

lemma asset_key_simps [simp]:
  "asset_key r = EMPTY \<longleftrightarrow> r = EMPTY" "asset_pk (asset_key r) = asset_pk r" "asset_name (asset_key r) = asset_name r"
  "asset_mc (asset_key r) = asset_mc r" "asset_link (asset_key r) = asset_link r"
  "is_issuance (asset_key r) = is_issuance r" "is_ownership (asset_key r) = is_ownership r"
  "is_possession (asset_key r) = is_possession r" "asset_key (add_shares n r) = asset_key r"
  "asset_key (asset_key r) = asset_key r" "asset_index (asset_key r) = asset_index r"
  by (cases r; simp add: asset_index_def)+

lemma add_shares_EMPTY [simp]: "add_shares n r = EMPTY \<longleftrightarrow> r = EMPTY"
  by (cases r) auto

lemma asset_key_eqD:
  assumes "asset_key r = asset_key r'"
  shows "r = EMPTY \<longleftrightarrow> r' = EMPTY" "asset_pk r = asset_pk r'" "asset_name r = asset_name r'"
    "asset_mc r = asset_mc r'" "asset_link r = asset_link r'" "asset_index r = asset_index r'"
    "is_issuance r = is_issuance r'" "is_ownership r = is_ownership r'" "is_possession r = is_possession r'"
  using assms by (metis asset_key_simps)+

lemma of_key:
  "issuance_of pk nm r \<longleftrightarrow> asset_key r = ISSUANCE pk nm 0 0"
  "ownership_of pk mc k r \<longleftrightarrow> asset_key r = OWNERSHIP pk mc k 0"
  "possession_of pk mc k r \<longleftrightarrow> asset_key r = POSSESSION pk mc k 0"
  by (cases r; auto)+

text \<open>All searches but the one of \<open>issueAsset\<close> look for a key.\<close>

lemma search_find:
  assumes "length as = 2 ^ d" and "\<And>r. match r \<longleftrightarrow> asset_key r = K" and "K \<noteq> EMPTY"
  shows "search match (asset_pk K) as = find_slot vacant live asset_key asset_home as K"
  unfolding search_def find_slot_def assms(1) asset_home_def
  by (rule probe_cong) (use assms home_slot_less in \<open>auto simp: vacant_def live_def\<close>)

section \<open>Links\<close>

fun link_ok :: "AssetRecord list \<Rightarrow> AssetRecord \<Rightarrow> bool" where
  "link_ok as (OWNERSHIP pk mc k n) \<longleftrightarrow> k < length as \<and> is_issuance (as ! k)"
| "link_ok as (POSSESSION pk mc k n) \<longleftrightarrow> k < length as \<and> is_ownership (as ! k)"
| "link_ok as r \<longleftrightarrow> True"

definition table_ok :: "nat \<Rightarrow> AssetRecord list \<Rightarrow> bool" where
  "table_ok d as \<longleftrightarrow> length as = 2 ^ d \<and> chained vacant live asset_key asset_home as \<and>
     keys_unique live asset_key as \<and> (\<forall>i<length as. link_ok as (as ! i))"

lemma table_okD:
  assumes "table_ok d as"
  shows "length as = 2 ^ d" "chained vacant live asset_key asset_home as" "keys_unique live asset_key as"
    "i < length as \<Longrightarrow> link_ok as (as ! i)"
  using assms by (auto simp: table_ok_def)

text \<open>\<open>extends as as'\<close>: the records of \<open>as\<close> keep their slots and keys in \<open>as'\<close>.\<close>

definition extends :: "AssetRecord list \<Rightarrow> AssetRecord list \<Rightarrow> bool" where
  "extends as as' \<longleftrightarrow> length as' = length as \<and>
     (\<forall>i<length as. as ! i \<noteq> EMPTY \<longrightarrow> asset_key (as' ! i) = asset_key (as ! i))"

lemma extends_refl [simp]: "extends as as"
  by (simp add: extends_def)

lemma extends_trans [trans]: "extends as as' \<Longrightarrow> extends as' as'' \<Longrightarrow> extends as as''"
  by (auto simp: extends_def) (metis asset_key_simps(1))

lemma extends_update:
  assumes "as ! j = EMPTY \<or> asset_key r = asset_key (as ! j)"
  shows "extends as (as[j := r])"
proof -
  have "asset_key (as[j := r] ! i) = asset_key (as ! i)" if "i < length as" "as ! i \<noteq> EMPTY" for i
    using that assms by (cases "i = j") auto
  then show ?thesis by (simp add: extends_def)
qed

lemma extends_key: "extends as as' \<Longrightarrow> i < length as \<Longrightarrow> as ! i \<noteq> EMPTY \<Longrightarrow> asset_key (as' ! i) = asset_key (as ! i)"
  by (simp add: extends_def)

lemma link_ok_key: "asset_key r = asset_key r' \<Longrightarrow> link_ok as r = link_ok as r'"
  by (cases r; cases r') simp_all

lemma link_ok_extends:
  assumes "extends as as'" and "link_ok as r"
  shows "link_ok as' r"
proof -
  have "is_issuance (as' ! k) = is_issuance (as ! k)" "is_ownership (as' ! k) = is_ownership (as ! k)"
    if "k < length as" "as ! k \<noteq> EMPTY" for k
    using asset_key_eqD(7,8) [OF extends_key [OF assms(1) that]] by simp_all
  moreover have "x \<noteq> EMPTY" if "is_issuance x \<or> is_ownership x" for x using that by auto
  ultimately show ?thesis using assms by (cases r) (auto simp: extends_def)
qed

text \<open>The two ways a slot is written: with the key it has, or with a new key at the empty slot of the search.\<close>

lemma table_ok_overwrite:
  assumes t: "table_ok d as" and j: "j < length as" "as ! j \<noteq> EMPTY" and r: "asset_key r = asset_key (as ! j)"
  shows "table_ok d (as[j := r])" "extends as (as[j := r])"
proof -
  note T = table_okD [OF t]
  show e: "extends as (as[j := r])" using r by (simp add: extends_update)
  have l: "live (as ! j)" "live r" using j r by (auto simp: live_def) (metis asset_key_simps(1))
  note O = as_tbl.overwrite [OF T(1-3) j(1) l r]
  have "link_ok (as[j := r]) (as[j := r] ! i)" if "i < length as" for i
    using that T(4) [of i] link_ok_extends [OF e] link_ok_key [OF r] j(1) by (cases "i = j") auto
  then show "table_ok d (as[j := r])" using O T(1) by (simp add: table_ok_def)
qed

lemma table_ok_fill:
  assumes t: "table_ok d as" and j: "j < length as" "as ! j = EMPTY" and r: "asset_key r \<noteq> EMPTY"
    and absent: "\<And>i. i < length as \<Longrightarrow> asset_key (as ! i) \<noteq> asset_key r" and l: "link_ok as r"
    and path: "\<And>k. k < 2 ^ d \<Longrightarrow> steps_to (2 ^ d) (home_slot (2 ^ d) (asset_pk r)) k
      < steps_to (2 ^ d) (home_slot (2 ^ d) (asset_pk r)) j \<Longrightarrow> as ! k \<noteq> EMPTY"
  shows "table_ok d (as[j := r])" "extends as (as[j := r])"
proof -
  note T = table_okD [OF t]
  show e: "extends as (as[j := r])" using j by (simp add: extends_update)
  have "table_map live asset_key as (asset_key r) = None" using absent by (simp add: table_map_None_iff)
  note F = as_tbl.fill [OF T(1-3) j(1) _ this]
  have "link_ok (as[j := r]) (as[j := r] ! i)" if "i < length as" for i
    using that T(4) [of i] link_ok_extends [OF e] l j(1) by (cases "i = j") auto
  then show "table_ok d (as[j := r])"
    using F j(2) r path T(1) by (simp add: table_ok_def live_def vacant_def asset_home_def)
qed

lemma search_slot:
  assumes t: "table_ok d as" and s: "search match (asset_pk K) as = Some j"
    and m: "\<And>r. match r \<longleftrightarrow> asset_key r = K" and K: "K \<noteq> EMPTY" "asset_key K = K" and l: "link_ok as K"
  shows "j < length as" "as ! j = EMPTY \<or> asset_key (as ! j) = K"
    and "asset_key r = K \<Longrightarrow> table_ok d (as[j := r])" "asset_key r = K \<Longrightarrow> extends as (as[j := r])"
    and "as ! j = EMPTY \<Longrightarrow> i < length as \<Longrightarrow> asset_key (as ! i) \<noteq> K"
proof -
  note T = table_okD [OF t]
  note f = s [unfolded search_find [OF T(1) m K(1)]]
  note F = as_tbl.find_slot_SomeD [OF T(1,2) f]
  show j: "j < length as" and k: "as ! j = EMPTY \<or> asset_key (as ! j) = K"
    using F by (auto simp: vacant_def)
  show absent: "asset_key (as ! i) \<noteq> K" if "as ! j = EMPTY" "i < length as" for i
    using F(2) that K by (auto simp: table_map_None_iff live_def)
  have p: "probe (2 ^ d) (\<lambda>i. vacant (as ! i) \<or> match (as ! i)) (2 ^ d) (home_slot (2 ^ d) (asset_pk K)) = Some j"
    using s by (simp add: search_def T(1) vacant_def)
  have "table_ok d (as[j := r]) \<and> extends as (as[j := r])" if r: "asset_key r = K"
  proof (cases "as ! j = EMPTY")
    case True
    have rK: "asset_pk r = asset_pk K" "link_ok as r" using r K(2) l link_ok_key [of r K] asset_key_eqD(2) [of r K] by auto
    have v: "vacant (as ! j)" using True by (simp add: vacant_def)
    show ?thesis
      using table_ok_fill [OF t j True, of r] as_tbl.probe_vacant(2) [OF T(1,2) p home_slot_less v] absent [OF True] r K rK
      by (simp add: vacant_def)
  next
    case False
    then show ?thesis using table_ok_overwrite [OF t j False, of r] k r by simp
  qed
  then show "asset_key r = K \<Longrightarrow> table_ok d (as[j := r])" "asset_key r = K \<Longrightarrow> extends as (as[j := r])" by simp_all
qed

lemma search_total:
  assumes "length as = 2 ^ d" and "k < length as" and "as ! k = EMPTY \<or> match (as ! k)"
  shows "\<exists>j. search match pk as = Some j"
  unfolding search_def assms(1) by (rule probe_total [OF home_slot_less]) (use assms in auto)

definition free_slots :: "AssetRecord list \<Rightarrow> nat" where
  "free_slots as = length (filter (\<lambda>r. r = EMPTY) as)"

lemma free_slots_update: "j < length as \<Longrightarrow> r \<noteq> EMPTY \<Longrightarrow> free_slots as \<le> free_slots (as[j := r]) + 1"
  using length_filter_update [of j as "\<lambda>r. r = EMPTY" r] by (simp add: free_slots_def split: if_splits)

lemma free_slot: "1 \<le> free_slots as \<Longrightarrow> \<exists>e<length as. as ! e = EMPTY"
  unfolding free_slots_def by (metis (mono_tags) filter_False in_set_conv_nth list.size(3) not_one_le_zero)

lemma search_returns:
  assumes "length as = 2 ^ d" and "1 \<le> free_slots as"
  shows "\<exists>j. search match pk as = Some j"
  using free_slot [OF assms(2)] search_total [OF assms(1)] by blast

section \<open>Amounts\<close>

definition contrib :: "AssetRecord \<Rightarrow> nat \<Rightarrow> int" where
  "contrib r i = (if asset_link r = Some i then sint (asset_shares r) else 0)"

definition held :: "AssetRecord list \<Rightarrow> nat \<Rightarrow> int" where
  "held as i = (\<Sum>j<length as. contrib (as ! j) i)"

lemma sum_nth_update:
  fixes f :: "'a \<Rightarrow> int"
  assumes "j < length xs"
  shows "(\<Sum>i<length xs. f (xs[j := r] ! i)) = (\<Sum>i<length xs. f (xs ! i)) - f (xs ! j) + f r"
proof -
  have "(\<Sum>i\<in>{..<length xs} - {j}. f (xs[j := r] ! i)) = (\<Sum>i\<in>{..<length xs} - {j}. f (xs ! i))"
    by (rule sum.cong) auto
  then show ?thesis using assms by (simp add: sum.remove [of "{..<length xs}" j])
qed

lemma held_update: "j < length as \<Longrightarrow> held (as[j := r]) i = held as i - contrib (as ! j) i + contrib r i"
  using sum_nth_update [of j as "\<lambda>r. contrib r i" r] by (simp add: held_def)

lemma contrib_EMPTY [simp]: "contrib EMPTY i = 0"
  by (simp add: contrib_def)

lemma contrib_add_shares:
  assumes "sint (asset_shares r + n) = sint (asset_shares r) + sint n"
  shows "contrib (add_shares n r) i = contrib r i + (if asset_link r = Some i then sint n else 0)"
  using assms by (cases r) (auto simp: contrib_def)

fun amount_ok :: "AssetRecord list \<Rightarrow> nat \<Rightarrow> AssetRecord \<Rightarrow> bool" where
  "amount_ok as i EMPTY \<longleftrightarrow> True"
| "amount_ok as i (ISSUANCE pk nm dp um) \<longleftrightarrow> held as i < 2 ^ 63"
| "amount_ok as i (OWNERSHIP pk mc k n) \<longleftrightarrow> 0 \<le> sint n \<and> held as i = sint n"
| "amount_ok as i (POSSESSION pk mc k n) \<longleftrightarrow> 0 \<le> sint n"

definition amounts_ok :: "AssetRecord list \<Rightarrow> bool" where
  "amounts_ok as \<longleftrightarrow> (\<forall>i<length as. amount_ok as i (as ! i))"

definition universe_ok :: "nat \<Rightarrow> AssetRecord list \<Rightarrow> bool" where
  "universe_ok d as \<longleftrightarrow> table_ok d as \<and> amounts_ok as"

text \<open>Nothing links to an empty slot.\<close>

lemma held_empty:
  assumes t: "table_ok d as" and "as ! i = EMPTY"
  shows "held as i = 0"
proof -
  have "contrib (as ! j) i = 0" if "j < length as" for j
    using table_okD(4) [OF t that] assms(2) by (cases "as ! j") (auto simp: contrib_def)
  then show ?thesis by (simp add: held_def)
qed

lemma shares_nonneg: "amounts_ok as \<Longrightarrow> j < length as \<Longrightarrow> 0 \<le> sint (asset_shares (as ! j))"
  by (cases "as ! j") (auto simp: amounts_ok_def)

lemma contrib_nonneg: "amounts_ok as \<Longrightarrow> j < length as \<Longrightarrow> 0 \<le> contrib (as ! j) i"
  using shares_nonneg by (auto simp: contrib_def)

lemma contrib_le_held: "amounts_ok as \<Longrightarrow> j < length as \<Longrightarrow> contrib (as ! j) i \<le> held as i"
  unfolding held_def by (rule member_le_sum) (auto simp: contrib_nonneg)

section \<open>Positions\<close>

type_synonym position = "m256i \<times> u64 \<times> m256i \<times> u16 \<times> m256i \<times> u16"

definition position_at :: "AssetRecord list \<Rightarrow> nat \<Rightarrow> position" where
  "position_at as j =
     (let p = as ! j; own = as ! asset_index p; iss = as ! asset_index own
      in (asset_pk iss, asset_name iss, asset_pk own, asset_mc own, asset_pk p, asset_mc p))"

definition possessed :: "AssetRecord \<Rightarrow> int" where
  "possessed r = (if is_possession r then sint (asset_shares r) else 0)"

text \<open>The shares at all positions of a set, and at one position.\<close>

definition totalAt :: "AssetRecord list \<Rightarrow> (position \<Rightarrow> bool) \<Rightarrow> int" where
  "totalAt as Q = (\<Sum>j<length as. if Q (position_at as j) then possessed (as ! j) else 0)"

definition sharesAt :: "AssetRecord list \<Rightarrow> position \<Rightarrow> int" where
  "sharesAt as t = totalAt as (\<lambda>p. p = t)"

lemma possession_chain:
  assumes t: "table_ok d as" and j: "j < length as" and p: "is_possession (as ! j)"
  obtains pk mc k n opk omc i m iss nm dp um where
    "as ! j = POSSESSION pk mc k n" "k < length as" "as ! k = OWNERSHIP opk omc i m"
    "i < length as" "as ! i = ISSUANCE iss nm dp um" "position_at as j = (iss, nm, opk, omc, pk, mc)"
proof -
  obtain pk mc k n where 1: "as ! j = POSSESSION pk mc k n" using p by (cases "as ! j") auto
  with table_okD(4) [OF t j] have k: "k < length as" "is_ownership (as ! k)" by auto
  then obtain opk omc i m where 2: "as ! k = OWNERSHIP opk omc i m" by (cases "as ! k") auto
  with table_okD(4) [OF t k(1)] have i: "i < length as" "is_issuance (as ! i)" by auto
  then obtain iss nm dp um where 3: "as ! i = ISSUANCE iss nm dp um" by (cases "as ! i") auto
  show thesis using that [OF 1 k(1) 2 i(1) 3] by (simp add: position_at_def Let_def asset_index_def 1 2 3)
qed

lemma position_extends:
  assumes t: "table_ok d as" and e: "extends as as'" and j: "j < length as" "is_possession (as ! j)"
  shows "position_at as' j = position_at as j"
proof -
  obtain pk mc k n opk omc i m iss nm dp um where c: "as ! j = POSSESSION pk mc k n" "k < length as"
    "as ! k = OWNERSHIP opk omc i m" "i < length as" "as ! i = ISSUANCE iss nm dp um"
    "position_at as j = (iss, nm, opk, omc, pk, mc)"
    using possession_chain [OF t j] by metis
  note K = asset_key_eqD [OF extends_key [OF e j(1)]] asset_key_eqD [OF extends_key [OF e c(2)]] asset_key_eqD [OF extends_key [OF e c(4)]]
  have "asset_index (as' ! j) = k" "asset_index (as' ! k) = i" using K c by (auto simp: asset_index_def)
  then show ?thesis using K c by (simp add: position_at_def Let_def)
qed

lemma position_inj:
  assumes t: "table_ok d as" and "j < length as" "is_possession (as ! j)" "j' < length as" "is_possession (as ! j')"
    and e: "position_at as j = position_at as j'"
  shows "j = j'"
proof -
  have u: "x = y" if "x < length as" "y < length as" "as ! x \<noteq> EMPTY" "asset_key (as ! x) = asset_key (as ! y)" for x y
    using that table_okD(3) [OF t] asset_key_eqD(1) [OF that(4)] by (auto simp: keys_unique_def live_def)
  obtain pk mc k n opk omc i m iss nm dp um where c: "as ! j = POSSESSION pk mc k n" "k < length as"
    "as ! k = OWNERSHIP opk omc i m" "i < length as" "as ! i = ISSUANCE iss nm dp um"
    "position_at as j = (iss, nm, opk, omc, pk, mc)"
    using possession_chain [OF t assms(2,3)] by metis
  obtain pk' mc' k' n' opk' omc' i' m' iss' nm' dp' um' where c': "as ! j' = POSSESSION pk' mc' k' n'" "k' < length as"
    "as ! k' = OWNERSHIP opk' omc' i' m'" "i' < length as" "as ! i' = ISSUANCE iss' nm' dp' um'"
    "position_at as j' = (iss', nm', opk', omc', pk', mc')"
    using possession_chain [OF t assms(4,5)] by metis
  have "i = i'" using c c' e by (intro u) auto
  then have "k = k'" using c c' e by (intro u) auto
  then show ?thesis using c c' e assms by (intro u) auto
qed

lemma sharesAt_at:
  assumes t: "table_ok d as" and j: "j < length as" "is_possession (as ! j)"
  shows "sharesAt as (position_at as j) = sint (asset_shares (as ! j))"
proof -
  have "(if position_at as i = position_at as j then possessed (as ! i) else 0) = (if i = j then sint (asset_shares (as ! j)) else 0)"
    if "i < length as" for i
    using position_inj [OF t that _ j] j(2) by (auto simp: possessed_def)
  then show ?thesis using j(1) by (simp add: sharesAt_def totalAt_def)
qed

lemma sharesAt_none:
  assumes "\<And>j. j < length as \<Longrightarrow> is_possession (as ! j) \<Longrightarrow> position_at as j \<noteq> t"
  shows "sharesAt as t = 0"
  unfolding sharesAt_def totalAt_def by (rule sum.neutral) (use assms in \<open>auto simp: possessed_def\<close>)

lemma totalAt_update:
  assumes t: "table_ok d as" and j: "j < length as" and k: "as ! j = EMPTY \<or> asset_key r = asset_key (as ! j)"
  shows "totalAt (as[j := r]) Q = totalAt as Q - (if Q (position_at as j) then possessed (as ! j) else 0)
    + (if Q (position_at (as[j := r]) j) then possessed r else 0)"
proof -
  let ?as = "as[j := r]"
  have "(\<Sum>i\<in>{..<length as} - {j}. if Q (position_at ?as i) then possessed (?as ! i) else 0) =
    (\<Sum>i\<in>{..<length as} - {j}. if Q (position_at as i) then possessed (as ! i) else 0)"
    using position_extends [OF t extends_update [OF k]] by (intro sum.cong) (auto simp: possessed_def)
  then show ?thesis using j by (simp add: totalAt_def sum.remove [of "{..<length as}" j])
qed

lemmas sharesAt_update = totalAt_update [where Q = "\<lambda>p. p = t" for t, folded sharesAt_def]

section \<open>Looking up shares\<close>

lemma position_keys:
  assumes t: "table_ok d as" and j: "j < length as" "is_possession (as ! j)"
    and p: "position_at as j = (iss, nm, own, omc, poss, pmc)"
  shows "\<exists>i<length as. \<exists>k<length as. asset_key (as ! i) = ISSUANCE iss nm 0 0 \<and>
    asset_key (as ! k) = OWNERSHIP own omc i 0 \<and> asset_key (as ! j) = POSSESSION poss pmc k 0"
proof (rule possession_chain [OF t j])
  fix pk mc k n opk omc' i m iss' nm' dp um
  assume "as ! j = POSSESSION pk mc k n" "k < length as" "as ! k = OWNERSHIP opk omc' i m" "i < length as"
    "as ! i = ISSUANCE iss' nm' dp um" "position_at as j = (iss', nm', opk, omc', pk, mc)"
  then show ?thesis using p by (intro exI [of _ i] exI [of _ k] conjI) auto
qed

lemma keys_position:
  assumes "asset_key (as ! i) = ISSUANCE iss nm 0 0" "asset_key (as ! k) = OWNERSHIP own omc i 0"
    "asset_key (as ! j) = POSSESSION poss pmc k 0"
  shows "position_at as j = (iss, nm, own, omc, poss, pmc)" "is_possession (as ! j)"
    "is_ownership (as ! k)" "is_issuance (as ! i)"
  using assms by (cases "as ! i"; cases "as ! k"; cases "as ! j"; simp add: position_at_def asset_index_def)+

lemma key_unique:
  assumes "table_ok d as" "x < length as" "y < length as" "as ! x \<noteq> EMPTY" "asset_key (as ! x) = asset_key (as ! y)"
  shows "x = y"
  using assms asset_key_eqD(1) [OF assms(5)] by (auto simp: table_ok_def keys_unique_def live_def)

lemma numberOfPossessedShares_sharesAt:
  assumes t: "table_ok d as" and e: "e < length as" "as ! e = EMPTY"
  shows "\<exists>s. numberOfPossessedShares nm iss own poss omc pmc as = Some s \<and> sint s = sharesAt as (iss, nm, own, omc, poss, pmc)"
proof -
  let ?t = "(iss, nm, own, omc, poss, pmc)"
  note T = table_okD [OF t]
  obtain ii where ii: "search (issuance_of iss nm) iss as = Some ii" using search_total [OF T(1) e(1)] e(2) by blast
  note I = search_slot [of d as "issuance_of iss nm" "ISSUANCE iss nm 0 0", OF t _ of_key(1), simplified, OF ii]
  obtain oi where oi: "search (ownership_of own omc ii) own as = Some oi" using search_total [OF T(1) e(1)] e(2) by blast
  obtain pi where pi: "search (possession_of poss pmc oi) poss as = Some pi" using search_total [OF T(1) e(1)] e(2) by blast
  have none: "sharesAt as ?t = 0" if "\<And>i k j. i < length as \<Longrightarrow> k < length as \<Longrightarrow> j < length as \<Longrightarrow>
      asset_key (as ! i) = ISSUANCE iss nm 0 0 \<Longrightarrow> asset_key (as ! k) = OWNERSHIP own omc i 0 \<Longrightarrow>
      asset_key (as ! j) = POSSESSION poss pmc k 0 \<Longrightarrow> False"
    using position_keys [OF t] that by (intro sharesAt_none) blast
  show ?thesis
  proof (cases "as ! ii = EMPTY")
    case True
    then show ?thesis using none I(5) ii by (auto simp: numberOfPossessedShares_def)
  next
    case ni: False
    then have ki: "asset_key (as ! ii) = ISSUANCE iss nm 0 0" using I(2) by simp
    then have l: "link_ok as (OWNERSHIP own omc ii 0)" using I(1) by (cases "as ! ii") auto
    note O = search_slot [of d as "ownership_of own omc ii" "OWNERSHIP own omc ii 0", OF t _ of_key(2) _ _ l, simplified, OF oi]
    have i: "i = ii" if "i < length as" "asset_key (as ! i) = ISSUANCE iss nm 0 0" for i
      using key_unique [OF t I(1) that(1)] ki ni that by auto
    show ?thesis
    proof (cases "as ! oi = EMPTY")
      case True
      have "sharesAt as ?t = 0" using i O(5) [OF True] by (intro none) metis
      then show ?thesis using True ii ni oi by (simp add: numberOfPossessedShares_def)
    next
      case no: False
      then have ko: "asset_key (as ! oi) = OWNERSHIP own omc ii 0" using O(2) by simp
      then have l: "link_ok as (POSSESSION poss pmc oi 0)" using O(1) by (cases "as ! oi") auto
      note P = search_slot [of d as "possession_of poss pmc oi" "POSSESSION poss pmc oi 0", OF t _ of_key(3) _ _ l, simplified, OF pi]
      have k: "k = oi" if "k < length as" "asset_key (as ! k) = OWNERSHIP own omc ii 0" for k
        using key_unique [OF t O(1) that(1)] ko no that by auto
      show ?thesis
      proof (cases "as ! pi = EMPTY")
        case True
        have "sharesAt as ?t = 0" using i k P(5) [OF True] by (intro none) metis
        then show ?thesis using True ii ni oi no pi by (simp add: numberOfPossessedShares_def)
      next
        case np: False
        then have kp: "asset_key (as ! pi) = POSSESSION poss pmc oi 0" using P(2) by simp
        note K = keys_position [OF ki ko kp]
        show ?thesis using sharesAt_at [OF t P(1) K(2)] K(1) ii ni oi no pi np by (simp add: numberOfPossessedShares_def)
      qed
    qed
  qed
qed

end
