(* ===== verification/Assets_Transfer.thy ===== *)
theory Assets_Transfer
  imports Assets_Table
begin

text \<open>
  Transfers, burning and issuing: they keep the universe well formed and move exactly the given number of shares
  between positions.
\<close>

section \<open>Adding shares to a record\<close>

definition credit :: "AssetRecord \<Rightarrow> i64 \<Rightarrow> nat \<Rightarrow> AssetRecord list \<Rightarrow> AssetRecord list" where
  "credit K m j as = as[j := add_shares m (if as ! j = EMPTY then K else as ! j)]"

lemma credit_step:
  assumes t: "table_ok d as" and j: "j < length as" "as ! j = EMPTY \<or> asset_key (as ! j) = K"
    and w: "\<And>r. asset_key r = K \<Longrightarrow> table_ok d (as[j := r])" "\<And>r. asset_key r = K \<Longrightarrow> extends as (as[j := r])"
    and K: "asset_key K = K" "asset_link K = Some l"
    and x: "sint (asset_shares (as ! j) + m) = sint (asset_shares (as ! j)) + sint m"
  shows "table_ok d (credit K m j as)" "extends as (credit K m j as)" "asset_key (credit K m j as ! j) = K"
    and "held (credit K m j as) i = held as i + (if l = i then sint m else 0)"
    and "sint (asset_shares (credit K m j as ! i)) = sint (asset_shares (as ! i)) + (if i = j then sint m else 0)"
    and "totalAt (credit K m j as) Q = totalAt as Q + (if is_possession K \<and> Q (position_at (credit K m j as) j) then sint m else 0)"
proof -
  let ?b = "if as ! j = EMPTY then K else as ! j" let ?r = "add_shares m ?b"
  have k: "asset_key ?r = K" using j(2) K(1) by auto
  have ne: "K \<noteq> EMPTY" using K(2) by auto
  show "table_ok d (credit K m j as)" "extends as (credit K m j as)" unfolding credit_def using w k by simp_all
  show "asset_key (credit K m j as ! j) = K" using j(1) k by (simp add: credit_def)
  have K0: "asset_shares K = 0" using K by (cases K) auto
  have b: "asset_link ?b = Some l" "sint (asset_shares ?b) = sint (asset_shares (as ! j))"
    using j(2) K asset_key_simps(5) [of "as ! j"] K0 by auto
  have x': "sint (asset_shares ?b + m) = sint (asset_shares ?b) + sint m" using x K0 by auto
  have c: "contrib ?r i = contrib ?b i + (if l = i then sint m else 0)" for i
    using contrib_add_shares [OF x'] b(1) by simp
  have c': "contrib ?b i = contrib (as ! j) i" for i using K0 by (auto simp: contrib_def)
  show "held (credit K m j as) i = held as i + (if l = i then sint m else 0)"
    unfolding credit_def held_update [OF j(1)] c c' by simp
  have s: "asset_shares ?r = asset_shares ?b + m" using b(1) by (cases ?b) (auto split: if_splits)
  show "sint (asset_shares (credit K m j as ! i)) = sint (asset_shares (as ! i)) + (if i = j then sint m else 0)"
    using s x' b(2) j(1) by (cases "i = j") (simp_all add: credit_def)
  have "as ! j = EMPTY \<or> asset_key ?r = asset_key (as ! j)" using j(2) k by auto
  note U = totalAt_update [OF t j(1) this]
  have kind: "is_possession ?r = is_possession K" using asset_key_simps(8) k by metis
  show "totalAt (credit K m j as) Q = totalAt as Q + (if is_possession K \<and> Q (position_at (credit K m j as) j) then sint m else 0)"
  proof (cases "as ! j = EMPTY")
    case True
    then show ?thesis unfolding credit_def using U kind s x' b(2) by (simp add: possessed_def)
  next
    case False
    then have e: "asset_key (as ! j) = K" using j(2) by simp
    then have p: "is_possession (as ! j) = is_possession K" using asset_key_simps(8) by metis
    have "position_at (as[j := ?r]) j = position_at as j" if "is_possession (as ! j)"
      using position_extends [OF t w(2) [OF k] j(1) that] .
    then show ?thesis unfolding credit_def using U kind s x' b(2) p by (auto simp: possessed_def)
  qed
qed

text \<open>The two instances: a record that exists, and the slot a search has found.\<close>

lemma credit_existing:
  assumes t: "table_ok d as" and j: "j < length as" "as ! j \<noteq> EMPTY" and l: "asset_link (as ! j) = Some l"
    and x: "sint (asset_shares (as ! j) + m) = sint (asset_shares (as ! j)) + sint m"
  defines "as' \<equiv> as[j := add_shares m (as ! j)]"
  shows "table_ok d as'" "extends as as'" "i < length as \<Longrightarrow> asset_key (as' ! i) = asset_key (as ! i)"
    and "held as' i = held as i + (if l = i then sint m else 0)"
    and "sint (asset_shares (as' ! i)) = sint (asset_shares (as ! i)) + (if i = j then sint m else 0)"
    and "sharesAt as' p = sharesAt as p + (if is_possession (as ! j) \<and> position_at as j = p then sint m else 0)"
proof -
  have c: "as' = credit (asset_key (as ! j)) m j as" using j(2) by (simp add: credit_def as'_def)
  note C = credit_step [OF t j(1) disjI2 [OF refl] table_ok_overwrite [OF t j] asset_key_simps(10) _ x, unfolded asset_key_simps, OF _ _ l, folded c]
  show "table_ok d as'" "extends as as'" "held as' i = held as i + (if l = i then sint m else 0)"
    "sint (asset_shares (as' ! i)) = sint (asset_shares (as ! i)) + (if i = j then sint m else 0)" using C by simp_all
  show "i < length as \<Longrightarrow> asset_key (as' ! i) = asset_key (as ! i)" using j(1) by (cases "i = j") (simp_all add: as'_def)
  show "sharesAt as' p = sharesAt as p + (if is_possession (as ! j) \<and> position_at as j = p then sint m else 0)"
    unfolding sharesAt_def using C(6) position_extends [OF t C(2) j(1)] by auto
qed

lemma credit_found:
  assumes t: "table_ok d as" and s: "search match (asset_pk K) as = Some j"
    and M: "\<And>r. match r \<longleftrightarrow> asset_key r = K" and K: "asset_key K = K" "asset_link K = Some l" "link_ok as K"
    and x: "sint (asset_shares (as ! j) + m) = sint (asset_shares (as ! j)) + sint m"
  shows "table_ok d (credit K m j as)" "extends as (credit K m j as)" "asset_key (credit K m j as ! j) = K"
    and "held (credit K m j as) i = held as i + (if l = i then sint m else 0)"
    and "sint (asset_shares (credit K m j as ! i)) = sint (asset_shares (as ! i)) + (if i = j then sint m else 0)"
    and "totalAt (credit K m j as) Q = totalAt as Q + (if is_possession K \<and> Q (position_at (credit K m j as) j) then sint m else 0)"
proof -
  have "K \<noteq> EMPTY" using K(2) by auto
  note S = search_slot [OF t s M this K(1,3)]
  note C = credit_step [OF t S(1,2) S(3,4) K(1,2) x]
  show "table_ok d (credit K m j as)" "extends as (credit K m j as)" "asset_key (credit K m j as ! j) = K"
    "held (credit K m j as) i = held as i + (if l = i then sint m else 0)"
    "sint (asset_shares (credit K m j as ! i)) = sint (asset_shares (as ! i)) + (if i = j then sint m else 0)"
    "totalAt (credit K m j as) Q = totalAt as Q + (if is_possession K \<and> Q (position_at (credit K m j as) j) then sint m else 0)"
    using C by auto
qed

lemma search_keys:
  assumes "length as' = length as" and "\<And>i. i < length as \<Longrightarrow> asset_key (as' ! i) = asset_key (as ! i)"
    and "length as = 2 ^ d" and "\<And>r. match r \<longleftrightarrow> asset_key r = K"
  shows "search match pk as' = search match pk as"
proof -
  have "(as' ! i = EMPTY \<or> match (as' ! i)) = (as ! i = EMPTY \<or> match (as ! i))" if "i < 2 ^ d" for i
    using asset_key_eqD(1) [OF assms(2)] assms(2) that by (simp only: assms(3,4))
  then show ?thesis unfolding search_def assms(1,3) by (intro probe_cong home_slot_less) simp
qed

text \<open>Amounts that fit: taking shares away, and adding shares to a record whose target keeps a total below \<open>2^63\<close>.\<close>

lemma sint_neg_exact: "0 < sint (n::i64) \<Longrightarrow> sint (- n) = - sint n"
  using sint_lt [of n] by (simp add: sint_word_ariths signed_take_bit_int_eq_self)

lemma sint_take_exact:
  assumes "0 < sint (n::i64)" and "sint n \<le> sint s"
  shows "sint (s + - n) = sint s + sint (- n)"
  using assms sint_lt [of s] by (simp add: sint_diff_exact sint_neg_exact)

lemma sint_put_exact:
  assumes "0 < sint (n::i64)" and "0 \<le> sint s" and "sint s + sint n < 2 ^ 63"
  shows "sint (s + n) = sint s + sint n"
  using assms by (intro sint_add_exact) simp_all

lemma contrib_le_held_nonneg:
  assumes "\<And>j. j < length as \<Longrightarrow> 0 \<le> sint (asset_shares (as ! j))" and "j < length as"
  shows "contrib (as ! j) i \<le> held as i"
  unfolding held_def by (rule member_le_sum) (use assms in \<open>auto simp: contrib_def\<close>)

section \<open>Moving shares\<close>

text \<open>The guard of both transfers.\<close>

definition transferable :: "AssetRecord list \<Rightarrow> nat \<Rightarrow> nat \<Rightarrow> nat \<Rightarrow> i64 \<Rightarrow> bool" where
  "transferable as so sp iss n \<longleftrightarrow> so < length as \<and> sp < length as \<and> is_ownership (as ! so) \<and> asset_link (as ! so) = Some iss \<and>
     is_possession (as ! sp) \<and> asset_link (as ! sp) = Some so \<and> 0 < sint n \<and>
     sint n \<le> sint (asset_shares (as ! so)) \<and> sint n \<le> sint (asset_shares (as ! sp))"

text \<open>\<open>moved\<close>: \<open>n\<close> shares leave the position of slot \<open>sp\<close> and arrive at \<open>p\<close>; the totals of all issuances stay.\<close>

definition moved :: "AssetRecord list \<Rightarrow> AssetRecord list \<Rightarrow> nat \<Rightarrow> position \<Rightarrow> int \<Rightarrow> bool" where
  "moved as as' sp p n \<longleftrightarrow>
     (\<forall>t. sharesAt as' t = sharesAt as t - (if t = position_at as sp then n else 0) + (if t = p then n else 0)) \<and>
     (\<forall>i<length as. is_issuance (as ! i) \<longrightarrow> as' ! i = as ! i \<and> held as' i = held as i)"

text \<open>First the ownerships: one is debited, the other, old or new, is credited.\<close>

lemma move_ownership:
  assumes t: "table_ok d a" and am: "amounts_ok a" and g: "transferable a so sp iss n"
    and s: "search (ownership_of opk omc iss) opk a = Some oi"
  defines "a1 \<equiv> a[so := add_shares (- n) (a ! so)]"
  defines "a2 \<equiv> credit (OWNERSHIP opk omc iss 0) n oi a1"
  shows "table_ok d a2" "extends a a2" "asset_key (a2 ! oi) = OWNERSHIP opk omc iss 0" "a1 ! oi = EMPTY \<longleftrightarrow> a ! oi = EMPTY"
    and "held a2 i = held a i" "sharesAt a2 p = sharesAt a p"
    and "sint (asset_shares (a2 ! i)) = sint (asset_shares (a ! i)) - (if i = so then sint n else 0) + (if i = oi then sint n else 0)"
    and "oi \<noteq> so \<Longrightarrow> sint (asset_shares (a ! oi)) + sint n < 2 ^ 63" and "oi < length a"
proof -
  let ?N = "sint n" and ?S = "\<lambda>as i. sint (asset_shares (as ! i))" and ?K = "OWNERSHIP opk omc iss 0"
  note T = table_okD [OF t]
  have so: "so < length a" "is_ownership (a ! so)" "a ! so \<noteq> EMPTY" "asset_link (a ! so) = Some iss"
    and N: "0 < ?N" "?N \<le> ?S a so" using g by (auto simp: transferable_def)
  note nN = sint_neg_exact [OF N(1)]
  note C1 = credit_existing [OF t so(1,3,4) sint_take_exact [OF N(1,2)], folded a1_def, unfolded nN]
  have l1: "length a1 = length a" by (simp add: a1_def)
  have s1: "search (ownership_of opk omc iss) (asset_pk ?K) a1 = Some oi"
    using search_keys [OF l1 C1(3) T(1) of_key(2)] s by simp
  have iss: "iss < length a" "is_issuance (a ! iss)" using T(4) [OF so(1)] so(2,4) by (cases "a ! so"; auto)+
  then have lk: "link_ok a1 ?K" using link_ok_extends [OF C1(2), of ?K] by simp
  note F = search_slot [OF C1(1) s1 of_key(2) _ _ lk, simplified]
  show oi: "oi < length a" using F(1) l1 by simp
  show "a1 ! oi = EMPTY \<longleftrightarrow> a ! oi = EMPTY" using asset_key_eqD(1) [OF C1(3) [OF oi]] .
  have nonneg: "0 \<le> ?S a1 j" if "j < length a1" for j
    using C1(5) [of j] shares_nonneg [OF am, of j] that N by (auto simp: l1)
  have bound: "?S a1 oi + ?N < 2 ^ 63"
  proof -
    have "?S a1 oi \<le> held a1 iss"
    proof (cases "a1 ! oi = EMPTY")
      case True
      then show ?thesis using contrib_le_held_nonneg [of a1 oi iss] nonneg F(1) by simp
    next
      case False
      then have "asset_link (a1 ! oi) = Some iss" using F(2) asset_key_simps(5) [of "a1 ! oi"] by simp
      then show ?thesis using contrib_le_held_nonneg [of a1 oi iss] nonneg F(1) by (simp add: contrib_def)
    qed
    also have "held a1 iss = held a iss - ?N" using C1(4) by simp
    finally show ?thesis using am iss by (cases "a ! iss") (auto simp: amounts_ok_def)
  qed
  note x2 = sint_put_exact [OF N(1) nonneg [OF F(1)] bound]
  note C2 = credit_found [where l = iss, OF C1(1) s1 of_key(2) _ _ lk x2, folded a2_def, simplified]
  show "table_ok d a2" "asset_key (a2 ! oi) = ?K" "held a2 i = held a i" using C2(1,3,4) C1(4) by simp_all
  show "extends a a2" using C1(2) C2(2) by (rule extends_trans)
  have "\<not> is_possession (a ! so)" using so(2) by (cases "a ! so") auto
  then show "sharesAt a2 p = sharesAt a p" using C2(6) [of "\<lambda>x. x = p", folded sharesAt_def] C1(6) by simp
  show "?S a2 i = ?S a i - (if i = so then ?N else 0) + (if i = oi then ?N else 0)"
    using C2(5) [of i] C1(5) [of i] by simp
  show "?S a oi + ?N < 2 ^ 63" if "oi \<noteq> so" using bound C1(5) [of oi] that by simp
qed

text \<open>Then the possessions.\<close>

lemma move_possession:
  assumes t: "table_ok d a" and nn: "\<And>j. j < length a \<Longrightarrow> 0 \<le> sint (asset_shares (a ! j))"
    and sp: "sp < length a" "is_possession (a ! sp)" "asset_link (a ! sp) = Some so"
    and N: "0 < sint n" "sint n \<le> sint (asset_shares (a ! sp))"
    and oi: "oi < length a" "is_ownership (a ! oi)" and b: "held a oi + (if oi = so then 0 else sint n) < 2 ^ 63"
    and s: "search (possession_of ppk pmc oi) ppk a = Some pi"
  defines "a3 \<equiv> a[sp := add_shares (- n) (a ! sp)]"
  defines "a4 \<equiv> credit (POSSESSION ppk pmc oi 0) n pi a3"
  shows "table_ok d a4" "extends a a4" "asset_key (a4 ! pi) = POSSESSION ppk pmc oi 0" "a3 ! pi = EMPTY \<longleftrightarrow> a ! pi = EMPTY"
    and "held a4 i = held a i - (if i = so then sint n else 0) + (if i = oi then sint n else 0)"
    and "sint (asset_shares (a4 ! i)) = sint (asset_shares (a ! i)) - (if i = sp then sint n else 0) + (if i = pi then sint n else 0)"
    and "sharesAt a4 p = sharesAt a p - (if p = position_at a sp then sint n else 0) + (if p = position_at a4 pi then sint n else 0)"
    and "pi < length a"
proof -
  let ?N = "sint n" and ?S = "\<lambda>as i. sint (asset_shares (as ! i))" and ?K = "POSSESSION ppk pmc oi 0"
  note T = table_okD [OF t] and nN = sint_neg_exact [OF N(1)]
  have ne: "a ! sp \<noteq> EMPTY" using sp(2) by auto
  note C1 = credit_existing [OF t sp(1) ne sp(3) sint_take_exact [OF N], folded a3_def, unfolded nN]
  have l1: "length a3 = length a" by (simp add: a3_def)
  have s1: "search (possession_of ppk pmc oi) (asset_pk ?K) a3 = Some pi"
    using search_keys [OF l1 C1(3) T(1) of_key(3)] s by simp
  have lk: "link_ok a3 ?K" using link_ok_extends [OF C1(2), of ?K] oi by simp
  note F = search_slot [OF C1(1) s1 of_key(3) _ _ lk, simplified]
  show pi: "pi < length a" using F(1) l1 by simp
  show "a3 ! pi = EMPTY \<longleftrightarrow> a ! pi = EMPTY" using asset_key_eqD(1) [OF C1(3) [OF pi]] .
  have nonneg: "0 \<le> ?S a3 j" if "j < length a3" for j
    using C1(5) [of j] nn [of j] that N by (auto simp: l1)
  have bound: "?S a3 pi + ?N < 2 ^ 63"
  proof -
    have "?S a3 pi \<le> held a3 oi"
    proof (cases "a3 ! pi = EMPTY")
      case True
      then show ?thesis using contrib_le_held_nonneg [of a3 pi oi] nonneg F(1) by simp
    next
      case False
      then have "asset_link (a3 ! pi) = Some oi" using F(2) asset_key_simps(5) [of "a3 ! pi"] by simp
      then show ?thesis using contrib_le_held_nonneg [of a3 pi oi] nonneg F(1) by (simp add: contrib_def)
    qed
    also have "held a3 oi = held a oi - (if so = oi then ?N else 0)" using C1(4) by simp
    finally show ?thesis using b by (auto split: if_splits)
  qed
  note x2 = sint_put_exact [OF N(1) nonneg [OF F(1)] bound]
  note C2 = credit_found [where l = oi, OF C1(1) s1 of_key(3) _ _ lk x2, folded a4_def, simplified]
  show "table_ok d a4" "asset_key (a4 ! pi) = ?K" using C2(1,3) by simp_all
  show "extends a a4" using C1(2) C2(2) by (rule extends_trans)
  show "held a4 i = held a i - (if i = so then ?N else 0) + (if i = oi then ?N else 0)" using C2(4) C1(4) by simp
  show "sharesAt a4 p = sharesAt a p - (if p = position_at a sp then ?N else 0) + (if p = position_at a4 pi then ?N else 0)"
    using C2(6) [of "\<lambda>x. x = p", folded sharesAt_def] C1(6) sp(2) by simp
  show "?S a4 i = ?S a i - (if i = sp then ?N else 0) + (if i = pi then ?N else 0)"
    using C2(5) [of i] C1(5) [of i] by simp
qed

lemma moveShares_form:
  fixes opk :: m256i and omc :: u16
  assumes t: "table_ok d (assets u)" and am: "amounts_ok (assets u)" and g: "transferable (assets u) so sp iss n"
  defines "a1 \<equiv> (assets u)[so := add_shares (- n) (assets u ! so)]"
  defines "a2 \<equiv> \<lambda>oi. credit (OWNERSHIP opk omc iss 0) n oi a1"
  defines "a3 \<equiv> \<lambda>oi. (a2 oi)[sp := add_shares (- n) (a2 oi ! sp)]"
  shows "moveShares so sp iss opk omc ppk pmc n u =
    (case search (ownership_of opk omc iss) opk (assets u) of
       None \<Rightarrow> None
     | Some oi \<Rightarrow> (case search (possession_of ppk pmc oi) ppk (a2 oi) of
         None \<Rightarrow> None
       | Some pi \<Rightarrow> Some (oi, pi, u\<lparr>assets := credit (POSSESSION ppk pmc oi 0) n pi (a3 oi),
           indexLists := (let l1 = (if assets u ! oi = EMPTY then addOwnership iss oi (indexLists u) else indexLists u)
             in if a2 oi ! pi = EMPTY then addPossession oi pi l1 else l1),
           assetChangeFlags := setFlag (setFlag (setFlag (setFlag (assetChangeFlags u) so) sp) oi) pi\<rparr>)))"
proof -
  have sp: "is_possession (assets u ! sp)" "sp < length (assets u)" using g by (auto simp: transferable_def)
  have c: "(if assets u ! oi = EMPTY then a1[oi := OWNERSHIP opk omc iss n] else a1[oi := add_shares n (a1 ! oi)]) = a2 oi"
    if s: "search (ownership_of opk omc iss) opk (assets u) = Some oi" for oi
    using move_ownership(4) [OF t am g s] by (simp add: a2_def a1_def credit_def)
  have c': "(if a2 oi ! pi = EMPTY then (a3 oi)[pi := POSSESSION ppk pmc oi n] else (a3 oi)[pi := add_shares n (a3 oi ! pi)])
      = credit (POSSESSION ppk pmc oi 0) n pi (a3 oi)"
    if s: "search (ownership_of opk omc iss) opk (assets u) = Some oi" for oi pi
  proof -
    have a2: "a2 oi = credit (OWNERSHIP opk omc iss 0) n oi a1" by (simp add: a2_def)
    note O = move_ownership(2) [OF t am g s, folded a1_def, folded a2]
    have "a2 oi ! sp \<noteq> EMPTY" using extends_key [OF O sp(2)] sp(1) by (metis asset_key_eqD(1) is_possession.simps(2))
    then have "a3 oi ! pi = EMPTY \<longleftrightarrow> a2 oi ! pi = EMPTY"
      using O sp(2) by (cases "pi = sp") (simp_all add: a3_def extends_def)
    then show ?thesis by (simp add: credit_def)
  qed
  show ?thesis
  proof (cases "search (ownership_of opk omc iss) opk (assets u)")
    case (Some oi)
    have a3: "(a2 oi)[sp := add_shares (- n) (a2 oi ! sp)] = a3 oi" by (simp add: a3_def)
    show ?thesis unfolding moveShares_def Let_def Some option.case a1_def [symmetric] c [OF Some] a3 c' [OF Some] ..
  qed (simp add: moveShares_def)
qed

lemma amount_ok_cong: "held as i = held as' i \<Longrightarrow> amount_ok as i r = amount_ok as' i r"
  by (cases r) simp_all

lemma kinds_disjoint:
  "is_possession r \<Longrightarrow> \<not> is_ownership r" "is_possession r \<Longrightarrow> \<not> is_issuance r" "is_ownership r \<Longrightarrow> \<not> is_issuance r"
  by (cases r; simp)+

text \<open>Amounts still add up when ownerships and possessions change alike.\<close>

lemma amounts_moved:
  fixes N :: int
  assumes am: "amounts_ok a" and len: "length a' = length a"
    and same: "\<And>i. i \<notin> {so, oi, sp, pi} \<Longrightarrow> a' ! i = a ! i"
    and own: "is_ownership (a' ! so)" "is_ownership (a' ! oi)" and pos: "is_possession (a' ! sp)" "is_possession (a' ! pi)"
    and H: "\<And>i. held a' i = held a i - (if i = so then N else 0) + (if i = oi then N else 0)"
    and S: "\<And>i. sint (asset_shares (a' ! i)) = sint (asset_shares (a ! i)) - (if i = so then N else 0) + (if i = oi then N else 0)
      - (if i = sp then N else 0) + (if i = pi then N else 0)"
    and h: "held a so = sint (asset_shares (a ! so))" "held a oi = sint (asset_shares (a ! oi))"
    and N: "0 < N" "N \<le> sint (asset_shares (a ! so))" "N \<le> sint (asset_shares (a ! sp))"
    and l: "oi < length a" "pi < length a"
  shows "amounts_ok a'"
  unfolding amounts_ok_def
proof (intro allI impI)
  fix i
  assume i: "i < length a'"
  note nn = shares_nonneg [OF am, of i]
  have ne: "so \<noteq> sp" "so \<noteq> pi" "oi \<noteq> sp" "oi \<noteq> pi" using own pos kinds_disjoint(1) by metis+
  consider "i \<notin> {so, oi, sp, pi}" | "i = so \<or> i = oi" | "i = sp \<or> i = pi" by blast
  then show "amount_ok a' i (a' ! i)"
  proof cases
    case 1
    then show ?thesis using same [OF 1] H [of i] am i len amount_ok_cong [of a' i a] by (simp add: amounts_ok_def)
  next
    case 2
    then have "is_ownership (a' ! i)" using own by auto
    moreover have "held a' i = sint (asset_shares (a' ! i))" using 2 H [of i] S [of i] h ne by auto
    moreover have "0 \<le> sint (asset_shares (a' ! i))" using 2 S [of i] ne N nn i len by auto
    ultimately show ?thesis by (cases "a' ! i") auto
  next
    case 3
    then have "is_possession (a' ! i)" using pos by auto
    moreover have "0 \<le> sint (asset_shares (a' ! i))" using 3 S [of i] ne N nn i len by auto
    ultimately show ?thesis by (cases "a' ! i") auto
  qed
qed

lemma moveShares_correct:
  assumes u: "universe_ok d (assets u)" and g: "transferable (assets u) so sp iss n"
    and m: "moveShares so sp iss opk omc ppk pmc n u = Some (oi, pi, u')"
  shows "universe_ok d (assets u') \<and> extends (assets u) (assets u') \<and>
    moved (assets u) (assets u') sp (asset_pk (assets u ! iss), asset_name (assets u ! iss), opk, omc, ppk, pmc) (sint n) \<and>
    position_at (assets u') pi = (asset_pk (assets u ! iss), asset_name (assets u ! iss), opk, omc, ppk, pmc)"
proof -
  define a where "a = assets u"
  define a1 where "a1 = a[so := add_shares (- n) (a ! so)]"
  define a2 where "a2 = credit (OWNERSHIP opk omc iss 0) n oi a1"
  define a3 where "a3 = a2[sp := add_shares (- n) (a2 ! sp)]"
  define a4 where "a4 = credit (POSSESSION ppk pmc oi 0) n pi a3"
  let ?N = "sint n" and ?S = "\<lambda>as i. sint (asset_shares (as ! i))"
  have t: "table_ok d a" and am: "amounts_ok a" using u by (simp_all add: universe_ok_def a_def)
  note T = table_okD [OF t]
  have g': "transferable a so sp iss n" using g by (simp add: a_def)
  have so: "so < length a" "is_ownership (a ! so)" "asset_link (a ! so) = Some iss"
    and sp: "sp < length a" "is_possession (a ! sp)" "asset_link (a ! sp) = Some so"
    and N: "0 < ?N" "?N \<le> ?S a so" "?N \<le> ?S a sp"
    using g' by (auto simp: transferable_def)
  obtain so_oi: "search (ownership_of opk omc iss) opk a = Some oi" and sp_pi: "search (possession_of ppk pmc oi) ppk a2 = Some pi"
    and u': "assets u' = a4"
    using m unfolding moveShares_form [OF t [unfolded a_def] am [unfolded a_def] g]
    by (auto simp: a_def [symmetric] a1_def [symmetric] a2_def [symmetric] a3_def [symmetric] a4_def [symmetric] split: option.splits)
  note O = move_ownership [OF t am g' so_oi, folded a1_def, folded a2_def]
  have ne: "a ! sp \<noteq> EMPTY" "a ! so \<noteq> EMPTY" using sp so by auto
  note K2 = asset_key_eqD [OF extends_key [OF O(2) sp(1) ne(1)]]
  have oiK: "is_ownership (a2 ! oi)" using O(3) by (cases "a2 ! oi") auto
  have spso: "sp \<noteq> so" "sp \<noteq> oi" using sp(2) so(2) oiK K2(9) kinds_disjoint(1) by auto
  have nn2: "0 \<le> ?S a2 j" if "j < length a2" for j
    using O(7) [of j] shares_nonneg [OF am, of j] that N O(2) by (auto simp: extends_def)
  have l2: "length a2 = length a" using O(2) by (simp add: extends_def)
  have hoi: "held a oi = ?S a oi"
  proof -
    consider "a ! oi = EMPTY" | "is_ownership (a ! oi)"
      using asset_key_eqD(8) [OF extends_key [OF O(2,9)]] oiK by blast
    then show ?thesis
    proof cases
      case 1
      then show ?thesis using held_empty [OF t] by simp
    next
      case 2
      then show ?thesis using am O(9) by (cases "a ! oi") (auto simp: amounts_ok_def)
    qed
  qed
  have b: "held a2 oi + (if oi = so then 0 else ?N) < 2 ^ 63"
    using O(5) [of oi] O(8) hoi sint_lt [of "asset_shares (a ! oi)"] by auto
  have N2: "?N \<le> ?S a2 sp" using O(7) [of sp] N(3) spso by simp
  have sp2: "sp < length a2" "is_possession (a2 ! sp)" "asset_link (a2 ! sp) = Some so" and oi2: "oi < length a2"
    using sp K2(5,9) O(9) by (simp_all add: l2)
  note P = move_possession [OF O(1) nn2 sp2 N(1) N2 oi2 oiK b sp_pi, folded a3_def, folded a4_def]
  have e: "extends a a4" using O(2) P(2) by (rule extends_trans)
  have iss: "iss < length a" "is_issuance (a ! iss)" using T(4) [OF so(1)] so(2,3) by (cases "a ! so"; auto)+
  have oine: "a2 ! oi \<noteq> EMPTY" using oiK by auto
  have K4: "is_ownership (a4 ! so)" "is_ownership (a4 ! oi)" "is_possession (a4 ! sp)" "is_possession (a4 ! pi)"
    using asset_key_eqD(8) [OF extends_key [OF e so(1) ne(2)]] asset_key_eqD(9) [OF extends_key [OF e sp(1) ne(1)]]
      asset_key_eqD(8) [OF extends_key [OF P(2) oi2 oine]] oiK so sp asset_key_simps(8) [of "a4 ! pi"] P(3) by simp_all
  have same: "a4 ! i = a ! i" if "i \<notin> {so, oi, sp, pi}" for i
    using that by (simp add: a4_def a3_def a2_def a1_def credit_def)
  have "amounts_ok a4"
  proof (rule amounts_moved [OF am _ same K4])
    show "held a so = ?S a so" using am so by (cases "a ! so") (auto simp: amounts_ok_def)
  qed (use O(5,7,9) P(5,6,8) e hoi N l2 in \<open>simp_all add: extends_def\<close>)
  then have ok: "universe_ok d a4" using P(1) by (simp add: universe_ok_def)
  have noiss: "i \<notin> {so, oi, sp, pi} \<and> i < length a" if "i < length a" "is_issuance (a ! i)" for i
    using that asset_key_eqD(7) [OF extends_key [OF e that(1)]] K4 kinds_disjoint(2,3) by force
  have ki: "asset_key (a4 ! iss) = ISSUANCE (asset_pk (a ! iss)) (asset_name (a ! iss)) 0 0"
    using same [of iss] noiss [OF iss] iss by (cases "a ! iss") auto
  have ko: "asset_key (a4 ! oi) = OWNERSHIP opk omc iss 0" using extends_key [OF P(2) oi2 oine] O(3) by simp
  note pos = keys_position(1) [OF ki ko P(3)]
  have "moved a a4 sp (position_at a4 pi) ?N"
    unfolding moved_def using P(7) O(6) position_extends [OF t O(2) sp(1,2)] same noiss O(5) P(5)
    by (auto simp: extends_def)
  then show ?thesis using ok e pos by (simp add: u' a_def)
qed

text \<open>With two free slots both searches stop.\<close>

lemma moveShares_returns:
  assumes u: "universe_ok d (assets u)" and g: "transferable (assets u) so sp iss n" and e: "2 \<le> free_slots (assets u)"
  shows "\<exists>oi pi u'. moveShares so sp iss opk omc ppk pmc n u = Some (oi, pi, u')"
proof -
  have t: "table_ok d (assets u)" and am: "amounts_ok (assets u)" using u by (simp_all add: universe_ok_def)
  obtain oi where oi: "search (ownership_of opk omc iss) opk (assets u) = Some oi"
    using search_returns [OF table_okD(1) [OF t]] e by fastforce
  define a1 where "a1 = (assets u)[so := add_shares (- n) (assets u ! so)]"
  define a2 where "a2 = credit (OWNERSHIP opk omc iss 0) n oi a1"
  note O = move_ownership [OF t am g oi, folded a1_def, folded a2_def]
  have so: "assets u ! so \<noteq> EMPTY" "so < length (assets u)" using g by (auto simp: transferable_def)
  have "length (filter (\<lambda>r. r = EMPTY) a1) = length (filter (\<lambda>r. r = EMPTY) (assets u))"
    using length_filter_update [OF so(2), of "\<lambda>r. r = EMPTY" "add_shares (- n) (assets u ! so)"] so(1) by (simp add: a1_def)
  then have "free_slots (assets u) \<le> free_slots a2 + 1"
    using free_slots_update [of oi a1] O(9) by (simp add: a2_def credit_def free_slots_def a1_def)
  then obtain pi where "search (possession_of ppk pmc oi) ppk a2 = Some pi"
    using search_returns [OF table_okD(1) [OF O(1)]] e by fastforce
  then show ?thesis unfolding moveShares_form [OF t am g] using oi by (simp add: a1_def a2_def)
qed

section \<open>Burning\<close>

lemma burn_correct:
  assumes u: "universe_ok d a" and g: "transferable a so sp iss n"
  defines "a1 \<equiv> a[so := add_shares (- n) (a ! so)]"
  defines "a2 \<equiv> a1[sp := add_shares (- n) (a1 ! sp)]"
  shows "universe_ok d a2" "extends a a2"
    and "sharesAt a2 t = sharesAt a t - (if t = position_at a sp then sint n else 0)"
    and "held a2 iss = held a iss - sint n"
proof -
  let ?N = "sint n" and ?S = "\<lambda>as i. sint (asset_shares (as ! i))"
  have t: "table_ok d a" and am: "amounts_ok a" using u by (simp_all add: universe_ok_def)
  have so: "so < length a" "is_ownership (a ! so)" "a ! so \<noteq> EMPTY" "asset_link (a ! so) = Some iss"
    and sp: "sp < length a" "is_possession (a ! sp)" "a ! sp \<noteq> EMPTY" "asset_link (a ! sp) = Some so"
    and N: "0 < ?N" "?N \<le> ?S a so" "?N \<le> ?S a sp"
    using g by (auto simp: transferable_def)
  note nN = sint_neg_exact [OF N(1)]
  note C1 = credit_existing [OF t so(1,3,4) sint_take_exact [OF N(1,2)], folded a1_def, unfolded nN]
  have ne: "sp \<noteq> so" using sp(2) so(2) kinds_disjoint(1) by auto
  have eq: "a1 ! sp = a ! sp" "length a1 = length a" using ne by (simp_all add: a1_def)
  note C2 = credit_existing [of d a1 sp so "- n", unfolded eq, OF C1(1) sp(1,3,4) sint_take_exact [OF N(1,3)], folded eq(1), folded a2_def, unfolded nN eq]
  show e: "extends a a2" using C1(2) C2(2) by (rule extends_trans)
  have iss: "iss \<noteq> so" using table_okD(4) [OF t so(1)] so(2,4) by (cases "a ! so") auto
  then show "held a2 iss = held a iss - ?N" using C1(4) C2(4) by simp
  have "\<not> is_possession (a ! so)" using so(2) kinds_disjoint(1) by auto
  then show "sharesAt a2 t = sharesAt a t - (if t = position_at a sp then ?N else 0)"
    using C1(6) C2(6) sp(2) position_extends [OF t C1(2) sp(1,2)] by auto
  have "amount_ok a2 i (a2 ! i)" if i: "i < length a" for i
  proof -
    have k: "asset_key (a2 ! i) = asset_key (a ! i)" using C1(3) [OF i] C2(3) i by simp
    have S: "?S a2 i = ?S a i - (if i = so then ?N else 0) - (if i = sp then ?N else 0)" using C1(5) C2(5) by simp
    have H: "held a2 i = held a i - (if i = so then ?N else 0) - (if i = iss then ?N else 0)" using C1(4) C2(4) by simp
    have "amount_ok a i (a ! i)" using am i by (simp add: amounts_ok_def)
    moreover have "\<not> is_issuance (a ! so)" "\<not> is_ownership (a ! sp)" "is_issuance (a ! iss)"
      using so sp kinds_disjoint table_okD(4) [OF t so(1)] by (cases "a ! so"; auto)+
    ultimately show ?thesis using k S H N ne
      by (cases "a ! i"; cases "a2 ! i") (auto split: if_splits)
  qed
  then show "universe_ok d a2" using C2(1) by (simp add: universe_ok_def amounts_ok_def eq a2_def)
qed

section \<open>The transfer operations\<close>

lemma transferable_cases:
  assumes "universe_ok d as" and "so < length as" and "sp < length as"
  shows "(\<nexists>iss. transferable as so sp iss n) \<longleftrightarrow>
    n \<le>s 0 \<or> (case (as ! so, as ! sp) of (OWNERSHIP opk omc iss os, POSSESSION ppk pmc oi ps) \<Rightarrow> os <s n \<or> ps <s n \<or> oi \<noteq> so | _ \<Rightarrow> True)"
  using assms(2,3)
  by (cases "as ! so"; cases "as ! sp") (auto simp: transferable_def word_sle_eq word_sless_alt not_less not_le)

lemma transferableD:
  assumes "transferable as so sp iss n"
  obtains opk omc os ppk pmc ps where "as ! so = OWNERSHIP opk omc iss os" "as ! sp = POSSESSION ppk pmc so ps"
    "\<not> n \<le>s 0" "\<not> (os <s n \<or> ps <s n)"
  using assms by (cases "as ! so"; cases "as ! sp") (auto simp: transferable_def word_sle_eq word_sless_alt)

end
