(* ===== verification/Assets_Issue.thy ===== *)
theory Assets_Issue
  imports Assets_Transfer
begin

text \<open>
  Issuing an asset: the three new records, the refusal of a name that is taken, and the well-formedness of
  the empty universe.
\<close>

section \<open>Issuing\<close>

lemma low_key_home: "m256i_u64 pk 0 = m256i_u64 pk' 0 \<Longrightarrow> home_slot cap pk = home_slot cap pk'"
proof -
  have "m256i_u32 x 0 = ucast (m256i_u64 x 0)" for x
    by (rule bit_word_eqI) (simp add: m256i_u32_def m256i_u64_def bit_simps)
  then show "m256i_u64 pk 0 = m256i_u64 pk' 0 \<Longrightarrow> home_slot cap pk = home_slot cap pk'" by (simp add: home_slot_def)
qed

text \<open>From a slot on the path of a key, the next empty slot is the one a search of the key finds.\<close>

lemma next_empty_path:
  assumes len: "length as = 2 ^ d" and i: "i < 2 ^ d" and h: "h < 2 ^ d"
    and path: "\<And>k. k < 2 ^ d \<Longrightarrow> steps_to (2 ^ d) h k \<le> steps_to (2 ^ d) h i \<Longrightarrow> as ! k \<noteq> EMPTY"
    and e: "e < 2 ^ d" "as ! e = EMPTY"
  obtains j where "next_empty i as = Some j" "j < 2 ^ d" "as ! j = EMPTY"
    "\<And>k. k < 2 ^ d \<Longrightarrow> steps_to (2 ^ d) h k < steps_to (2 ^ d) h j \<Longrightarrow> as ! k \<noteq> EMPTY"
proof -
  let ?n = "steps_to (2 ^ d) h i"
  have n: "?n < 2 ^ d" by (simp add: steps_to_less)
  have "as ! ((h + m) mod 2 ^ d) \<noteq> EMPTY" if "m \<le> ?n" for m
    using that n path [of "(h + m) mod 2 ^ d"] by (simp add: steps_to_unique [OF h])
  note S = probe_skip [where stop = "\<lambda>i. as ! i = EMPTY", OF h n this]
  have "(h + ?n + 1) mod 2 ^ d = (i + 1) mod 2 ^ d" using steps_to_reaches [OF h i] by (metis mod_add_left_eq)
  then have "next_empty i as = probe (2 ^ d) (\<lambda>i. as ! i = EMPTY) (2 ^ d) h"
    using S by (simp add: next_empty_def len mask_simps)
  moreover obtain j where j: "probe (2 ^ d) (\<lambda>i. as ! i = EMPTY) (2 ^ d) h = Some j" using probe_total [where stop = "\<lambda>i. as ! i = EMPTY", OF h e] by blast
  ultimately show thesis
    using that probe_less [OF j h] probe_first [OF j h order_refl] by metis
qed

lemma fill_step:
  assumes t: "table_ok d as" and j: "j < length as" "as ! j = EMPTY" and r: "asset_key r \<noteq> EMPTY"
    and absent: "\<And>i. i < length as \<Longrightarrow> asset_key (as ! i) \<noteq> asset_key r" and l: "link_ok as r"
    and path: "\<And>k. k < 2 ^ d \<Longrightarrow> steps_to (2 ^ d) (home_slot (2 ^ d) (asset_pk r)) k
      < steps_to (2 ^ d) (home_slot (2 ^ d) (asset_pk r)) j \<Longrightarrow> as ! k \<noteq> EMPTY"
  shows "table_ok d (as[j := r])" "extends as (as[j := r])" "held (as[j := r]) i = held as i + contrib r i"
    and "sharesAt (as[j := r]) p = sharesAt as p + (if position_at (as[j := r]) j = p then possessed r else 0)"
  using table_ok_fill [OF assms] held_update [OF j(1)] sharesAt_update [OF t j(1) disjI1 [OF j(2)]] j(2)
  by (simp_all add: possessed_def)

lemma no_link_to_empty:
  assumes "table_ok d as" and "as ! j = EMPTY" and "i < length as"
  shows "asset_link (as ! i) \<noteq> Some j"
  using table_okD(4) [OF assms(1,3)] assms(2) by (cases "as ! i") auto

lemma key_link: "asset_key r = asset_key r' \<Longrightarrow> asset_link r = asset_link r'"
  by (rule asset_key_eqD(5))

lemma steps_to_home:
  assumes "h < 2 ^ d" "k < 2 ^ d" "j < 2 ^ d" "steps_to (2 ^ d) h k \<le> steps_to (2 ^ d) h j" "k \<noteq> j"
  shows "steps_to (2 ^ d) h k < steps_to (2 ^ d) h j"
  using assms steps_to_reaches [OF assms(1,2)] steps_to_reaches [OF assms(1,3)] by (metis le_neq_implies_less)

text \<open>\<open>filled d pk j as\<close>: no empty slot from the home slot of \<open>pk\<close> up to slot \<open>j\<close>.\<close>

definition filled :: "nat \<Rightarrow> m256i \<Rightarrow> nat \<Rightarrow> AssetRecord list \<Rightarrow> bool" where
  "filled d pk j as \<longleftrightarrow> (\<forall>k<2 ^ d. steps_to (2 ^ d) (home_slot (2 ^ d) pk) k \<le> steps_to (2 ^ d) (home_slot (2 ^ d) pk) j \<longrightarrow> as ! k \<noteq> EMPTY)"

lemma filled_update:
  assumes len: "length as = 2 ^ d" and j: "j < 2 ^ d" and r: "r \<noteq> EMPTY"
    and path: "\<And>k. k < 2 ^ d \<Longrightarrow> steps_to (2 ^ d) (home_slot (2 ^ d) pk) k < steps_to (2 ^ d) (home_slot (2 ^ d) pk) j \<Longrightarrow> as ! k \<noteq> EMPTY"
  shows "filled d pk j (as[j := r])"
  unfolding filled_def
proof (intro allI impI)
  fix k
  assume k: "k < 2 ^ d" "steps_to (2 ^ d) (home_slot (2 ^ d) pk) k \<le> steps_to (2 ^ d) (home_slot (2 ^ d) pk) j"
  then show "as[j := r] ! k \<noteq> EMPTY"
    using path [OF k(1)] steps_to_home [OF home_slot_less k(1) j k(2)] r j len by (cases "k = j") auto
qed

text \<open>Putting a record at the next empty slot on the path of its key.\<close>

lemma place_next:
  assumes t: "table_ok d as" and i: "i < length as" and f: "filled d (asset_pk r) i as" and free: "1 \<le> free_slots as"
    and r: "r \<noteq> EMPTY" "link_ok as r" and absent: "\<And>i. i < length as \<Longrightarrow> asset_key (as ! i) \<noteq> asset_key r"
  obtains j where "next_empty i as = Some j" "j < length as" "as ! j = EMPTY" "table_ok d (as[j := r])"
    "extends as (as[j := r])" "\<And>i. held (as[j := r]) i = held as i + contrib r i"
    "\<And>p. sharesAt (as[j := r]) p = sharesAt as p + (if position_at (as[j := r]) j = p then possessed r else 0)"
    "filled d (asset_pk r) j (as[j := r])"
proof -
  let ?h = "home_slot (2 ^ d) (asset_pk r)"
  have len: "length as = 2 ^ d" using table_okD(1) [OF t] .
  obtain e where e: "e < 2 ^ d" "as ! e = EMPTY" using free_slot [OF free] len by auto
  have path: "as ! k \<noteq> EMPTY" if "k < 2 ^ d" "steps_to (2 ^ d) ?h k \<le> steps_to (2 ^ d) ?h i" for k
    using f that by (simp add: filled_def)
  obtain j where j: "next_empty i as = Some j" "j < 2 ^ d" "as ! j = EMPTY"
    and p: "\<And>k. k < 2 ^ d \<Longrightarrow> steps_to (2 ^ d) ?h k < steps_to (2 ^ d) ?h j \<Longrightarrow> as ! k \<noteq> EMPTY"
    using next_empty_path [OF len _ home_slot_less path e, of i] i len by metis
  have jl: "j < length as" using j(2) len by simp
  have "asset_key r \<noteq> EMPTY" using r(1) by simp
  note F = fill_step [OF t jl j(3) this absent r(2) p]
  show thesis using that [OF j(1) jl j(3) F] filled_update [OF len j(2) r(1) p] by blast
qed

text \<open>The three records of a new asset.\<close>

lemma issue_records:
  fixes dp :: u8 and um :: u64
  assumes t: "table_ok d a" and ii: "ii < length a" "a ! ii = EMPTY"
    and path: "\<And>k. k < 2 ^ d \<Longrightarrow> steps_to (2 ^ d) (home_slot (2 ^ d) pk) k < steps_to (2 ^ d) (home_slot (2 ^ d) pk) ii \<Longrightarrow> a ! k \<noteq> EMPTY"
    and absent: "\<And>i. i < length a \<Longrightarrow> asset_key (a ! i) \<noteq> ISSUANCE pk nm 0 0" and free: "3 \<le> free_slots a"
  defines "a1 \<equiv> a[ii := ISSUANCE pk nm dp um]"
  obtains oi pi a2 a3 where "next_empty ii a1 = Some oi" "a2 = a1[oi := OWNERSHIP pk mc ii n]" "next_empty oi a2 = Some pi"
    "a3 = a2[pi := POSSESSION pk mc oi n]" "a ! oi = EMPTY" "a ! pi = EMPTY" "distinct [ii, oi, pi]" "oi < length a" "pi < length a"
    "table_ok d a3" "extends a a3" "\<And>i. held a3 i = held a i + (if i = ii \<or> i = oi then sint n else 0)"
    "\<And>p. sharesAt a3 p = sharesAt a p + (if p = (pk, nm, pk, mc, pk, mc) then sint n else 0)"
proof -
  let ?i = "ISSUANCE pk nm dp um" and ?o = "OWNERSHIP pk mc ii n"
  have len: "length a = 2 ^ d" using table_okD(1) [OF t] .
  have F1: "table_ok d a1" "extends a a1" "held a1 i = held a i" "sharesAt a1 p = sharesAt a p" for i p
    using fill_step [OF t ii, of ?i] path absent by (simp_all add: a1_def contrib_def possessed_def)
  have f1: "filled d (asset_pk ?o) ii a1" using filled_update [OF len _ _ path, of ii ?i] ii len by (simp add: a1_def)
  have l1: "length a1 = length a" by (simp add: a1_def)
  have free1: "2 \<le> free_slots a1" using free_slots_update [OF ii(1), of ?i] free by (simp add: a1_def)
  have iil: "ii < length a1" and lk1: "link_ok a1 ?o" and fr1: "1 \<le> free_slots a1" and neo: "?o \<noteq> EMPTY"
    using ii free1 by (simp_all add: a1_def)
  have ab1: "asset_key (a1 ! i) \<noteq> asset_key ?o" if "i < length a1" for i
    using that no_link_to_empty [OF t ii(2), of i] key_link [of "a1 ! i" ?o] by (cases "i = ii") (auto simp: a1_def)
  obtain oi where oi: "next_empty ii a1 = Some oi" "oi < length a1" "a1 ! oi = EMPTY" "table_ok d (a1[oi := ?o])"
    "extends a1 (a1[oi := ?o])" "\<And>i. held (a1[oi := ?o]) i = held a1 i + contrib ?o i"
    "\<And>p. sharesAt (a1[oi := ?o]) p = sharesAt a1 p + (if position_at (a1[oi := ?o]) oi = p then possessed ?o else 0)"
    "filled d (asset_pk ?o) oi (a1[oi := ?o])"
    by (rule place_next [OF F1(1) iil f1 fr1 neo lk1 ab1], assumption, rule that, assumption+)
  define a2 where "a2 = a1[oi := ?o]"
  note oi' = oi [folded a2_def]
  let ?p = "POSSESSION pk mc oi n"
  have ne: "oi \<noteq> ii" "a ! oi = EMPTY" using oi(3) ii by (auto simp: a1_def nth_list_update split: if_splits)
  have l2: "length a2 = length a" using l1 by (simp add: a2_def)
  have free2: "1 \<le> free_slots a2" using free_slots_update [OF oi(2), of ?o] free1 by (simp add: a2_def)
  have oil: "oi < length a2" and lk2: "link_ok a2 ?p" and nep: "?p \<noteq> EMPTY" and f2: "filled d (asset_pk ?p) oi a2"
    using oi(2) oi'(8) by (simp_all add: a2_def)
  have ab2: "asset_key (a2 ! i) \<noteq> asset_key ?p" if "i < length a2" for i
    using that no_link_to_empty [OF F1(1) oi(3), of i] key_link [of "a2 ! i" ?p] ne(1) by (cases "i = oi") (auto simp: a2_def)
  obtain pi where pi: "next_empty oi a2 = Some pi" "pi < length a2" "a2 ! pi = EMPTY" "table_ok d (a2[pi := ?p])"
    "extends a2 (a2[pi := ?p])" "\<And>i. held (a2[pi := ?p]) i = held a2 i + contrib ?p i"
    "\<And>p. sharesAt (a2[pi := ?p]) p = sharesAt a2 p + (if position_at (a2[pi := ?p]) pi = p then possessed ?p else 0)"
    by (rule place_next [OF oi'(4) oil f2 free2 nep lk2 ab2], assumption, rule that, assumption+)
  define a3 where "a3 = a2[pi := ?p]"
  note pi' = pi [folded a3_def]
  have d: "distinct [ii, oi, pi]" "a ! pi = EMPTY"
    using pi(3) ne ii oi(2) l1 by (auto simp: a2_def a1_def nth_list_update split: if_splits)
  have e: "extends a a3" using extends_trans [OF extends_trans [OF F1(2) oi'(5)] pi'(5)] .
  have "asset_key (a3 ! ii) = ISSUANCE pk nm 0 0" "asset_key (a3 ! oi) = OWNERSHIP pk mc ii 0" "asset_key (a3 ! pi) = POSSESSION pk mc oi 0"
    using d ii oi(2) pi(2) l1 l2 by (simp_all add: a3_def a2_def a1_def)
  note pos = keys_position(1) [OF this]
  have H: "held a3 i = held a i + (if i = ii \<or> i = oi then sint n else 0)" for i
    using pi'(6) [of i] oi'(6) [of i] F1(3) [of i] ne(1) by (auto simp: contrib_def)
  have S: "sharesAt a3 p = sharesAt a p + (if p = (pk, nm, pk, mc, pk, mc) then sint n else 0)" for p
    using pi'(7) [of p] oi'(7) [of p] F1(4) [of p] pos by (auto simp: possessed_def)
  show thesis using that [OF oi(1) a2_def pi(1) a3_def ne(2) d(2,1) _ _ pi'(4) e H S] oi(2) pi(2) l1 l2 by simp
qed

lemma search_same_issue:
  assumes t: "table_ok d a" and s: "search (same_issue pk nm) pk a = Some ii"
  shows "ii < length a" "a ! ii \<noteq> EMPTY \<longleftrightarrow> (\<exists>i<length a. same_issue pk nm (a ! i))"
    and "a ! ii = EMPTY \<Longrightarrow> k < 2 ^ d \<Longrightarrow> steps_to (2 ^ d) (home_slot (2 ^ d) pk) k < steps_to (2 ^ d) (home_slot (2 ^ d) pk) ii \<Longrightarrow> a ! k \<noteq> EMPTY"
proof -
  note T = table_okD [OF t]
  have p: "probe (2 ^ d) (\<lambda>i. vacant (a ! i) \<or> same_issue pk nm (a ! i)) (2 ^ d) (home_slot (2 ^ d) pk) = Some ii"
    using s by (simp add: search_def T(1) vacant_def)
  note L = probe_less [OF p home_slot_less]
  show l: "ii < length a" using L(1) T(1) by simp
  have "asset_home (2 ^ d) (asset_key r) = home_slot (2 ^ d) pk" if "same_issue pk nm r" for r
    using that by (cases r) (auto simp: asset_home_def intro: low_key_home)
  moreover have "r \<noteq> EMPTY" if "same_issue pk nm r" for r using that by (cases r) auto
  ultimately show "a ! ii \<noteq> EMPTY \<longleftrightarrow> (\<exists>i<length a. same_issue pk nm (a ! i))"
    using as_tbl.probe_vacant(1) [OF T(1,2) p home_slot_less] L(2) l by (auto simp: vacant_def live_def)
  show "a ! k \<noteq> EMPTY" if "a ! ii = EMPTY" "k < 2 ^ d" "steps_to (2 ^ d) (home_slot (2 ^ d) pk) k < steps_to (2 ^ d) (home_slot (2 ^ d) pk) ii"
    using as_tbl.probe_vacant(2) [OF T(1,2) p home_slot_less _ that(2,3)] that(1) by (simp add: vacant_def)
qed

lemma issue_outcome:
  assumes u: "universe_ok d (assets u)" and n: "0 \<le> sint n" and free: "3 \<le> free_slots (assets u)"
    and new: "\<not> (\<exists>i<length (assets u). same_issue pk nm (assets u ! i))"
  shows "\<exists>ii oi pi u'. issueAsset pk nm dp um n mc u = Some (n, Some (ii, oi, pi), u') \<and> universe_ok d (assets u') \<and>
    assets u' ! ii = ISSUANCE pk (nm AND name_mask) dp (um AND name_mask) \<and> held (assets u') ii = sint n \<and>
    extends (assets u) (assets u') \<and>
    (\<forall>t. sharesAt (assets u') t = sharesAt (assets u) t + (if t = (pk, nm AND name_mask, pk, mc, pk, mc) then sint n else 0))"
proof -
  let ?a = "assets u" and ?nm = "nm AND name_mask" and ?um = "um AND name_mask"
  have t: "table_ok d ?a" and am: "amounts_ok ?a" using u by (simp_all add: universe_ok_def)
  obtain ii where s: "search (same_issue pk nm) pk ?a = Some ii" using search_returns [OF table_okD(1) [OF t]] free by fastforce
  note S = search_same_issue [OF t s]
  have e: "?a ! ii = EMPTY" using S(2) new by blast
  have ab: "asset_key (?a ! i) \<noteq> ISSUANCE pk ?nm 0 0" if "i < length ?a" for i
    using new that by (cases "?a ! i") auto
  obtain oi pi a2 a3 where r: "next_empty ii (?a[ii := ISSUANCE pk ?nm dp ?um]) = Some oi"
    "a2 = ?a[ii := ISSUANCE pk ?nm dp ?um, oi := OWNERSHIP pk mc ii n]" "next_empty oi a2 = Some pi" "a3 = a2[pi := POSSESSION pk mc oi n]"
    and x: "?a ! oi = EMPTY" "?a ! pi = EMPTY" "distinct [ii, oi, pi]" "oi < length ?a" "pi < length ?a"
    and a3: "table_ok d a3" "extends ?a a3" and H: "\<And>i. held a3 i = held ?a i + (if i = ii \<or> i = oi then sint n else 0)"
    and P: "\<And>p. sharesAt a3 p = sharesAt ?a p + (if p = (pk, ?nm, pk, mc, pk, mc) then sint n else 0)"
    by (rule issue_records [where dp = dp and um = ?um and mc = mc and n = n, OF t S(1) e S(3) [OF e] ab free], assumption+, rule that, assumption+)
  have slots: "a3 ! ii = ISSUANCE pk ?nm dp ?um" "a3 ! oi = OWNERSHIP pk mc ii n" "a3 ! pi = POSSESSION pk mc oi n"
    "i \<notin> {ii, oi, pi} \<Longrightarrow> a3 ! i = ?a ! i" for i using x S(1) by (simp_all add: r(2,4))
  have h0: "held ?a ii = 0" "held ?a oi = 0" using held_empty [OF t] e x(1) by simp_all
  have "amount_ok a3 i (a3 ! i)" if "i < length ?a" for i
  proof (cases "i \<in> {ii, oi, pi}")
    case True
    then show ?thesis using slots H h0 n sint_lt [of n] x(3) by auto
  next
    case False
    then show ?thesis using slots(4) [OF False] am that amount_ok_cong [of a3 i ?a] H by (simp add: amounts_ok_def)
  qed
  then have "universe_ok d a3" using a3 by (simp add: universe_ok_def amounts_ok_def extends_def)
  moreover have "held a3 ii = sint n" using H h0 by simp
  ultimately show ?thesis using s e r slots(1) a3(2) P by (simp add: issueAsset_def Let_def)
qed

lemma universe_ok_empty: "universe_ok d (replicate (2 ^ d) EMPTY)"
  by (simp add: universe_ok_def table_ok_def amounts_ok_def chained_def keys_unique_def live_def)

end
