(* ===== verification/Assets_Ledger.thy ===== *)
theory Assets_Ledger
  imports Assets_Issue
begin

text \<open>
  The universe as a ledger of shares by position: what issuing, transferring, burning and looking up do to it.
\<close>

section \<open>A concrete universe\<close>

text \<open>Issuer 5 holds all 100 shares of asset 7, managed by contract 1, in a universe of eight slots.\<close>

definition sampleUniverse :: universe where
  "sampleUniverse = (initAssets 8)\<lparr>assets :=
     (replicate 8 EMPTY)[5 := ISSUANCE 5 7 0 0, 6 := OWNERSHIP 5 1 5 100, 7 := POSSESSION 5 1 6 100]\<rparr>"

lemma sample_issue: "map_option (\<lambda>(n, r, u). (n, r, assets u)) (issueAsset 5 7 0 0 100 1 (initAssets 8)) =
    Some (100, Some (5, 6, 7), assets sampleUniverse)"
  by (simp add: issueAsset_def search_def next_empty_def initAssets_def sampleUniverse_def home_slot_def m256i_u32_def
      name_mask_def Let_def)

lemma sample_ok: "universe_ok 3 (assets sampleUniverse)"
proof -
  have "assets (initAssets 8) = replicate (2 ^ 3) EMPTY" by (simp add: initAssets_def)
  then have "universe_ok 3 (assets (initAssets 8))" using universe_ok_empty [of 3] by simp
  moreover have "3 \<le> free_slots (assets (initAssets 8))" by (simp add: initAssets_def free_slots_def)
  moreover have "\<not> (\<exists>i<length (assets (initAssets 8)). same_issue 5 7 (assets (initAssets 8) ! i))" by (simp add: initAssets_def)
  ultimately obtain ii oi pi u' where "issueAsset 5 7 0 0 100 1 (initAssets 8) = Some (100, Some (ii, oi, pi), u')" "universe_ok 3 (assets u')"
    using issue_outcome [of 3 "initAssets 8" 100 5 7 0 0 1] by fastforce
  then show ?thesis using sample_issue by simp
qed

lemma sample_position: "position_at (assets sampleUniverse) 7 = (5, 7, 5, 1, 5, 1)"
  by (simp add: position_at_def sampleUniverse_def asset_index_def)

lemma sample_possession:
  assumes "j < 8" and "is_possession (assets sampleUniverse ! j)"
  shows "j = 7"
proof -
  have "j = 0 \<or> j = 1 \<or> j = 2 \<or> j = 3 \<or> j = 4 \<or> j = 5 \<or> j = 6 \<or> j = 7" using assms(1) by linarith
  then show ?thesis using assms(2) by (auto simp: sampleUniverse_def)
qed

lemma sample_shares: "sharesAt (assets sampleUniverse) p = (if p = (5, 7, 5, 1, 5, 1) then 100 else 0)"
proof (cases "p = (5, 7, 5, 1, 5, 1)")
  case True
  have "table_ok 3 (assets sampleUniverse)" using sample_ok by (simp add: universe_ok_def)
  from sharesAt_at [OF this, of 7] show ?thesis using True by (simp only: sample_position) (simp add: sampleUniverse_def)
next
  case False
  then have "sharesAt (assets sampleUniverse) p = 0"
    using sample_possession sample_position by (intro sharesAt_none) (auto simp: sampleUniverse_def)
  then show ?thesis using False by simp
qed

lemma sample_slots:
  "assets sampleUniverse ! 5 = ISSUANCE 5 7 0 0" "assets sampleUniverse ! 6 = OWNERSHIP 5 1 5 100"
  "assets sampleUniverse ! 7 = POSSESSION 5 1 6 100"
  by (simp_all add: sampleUniverse_def)

lemma sample_transferable: "transferable (assets sampleUniverse) 6 7 5 30"
  by (simp add: transferable_def sampleUniverse_def)

lemma sample_free: "free_slots (assets sampleUniverse) = 5" "length (assets sampleUniverse) = 8"
proof -
  have "replicate 8 EMPTY = [EMPTY, EMPTY, EMPTY, EMPTY, EMPTY, EMPTY, EMPTY, EMPTY]" by (simp add: numeral_eq_Suc)
  then show "free_slots (assets sampleUniverse) = 5" by (simp add: free_slots_def sampleUniverse_def numeral_eq_Suc)
  show "length (assets sampleUniverse) = 8" by (simp add: sampleUniverse_def)
qed

section \<open>Properties\<close>

text \<open>
  C17: \<open>issueAsset\<close> refuses (with 0 and without any change) exactly when some issuance of the universe has the same
  seven-byte name and an issuer equal in its low 192 bits. Otherwise it creates issuance, ownership and possession
  with all \<open>n\<close> shares at the issuer, changes no other position and keeps the universe well formed.
\<close>

theorem issueAsset_correct:
  assumes "universe_ok d (assets u)" and "0 \<le> sint n" and "3 \<le> free_slots (assets u)"
  shows "if \<exists>i<length (assets u). same_issue pk nm (assets u ! i)
    then issueAsset pk nm dp um n mc u = Some (0, None, u)
    else \<exists>ii oi pi u'. issueAsset pk nm dp um n mc u = Some (n, Some (ii, oi, pi), u') \<and> universe_ok d (assets u') \<and>
      assets u' ! ii = ISSUANCE pk (nm AND name_mask) dp (um AND name_mask) \<and> held (assets u') ii = sint n \<and>
      extends (assets u) (assets u') \<and>
      (\<forall>t. sharesAt (assets u') t = sharesAt (assets u) t + (if t = (pk, nm AND name_mask, pk, mc, pk, mc) then sint n else 0))"
proof (cases "\<exists>i<length (assets u). same_issue pk nm (assets u ! i)")
  case True
  have t: "table_ok d (assets u)" using assms(1) by (simp add: universe_ok_def)
  obtain ii where s: "search (same_issue pk nm) pk (assets u) = Some ii"
    using search_returns [OF table_okD(1) [OF t]] assms(3) by fastforce
  then show ?thesis using search_same_issue(2) [OF t s] True by (simp add: issueAsset_def)
next
  case False
  then show ?thesis using issue_outcome [OF assms False] by (simp only: if_False)
qed


theorem issueAsset_correct_witness:
  "universe_ok 3 (assets (initAssets 8)) \<and> 0 \<le> sint (100 :: i64) \<and> 3 \<le> free_slots (assets (initAssets 8)) \<and>
   (\<exists>r u'. issueAsset 5 7 0 0 100 1 (initAssets 8) = Some (100, Some r, u') \<and> universe_ok 3 (assets u') \<and>
     sharesAt (assets u') (5, 7, 5, 1, 5, 1) = 100)"
proof -
  have a: "assets (initAssets 8) = replicate (2 ^ 3) EMPTY" by (simp add: initAssets_def)
  have h: "universe_ok 3 (assets (initAssets 8))" "0 \<le> sint (100 :: i64)" "3 \<le> free_slots (assets (initAssets 8))"
    using universe_ok_empty [of 3] by (simp_all add: a free_slots_def)
  have "sharesAt (assets (initAssets 8)) p = 0" for p by (rule sharesAt_none) (simp add: a)
  moreover have "\<not> (\<exists>i<length (assets (initAssets 8)). same_issue 5 7 (assets (initAssets 8) ! i))" by (simp add: a)
  then obtain ii oi pi u' where "issueAsset 5 7 0 0 100 1 (initAssets 8) = Some (100, Some (ii, oi, pi), u')" "universe_ok 3 (assets u')"
    "\<And>t. sharesAt (assets u') t = sharesAt (assets (initAssets 8)) t + (if t = (5, 7 AND name_mask, 5, 1, 5, 1) then sint (100 :: i64) else 0)"
    using issueAsset_correct [OF h, of 5 7 0 0 1] by (simp only: if_False) blast
  ultimately show ?thesis using h by (simp add: name_mask_def)
qed

text \<open>
  C15: \<open>transferShareOwnershipAndPossession\<close>. A request that is not covered by the two source records is refused
  without any change, and so is burning shares of a contract. Otherwise exactly \<open>n\<close> shares leave the position of
  the source: to nowhere when the destination is zero (burning), else to the position of the destination under the
  same managing contracts, with the total of every issuance unchanged. The universe stays well formed: tables
  searchable, links right, each ownership the sum of its possessions. The operation returns when two slots are free.
\<close>

theorem transferShareOwnershipAndPossession_correct:
  assumes u: "universe_ok d (assets u)" and i: "so < length (assets u)" "sp < length (assets u)"
    and e: "2 \<le> free_slots (assets u)"
  shows "if (\<nexists>iss. transferable (assets u) so sp iss n) \<or>
            isZero dest \<and> isZero (asset_pk (assets u ! asset_index (assets u ! so)))
         then transferShareOwnershipAndPossession so sp dest n u = Some (False, None, u)
         else let iss = assets u ! asset_index (assets u ! so) in
           \<exists>r u'. transferShareOwnershipAndPossession so sp dest n u = Some (True, r, u') \<and> universe_ok d (assets u') \<and>
             (if isZero dest
              then (\<forall>t. sharesAt (assets u') t = sharesAt (assets u) t - (if t = position_at (assets u) sp then sint n else 0))
              else moved (assets u) (assets u') sp
                (asset_pk iss, asset_name iss, dest, asset_mc (assets u ! so), dest, asset_mc (assets u ! sp)) (sint n))"
proof (cases "\<nexists>iss. transferable (assets u) so sp iss n")
  case True
  then have "transferShareOwnershipAndPossession so sp dest n u = Some (False, None, u)"
    unfolding transferable_cases [OF u i] transferShareOwnershipAndPossession_def
    by (auto split: AssetRecord.splits)
  then show ?thesis using True by simp
next
  case False
  then obtain iss where g: "transferable (assets u) so sp iss n" by blast
  obtain opk omc os ppk pmc ps where c: "assets u ! so = OWNERSHIP opk omc iss os" "assets u ! sp = POSSESSION ppk pmc so ps"
    "\<not> n \<le>s 0" "\<not> (os <s n \<or> ps <s n)" using transferableD [OF g] by metis
  have ix: "asset_index (OWNERSHIP opk omc iss os) = iss" by (simp add: asset_index_def)
  show ?thesis
  proof (cases "isZero dest")
    case True
    note B = burn_correct [OF u g]
    show ?thesis
      using False True B(1,3) by (auto simp: transferShareOwnershipAndPossession_def c ix Let_def)
  next
    case nz: False
    obtain oi pi u' where m: "moveShares so sp iss dest omc dest pmc n u = Some (oi, pi, u')"
      using moveShares_returns [OF u g e] by blast
    show ?thesis
      using False nz moveShares_correct [OF u g m] m by (auto simp: transferShareOwnershipAndPossession_def c ix Let_def)
  qed
qed

theorem transferShareOwnershipAndPossession_correct_witness:
  "universe_ok 3 (assets sampleUniverse) \<and> 2 \<le> free_slots (assets sampleUniverse) \<and>
   (\<exists>r u'. transferShareOwnershipAndPossession 6 7 2 30 sampleUniverse = Some (True, r, u') \<and>
     sharesAt (assets u') (5, 7, 5, 1, 5, 1) = 70 \<and> sharesAt (assets u') (5, 7, 2, 1, 2, 1) = 30)"
proof -
  let ?u = sampleUniverse
  have i: "6 < length (assets ?u)" "7 < length (assets ?u)" "2 \<le> free_slots (assets ?u)" by (simp_all add: sample_free)
  have n: "\<not> ((\<nexists>iss. transferable (assets ?u) 6 7 iss 30) \<or>
      isZero 2 \<and> isZero (asset_pk (assets ?u ! asset_index (assets ?u ! 6))))"
    using sample_transferable by (auto simp: isZero_def)
  have "\<exists>r u'. transferShareOwnershipAndPossession 6 7 2 30 ?u = Some (True, r, u') \<and>
      moved (assets ?u) (assets u') 7 (5, 7, 2, 1, 2, 1) 30"
    using transferShareOwnershipAndPossession_correct [OF sample_ok i, of 30 2] unfolding if_not_P [OF n]
    by (auto simp: isZero_def sample_slots asset_index_def Let_def)
  then show ?thesis using sample_ok i(3) by (auto simp: moved_def sample_shares sample_position)
qed

text \<open>
  C16: \<open>transferShareManagementRights\<close>. A request that is not covered by the two source records is refused without
  any change. Otherwise exactly \<open>n\<close> shares move to the position of the same owner and possessor under the new
  managing contracts, the total of every issuance is unchanged and the universe stays well formed.
\<close>

theorem transferShareManagementRights_correct:
  assumes u: "universe_ok d (assets u)" and i: "so < length (assets u)" "sp < length (assets u)"
    and e: "2 \<le> free_slots (assets u)"
  shows "if \<nexists>iss. transferable (assets u) so sp iss n
         then transferShareManagementRights so sp omc' pmc' n u = Some (False, None, u)
         else let iss = assets u ! asset_index (assets u ! so) in
           \<exists>r u'. transferShareManagementRights so sp omc' pmc' n u = Some (True, Some r, u') \<and> universe_ok d (assets u') \<and>
             moved (assets u) (assets u') sp
               (asset_pk iss, asset_name iss, asset_pk (assets u ! so), omc', asset_pk (assets u ! sp), pmc') (sint n)"
proof (cases "\<nexists>iss. transferable (assets u) so sp iss n")
  case True
  then have "transferShareManagementRights so sp omc' pmc' n u = Some (False, None, u)"
    unfolding transferable_cases [OF u i] transferShareManagementRights_def
    by (auto split: AssetRecord.splits)
  then show ?thesis using True by simp
next
  case False
  then obtain iss where g: "transferable (assets u) so sp iss n" by blast
  obtain opk omc os ppk pmc ps where c: "assets u ! so = OWNERSHIP opk omc iss os" "assets u ! sp = POSSESSION ppk pmc so ps"
    "\<not> n \<le>s 0" "\<not> (os <s n \<or> ps <s n)" using transferableD [OF g] by metis
  have ix: "asset_index (OWNERSHIP opk omc iss os) = iss" by (simp add: asset_index_def)
  obtain oi pi u' where m: "moveShares so sp iss opk omc' ppk pmc' n u = Some (oi, pi, u')"
    using moveShares_returns [OF u g e] by blast
  show ?thesis
    using False moveShares_correct [OF u g m] m by (auto simp: transferShareManagementRights_def c ix Let_def)
qed


theorem transferShareManagementRights_correct_witness:
  "universe_ok 3 (assets sampleUniverse) \<and> 2 \<le> free_slots (assets sampleUniverse) \<and>
   (\<exists>r u'. transferShareManagementRights 6 7 4 3 30 sampleUniverse = Some (True, r, u') \<and>
     sharesAt (assets u') (5, 7, 5, 1, 5, 1) = 70 \<and> sharesAt (assets u') (5, 7, 5, 4, 5, 3) = 30)"
proof -
  let ?u = sampleUniverse
  have i: "6 < length (assets ?u)" "7 < length (assets ?u)" "2 \<le> free_slots (assets ?u)" by (simp_all add: sample_free)
  have n: "\<not> (\<nexists>iss. transferable (assets ?u) 6 7 iss 30)" using sample_transferable by blast
  have "\<exists>r u'. transferShareManagementRights 6 7 4 3 30 ?u = Some (True, r, u') \<and>
      moved (assets ?u) (assets u') 7 (5, 7, 5, 4, 5, 3) 30"
    using transferShareManagementRights_correct [OF sample_ok i, of 30 4 3] unfolding if_not_P [OF n]
    by (auto simp: sample_slots asset_index_def Let_def)
  then show ?thesis using sample_ok i(3) by (auto simp: moved_def sample_shares sample_position)
qed

text \<open>
  C19: \<open>numberOfPossessedShares\<close> returns (its three searches stop, in a universe with a free slot) the shares at the
  position given by issuer, name, owner, possessor and managing contracts: those of the one possession record there,
  and 0 when there is none.
\<close>

theorem numberOfPossessedShares_correct:
  assumes "universe_ok d as" and "1 \<le> free_slots as"
  shows "\<exists>s. numberOfPossessedShares nm iss own poss omc pmc as = Some s \<and> sint s = sharesAt as (iss, nm, own, omc, poss, pmc)"
  using assms free_slot [OF assms(2)] numberOfPossessedShares_sharesAt by (auto simp: universe_ok_def)

theorem numberOfPossessedShares_correct_witness:
  "universe_ok 3 (assets sampleUniverse) \<and> 1 \<le> free_slots (assets sampleUniverse) \<and>
   (\<exists>s. numberOfPossessedShares 7 5 5 5 1 1 (assets sampleUniverse) = Some s \<and> sint s = 100)"
  using numberOfPossessedShares_correct [OF sample_ok, of 7 5 5 5 1 1] sample_ok by (simp add: sample_free sample_shares)

end
