(* ===== verification/Assets_Epoch.thy ===== *)
theory Assets_Epoch
  imports Assets_Ledger
begin

text \<open>
  The end of an epoch: \<open>assetsEndEpoch\<close> rebuilds the table from the possessions that hold shares. The rebuilt
  universe is well formed and has the same shares at every position; the rebuilding never runs out of slots.
\<close>

section \<open>Totals of an issuance\<close>

definition issued_by :: "m256i \<Rightarrow> u64 \<Rightarrow> position \<Rightarrow> bool" where
  "issued_by pk nm p \<longleftrightarrow> fst p = pk \<and> fst (snd p) = nm"

lemma issuance_links:
  assumes t: "table_ok d as" and i: "is_issuance (as ! i)" and o: "ow < length as" "asset_link (as ! ow) = Some i"
  shows "is_ownership (as ! ow)"
  using table_okD(4) [OF t o(1)] o(2) i kinds_disjoint(3) by (cases "as ! ow") auto

lemma issued_by_iff:
  assumes t: "table_ok d as" and i: "i < length as" "as ! i = ISSUANCE pk nm dp um" and p: "p < length as"
  shows "(if issued_by pk nm (position_at as p) then possessed (as ! p) else 0) =
    (\<Sum>ow<length as. if asset_link (as ! ow) = Some i then contrib (as ! p) ow else 0)"
proof -
  have one: "(\<Sum>ow<length as. if asset_link (as ! ow) = Some i then contrib (as ! p) ow else 0) =
    (if asset_link (as ! k) = Some i then sint (asset_shares (as ! p)) else 0)"
    if "asset_link (as ! p) = Some k" "k < length as" for k
  proof -
    have "(if asset_link (as ! ow) = Some i then contrib (as ! p) ow else 0) =
      (if ow = k then if asset_link (as ! k) = Some i then sint (asset_shares (as ! p)) else 0 else 0)" for ow
      using that by (auto simp: contrib_def)
    then show ?thesis using that(2) by simp
  qed
  show ?thesis
  proof (cases "is_possession (as ! p)")
    case True
    show ?thesis
    proof (rule possession_chain [OF t p True])
      fix ppk mc k n opk omc i' m iss nm' dp' um'
      assume c: "as ! p = POSSESSION ppk mc k n" "k < length as" "as ! k = OWNERSHIP opk omc i' m" "i' < length as"
        "as ! i' = ISSUANCE iss nm' dp' um'" "position_at as p = (iss, nm', opk, omc, ppk, mc)"
      have "issued_by pk nm (position_at as p) \<longleftrightarrow> i' = i"
        using c i key_unique [OF t c(4) i(1)] by (auto simp: issued_by_def)
      then show ?thesis using one [of k] c by (simp add: possessed_def)
    qed
  next
    case False
    have "(\<Sum>ow<length as. if asset_link (as ! ow) = Some i then contrib (as ! p) ow else 0) = 0"
    proof (rule sum.neutral, intro ballI)
      fix ow
      assume "ow \<in> {..<length as}"
      then show "(if asset_link (as ! ow) = Some i then contrib (as ! p) ow else 0) = 0"
        using False table_okD(4) [OF t p] issuance_links [OF t, of i ow] i kinds_disjoint(3)
        by (cases "as ! p") (auto simp: contrib_def)
    qed
    then show ?thesis using False by (simp add: possessed_def)
  qed
qed

lemma issued_held:
  assumes u: "universe_ok d as" and i: "i < length as" "as ! i = ISSUANCE pk nm dp um"
  shows "totalAt as (issued_by pk nm) = held as i"
proof -
  have t: "table_ok d as" and am: "amounts_ok as" using u by (simp_all add: universe_ok_def)
  have "totalAt as (issued_by pk nm) = (\<Sum>p<length as. \<Sum>ow<length as. if asset_link (as ! ow) = Some i then contrib (as ! p) ow else 0)"
    unfolding totalAt_def by (rule sum.cong) (use issued_by_iff [OF t i] in auto)
  also have "\<dots> = (\<Sum>ow<length as. \<Sum>p<length as. if asset_link (as ! ow) = Some i then contrib (as ! p) ow else 0)"
    by (rule sum.swap)
  also have "\<dots> = (\<Sum>ow<length as. contrib (as ! ow) i)"
  proof (rule sum.cong)
    fix ow
    assume "ow \<in> {..<length as}"
    then have ow: "ow < length as" by simp
    show "(\<Sum>p<length as. if asset_link (as ! ow) = Some i then contrib (as ! p) ow else 0) = contrib (as ! ow) i"
    proof (cases "asset_link (as ! ow) = Some i")
      case True
      then have "held as ow = sint (asset_shares (as ! ow))"
        using issuance_links [OF t _ ow True] am ow i by (cases "as ! ow") (auto simp: amounts_ok_def)
      then show ?thesis using True by (simp add: contrib_def held_def)
    qed (simp add: contrib_def)
  qed simp
  finally show ?thesis by (simp add: held_def)
qed

section \<open>Enough slots\<close>

text \<open>
  A record together with what its links lead to, without the slot indices: what a record of the old table and its
  copy in the new one have in common.
\<close>

fun attr :: "AssetRecord \<Rightarrow> AssetRecord" where
  "attr EMPTY = EMPTY"
| "attr (ISSUANCE pk nm dp um) = ISSUANCE pk nm 0 0"
| "attr (OWNERSHIP pk mc k n) = OWNERSHIP pk mc 0 0"
| "attr (POSSESSION pk mc k n) = POSSESSION pk mc 0 0"

definition identity :: "AssetRecord list \<Rightarrow> nat \<Rightarrow> AssetRecord list" where
  "identity as j = attr (as ! j) # (case asset_link (as ! j) of None \<Rightarrow> [] | Some k \<Rightarrow>
     attr (as ! k) # (case asset_link (as ! k) of None \<Rightarrow> [] | Some i \<Rightarrow> [attr (as ! i)]))"

definition identities :: "AssetRecord list \<Rightarrow> AssetRecord list set" where
  "identities as = identity as ` {j. j < length as \<and> as ! j \<noteq> EMPTY}"

lemma identity_simps:
  "as ! j = ISSUANCE pk nm dp um \<Longrightarrow> identity as j = [ISSUANCE pk nm 0 0]"
  "as ! j = OWNERSHIP pk mc k n \<Longrightarrow> as ! k = ISSUANCE ipk nm dp um \<Longrightarrow> identity as j = [OWNERSHIP pk mc 0 0, ISSUANCE ipk nm 0 0]"
  "as ! j = POSSESSION ppk pmc k n \<Longrightarrow> as ! k = OWNERSHIP pk mc i m \<Longrightarrow> as ! i = ISSUANCE ipk nm dp um \<Longrightarrow>
     identity as j = [POSSESSION ppk pmc 0 0, OWNERSHIP pk mc 0 0, ISSUANCE ipk nm 0 0]"
  by (simp_all add: identity_def)

text \<open>The records with a given identity are those with the corresponding key.\<close>

lemma identity_issuance:
  assumes t: "table_ok d as"
  shows "[ISSUANCE pk nm 0 0] \<in> identities as \<longleftrightarrow> (\<exists>j<length as. asset_key (as ! j) = ISSUANCE pk nm 0 0)"
proof -
  have "identity as j = [ISSUANCE pk nm 0 0] \<and> as ! j \<noteq> EMPTY \<longleftrightarrow> asset_key (as ! j) = ISSUANCE pk nm 0 0" for j
    by (cases "as ! j") (auto simp: identity_def)
  then show ?thesis by (auto simp: identities_def image_iff) metis+
qed

lemma identity_ownership:
  assumes t: "table_ok d as" and i: "i < length as" "asset_key (as ! i) = ISSUANCE ipk nm 0 0"
  shows "[OWNERSHIP pk mc 0 0, ISSUANCE ipk nm 0 0] \<in> identities as \<longleftrightarrow> (\<exists>j<length as. asset_key (as ! j) = OWNERSHIP pk mc i 0)"
proof -
  have "identity as j = [OWNERSHIP pk mc 0 0, ISSUANCE ipk nm 0 0] \<and> as ! j \<noteq> EMPTY \<longleftrightarrow> asset_key (as ! j) = OWNERSHIP pk mc i 0"
    if j: "j < length as" for j
  proof (cases "as ! j")
    case (OWNERSHIP pk' mc' k n)
    then have k: "k < length as" "is_issuance (as ! k)" using table_okD(4) [OF t j] by auto
    then obtain ipk' nm' dp um where I: "as ! k = ISSUANCE ipk' nm' dp um" by (cases "as ! k") auto
    have "ipk' = ipk \<and> nm' = nm \<longleftrightarrow> k = i" using key_unique [OF t k(1) i(1)] I i(2) by auto
    then show ?thesis using OWNERSHIP I by (auto simp: identity_simps)
  qed (auto simp: identity_def split: option.splits)
  then show ?thesis by (auto simp: identities_def image_iff) metis+
qed

lemma identity_possession:
  assumes t: "table_ok d as" and i: "i < length as" "asset_key (as ! i) = ISSUANCE ipk nm 0 0"
    and k: "k < length as" "asset_key (as ! k) = OWNERSHIP pk mc i 0"
  shows "[POSSESSION ppk pmc 0 0, OWNERSHIP pk mc 0 0, ISSUANCE ipk nm 0 0] \<in> identities as \<longleftrightarrow>
    (\<exists>j<length as. asset_key (as ! j) = POSSESSION ppk pmc k 0)"
proof -
  have "identity as j = [POSSESSION ppk pmc 0 0, OWNERSHIP pk mc 0 0, ISSUANCE ipk nm 0 0] \<and> as ! j \<noteq> EMPTY \<longleftrightarrow>
      asset_key (as ! j) = POSSESSION ppk pmc k 0" if j: "j < length as" for j
  proof (cases "is_possession (as ! j)")
    case True
    show ?thesis
    proof (rule possession_chain [OF t j True])
      fix ppk' pmc' k' n pk' mc' i' m ipk' nm' dp um
      assume c: "as ! j = POSSESSION ppk' pmc' k' n" "k' < length as" "as ! k' = OWNERSHIP pk' mc' i' m" "i' < length as"
        "as ! i' = ISSUANCE ipk' nm' dp um"
      have "ipk' = ipk \<and> nm' = nm \<longleftrightarrow> i' = i" using key_unique [OF t c(4) i(1)] c i(2) by auto
      moreover have "pk' = pk \<and> mc' = mc \<and> i' = i \<longleftrightarrow> k' = k" using key_unique [OF t c(2) k(1)] c k(2) by auto
      ultimately show ?thesis using c by (auto simp: identity_simps)
    qed
  next
    case False
    then show ?thesis by (cases "as ! j") (auto simp: identity_def)
  qed
  then show ?thesis by (auto simp: identities_def image_iff) metis+
qed

lemma attr_key: "asset_key r = asset_key r' \<Longrightarrow> attr r = attr r'"
  by (cases r; cases r') auto

lemma identity_extends:
  assumes t: "table_ok d as" and e: "extends as as'" and j: "j < length as" "as ! j \<noteq> EMPTY"
  shows "identity as' j = identity as j"
proof -
  have "attr (as' ! i) = attr (as ! i) \<and> asset_link (as' ! i) = asset_link (as ! i)" if "i < length as" "as ! i \<noteq> EMPTY" for i
    using extends_key [OF e that] attr_key asset_key_eqD(5) by metis
  moreover have "k < length as \<and> as ! k \<noteq> EMPTY" if "i < length as" "asset_link (as ! i) = Some k" for i k
    using table_okD(4) [OF t that(1)] that(2) by (cases "as ! i") auto
  ultimately show ?thesis using j by (auto simp: identity_def split: option.splits) metis+
qed

lemma identities_update:
  assumes t: "table_ok d as" and j: "j < length as" and e: "extends as (as[j := r])"
  shows "identities (as[j := r]) \<subseteq> insert (identity (as[j := r]) j) (identities as)"
proof
  fix x
  assume "x \<in> identities (as[j := r])"
  then obtain i where i: "i < length as" "as[j := r] ! i \<noteq> EMPTY" "x = identity (as[j := r]) i" by (auto simp: identities_def)
  then show "x \<in> insert (identity (as[j := r]) j) (identities as)"
    using identity_extends [OF t e i(1)] by (cases "i = j") (auto simp: identities_def)
qed

lemma identity_inj:
  assumes t: "table_ok d as" and a: "a < length as" "as ! a \<noteq> EMPTY" and b: "b < length as" "as ! b \<noteq> EMPTY"
    and e: "identity as a = identity as b"
  shows "a = b"
proof (cases "as ! a")
  case (ISSUANCE pk nm dp um)
  then have "asset_key (as ! b) = ISSUANCE pk nm 0 0" using e b by (cases "as ! b") (auto simp: identity_def split: option.splits)
  then show ?thesis using key_unique [OF t a(1) b(1) a(2)] ISSUANCE by simp
next
  case (OWNERSHIP pk mc k n)
  then have k: "k < length as" "is_issuance (as ! k)" using table_okD(4) [OF t a(1)] by auto
  then obtain ipk nm dp um where I: "as ! k = ISSUANCE ipk nm dp um" by (cases "as ! k") auto
  have "\<exists>k' n'. as ! b = OWNERSHIP pk mc k' n'" using e b OWNERSHIP I
    by (cases "as ! b") (auto simp: identity_def split: option.splits)
  then obtain k' n' where b': "as ! b = OWNERSHIP pk mc k' n'" by blast
  then have k': "k' < length as" "is_issuance (as ! k')" using table_okD(4) [OF t b(1)] by auto
  then have "asset_key (as ! k') = ISSUANCE ipk nm 0 0" using e OWNERSHIP I b' by (cases "as ! k'") (auto simp: identity_simps)
  then have "k' = k" using key_unique [OF t k(1) k'(1)] I by simp
  then show ?thesis using key_unique [OF t a(1) b(1) a(2)] OWNERSHIP b' by simp
next
  case (POSSESSION pk mc k n)
  then have pa: "is_possession (as ! a)" by simp
  have pb: "is_possession (as ! b)" using e POSSESSION by (cases "as ! b") (auto simp: identity_def)
  have "position_at as a = position_at as b"
  proof (rule possession_chain [OF t a(1) pa], rule possession_chain [OF t b(1) pb])
    fix pk mc k n opk omc i m iss nm dp um pk' mc' k' n' opk' omc' i' m' iss' nm' dp' um'
    assume "as ! a = POSSESSION pk mc k n" "as ! k = OWNERSHIP opk omc i m" "as ! i = ISSUANCE iss nm dp um"
      "position_at as a = (iss, nm, opk, omc, pk, mc)" "as ! b = POSSESSION pk' mc' k' n'" "as ! k' = OWNERSHIP opk' omc' i' m'"
      "as ! i' = ISSUANCE iss' nm' dp' um'" "position_at as b = (iss', nm', opk', omc', pk', mc')"
    then show ?thesis using e by (simp add: identity_simps)
  qed
  then show ?thesis using position_inj [OF t a(1) pa b(1) pb] by simp
qed (use a in simp)

lemma card_identities:
  assumes "table_ok d as"
  shows "card (identities as) + free_slots as = length as"
proof -
  have "card (identities as) = card {j. j < length as \<and> as ! j \<noteq> EMPTY}"
    unfolding identities_def by (rule card_image) (use identity_inj [OF assms] in \<open>auto intro!: inj_onI\<close>)
  also have "\<dots> = length (filter (\<lambda>r. r \<noteq> EMPTY) as)" by (simp add: length_filter_conv_card)
  finally show ?thesis using sum_length_filter_compl [of "\<lambda>r. r = EMPTY" as] by (simp add: free_slots_def)
qed

lemma room:
  assumes n: "table_ok d new" and o: "table_ok d as" and sub: "identities new \<subseteq> identities as"
    and x: "x \<in> identities as" "x \<notin> identities new"
  shows "1 \<le> free_slots new"
proof -
  have "finite (identities as)" by (simp add: identities_def)
  then have "card (identities new) < card (identities as)" using sub x by (metis psubsetI psubset_card_mono)
  then show ?thesis using card_identities [OF n] card_identities [OF o] table_okD(1) [OF n] table_okD(1) [OF o] by simp
qed

lemma identity_keys:
  "asset_key (as ! i) = ISSUANCE ipk nm 0 0 \<Longrightarrow> asset_key (as ! k) = OWNERSHIP pk mc i 0 \<Longrightarrow>
     identity as k = [OWNERSHIP pk mc 0 0, ISSUANCE ipk nm 0 0]"
  "asset_key (as ! i) = ISSUANCE ipk nm 0 0 \<Longrightarrow> asset_key (as ! k) = OWNERSHIP pk mc i 0 \<Longrightarrow>
     asset_key (as ! j) = POSSESSION ppk pmc k 0 \<Longrightarrow>
     identity as j = [POSSESSION ppk pmc 0 0, OWNERSHIP pk mc 0 0, ISSUANCE ipk nm 0 0]"
  by (cases "as ! i"; cases "as ! k"; cases "as ! j"; simp add: identity_def)+

section \<open>One possession\<close>

text \<open>A search for a key of the old table stops: at the key, or at a slot that is free because the key is new.\<close>

lemma search_stops:
  assumes new: "table_ok d new" and o: "table_ok d as" and sub: "identities new \<subseteq> identities as"
    and x: "x \<in> identities as" and k: "x \<in> identities new \<longleftrightarrow> (\<exists>j<length new. asset_key (new ! j) = K)"
    and m: "\<And>r. match r \<longleftrightarrow> asset_key r = K"
  shows "\<exists>j. search match pk new = Some j"
proof (cases "x \<in> identities new")
  case True
  then show ?thesis using k m search_total [OF table_okD(1) [OF new]] by metis
next
  case False
  then show ?thesis using room [OF new o sub x] search_returns [OF table_okD(1) [OF new]] by blast
qed

lemma reorg_issuance:
  assumes u: "universe_ok d new" and o: "table_ok d as" and sub: "identities new \<subseteq> identities as"
    and i: "i < length as" "as ! i = ISSUANCE pk nm dp um"
  obtains ii new1 where "search (issuance_of pk nm) pk new = Some ii" "new1 = (if new ! ii = EMPTY then new[ii := as ! i] else new)"
    "universe_ok d new1" "identities new1 \<subseteq> identities as" "\<And>Q. totalAt new1 Q = totalAt new Q"
    "ii < length new1" "asset_key (new1 ! ii) = ISSUANCE pk nm 0 0" "set new1 \<subseteq> set new \<union> {as ! i}"
proof -
  have t: "table_ok d new" and am: "amounts_ok new" using u by (simp_all add: universe_ok_def)
  let ?K = "ISSUANCE pk nm 0 0"
  have x: "[?K] \<in> identities as" using identity_issuance [OF o, of pk nm] i by auto
  obtain ii where ii: "search (issuance_of pk nm) pk new = Some ii"
    using search_stops [OF t o sub x identity_issuance [OF t] of_key(1)] by blast
  note S = search_slot [of d new "issuance_of pk nm" ?K, OF t _ of_key(1), simplified, OF ii]
  define new1 where "new1 = (if new ! ii = EMPTY then new[ii := as ! i] else new)"
  show thesis
  proof (cases "new ! ii = EMPTY")
    case False
    then show thesis using that [OF ii new1_def] u sub S(1,2) by (auto simp: new1_def)
  next
    case True
    have n1: "new1 = new[ii := ISSUANCE pk nm dp um]" using True i by (simp add: new1_def)
    have W: "table_ok d new1" "extends new new1" using S(3,4) [of "ISSUANCE pk nm dp um"] by (simp_all add: n1)
    have "held new1 k = held new k" for k using held_update [OF S(1)] True by (simp add: n1 contrib_def)
    then have "amount_ok new1 k (new1 ! k)" if "k < length new" for k
      using that am held_empty [OF t True] amount_ok_cong [of new1 k new] by (cases "k = ii") (auto simp: n1 amounts_ok_def)
    then have u1: "universe_ok d new1" using W by (simp add: universe_ok_def amounts_ok_def n1)
    have T: "totalAt new1 Q = totalAt new Q" for Q
      using totalAt_update [OF t S(1) disjI1 [OF True]] True by (simp add: n1 possessed_def)
    have id: "identities new1 \<subseteq> identities as"
      using identities_update [OF t S(1), of "ISSUANCE pk nm dp um"] W(2) S(1) sub x by (auto simp: n1 identity_simps)
    have "set new1 \<subseteq> set new \<union> {as ! i}" using set_update_subset_insert [of new ii] i by (auto simp: n1)
    then show thesis using that [OF ii new1_def u1 id T] S(1) by (simp add: n1)
  qed
qed

lemma reorg_ownership:
  assumes u: "universe_ok d new" and o: "table_ok d as" and sub: "identities new \<subseteq> identities as"
    and ii: "ii < length new" "asset_key (new ! ii) = ISSUANCE ipk nm 0 0"
    and x: "[OWNERSHIP pk mc 0 0, ISSUANCE ipk nm 0 0] \<in> identities as"
    and N: "0 < sint n" "held new ii + sint n < 2 ^ 63"
  obtains oi new2 where "search (ownership_of pk mc ii) pk new = Some oi" "new2 = credit (OWNERSHIP pk mc ii 0) n oi new"
    "table_ok d new2" "extends new new2" "identities new2 \<subseteq> identities as" "asset_key (new2 ! oi) = OWNERSHIP pk mc ii 0" "oi < length new"
    "\<And>k. held new2 k = held new k + (if ii = k then sint n else 0)"
    "\<And>k. sint (asset_shares (new2 ! k)) = sint (asset_shares (new ! k)) + (if k = oi then sint n else 0)"
    "\<And>Q. totalAt new2 Q = totalAt new Q" "held new oi = sint (asset_shares (new ! oi))" "held new oi + sint n < 2 ^ 63"
proof -
  let ?K = "OWNERSHIP pk mc ii 0"
  have t: "table_ok d new" and am: "amounts_ok new" using u by (simp_all add: universe_ok_def)
  obtain oi where oi: "search (ownership_of pk mc ii) pk new = Some oi"
    using search_stops [OF t o sub x identity_ownership [OF t ii] of_key(2)] by blast
  have l: "link_ok new ?K" using ii by (cases "new ! ii") auto
  note S = search_slot [of d new "ownership_of pk mc ii" ?K, OF t _ of_key(2) _ _ l, simplified, OF oi]
  have h: "held new oi = sint (asset_shares (new ! oi))"
  proof (cases "new ! oi = EMPTY")
    case True
    then show ?thesis using held_empty [OF t] by simp
  next
    case False
    then have "asset_key (new ! oi) = ?K" using S(2) by simp
    then show ?thesis using am S(1) by (cases "new ! oi") (auto simp: amounts_ok_def)
  qed
  have b: "sint (asset_shares (new ! oi)) \<le> held new ii"
  proof (cases "new ! oi = EMPTY")
    case True
    then show ?thesis using contrib_le_held [OF am S(1), of ii] by simp
  next
    case False
    then have "asset_link (new ! oi) = Some ii" using S(2) asset_key_eqD(5) [of "new ! oi" ?K] by simp
    then show ?thesis using contrib_le_held [OF am S(1), of ii] by (simp add: contrib_def)
  qed
  have x2: "sint (asset_shares (new ! oi) + n) = sint (asset_shares (new ! oi)) + sint n"
    using N b shares_nonneg [OF am S(1)] by (intro sint_put_exact) simp_all
  define new2 where "new2 = credit ?K n oi new"
  have oi': "search (ownership_of pk mc ii) (asset_pk ?K) new = Some oi" using oi by simp
  note C = credit_found [where l = ii, OF t oi' of_key(2) _ _ l x2, folded new2_def, simplified]
  have ne: "new ! ii \<noteq> EMPTY" using ii by auto
  have "asset_key (new2 ! ii) = ISSUANCE ipk nm 0 0" using extends_key [OF C(2) ii(1) ne] ii(2) by simp
  note id = identity_keys(1) [OF this C(3)]
  have "identities new2 \<subseteq> identities as"
    using identities_update [OF t S(1), of "add_shares n (if new ! oi = EMPTY then ?K else new ! oi)"] C(2) id sub x
    by (auto simp: new2_def credit_def)
  then show thesis using that [OF oi new2_def C(1,2) _ C(3) S(1) C(4,5,6) h] b h N(2) by simp
qed

lemma reorg_possession:
  assumes t: "table_ok d new" and nn: "\<And>j. j < length new \<Longrightarrow> 0 \<le> sint (asset_shares (new ! j))"
    and o: "table_ok d as" and sub: "identities new \<subseteq> identities as"
    and ii: "ii < length new" "asset_key (new ! ii) = ISSUANCE ipk nm 0 0"
    and oi: "oi < length new" "asset_key (new ! oi) = OWNERSHIP pk mc ii 0"
    and x: "[POSSESSION ppk pmc 0 0, OWNERSHIP pk mc 0 0, ISSUANCE ipk nm 0 0] \<in> identities as"
    and N: "0 < sint n" "held new oi + sint n < 2 ^ 63"
  obtains pi new3 where "search (possession_of ppk pmc oi) ppk new = Some pi" "new3 = credit (POSSESSION ppk pmc oi 0) n pi new"
    "table_ok d new3" "extends new new3" "identities new3 \<subseteq> identities as" "is_possession (new3 ! pi)" "pi < length new"
    "\<And>k. held new3 k = held new k + (if oi = k then sint n else 0)"
    "\<And>k. sint (asset_shares (new3 ! k)) = sint (asset_shares (new ! k)) + (if k = pi then sint n else 0)"
    "\<And>Q. totalAt new3 Q = totalAt new Q + (if Q (ipk, nm, pk, mc, ppk, pmc) then sint n else 0)"
proof -
  let ?K = "POSSESSION ppk pmc oi 0"
  obtain pi where pi: "search (possession_of ppk pmc oi) ppk new = Some pi"
    using search_stops [OF t o sub x identity_possession [OF t ii oi] of_key(3)] by blast
  then have pi': "search (possession_of ppk pmc oi) (asset_pk ?K) new = Some pi" by simp
  have l: "link_ok new ?K" using oi by (cases "new ! oi") auto
  note S = search_slot [OF t pi' of_key(3) _ _ l, simplified]
  have b: "sint (asset_shares (new ! pi)) \<le> held new oi"
  proof (cases "new ! pi = EMPTY")
    case True
    then show ?thesis using contrib_le_held_nonneg [of new pi oi] nn S(1) by simp
  next
    case False
    then have "asset_link (new ! pi) = Some oi" using S(2) asset_key_eqD(5) [of "new ! pi" ?K] by simp
    then show ?thesis using contrib_le_held_nonneg [of new pi oi] nn S(1) by (simp add: contrib_def)
  qed
  have x2: "sint (asset_shares (new ! pi) + n) = sint (asset_shares (new ! pi)) + sint n"
    using N b nn [OF S(1)] by (intro sint_put_exact) simp_all
  define new3 where "new3 = credit ?K n pi new"
  note C = credit_found [where l = oi, OF t pi' of_key(3) _ _ l x2, folded new3_def, simplified]
  have ne: "new ! ii \<noteq> EMPTY" "new ! oi \<noteq> EMPTY" using ii oi by auto
  have k: "asset_key (new3 ! ii) = ISSUANCE ipk nm 0 0" "asset_key (new3 ! oi) = OWNERSHIP pk mc ii 0"
    using extends_key [OF C(2) ii(1) ne(1)] ii(2) extends_key [OF C(2) oi(1) ne(2)] oi(2) by simp_all
  note id = identity_keys(2) [OF k C(3)] and pos = keys_position(1,2) [OF k C(3)]
  have "identities new3 \<subseteq> identities as"
    using identities_update [OF t S(1), of "add_shares n (if new ! pi = EMPTY then ?K else new ! pi)"] C(2) id sub x
    by (auto simp: new3_def credit_def)
  then show thesis using that [OF pi new3_def C(1,2) _ pos(2) S(1) C(4,5)] C(6) pos(1) by simp
qed

section \<open>The loop\<close>

text \<open>The new table after the first \<open>n\<close> slots: a well-formed universe with no records but those of the old
  one, in which every position has the shares that the first \<open>n\<close> slots have.\<close>

definition copied :: "AssetRecord list \<Rightarrow> nat \<Rightarrow> (position \<Rightarrow> bool) \<Rightarrow> int" where
  "copied as n Q = (\<Sum>j<n. if Q (position_at as j) then possessed (as ! j) else 0)"

definition rebuilt :: "nat \<Rightarrow> AssetRecord list \<Rightarrow> nat \<Rightarrow> AssetRecord list \<Rightarrow> bool" where
  "rebuilt d as n new \<longleftrightarrow> universe_ok d new \<and> identities new \<subseteq> identities as \<and> (\<forall>Q. totalAt new Q = copied as n Q) \<and>
     (\<forall>r\<in>set new. (is_issuance r \<longrightarrow> r \<in> set as) \<and> (is_possession r \<longrightarrow> 0 < sint (asset_shares r)))"

lemma copied_bound:
  assumes u: "universe_ok d as" and j: "j < length as"
    and i: "i < length as" "as ! i = ISSUANCE pk nm dp um" and q: "issued_by pk nm (position_at as j)"
  shows "copied as j (issued_by pk nm) + possessed (as ! j) < 2 ^ 63"
proof -
  have am: "amounts_ok as" using u by (simp add: universe_ok_def)
  have "copied as j (issued_by pk nm) + possessed (as ! j) = copied as (Suc j) (issued_by pk nm)"
    using q by (simp add: copied_def)
  also have "\<dots> \<le> copied as (length as) (issued_by pk nm)"
    unfolding copied_def by (rule sum_mono2) (use j shares_nonneg [OF am] in \<open>auto simp: possessed_def\<close>)
  also have "\<dots> = held as i" using issued_held [OF u i] by (simp add: copied_def totalAt_def)
  also have "\<dots> < 2 ^ 63" using am i by (auto simp: amounts_ok_def dest!: spec [of _ i])
  finally show ?thesis .
qed

lemma credit_other: "k \<noteq> j \<Longrightarrow> credit K m j as ! k = as ! k"
  by (simp add: credit_def)

lemma credit_set: "r \<in> set (credit K m j as) \<Longrightarrow> r \<in> set as \<or> r = credit K m j as ! j"
  unfolding in_set_conv_nth by (metis credit_def credit_other length_list_update)

text \<open>What a positive possession of the old table becomes in the new one.\<close>

lemma amounts_credited:
  fixes N :: int
  assumes am: "amounts_ok a" and len: "length a' = length a" and same: "\<And>k. k \<noteq> oi \<Longrightarrow> k \<noteq> pi \<Longrightarrow> a' ! k = a ! k"
    and K: "is_issuance (a' ! ii)" "is_ownership (a' ! oi)" "is_possession (a' ! pi)"
    and H: "\<And>k. held a' k = held a k + (if ii = k then N else 0) + (if oi = k then N else 0)"
    and S: "\<And>k. sint (asset_shares (a' ! k)) = sint (asset_shares (a ! k)) + (if k = oi then N else 0) + (if k = pi then N else 0)"
    and h: "held a oi = sint (asset_shares (a ! oi))" and N: "0 < N" "held a ii + N < 2 ^ 63" and l: "oi < length a" "pi < length a"
  shows "amounts_ok a'"
  unfolding amounts_ok_def
proof (intro allI impI)
  fix k assume "k < length a'"
  then have k: "k < length a" using len by simp
  have d: "ii \<noteq> oi" "oi \<noteq> pi" "ii \<noteq> pi" using K kinds_disjoint by metis+
  consider "k = ii" | "k = oi" | "k = pi" | "k \<noteq> ii" "k \<noteq> oi" "k \<noteq> pi" by blast
  then show "amount_ok a' k (a' ! k)"
  proof cases
    case 1
    then show ?thesis using K(1) H [of k] N d by (cases "a' ! k") auto
  next
    case 2
    then show ?thesis using K(2) H [of k] S [of k] N d h shares_nonneg [OF am l(1)] by (cases "a' ! k") auto
  next
    case 3
    then show ?thesis using K(3) S [of k] N d shares_nonneg [OF am l(2)] by (cases "a' ! k") auto
  next
    case 4
    then show ?thesis using same [of k] H [of k] am k amount_ok_cong [of a' k a] by (simp add: amounts_ok_def)
  qed
qed

lemma reorgAsset_form:
  assumes p: "is_possession (as ! i)" "0 < sint (asset_shares (as ! i))"
    and c: "as ! i = POSSESSION pk mc k n" "as ! k = OWNERSHIP opk omc i' m" "as ! i' = ISSUANCE ipk nm dp um"
    and s: "search (issuance_of ipk nm) ipk new = Some ii" "new1 = (if new ! ii = EMPTY then new[ii := as ! i'] else new)"
      "search (ownership_of opk omc ii) opk new1 = Some oi" "new2 = credit (OWNERSHIP opk omc ii 0) n oi new1"
      "search (possession_of pk mc oi) pk new2 = Some pi" "new3 = credit (POSSESSION pk mc oi 0) n pi new2"
  shows "reorgAsset as i new = Some new3"
proof -
  have cr: "credit (OWNERSHIP opk omc ii 0) n oi new1 =
      new1[oi := if new1 ! oi = EMPTY then OWNERSHIP opk omc ii n else add_shares n (new1 ! oi)]"
    "credit (POSSESSION pk mc oi 0) n pi new2 =
      new2[pi := if new2 ! pi = EMPTY then POSSESSION pk mc oi n else add_shares n (new2 ! pi)]"
    by (simp_all add: credit_def)
  have g: "is_possession (as ! i)" "0 <s n" using p c(1) by (simp_all add: word_sless_alt)
  have k: "asset_index (as ! i) = k" "asset_index (as ! k) = i'" using c by (simp_all add: asset_index_def)
  have f: "asset_pk (as ! i) = pk" "asset_mc (as ! i) = mc" "asset_shares (as ! i) = n" "asset_pk (as ! k) = opk" "asset_mc (as ! k) = omc"
    "asset_pk (as ! i') = ipk" "asset_name (as ! i') = nm" using c by simp_all
  show ?thesis unfolding reorgAsset_def Let_def k f
    by (simp only: g simp_thms if_True s(1,3,5) option.case s(2) [symmetric] s(4) [unfolded cr, symmetric] s(6) [unfolded cr, symmetric])
qed

text \<open>The ownership and the possession of \<open>n\<close> shares, once their issuance is at slot \<open>ii\<close> of the new table.\<close>

lemma reorg_shares:
  assumes u: "universe_ok d new" and o: "table_ok d as" and sub: "identities new \<subseteq> identities as"
    and ii: "ii < length new" "asset_key (new ! ii) = ISSUANCE ipk nm 0 0" and n: "0 < sint n" "held new ii + sint n < 2 ^ 63"
    and x: "[OWNERSHIP opk omc 0 0, ISSUANCE ipk nm 0 0] \<in> identities as"
      "[POSSESSION pk mc 0 0, OWNERSHIP opk omc 0 0, ISSUANCE ipk nm 0 0] \<in> identities as"
  obtains oi new2 pi new3 where "search (ownership_of opk omc ii) opk new = Some oi" "new2 = credit (OWNERSHIP opk omc ii 0) n oi new"
    "search (possession_of pk mc oi) pk new2 = Some pi" "new3 = credit (POSSESSION pk mc oi 0) n pi new2"
    "universe_ok d new3" "identities new3 \<subseteq> identities as"
    "\<And>Q. totalAt new3 Q = totalAt new Q + (if Q (ipk, nm, opk, omc, pk, mc) then sint n else 0)"
    "\<And>r. r \<in> set new3 \<Longrightarrow> r \<in> set new \<or> is_ownership r \<or> is_possession r \<and> 0 < sint (asset_shares r)"
proof -
  have am: "amounts_ok new" using u by (simp add: universe_ok_def)
  obtain oi new2 where 2: "search (ownership_of opk omc ii) opk new = Some oi" "new2 = credit (OWNERSHIP opk omc ii 0) n oi new"
    "table_ok d new2" "extends new new2" "identities new2 \<subseteq> identities as" "asset_key (new2 ! oi) = OWNERSHIP opk omc ii 0" "oi < length new"
    "\<And>k. held new2 k = held new k + (if ii = k then sint n else 0)"
    "\<And>k. sint (asset_shares (new2 ! k)) = sint (asset_shares (new ! k)) + (if k = oi then sint n else 0)"
    "\<And>Q. totalAt new2 Q = totalAt new Q" "held new oi = sint (asset_shares (new ! oi))" "held new oi + sint n < 2 ^ 63"
    by (rule reorg_ownership [OF u o sub ii x(1) n], rule that, assumption+)
  have ne: "new ! ii \<noteq> EMPTY" using ii by auto
  have k2: "asset_key (new2 ! ii) = ISSUANCE ipk nm 0 0" using extends_key [OF 2(4) ii(1) ne] ii(2) by simp
  have d: "ii \<noteq> oi" using k2 2(6) by auto
  have len: "length new2 = length new" using 2(4) by (simp add: extends_def)
  then have l2: "ii < length new2" "oi < length new2" using ii 2(7) by simp_all
  have H2: "held new2 oi + sint n < 2 ^ 63" using 2(8,12) d by simp
  have nn: "0 \<le> sint (asset_shares (new2 ! j))" if "j < length new2" for j using 2(9) [of j] that len shares_nonneg [OF am, of j] n by simp
  obtain pi new3 where 3: "search (possession_of pk mc oi) pk new2 = Some pi" "new3 = credit (POSSESSION pk mc oi 0) n pi new2"
    "table_ok d new3" "extends new2 new3" "identities new3 \<subseteq> identities as" "is_possession (new3 ! pi)" "pi < length new2"
    "\<And>k. held new3 k = held new2 k + (if oi = k then sint n else 0)"
    "\<And>k. sint (asset_shares (new3 ! k)) = sint (asset_shares (new2 ! k)) + (if k = pi then sint n else 0)"
    "\<And>Q. totalAt new3 Q = totalAt new2 Q + (if Q (ipk, nm, opk, omc, pk, mc) then sint n else 0)"
    by (rule reorg_possession [OF 2(3) nn o 2(5) l2(1) k2 l2(2) 2(6) x(2) n(1) H2], assumption, rule that, assumption+)
  have ne2: "new2 ! ii \<noteq> EMPTY" "new2 ! oi \<noteq> EMPTY" using k2 2(6) by auto
  have K: "is_issuance (new3 ! ii)" "is_ownership (new3 ! oi)" "is_ownership (new2 ! oi)"
    using asset_key_eqD(7) [OF extends_key [OF 3(4) _ ne2(1)]] asset_key_eqD(8) [OF extends_key [OF 3(4) _ ne2(2)]] k2 2(6) l2
    by (metis asset_key_simps(6,7) is_issuance.simps is_ownership.simps)+
  have "amounts_ok new3"
    by (rule amounts_credited [OF am _ _ K(1,2) 3(6) _ _ 2(11) n 2(7)])
      (use 2 3 len in \<open>simp_all add: credit_other length_list_update credit_def\<close>)
  then have u3: "universe_ok d new3" using 3(3) by (simp add: universe_ok_def)
  have "r \<in> set new \<or> r = new3 ! pi \<or> r = new2 ! oi" if "r \<in> set new3" for r
    using that credit_set [of r "POSSESSION pk mc oi 0" n pi new2] credit_set [of r "OWNERSHIP opk omc ii 0" n oi new] 2(2) 3(2) by auto
  then have "r \<in> set new \<or> is_ownership r \<or> is_possession r \<and> 0 < sint (asset_shares r)" if "r \<in> set new3" for r
    using that K(3) 3(6) 3(9) [of pi] nn [OF 3(7)] n(1) by force
  then show thesis using that [OF 2(1,2) 3(1,2) u3 3(5)] 2(10) 3(10) by simp
qed

lemma reorgAsset_possession:
  assumes u: "universe_ok d as" and i: "i < length as" and R: "rebuilt d as i new"
    and p: "is_possession (as ! i)" "0 < sint (asset_shares (as ! i))"
  shows "\<exists>new'. reorgAsset as i new = Some new' \<and> rebuilt d as (Suc i) new'"
proof (rule possession_chain [OF _ i p(1)])
  show o: "table_ok d as" using u by (simp add: universe_ok_def)
  fix pk mc k n opk omc i' m ipk nm dp um
  assume c: "as ! i = POSSESSION pk mc k n" "k < length as" "as ! k = OWNERSHIP opk omc i' m" "i' < length as"
    "as ! i' = ISSUANCE ipk nm dp um" "position_at as i = (ipk, nm, opk, omc, pk, mc)"
  have n: "0 < sint n" using p(2) c(1) by simp
  have r: "universe_ok d new" "identities new \<subseteq> identities as" "\<And>Q. totalAt new Q = copied as i Q"
    "\<And>r. r \<in> set new \<Longrightarrow> is_issuance r \<Longrightarrow> r \<in> set as" "\<And>r. r \<in> set new \<Longrightarrow> is_possession r \<Longrightarrow> 0 < sint (asset_shares r)"
    using R by (auto simp: rebuilt_def)
  obtain ii new1 where 1: "search (issuance_of ipk nm) ipk new = Some ii" "new1 = (if new ! ii = EMPTY then new[ii := as ! i'] else new)"
    "universe_ok d new1" "identities new1 \<subseteq> identities as" "\<And>Q. totalAt new1 Q = totalAt new Q"
    "ii < length new1" "asset_key (new1 ! ii) = ISSUANCE ipk nm 0 0" "set new1 \<subseteq> set new \<union> {as ! i'}"
    by (rule reorg_issuance [OF r(1) o r(2) c(4,5)], rule that, assumption+)
  obtain dp' um' where "new1 ! ii = ISSUANCE ipk nm dp' um'" using 1(7) by (cases "new1 ! ii") auto
  then have H: "held new1 ii + sint n < 2 ^ 63"
    using copied_bound [OF u i c(4,5)] issued_held [OF 1(3,6)] 1(5) r(3) c(1,6) by (simp add: issued_by_def possessed_def)
  have x: "[OWNERSHIP opk omc 0 0, ISSUANCE ipk nm 0 0] \<in> identities as"
    "[POSSESSION pk mc 0 0, OWNERSHIP opk omc 0 0, ISSUANCE ipk nm 0 0] \<in> identities as"
    using identity_keys [of as i' ipk nm k opk omc] c identity_keys(2) [of as i' ipk nm k opk omc i pk mc] i
    by (auto simp: identities_def image_iff intro: exI [of _ k] exI [of _ i])
  obtain oi new2 pi new3 where 3: "search (ownership_of opk omc ii) opk new1 = Some oi" "new2 = credit (OWNERSHIP opk omc ii 0) n oi new1"
    "search (possession_of pk mc oi) pk new2 = Some pi" "new3 = credit (POSSESSION pk mc oi 0) n pi new2"
    "universe_ok d new3" "identities new3 \<subseteq> identities as"
    "\<And>Q. totalAt new3 Q = totalAt new1 Q + (if Q (ipk, nm, opk, omc, pk, mc) then sint n else 0)"
    "\<And>r. r \<in> set new3 \<Longrightarrow> r \<in> set new1 \<or> is_ownership r \<or> is_possession r \<and> 0 < sint (asset_shares r)"
    by (rule reorg_shares [OF 1(3) o 1(4,6,7) n H x], rule that, assumption+)
  have T: "totalAt new3 Q = copied as (Suc i) Q" for Q
    using 3(7) 1(5) r(3) c(1,6) by (simp add: copied_def possessed_def)
  have "(is_issuance r \<longrightarrow> r \<in> set as) \<and> (is_possession r \<longrightarrow> 0 < sint (asset_shares r))" if "r \<in> set new3" for r
    using 3(8) [OF that] 1(8) r(4,5) [of r] kinds_disjoint [of r] c(5) nth_mem [OF c(4)] by auto
  then have "rebuilt d as (Suc i) new3" using 3(5,6) T by (simp add: rebuilt_def)
  then show ?thesis using reorgAsset_form [OF p c(1,3,5) 1(1,2) 3(1-4)] by blast
qed

lemma reorgAsset_step:
  assumes u: "universe_ok d as" and i: "i < length as" and R: "rebuilt d as i new"
  shows "\<exists>new'. reorgAsset as i new = Some new' \<and> rebuilt d as (Suc i) new'"
proof (cases "is_possession (as ! i) \<and> 0 < sint (asset_shares (as ! i))")
  case True
  then show ?thesis using reorgAsset_possession [OF u i R] by blast
next
  case False
  then have "possessed (as ! i) = 0"
    using shares_nonneg [OF _ i] u by (force simp: possessed_def universe_ok_def)
  then have "copied as (Suc i) Q = copied as i Q" for Q by (simp add: copied_def)
  moreover have "reorgAsset as i new = Some new" using False by (auto simp: reorgAsset_def word_sless_alt)
  ultimately show ?thesis using R by (simp add: rebuilt_def)
qed

lemma reorgAssets_append:
  "reorgAssets as (is @ js) new = (case reorgAssets as is new of None \<Rightarrow> None | Some new' \<Rightarrow> reorgAssets as js new')"
  by (induction "is" arbitrary: new) (auto split: option.split)

lemma reorgAssets_loop:
  assumes u: "universe_ok d as" and "n \<le> length as"
  shows "\<exists>new. reorgAssets as [0..<n] (replicate (length as) EMPTY) = Some new \<and> rebuilt d as n new"
  using assms(2)
proof (induction n)
  case 0
  have "length as = 2 ^ d" using u by (simp add: universe_ok_def table_ok_def)
  moreover have "totalAt (replicate (length as) EMPTY) Q = 0" for Q
    unfolding totalAt_def by (rule sum.neutral) (simp add: possessed_def)
  moreover have "identities (replicate (length as) EMPTY) = {}" by (auto simp: identities_def)
  ultimately have "rebuilt d as 0 (replicate (length as) EMPTY)" using universe_ok_empty [of d] by (simp add: rebuilt_def copied_def)
  then show ?case by simp
next
  case (Suc n)
  then obtain new where "reorgAssets as [0..<n] (replicate (length as) EMPTY) = Some new" "rebuilt d as n new" by auto
  then show ?case using reorgAsset_step [OF u _ \<open>rebuilt d as n new\<close>] Suc.prems by (auto simp: reorgAssets_append)
qed

section \<open>The end of the epoch\<close>

text \<open>C18: at the end of an epoch the table of a well-formed universe is rebuilt (every search of the rebuild ends).
  The new table is well formed and every position (asset, owner, possessor and managing contracts) has exactly the shares
  it had, the issuances kept are unchanged, no possession without shares is left, no free slot is lost, every
  record is marked as changed and the index lists are those of the new table.\<close>

theorem assetsEndEpoch_preserves:
  assumes "universe_ok d (assets u)"
  shows "\<exists>u'. assetsEndEpoch u = Some u' \<and> universe_ok d (assets u') \<and> sharesAt (assets u') = sharesAt (assets u) \<and>
    (\<forall>r\<in>set (assets u'). (is_issuance r \<longrightarrow> r \<in> set (assets u)) \<and> (is_possession r \<longrightarrow> 0 < sint (asset_shares r))) \<and>
    free_slots (assets u) \<le> free_slots (assets u') \<and> indexLists u' = rebuildLists (assets u') \<and>
    assetChangeFlags u' = map (\<lambda>_. - 1) (assetChangeFlags u)"
proof -
  obtain new where n: "reorgAssets (assets u) [0..<length (assets u)] (replicate (length (assets u)) EMPTY) = Some new"
    and R: "rebuilt d (assets u) (length (assets u)) new" using reorgAssets_loop [OF assms order_refl] by blast
  have t: "table_ok d new" "table_ok d (assets u)" using R assms by (simp_all add: rebuilt_def universe_ok_def)
  have "card (identities new) \<le> card (identities (assets u))"
    using R by (intro card_mono) (auto simp: rebuilt_def identities_def)
  then have "free_slots (assets u) \<le> free_slots new"
    using card_identities [OF t(1)] card_identities [OF t(2)] table_okD(1) [OF t(1)] table_okD(1) [OF t(2)] by simp
  moreover have "sharesAt new = sharesAt (assets u)"
    using R by (simp add: fun_eq_iff rebuilt_def sharesAt_def copied_def) (simp add: totalAt_def)
  ultimately show ?thesis using n R by (simp add: assetsEndEpoch_def rebuilt_def)
qed

text \<open>At the end of an epoch the hundred shares of the sample universe are still at the issuer.\<close>

theorem assetsEndEpoch_preserves_witness:
  "universe_ok 3 (assets sampleUniverse) \<and>
   (\<exists>u'. assetsEndEpoch sampleUniverse = Some u' \<and> sharesAt (assets u') (5, 7, 5, 1, 5, 1) = 100 \<and> 5 \<le> free_slots (assets u'))"
  using assetsEndEpoch_preserves [OF sample_ok] sample_ok sample_shares sample_free(1) by auto

end
