(* ===== verification/Merkle_Chunked.thy ===== *)
theory Merkle_Chunked
  imports Merkle
begin

text \<open>
  The word-wise walks of \<open>getUniverseDigest\<close>: the set bits of a flag word visited by \<open>mask &= mask - 1\<close>, and the
  climb of a Merkle level that skips a zero flag word with its 32 pairs. Both are shown equal to the plain loops over
  all bits and all pairs.
\<close>

section \<open>The set bits of a word\<close>

text \<open>The lambda \<open>msvc_ctzll\<close>.\<close>

definition msvc_ctzll :: "u64 \<Rightarrow> nat" where
  "msvc_ctzll m = (case find (bit m) [0..<64] of Some i \<Rightarrow> i | None \<Rightarrow> 64)"

lemma msvc_ctzll_least:
  assumes "m \<noteq> 0"
  shows "bit m (msvc_ctzll m)" and "j < msvc_ctzll m \<Longrightarrow> \<not> bit m j" and "msvc_ctzll m < 64"
proof -
  have "\<exists>n<64. bit m n" using assms bit_word_eqI [of m 0] by auto
  then obtain n where n: "bit m n" "n < 64" by blast
  then obtain i where i: "find (bit m) [0..<64] = Some i" by (cases "find (bit m) [0..<64]") (auto simp: find_None_iff)
  then have "i < 64" "bit m i" "\<forall>k<i. \<not> bit m k" by (auto simp: find_Some_iff)
  then show "bit m (msvc_ctzll m)" "j < msvc_ctzll m \<Longrightarrow> \<not> bit m j" "msvc_ctzll m < 64"
    using i by (simp_all add: msvc_ctzll_def)
qed

lemma nat_and_minus_one:
  "0 < m \<Longrightarrow> bit (m AND (m - 1)) n \<longleftrightarrow> bit m n \<and> (\<exists>j<n. bit m j)" for m :: nat
proof (induction n arbitrary: m)
  case 0
  then have "even m \<or> even (m - 1)" by simp
  then have "\<not> (bit m 0 \<and> bit (m - 1) 0)" by (simp add: bit_0)
  then show ?case unfolding bit_and_iff by blast
next
  case (Suc n)
  have ex: "(\<exists>j<Suc n. bit m j) \<longleftrightarrow> odd m \<or> (\<exists>j<n. bit (m div 2) j)"
    by (auto simp: less_Suc_eq_0_disj bit_0 bit_Suc)
  show ?case
  proof (cases "even m")
    case True
    then obtain k where k: "m = 2 * k" "0 < k" using Suc.prems by (auto elim!: evenE)
    then have d: "m div 2 = k" "(m - 1) div 2 = k - 1" by simp_all
    then have "bit m (Suc n) = bit k n" "bit (m - 1) (Suc n) = bit (k - 1) n" by (simp_all only: bit_Suc)
    then show ?thesis using Suc.IH [OF k(2)] ex True d(1) unfolding bit_and_iff by blast
  next
    case False
    then have "(m - 1) div 2 = m div 2" by (auto elim!: oddE)
    then have "bit (m - 1) (Suc n) = bit m (Suc n)" by (simp only: bit_Suc)
    then show ?thesis using False ex unfolding bit_and_iff by blast
  qed
qed

lemma clear_lowest_bit:
  fixes m :: u64
  assumes "m \<noteq> 0"
  shows "bit (m AND (m - 1)) n \<longleftrightarrow> bit m n \<and> n \<noteq> msvc_ctzll m"
proof -
  have "0 < unat m" using assms by (simp add: unat_gt_0)
  have "bit (m AND (m - 1)) n \<longleftrightarrow> bit (unat m AND (unat m - 1)) n"
    using unat_minus_one [OF assms] bit_unat [of "m - 1" n] by (simp add: bit_and_iff bit_unat)
  then have "bit (m AND (m - 1)) n \<longleftrightarrow> bit m n \<and> (\<exists>j<n. bit m j)"
    using nat_and_minus_one [OF \<open>0 < unat m\<close>, of n] by (simp add: bit_unat)
  then show ?thesis using msvc_ctzll_least [OF assms] by (metis linorder_neqE_nat)
qed

text \<open>
  The leaf loop over one flag word: \<open>hash idx\<close> is written to the digest of each set bit.
\<close>

function hashFlagged :: "(nat \<Rightarrow> m256i) \<Rightarrow> nat \<Rightarrow> u64 \<Rightarrow> m256i list \<Rightarrow> m256i list" where
  "hashFlagged hash base msk ds =
     (if msk = 0 then ds
      else let idx = base + msvc_ctzll msk
           in hashFlagged hash base (msk AND (msk - 1)) (ds[idx := hash idx]))"
  by auto
termination
proof (relation "measure (\<lambda>(hash, base, msk, ds). unat msk)", goal_cases)
  case (2 hash base msk ds idx)
  then have "unat (msk AND (msk - 1)) \<le> unat (msk - 1)" by (simp add: word_and_le1 flip: word_le_nat_alt)
  also have "\<dots> < unat msk" using 2 by (simp add: unat_minus_one unat_gt_0)
  finally show ?case by simp
qed simp

declare hashFlagged.simps [simp del]

definition hashChunks :: "(nat \<Rightarrow> m256i) \<Rightarrow> u64 list \<Rightarrow> nat \<Rightarrow> m256i list \<Rightarrow> m256i list" where
  "hashChunks hash flags words ds =
     foldl (\<lambda>ds chunk. if flags ! chunk = 0 then ds else hashFlagged hash (chunk * 64) (flags ! chunk) ds) ds [0..<words]"

lemma hashFlagged_nth:
  assumes "base + 64 \<le> length ds"
  shows "length (hashFlagged hash base msk ds) = length ds \<and>
    (\<forall>k. hashFlagged hash base msk ds ! k = (if base \<le> k \<and> k < base + 64 \<and> bit msk (k - base) then hash k else ds ! k))"
  using assms
proof (induction hash base msk ds rule: hashFlagged.induct)
  case (1 hash base msk ds)
  show ?case
  proof (cases "msk = 0")
    case True
    then show ?thesis by (simp add: hashFlagged.simps)
  next
    case False
    let ?c = "msvc_ctzll msk" and ?m = "msk AND (msk - 1)"
    let ?ds = "ds[base + ?c := hash (base + ?c)]"
    note L = msvc_ctzll_least [OF False] clear_lowest_bit [OF False]
    have eq: "hashFlagged hash base msk ds = hashFlagged hash base ?m ?ds"
      using False by (subst hashFlagged.simps) (simp add: Let_def)
    have IH: "length (hashFlagged hash base ?m ?ds) = length ?ds"
      "hashFlagged hash base ?m ?ds ! k = (if base \<le> k \<and> k < base + 64 \<and> bit ?m (k - base) then hash k else ?ds ! k)" for k
      using "1.IH" [OF False refl] "1.prems" by auto
    have "hashFlagged hash base msk ds ! k = (if base \<le> k \<and> k < base + 64 \<and> bit msk (k - base) then hash k else ds ! k)" for k
      using IH(2) [of k] L(1,3) L(4) [of "k - base"] "1.prems" unfolding eq by (cases "k = base + ?c") auto
    then show ?thesis using IH(1) eq by simp
  qed
qed

lemma hashChunks_nth:
  assumes "64 * words \<le> length ds"
  shows "length (hashChunks hash flags words ds) = length ds \<and>
    (\<forall>k. hashChunks hash flags words ds ! k = (if k < 64 * words \<and> flagBit flags k then hash k else ds ! k))"
  using assms
proof (induction words)
  case (Suc w)
  let ?ds = "hashChunks hash flags w ds"
  have IH: "length ?ds = length ds" "\<And>k. ?ds ! k = (if k < 64 * w \<and> flagBit flags k then hash k else ds ! k)"
    using Suc by auto
  have eq: "hashChunks hash flags (Suc w) ds = (if flags ! w = 0 then ?ds else hashFlagged hash (w * 64) (flags ! w) ?ds)"
    by (simp add: hashChunks_def)
  have H: "length (hashFlagged hash (w * 64) (flags ! w) ?ds) = length ds"
    "hashFlagged hash (w * 64) (flags ! w) ?ds ! k =
       (if w * 64 \<le> k \<and> k < w * 64 + 64 \<and> bit (flags ! w) (k - w * 64) then hash k else ?ds ! k)" for k
    using hashFlagged_nth [of "w * 64" ?ds] Suc.prems IH(1) by auto
  have z: "hashFlagged hash (w * 64) 0 ?ds = ?ds" by (simp add: hashFlagged.simps)
  have k: "flagBit flags k \<longleftrightarrow> bit (flags ! w) (k - w * 64)" if "w * 64 \<le> k" "k < w * 64 + 64" for k
  proof -
    have w: "k div 64 = w" using that by (intro div_nat_eqI) simp_all
    then have "k mod 64 = k - w * 64" by (simp add: modulo_nat_def)
    then show ?thesis using w by (simp add: flagBit_def)
  qed
  have "hashChunks hash flags (Suc w) ds = hashFlagged hash (w * 64) (flags ! w) ?ds" using eq z by simp
  then show ?case using H IH k by auto
qed (simp add: hashChunks_def)

section \<open>The climb by words\<close>

text \<open>
  One pair of a flag word: \<open>j = 2 * t\<close> is the bit, \<open>i = base + j\<close> the node; \<open>digestIndex\<close> has advanced by 32 for each
  word and by one for each pair before.
\<close>

definition climbChunkPair ::
  "(u64 list \<Rightarrow> m256i) \<Rightarrow> nat \<Rightarrow> nat \<Rightarrow> nat \<Rightarrow> m256i list \<times> u64 list \<Rightarrow> nat \<Rightarrow> m256i list \<times> u64 list" where
  "climbChunkPair k12 previousLevelBeginning digestIndex chunk = (\<lambda>(ds, flags) t.
     let j = 2 * t; i = push_bit 6 chunk + j
     in if flags ! chunk AND push_bit j 3 \<noteq> 0
        then (ds[digestIndex + 32 * chunk + t := k12 (digest_words (ds ! (previousLevelBeginning + i))
                                                                   (ds ! (previousLevelBeginning + i + 1)))],
              setFlag (flags[chunk := flags ! chunk AND NOT (push_bit j 3)]) (drop_bit 1 i))
        else (ds, flags))"

definition climbChunk ::
  "(u64 list \<Rightarrow> m256i) \<Rightarrow> nat \<Rightarrow> nat \<Rightarrow> m256i list \<times> u64 list \<Rightarrow> nat \<Rightarrow> m256i list \<times> u64 list" where
  "climbChunk k12 previousLevelBeginning digestIndex df chunk =
     (if snd df ! chunk = 0 then df
      else foldl (climbChunkPair k12 previousLevelBeginning digestIndex chunk) df [0..<32])"

definition climbLevelChunked ::
  "(u64 list \<Rightarrow> m256i) \<Rightarrow> nat \<Rightarrow> nat \<Rightarrow> nat \<Rightarrow> m256i list \<times> u64 list \<Rightarrow> m256i list \<times> u64 list" where
  "climbLevelChunked k12 previousLevelBeginning digestIndex numberOfLeafs df =
     (if 64 \<le> numberOfLeafs
      then foldl (climbChunk k12 previousLevelBeginning digestIndex) df [0..<drop_bit 6 numberOfLeafs]
      else climbLevel k12 previousLevelBeginning digestIndex numberOfLeafs df)"

fun climbLevelsChunked ::
  "(u64 list \<Rightarrow> m256i) \<Rightarrow> nat \<Rightarrow> nat \<Rightarrow> nat \<Rightarrow> m256i list \<times> u64 list \<Rightarrow> m256i list \<times> u64 list" where
  "climbLevelsChunked k12 previousLevelBeginning digestIndex numberOfLeafs df =
     (if 1 < numberOfLeafs
      then climbLevelsChunked k12 (previousLevelBeginning + numberOfLeafs)
             (digestIndex + numberOfLeafs div 2) (numberOfLeafs div 2)
             (climbLevelChunked k12 previousLevelBeginning digestIndex numberOfLeafs df)
      else df)"

declare climbLevelsChunked.simps [simp del]

lemma climbChunkPair_eq:
  assumes "t < 32"
  shows "climbChunkPair k12 p dI c df t = climbPair k12 p dI df (32 * c + t)"
proof -
  have i: "push_bit 6 c + 2 * t = 2 * (32 * c + t)" "dI + 32 * c + t = dI + (32 * c + t)" by (simp_all add: push_bit_eq_mult)
  have "2 * (32 * c + t) div 64 = c" "2 * (32 * c + t) mod 64 = 2 * t" using assms by auto
  then have d: "drop_bit 6 (2 * (32 * c + t)) = c" "2 * (32 * c + t) AND 63 = 2 * t" by (simp_all only: flag_index)
  show ?thesis
    by (cases df) (simp only: climbChunkPair_def climbPair_def pairFlagged_def clearPair_def Let_def prod.case i d)
qed

lemma climbPair_unflagged: "\<not> pairFlagged (snd df) (2 * j) \<Longrightarrow> climbPair k12 p dI df j = df"
  by (cases df) (simp add: climbPair_def Let_def)

lemma climbChunk_eq: "climbChunk k12 p dI df c = foldl (climbPair k12 p dI) df [32 * c..<32 * c + 32]"
proof -
  have upt: "[32 * c..<32 * c + 32] = map (\<lambda>t. 32 * c + t) [0..<32]" 
    using map_add_upt [of "32 * c" 32] by (simp only: add.commute)
  show ?thesis
  proof (cases "snd df ! c = 0")
    case True
    have "foldl (climbPair k12 p dI) df (map (\<lambda>t. 32 * c + t) [0..<n]) = df" if "n \<le> 32" for n
      using that
    proof (induction n)
      case (Suc n)
      then have "2 * (32 * c + n) div 64 = c" by auto
      then have "\<not> pairFlagged (snd df) (2 * (32 * c + n))" using True by (simp add: pairFlagged_def flag_index(1))
      then show ?case using Suc climbPair_unflagged by simp
    qed simp
    then show ?thesis unfolding climbChunk_def if_P [OF True] upt by (simp only: order_refl)
  next
    case False
    show ?thesis unfolding climbChunk_def if_not_P [OF False] upt foldl_map
      by (rule foldl_cong [OF refl refl], rule climbChunkPair_eq) (simp only: set_upt atLeastLessThan_iff)
  qed
qed

lemma climbLevelChunked_eq:
  assumes "64 \<le> n \<Longrightarrow> 64 dvd n"
  shows "climbLevelChunked k12 p dI n df = climbLevel k12 p dI n df"
proof (cases "64 \<le> n")
  case True
  obtain w where w: "n = 64 * w" using assms [OF True] by (rule dvdE)
  have "foldl (climbChunk k12 p dI) df [0..<w] = foldl (climbPair k12 p dI) df [0..<32 * w]"
  proof (induction w)
    case (Suc w)
    have "[0..<32 * Suc w] = [0..<32 * w] @ [32 * w..<32 * w + 32]"
      using upt_add_eq_append [of 0 "32 * w" 32] by (simp only: mult_Suc_right add.commute le0)
    then show ?case using Suc by (simp only: climbChunk_eq upt_Suc le0 if_True foldl_append foldl.simps)
  qed simp
  moreover have "drop_bit 6 n = w" "n div 2 = 32 * w" using w by (simp_all add: flag_index(1))
  ultimately show ?thesis using True by (simp only: climbLevelChunked_def climbLevel_def if_True)
qed (simp add: climbLevelChunked_def)

lemma climbLevelsChunked_eq: "climbLevelsChunked k12 p dI (2 ^ d) df = climbLevels k12 p dI (2 ^ d) df"
proof (induction d arbitrary: p dI df)
  case (Suc d)
  have "(64::nat) dvd 2 ^ Suc d" if "64 \<le> (2::nat) ^ Suc d"
  proof -
    have "\<not> Suc d < 6"
    proof
      assume "Suc d < 6"
      then have "(2::nat) ^ Suc d < 2 ^ 6" by (rule power_strict_increasing) simp
      then show False using that by simp
    qed
    then have "6 \<le> Suc d" by simp
    then show ?thesis using le_imp_power_dvd [of 6 "Suc d" "2::nat"] by simp
  qed
  then have L: "climbLevelChunked k12 p dI (2 ^ Suc d) df = climbLevel k12 p dI (2 ^ Suc d) df" by (rule climbLevelChunked_eq)
  have "2 ^ Suc d div 2 = (2::nat) ^ d" by simp
  then show ?case unfolding climbLevelsChunked.simps [of k12 p dI "2 ^ Suc d"] climbLevels.simps [of k12 p dI "2 ^ Suc d"] L
    by (simp only: Suc)
qed (simp add: climbLevelsChunked.simps climbLevels.simps)

section \<open>All flags set\<close>

text \<open>When every node of a level is flagged, the climb rebuilds the level, and all levels above it.\<close>

lemma climbLevel_all:
  assumes "p + n \<le> dI" and "dI + n div 2 \<le> length ds" and "n \<le> 64 * length fl"
    and all: "\<And>b. b < n \<Longrightarrow> flagBit fl b"
    and eq: "climbLevel k12 p dI n (ds, fl) = (ds', fl')"
  shows "ds' = hashLevel k12 p dI n ds" and "length fl' = length fl" and "b < n div 2 \<Longrightarrow> flagBit fl' b"
proof -
  note C = climbLevel_nth [OF assms(1-3) eq] and H = hashLevel_nth [OF assms(1,2)]
  show "ds' = hashLevel k12 p dI n ds"
  proof (rule nth_equalityI)
    fix k assume "k < length ds'"
    show "ds' ! k = hashLevel k12 p dI n ds ! k"
    proof (cases "dI \<le> k \<and> k < dI + n div 2")
      case True
      then obtain j where j: "k = dI + j" "j < n div 2" using le_Suc_ex by fastforce
      then have "flagBit fl (2 * j)" using all by simp
      then show ?thesis using C(3) [OF j(2)] H(2) [OF j(2)] j(1) by simp
    next
      case False
      then show ?thesis using C(4) H(3) by (metis linorder_not_le)
    qed
  qed (use C(1) H(1) in simp)
  show "length fl' = length fl" by (rule C(2))
  show "flagBit fl' b" if "b < n div 2" using C(5) [of b] all that by simp
qed

lemma climbLevels_all:
  assumes "l \<le> d" and "length ds = 2 ^ (d + 1) - 1" and "2 ^ d \<le> 64 * length fl" and "\<And>b. b < 2 ^ (d - l) \<Longrightarrow> flagBit fl b"
  shows "fst (climbLevels k12 (levelStart d l) (levelStart d (Suc l)) (2 ^ (d - l)) (ds, fl)) =
      hashLevels k12 (levelStart d l) (levelStart d (Suc l)) (2 ^ (d - l)) ds \<and>
    length (snd (climbLevels k12 (levelStart d l) (levelStart d (Suc l)) (2 ^ (d - l)) (ds, fl))) = length fl"
  using assms
proof (induction "d - l" arbitrary: l ds fl)
  case 0
  then show ?case by (simp add: hashLevels.simps climbLevels.simps)
next
  case (Suc n)
  then have l: "l < d" by simp
  note B = level_bounds [OF l]
  obtain ds1 fl1 where eq1: "climbLevel k12 (levelStart d l) (levelStart d (Suc l)) (2 ^ (d - l)) (ds, fl) = (ds1, fl1)"
    by (cases rule: prod.exhaust)
  have "(2::nat) ^ (d - l) \<le> 2 ^ d" by (intro power_increasing) auto
  then have "2 ^ (d - l) \<le> 64 * length fl" using Suc.prems(3) by linarith
  then have pre: "levelStart d l + 2 ^ (d - l) \<le> levelStart d (Suc l)" "levelStart d (Suc l) + 2 ^ (d - l) div 2 \<le> length ds"
    "2 ^ (d - l) \<le> 64 * length fl" using B Suc.prems(2) by simp_all
  note C = climbLevel_all [OF pre Suc.prems(4) eq1]
  have "1 < (2::nat) ^ (d - l)" using l by (intro one_less_power) auto
  then have e: "climbLevels k12 (levelStart d l) (levelStart d (Suc l)) (2 ^ (d - l)) (ds, fl) =
      climbLevels k12 (levelStart d (Suc l)) (levelStart d (Suc (Suc l))) (2 ^ (d - Suc l)) (ds1, fl1)"
    "hashLevels k12 (levelStart d l) (levelStart d (Suc l)) (2 ^ (d - l)) ds =
      hashLevels k12 (levelStart d (Suc l)) (levelStart d (Suc (Suc l))) (2 ^ (d - Suc l)) ds1"
    by (subst climbLevels.simps hashLevels.simps, simp add: B(1) B(2) [simplified] B(3) [unfolded B(2), simplified] eq1 C(1))+
  have "length ds1 = 2 ^ (d + 1) - 1" using hashLevel_nth(1) [OF pre(1,2)] C(1) Suc.prems(2) by simp
  then show ?case unfolding e using Suc.hyps Suc.prems(3) C(2,3) B(2) l by simp
qed

end
