(* ===== verification/Assets_Digest.thy ===== *)
theory Assets_Digest
  imports Assets_Epoch Merkle_Chunked
begin

text \<open>
  \<open>getUniverseDigest\<close>: the root of the Merkle tree of the universe, updated along the change flags that the asset
  operations set. It is shown to be the root over all records, at start-up (all flags set, digests not computed yet) and
  after any sequence of asset operations. The requests for the issued, owned and possessed assets of a key
  (\<open>src/src/assets/net_msg_impl.h\<close>) send records with sibling paths that lead to this root.
\<close>

section \<open>The operation\<close>

text \<open>The 48 bytes of an \<open>AssetRecord\<close> as words.\<close>

fun asset_words :: "AssetRecord \<Rightarrow> u64 list" where
  "asset_words EMPTY = replicate 6 0"
| "asset_words (ISSUANCE pk nm dp um) =
     map (m256i_u64 pk) [0, 1, 2, 3] @ [1 OR push_bit 8 nm, ucast dp OR push_bit 8 um]"
| "asset_words (OWNERSHIP pk mc k n) =
     map (m256i_u64 pk) [0, 1, 2, 3] @ [2 OR push_bit 16 (ucast mc) OR push_bit 32 (of_nat k), n]"
| "asset_words (POSSESSION pk mc k n) =
     map (m256i_u64 pk) [0, 1, 2, 3] @ [3 OR push_bit 16 (ucast mc) OR push_bit 32 (of_nat k), n]"

definition assetHash :: "(u64 list \<Rightarrow> m256i) \<Rightarrow> AssetRecord list \<Rightarrow> nat \<Rightarrow> m256i" where
  "assetHash k12 as idx = k12 (asset_words (as ! idx))"

definition getUniverseDigest :: "(u64 list \<Rightarrow> m256i) \<Rightarrow> universe \<Rightarrow> m256i \<times> universe" where
  "getUniverseDigest k12 u =
     (let cap = length (assets u);
          ds = hashChunks (assetHash k12 (assets u)) (assetChangeFlags u) (cap div 64) (assetDigests u);
          (ds, flags) = climbLevelsChunked k12 0 cap cap (ds, assetChangeFlags u)
      in (ds ! (cap * 2 - 1 - 1), u\<lparr>assetDigests := ds, assetChangeFlags := flags[0 := 0]\<rparr>))"

section \<open>Specification\<close>

definition assetLeaves :: "(u64 list \<Rightarrow> m256i) \<Rightarrow> AssetRecord list \<Rightarrow> m256i list" where
  "assetLeaves k12 as = map (\<lambda>r. k12 (asset_words r)) as"

definition universeRoot :: "(u64 list \<Rightarrow> m256i) \<Rightarrow> nat \<Rightarrow> AssetRecord list \<Rightarrow> m256i" where
  "universeRoot k12 d as = merkleRoot k12 d (assetLeaves k12 as)"

text \<open>
  The tracking invariant: either every flag is set, or the inner nodes hash their children and every record whose
  digest is out of date is flagged.
\<close>

definition universe_tracked :: "(u64 list \<Rightarrow> m256i) \<Rightarrow> nat \<Rightarrow> universe \<Rightarrow> bool" where
  "universe_tracked k12 d u \<longleftrightarrow> 6 \<le> d \<and> length (assets u) = 2 ^ d \<and> length (assetDigests u) = 2 ^ (d + 1) - 1 \<and>
     64 * length (assetChangeFlags u) = 2 ^ d \<and>
     ((\<forall>i<2 ^ d. flagBit (assetChangeFlags u) i) \<or>
      (\<forall>l<d. nodes_ok k12 d l (assetDigests u)) \<and>
      (\<forall>i<2 ^ d. assetDigests u ! i = assetHash k12 (assets u) i \<or> flagBit (assetChangeFlags u) i))"

lemma universe_trackedD:
  assumes "universe_tracked k12 d u"
  shows "6 \<le> d" "length (assets u) = 2 ^ d" "length (assetDigests u) = 2 ^ (d + 1) - 1"
    "64 * length (assetChangeFlags u) = 2 ^ d"
    "(\<forall>i<2 ^ d. flagBit (assetChangeFlags u) i) \<or> (\<forall>l<d. nodes_ok k12 d l (assetDigests u)) \<and>
      (\<forall>i<2 ^ d. assetDigests u ! i = assetHash k12 (assets u) i \<or> flagBit (assetChangeFlags u) i)"
  using assms unfolding universe_tracked_def by blast+

section \<open>The digest is the root\<close>

lemma digest_of_leaves:
  assumes t: "universe_tracked k12 d u"
  defines "ds0 \<equiv> hashChunks (assetHash k12 (assets u)) (assetChangeFlags u) (2 ^ d div 64) (assetDigests u)"
  obtains ds fl where "climbLevels k12 0 (2 ^ d) (2 ^ d) (ds0, assetChangeFlags u) = (ds, fl)"
    "tree_ok k12 d (assetLeaves k12 (assets u)) ds" "length fl = length (assetChangeFlags u)"
proof -
  note D = universe_trackedD [OF t]
  let ?fl = "assetChangeFlags u"
  have w: "64 * (2 ^ d div 64) = (2::nat) ^ d" using D(4) by (metis nonzero_mult_div_cancel_left zero_neq_numeral)
  have "2 ^ d \<le> (2::nat) ^ (d + 1) - 1" by simp
  then have H: "length ds0 = length (assetDigests u)"
    "ds0 ! k = (if k < 2 ^ d \<and> flagBit ?fl k then assetHash k12 (assets u) k else assetDigests u ! k)" for k
    using hashChunks_nth [of "2 ^ d div 64" "assetDigests u" "assetHash k12 (assets u)" ?fl] w D(3) unfolding ds0_def by simp_all
  have leaf: "ds0 ! i = assetHash k12 (assets u) i" if "i < 2 ^ d" for i using H(2) [of i] D(5) that by auto
  have s1: "levelStart d (Suc 0) = 2 ^ d" using levelStart_Suc [of 0 d] by simp
  obtain ds fl where cl: "climbLevels k12 0 (2 ^ d) (2 ^ d) (ds0, ?fl) = (ds, fl)" by (cases rule: prod.exhaust)
  have "length ds = 2 ^ (d + 1) - 1 \<and> (\<forall>k<2 ^ d. ds ! k = ds0 ! k) \<and> (\<forall>k<d. nodes_ok k12 d k ds) \<and> length fl = length ?fl"
  proof (cases "\<forall>i<2 ^ d. flagBit ?fl i")
    case True
    have "fst (climbLevels k12 0 (2 ^ d) (2 ^ d) (ds0, ?fl)) = hashLevels k12 0 (2 ^ d) (2 ^ d) ds0"
      "length (snd (climbLevels k12 0 (2 ^ d) (2 ^ d) (ds0, ?fl))) = length ?fl"
      using climbLevels_all [of 0 d ds0 ?fl k12] True D(3,4) H(1) s1 by simp_all
    then have "ds = hashLevels k12 0 (2 ^ d) (2 ^ d) ds0" "length fl = length ?fl" using cl by simp_all
    then show ?thesis using hashLevels_ok [of 0 d ds0 k12] H(1) D(3) s1 by (simp add: Let_def)
  next
    case False
    then have N: "\<forall>l<d. nodes_ok k12 d l (assetDigests u)" using D(5) by blast
    have inv: "climb_inv k12 d (assetDigests u) 0 ds0 ?fl"
      unfolding climb_inv_def using H D(3,4) s1 by auto
    show ?thesis using climbLevels_ok [OF inv _ N, of ds fl] cl s1 by (auto simp: climb_inv_def)
  qed
  then have "tree_ok k12 d (assetLeaves k12 (assets u)) ds" "length fl = length ?fl"
    using leaf D(2) by (auto simp: tree_ok_def assetLeaves_def assetHash_def)
  then show thesis using that cl by blast
qed

lemma getUniverseDigest_ok:
  assumes t: "universe_tracked k12 d u"
  shows "\<exists>u'. getUniverseDigest k12 u = (universeRoot k12 d (assets u), u') \<and> assets u' = assets u \<and>
    tree_ok k12 d (assetLeaves k12 (assets u)) (assetDigests u') \<and> universe_tracked k12 d u'"
proof -
  note D = universe_trackedD [OF t]
  obtain ds fl where c: "climbLevels k12 0 (2 ^ d) (2 ^ d)
      (hashChunks (assetHash k12 (assets u)) (assetChangeFlags u) (2 ^ d div 64) (assetDigests u), assetChangeFlags u) = (ds, fl)"
    and tree: "tree_ok k12 d (assetLeaves k12 (assets u)) ds" and fl: "length fl = length (assetChangeFlags u)"
    using digest_of_leaves [OF t] by blast
  let ?u' = "u\<lparr>assetDigests := ds, assetChangeFlags := fl[0 := 0]\<rparr>"
  have "getUniverseDigest k12 u = (universeRoot k12 d (assets u), ?u')"
    using c tree_ok_root [OF tree] D(2) by (simp add: getUniverseDigest_def climbLevelsChunked_eq Let_def universeRoot_def)
  moreover have "universe_tracked k12 d ?u'"
    using tree fl D by (auto simp: universe_tracked_def tree_ok_def assetLeaves_def assetHash_def)
  ultimately show ?thesis using tree by (intro exI [of _ ?u']) simp
qed

section \<open>Asset operations flag what they change\<close>

lemma tracked_changed:
  assumes t: "universe_tracked k12 d u"
    and "length (assets u') = length (assets u)" "assetDigests u' = assetDigests u"
      "length (assetChangeFlags u') = length (assetChangeFlags u)"
    and "\<And>b. b < 2 ^ d \<Longrightarrow> flagBit (assetChangeFlags u) b \<Longrightarrow> flagBit (assetChangeFlags u') b"
    and "\<And>i. i < 2 ^ d \<Longrightarrow> flagBit (assetChangeFlags u') i \<or> assets u' ! i = assets u ! i"
  shows "universe_tracked k12 d u'"
  using universe_trackedD [OF t] assms(2-) by (simp add: universe_tracked_def assetHash_def) metis

lemma search_less: "search match pk as = Some j \<Longrightarrow> length as = 2 ^ d \<Longrightarrow> j < 2 ^ d"
  using probe_less(1) home_slot_less by (metis search_def)

lemma next_empty_less:
  assumes "next_empty i as = Some j" and "length as = 2 ^ d"
  shows "j < 2 ^ d"
proof -
  have "(i + 1) AND (2 ^ d - 1) < (2::nat) ^ d" unfolding and_pow2_mask by simp
  then show ?thesis using probe_less(1) assms unfolding next_empty_def by metis
qed

lemma issueAsset_tracked:
  assumes t: "universe_tracked k12 d u" and e: "issueAsset issuer name decimals unit n mc u = Some (r, x, u')"
  shows "universe_tracked k12 d u'"
proof (cases "u' = u")
  case False
  note D = universe_trackedD [OF t]
  obtain ii oi pi as1 as2 where s: "search (same_issue issuer name) issuer (assets u) = Some ii"
    "as1 = (assets u)[ii := ISSUANCE issuer (name AND name_mask) decimals (unit AND name_mask)]" "next_empty ii as1 = Some oi"
    "as2 = as1[oi := OWNERSHIP issuer mc ii n]" "next_empty oi as2 = Some pi"
    "assets u' = as2[pi := POSSESSION issuer mc oi n]" "assetDigests u' = assetDigests u"
    "assetChangeFlags u' = setFlag (setFlag (setFlag (assetChangeFlags u) ii) oi) pi"
    using e False by (auto simp: issueAsset_def Let_def split: option.splits if_splits)
  have "ii < 2 ^ d" "oi < 2 ^ d" "pi < 2 ^ d"
    using search_less [OF s(1) D(2)] next_empty_less [OF s(3)] next_empty_less [OF s(5)] s(2,4) D(2) by simp_all
  then show ?thesis using s D(4) by (intro tracked_changed [OF t]) (auto simp: flagBit_setFlag nth_list_update)
qed (use t in simp)

lemma moveShares_tracked:
  assumes t: "universe_tracked k12 d u" and i: "so < 2 ^ d" "sp < 2 ^ d"
    and e: "moveShares so sp iss opk omc ppk pmc n u = Some (oi, pi, u')"
  shows "universe_tracked k12 d u'"
proof -
  note D = universe_trackedD [OF t]
  obtain as2 where s: "search (ownership_of opk omc iss) opk (assets u) = Some oi" "search (possession_of ppk pmc oi) ppk as2 = Some pi"
    "length as2 = length (assets u)" "\<And>k. k \<noteq> so \<Longrightarrow> k \<noteq> oi \<Longrightarrow> as2 ! k = assets u ! k"
    "length (assets u') = length as2" "\<And>k. k \<noteq> sp \<Longrightarrow> k \<noteq> pi \<Longrightarrow> assets u' ! k = as2 ! k" "assetDigests u' = assetDigests u"
    "assetChangeFlags u' = setFlag (setFlag (setFlag (setFlag (assetChangeFlags u) so) sp) oi) pi"
    using e by (auto simp: moveShares_def Let_def split: option.splits if_splits)
  have "oi < 2 ^ d" "pi < 2 ^ d" using search_less [OF s(1) D(2)] search_less [OF s(2)] s(3) D(2) by simp_all
  then show ?thesis using s D(4) i by (intro tracked_changed [OF t]) (auto simp: flagBit_setFlag)
qed

lemma universe_tracked_log [simp]: "universe_tracked k12 d (u\<lparr>assetLog := l\<rparr>) = universe_tracked k12 d u"
  by (simp add: universe_tracked_def)

lemma management_tracked:
  assumes t: "universe_tracked k12 d u" and i: "so < 2 ^ d" "sp < 2 ^ d"
    and e: "transferShareManagementRights so sp omc' pmc' n u = Some (ok, x, u')"
  shows "universe_tracked k12 d u'"
  using e t moveShares_tracked [OF t i]
  by (auto simp: transferShareManagementRights_def Let_def split: AssetRecord.splits if_splits option.splits)

lemma transfer_tracked:
  assumes t: "universe_tracked k12 d u" and i: "so < 2 ^ d" "sp < 2 ^ d"
    and e: "transferShareOwnershipAndPossession so sp dest n u = Some (ok, x, u')"
  shows "universe_tracked k12 d u'"
proof -
  note D = universe_trackedD [OF t]
  have "universe_tracked k12 d (u\<lparr>assets := (assets u)[so := r, sp := r'],
      assetChangeFlags := setFlag (setFlag (assetChangeFlags u) so) sp\<rparr>)" for r r'
    using D(4) i by (intro tracked_changed [OF t]) (auto simp: flagBit_setFlag nth_list_update)
  then show ?thesis using e t moveShares_tracked [OF t i]
    by (auto simp: transferShareOwnershipAndPossession_def Let_def split: AssetRecord.splits if_splits option.splits)
qed

lemma reorgAsset_length: "reorgAsset as i new = Some new' \<Longrightarrow> length new' = length new"
  by (auto simp: reorgAsset_def Let_def split: if_splits option.splits)

lemma reorgAssets_length: "reorgAssets as is new = Some new' \<Longrightarrow> length new' = length new"
  by (induction as "is" new rule: reorgAssets.induct) (auto dest: reorgAsset_length split: option.splits)

lemma all_flags: "i < 64 * length fl \<Longrightarrow> flagBit (map (\<lambda>_. - 1) fl) i"
  by (simp add: flagBit_def less_mult_imp_div_less mult.commute)

lemma epoch_tracked:
  assumes t: "universe_tracked k12 d u" and e: "assetsEndEpoch u = Some u'"
  shows "universe_tracked k12 d u'"
proof -
  note D = universe_trackedD [OF t]
  have "length (assets u') = 2 ^ d" "assetDigests u' = assetDigests u" "assetChangeFlags u' = map (\<lambda>_. - 1) (assetChangeFlags u)"
    using e D(2) by (auto simp: assetsEndEpoch_def dest: reorgAssets_length split: option.splits)
  moreover have "\<forall>i<2 ^ d. flagBit (map (\<lambda>_. - 1) (assetChangeFlags u)) i"
    unfolding D(4) [symmetric] using all_flags by blast
  ultimately show ?thesis using D by (simp add: universe_tracked_def)
qed

section \<open>Start-up\<close>

text \<open>\<open>loadUniverse\<close> with the records read from the file; \<open>None\<close> is a file of the wrong size.\<close>

definition loadUniverse :: "AssetRecord list \<Rightarrow> bool \<Rightarrow> universe \<Rightarrow> universe option" where
  "loadUniverse file rebuildIndexLists u =
     (if length file \<noteq> length (assets u) then None
      else if rebuildIndexLists then Some (u\<lparr>assets := file, indexLists := rebuildLists file\<rparr>)
      else Some (u\<lparr>assets := file\<rparr>))"

lemma load_tracked:
  assumes "6 \<le> d" and "loadUniverse file rebuildIndexLists (initAssets (2 ^ d)) = Some u"
  shows "universe_tracked k12 d u"
proof -
  obtain k where k: "d = 6 + k" using assms(1) le_Suc_ex by blast
  have "64 * (2 ^ d div 64) = (2::nat) ^ d" by (simp add: k power_add)
  moreover have "replicate n (- 1 :: u64) = map (\<lambda>_. - 1) (replicate n (0 :: u64))" for n by simp
  then have "\<forall>i<64 * n. flagBit (replicate n (- 1)) i" for n using all_flags [of _ "replicate n 0"] by simp
  ultimately show ?thesis using assms by (auto simp: loadUniverse_def initAssets_def universe_tracked_def split: if_splits)
qed

text \<open>The operations that change the universe, on slots of the table, and the digest itself.\<close>

inductive universe_step :: "(u64 list \<Rightarrow> m256i) \<Rightarrow> universe \<Rightarrow> universe \<Rightarrow> bool" for k12 :: "u64 list \<Rightarrow> m256i" where
  issue: "issueAsset issuer name decimals unit n mc u = Some (r, x, u') \<Longrightarrow> universe_step k12 u u'"
| transfer: "so < length (assets u) \<Longrightarrow> sp < length (assets u) \<Longrightarrow>
    transferShareOwnershipAndPossession so sp dest n u = Some (ok, x, u') \<Longrightarrow> universe_step k12 u u'"
| management: "so < length (assets u) \<Longrightarrow> sp < length (assets u) \<Longrightarrow>
    transferShareManagementRights so sp omc pmc n u = Some (ok, x, u') \<Longrightarrow> universe_step k12 u u'"
| end_epoch: "assetsEndEpoch u = Some u' \<Longrightarrow> universe_step k12 u u'"
| digest: "getUniverseDigest k12 u = (h, u') \<Longrightarrow> universe_step k12 u u'"

lemma universe_step_tracked:
  assumes "universe_step k12 u u'" and t: "universe_tracked k12 d u"
  shows "universe_tracked k12 d u'"
  using assms(1)
proof cases
  case (issue issuer name decimals unit n mc r x)
  then show ?thesis by (rule issueAsset_tracked [OF t])
next
  case (transfer so sp dest n ok x)
  then show ?thesis using transfer_tracked [OF t _ _ transfer(3)] universe_trackedD(2) [OF t] by simp
next
  case (management so sp omc pmc n ok x)
  then show ?thesis using management_tracked [OF t _ _ management(3)] universe_trackedD(2) [OF t] by simp
next
  case end_epoch
  then show ?thesis by (rule epoch_tracked [OF t])
next
  case (digest h)
  then show ?thesis using getUniverseDigest_ok [OF t] by auto
qed

lemma universe_steps_tracked:
  "(universe_step k12)\<^sup>*\<^sup>* u u' \<Longrightarrow> universe_tracked k12 d u \<Longrightarrow> universe_tracked k12 d u'"
  by (induction rule: rtranclp_induct) (auto dest: universe_step_tracked)

section \<open>Property\<close>

text \<open>
  C24: from the start-up of a node (records loaded from a file, no digest computed, every flag set) and through any
  sequence of issues, transfers, epoch ends and earlier digest computations, \<open>getUniverseDigest\<close>, which hashes flagged records only
  and skips whole flag words, returns the root of the Merkle tree over all records, and leaves the records unchanged.
\<close>

theorem getUniverseDigest_incremental:
  assumes "6 \<le> d" and "loadUniverse file rebuildIndexLists (initAssets (2 ^ d)) = Some u0" and "(universe_step k12)\<^sup>*\<^sup>* u0 u"
  shows "\<exists>u'. getUniverseDigest k12 u = (universeRoot k12 d (assets u), u') \<and> assets u' = assets u"
  using getUniverseDigest_ok [OF universe_steps_tracked [OF assms(3) load_tracked [OF assms(1,2)]]] by blast

definition sampleHash :: "u64 list \<Rightarrow> m256i" where
  "sampleHash ws = ucast (foldl (\<lambda>h w. 31 * h + w) 7 ws)"

theorem getUniverseDigest_incremental_witness:
  "\<exists>u0 u u'. loadUniverse (replicate 64 EMPTY) True (initAssets (2 ^ 6)) = Some u0 \<and>
     issueAsset 5 7 0 0 100 1 u0 = Some (100, Some (5, 6, 7), u) \<and> assets u ! 5 = ISSUANCE 5 7 0 0 \<and>
     getUniverseDigest sampleHash u = (universeRoot sampleHash 6 (assets u), u')"
proof -
  let ?u0 = "(initAssets (2 ^ 6))\<lparr>assets := replicate 64 EMPTY, indexLists := rebuildLists (replicate 64 EMPTY)\<rparr>"
  have l: "loadUniverse (replicate 64 EMPTY) True (initAssets (2 ^ 6)) = Some ?u0" by (simp add: loadUniverse_def initAssets_def)
  obtain u where u: "issueAsset 5 7 0 0 100 1 ?u0 = Some (100, Some (5, 6, 7), u)" "assets u ! 5 = ISSUANCE 5 7 0 0"
    by (simp add: issueAsset_def search_def next_empty_def home_slot_def m256i_u32_def name_mask_def Let_def)
  have "(universe_step sampleHash)\<^sup>*\<^sup>* ?u0 u" by (rule r_into_rtranclp, rule issue, rule u(1))
  from getUniverseDigest_incremental [OF _ l this] l u show ?thesis by auto
qed

end
