(* ===== verification/Assets_Requests.thy ===== *)
theory Assets_Requests
  imports Assets_Digest Network_Messages
begin

text \<open>
  The requests for the issued, owned and possessed assets of a key (\<open>src/src/assets/net_msg_impl.h\<close>): a walk from the
  home slot of the key to the first empty slot, one response for each record of the requested kind and key, then the end
  response. A walk that meets no empty slot does not end (\<^const>\<open>None\<close>).
\<close>

section \<open>Messages and handlers\<close>

record RespondIssuedAssets =
  riAsset :: AssetRecord
  riTick :: u32
  riUniverseIndex :: nat
  riSiblings :: "m256i list"

record RespondOwnedAssets =
  roAsset :: AssetRecord
  roIssuanceAsset :: AssetRecord
  roTick :: u32
  roUniverseIndex :: nat
  roSiblings :: "m256i list"

record RespondPossessedAssets =
  rpAsset :: AssetRecord
  rpOwnershipAsset :: AssetRecord
  rpIssuanceAsset :: AssetRecord
  rpTick :: u32
  rpUniverseIndex :: nat
  rpSiblings :: "m256i list"

text \<open>The loop at label \<open>iteration\<close>: the slots that are answered, in order.\<close>

fun requestLoop :: "(AssetRecord \<Rightarrow> bool) \<Rightarrow> AssetRecord list \<Rightarrow> nat \<Rightarrow> nat \<Rightarrow> nat list option" where
  "requestLoop match as 0 universeIndex = None"
| "requestLoop match as (Suc fuel) universeIndex =
     (if length as \<le> universeIndex \<or> as ! universeIndex = EMPTY then Some []
      else map_option (\<lambda>is. if match (as ! universeIndex) then universeIndex # is else is)
             (requestLoop match as fuel ((universeIndex + 1) AND (length as - 1))))"

definition requested :: "(AssetRecord \<Rightarrow> bool) \<Rightarrow> m256i \<Rightarrow> AssetRecord list \<Rightarrow> nat list option" where
  "requested kind pk as = requestLoop (\<lambda>r. kind r \<and> asset_pk r = pk) as (length as) (home_slot (length as) pk)"

definition RESPOND_ISSUED_ASSETS :: u8 where
  "RESPOND_ISSUED_ASSETS = 37"

definition RESPOND_OWNED_ASSETS :: u8 where
  "RESPOND_OWNED_ASSETS = 39"

definition RESPOND_POSSESSED_ASSETS :: u8 where
  "RESPOND_POSSESSED_ASSETS = 41"

text \<open>A response with \<open>n\<close> records of 48 bytes, the tick, the index and the siblings; after the last one the end response.\<close>

definition assetResponses :: "nat \<Rightarrow> u8 \<Rightarrow> nat \<Rightarrow> RequestResponseHeader \<Rightarrow> 'a list \<Rightarrow> 'a Response list" where
  "assetResponses n typ depth header rs =
     map (\<lambda>r. \<lparr>rspSize = 48 * n + 4 + 4 + 32 * depth, rspType = typ, rspDejavu = hdrDejavu header, rspData = Some r\<rparr>) rs @ [endResponse header]"

definition issuedReply :: "nat \<Rightarrow> u32 \<Rightarrow> universe \<Rightarrow> nat \<Rightarrow> RespondIssuedAssets" where
  "issuedReply depth tick u i =
     \<lparr>riAsset = assets u ! i, riTick = tick, riUniverseIndex = i, riSiblings = getSiblings depth i (assetDigests u)\<rparr>"

definition processRequestIssuedAssets :: "nat \<Rightarrow> u32 \<Rightarrow> RequestResponseHeader \<Rightarrow> universe \<Rightarrow> m256i \<Rightarrow> RespondIssuedAssets Response list option" where
  "processRequestIssuedAssets depth tick header u pk =
     (if \<not> checkPayloadSize header 32 then Some []
      else map_option (\<lambda>is. assetResponses 1 RESPOND_ISSUED_ASSETS depth header (map (issuedReply depth tick u) is))
           (requested is_issuance pk (assets u)))"

definition ownedReply :: "nat \<Rightarrow> u32 \<Rightarrow> universe \<Rightarrow> nat \<Rightarrow> RespondOwnedAssets" where
  "ownedReply depth tick u i =
     \<lparr>roAsset = assets u ! i, roIssuanceAsset = assets u ! asset_index (assets u ! i), roTick = tick, roUniverseIndex = i,
      roSiblings = getSiblings depth i (assetDigests u)\<rparr>"

definition processRequestOwnedAssets :: "nat \<Rightarrow> u32 \<Rightarrow> RequestResponseHeader \<Rightarrow> universe \<Rightarrow> m256i \<Rightarrow> RespondOwnedAssets Response list option" where
  "processRequestOwnedAssets depth tick header u pk =
     (if \<not> checkPayloadSize header 32 then Some []
      else map_option (\<lambda>is. assetResponses 2 RESPOND_OWNED_ASSETS depth header (map (ownedReply depth tick u) is))
           (requested is_ownership pk (assets u)))"

definition possessedReply :: "nat \<Rightarrow> u32 \<Rightarrow> universe \<Rightarrow> nat \<Rightarrow> RespondPossessedAssets" where
  "possessedReply depth tick u i =
     (let own = assets u ! asset_index (assets u ! i)
      in \<lparr>rpAsset = assets u ! i, rpOwnershipAsset = own, rpIssuanceAsset = assets u ! asset_index own, rpTick = tick,
          rpUniverseIndex = i, rpSiblings = getSiblings depth i (assetDigests u)\<rparr>)"

definition processRequestPossessedAssets :: "nat \<Rightarrow> u32 \<Rightarrow> RequestResponseHeader \<Rightarrow> universe \<Rightarrow> m256i \<Rightarrow> RespondPossessedAssets Response list option" where
  "processRequestPossessedAssets depth tick header u pk =
     (if \<not> checkPayloadSize header 32 then Some []
      else map_option (\<lambda>is. assetResponses 3 RESPOND_POSSESSED_ASSETS depth header (map (possessedReply depth tick u) is))
           (requested is_possession pk (assets u)))"

section \<open>The walk\<close>

definition path :: "nat \<Rightarrow> nat \<Rightarrow> nat \<Rightarrow> nat" where "path cap i k = (i + k) mod cap"

lemma requestLoop_path:
  assumes l: "length as = 2 ^ d" and "i < 2 ^ d" and "m < fuel" and "as ! path (2 ^ d) i m = EMPTY"
    and "\<And>k. k < m \<Longrightarrow> as ! path (2 ^ d) i k \<noteq> EMPTY"
  shows "requestLoop match as fuel i = Some (filter (\<lambda>j. match (as ! j)) (map (path (2 ^ d) i) [0..<m]))"
  using assms(2-)
proof (induction m arbitrary: i fuel)
  case 0
  then obtain f where "fuel = Suc f" by (cases fuel) auto
  then show ?case using 0 by (simp add: path_def)
next
  case (Suc m)
  then obtain f where f: "fuel = Suc f" by (cases fuel) auto
  let ?i = "Suc i mod 2 ^ d"
  have p: "path (2 ^ d) ?i k = path (2 ^ d) i (Suc k)" for k by (simp add: path_def mod_simps)
  have i: "i = path (2 ^ d) i 0" using Suc.prems(1) by (simp add: path_def)
  have ne: "as ! i \<noteq> EMPTY" using Suc.prems(4) [of 0] i by simp
  have IH: "requestLoop match as f ?i = Some (filter (\<lambda>j. match (as ! j)) (map (path (2 ^ d) ?i) [0..<m]))"
    by (rule Suc.IH) (use Suc.prems f p in auto)
  have u: "map (path (2 ^ d) i) [0..<Suc m] = i # map (path (2 ^ d) ?i) [0..<m]"
    unfolding map_upt_Suc i [symmetric] by (simp add: p)
  show ?case unfolding u f using ne IH l Suc.prems(1) by (simp add: and_pow2_mask [of "Suc i" d, simplified])
qed

text \<open>The first empty slot after the home slot of the key comes after all records of the key.\<close>

lemma requested_complete:
  assumes t: "table_ok d as" and e: "e < length as" "as ! e = EMPTY" and k: "\<And>r. kind r \<Longrightarrow> r \<noteq> EMPTY"
  obtains js where "requested kind pk as = Some js" "distinct js" "set js = {j. j < length as \<and> kind (as ! j) \<and> asset_pk (as ! j) = pk}"
proof -
  note T = table_okD [OF t]
  let ?h = "home_slot (2 ^ d) pk" and ?p = "path (2 ^ d) (home_slot (2 ^ d) pk)"
  have h: "?h < 2 ^ d" by (rule home_slot_less)
  define m where "m = (LEAST k. as ! ?p k = EMPTY)"
  have reach: "?p (steps_to (2 ^ d) ?h j) = j" if "j < 2 ^ d" for j using steps_to_reaches [OF h that] by (simp add: path_def)
  have "as ! ?p (steps_to (2 ^ d) ?h e) = EMPTY" using reach e T(1) by simp
  then have m: "as ! ?p m = EMPTY" "m \<le> steps_to (2 ^ d) ?h e" "\<And>k. k < m \<Longrightarrow> as ! ?p k \<noteq> EMPTY"
    unfolding m_def by (auto intro: LeastI Least_le dest: not_less_Least)
  have m2: "m < 2 ^ d" using m(2) steps_to_less [of "2 ^ d" ?h e] by simp
  have ret: "steps_to (2 ^ d) ?h (?p k) = k" if "k < 2 ^ d" for k using steps_to_unique [OF h that] by (simp add: path_def)
  let ?js = "filter (\<lambda>j. kind (as ! j) \<and> asset_pk (as ! j) = pk) (map ?p [0..<m])"
  have r: "requested kind pk as = Some ?js"
    unfolding requested_def T(1) by (rule requestLoop_path [OF T(1) h m2 m(1,3)])
  have "inj_on ?p {0..<m}" using ret m2 by (intro inj_on_inverseI [of _ "steps_to (2 ^ d) ?h"]) simp
  then have "distinct ?js" by (simp add: distinct_map)
  moreover have "j \<in> ?p ` {0..<m}" if j: "j < length as" "kind (as ! j)" "asset_pk (as ! j) = pk" for j
  proof -
    have live: "as ! j \<noteq> EMPTY" using k j(2) by blast
    let ?s = "steps_to (2 ^ d) ?h j"
    have s: "?p ?s = j" using reach j(1) T(1) by simp
    have pm: "?p m < 2 ^ d" by (simp add: path_def)
    have "\<not> steps_to (2 ^ d) ?h (?p m) < ?s"
      using T(2) j live m(1) pm T(1) unfolding chained_def by (auto simp: live_def vacant_def asset_home_def)
    then have "?s \<le> m" using ret [OF m2] by simp
    moreover have "?s \<noteq> m" using s m(1) live by metis
    ultimately show ?thesis using s by (metis atLeastLessThan_iff imageI le0 le_neq_implies_less)
  qed
  then have "set ?js = {j. j < length as \<and> kind (as ! j) \<and> asset_pk (as ! j) = pk}"
    using T(1) by (auto simp: path_def)
  ultimately show thesis using that r by blast
qed

section \<open>Property\<close>

text \<open>
  C25: right after the digest of the universe was computed, a request for the issued, owned or possessed assets of a key
  is answered (in a universe with a free slot the walk ends) with exactly the records of that kind and key, each once,
  followed by the end response; the hash of each record and its siblings lead to the universe digest, and an ownership or
  possession comes with the records it belongs to. A request of the wrong size is not answered.
\<close>

theorem asset_requests_complete:
  assumes u: "universe_ok d (assets u)" "1 \<le> free_slots (assets u)" and t: "universe_tracked k12 d u"
    and g: "getUniverseDigest k12 u = (root, u')"
  shows "(\<exists>rs. processRequestIssuedAssets d tick header u' pk =
        Some (if checkPayloadSize header 32 then assetResponses 1 RESPOND_ISSUED_ASSETS d header rs else []) \<and> distinct (map riUniverseIndex rs) \<and>
      set (map riUniverseIndex rs) = {j. j < 2 ^ d \<and> is_issuance (assets u ! j) \<and> asset_pk (assets u ! j) = pk} \<and>
      (\<forall>r\<in>set rs. riAsset r = assets u ! riUniverseIndex r \<and>
        pathRoot k12 (riUniverseIndex r) (k12 (asset_words (riAsset r))) (riSiblings r) = root)) \<and>
    (\<exists>rs. processRequestOwnedAssets d tick header u' pk =
        Some (if checkPayloadSize header 32 then assetResponses 2 RESPOND_OWNED_ASSETS d header rs else []) \<and> distinct (map roUniverseIndex rs) \<and>
      set (map roUniverseIndex rs) = {j. j < 2 ^ d \<and> is_ownership (assets u ! j) \<and> asset_pk (assets u ! j) = pk} \<and>
      (\<forall>r\<in>set rs. roAsset r = assets u ! roUniverseIndex r \<and> is_issuance (roIssuanceAsset r) \<and>
        pathRoot k12 (roUniverseIndex r) (k12 (asset_words (roAsset r))) (roSiblings r) = root)) \<and>
    (\<exists>rs. processRequestPossessedAssets d tick header u' pk =
        Some (if checkPayloadSize header 32 then assetResponses 3 RESPOND_POSSESSED_ASSETS d header rs else []) \<and> distinct (map rpUniverseIndex rs) \<and>
      set (map rpUniverseIndex rs) = {j. j < 2 ^ d \<and> is_possession (assets u ! j) \<and> asset_pk (assets u ! j) = pk} \<and>
      (\<forall>r\<in>set rs. rpAsset r = assets u ! rpUniverseIndex r \<and> is_ownership (rpOwnershipAsset r) \<and> is_issuance (rpIssuanceAsset r) \<and>
        pathRoot k12 (rpUniverseIndex r) (k12 (asset_words (rpAsset r))) (rpSiblings r) = root))"
proof -
  have tb: "table_ok d (assets u)" using u by (simp add: universe_ok_def)
  note T = table_okD [OF tb]
  have G: "assets u' = assets u" "tree_ok k12 d (assetLeaves k12 (assets u)) (assetDigests u')" "root = universeRoot k12 d (assets u)"
    using getUniverseDigest_ok [OF t] g by auto
  have V: "pathRoot k12 j (k12 (asset_words (assets u ! j))) (getSiblings d j (assetDigests u')) = root" if "j < 2 ^ d" for j
    using getSiblings_root [OF G(2) that] that T(1) G(3) by (simp add: assetLeaves_def universeRoot_def)
  have own: "is_issuance (assets u ! asset_index (assets u ! j))" if "j < 2 ^ d" "is_ownership (assets u ! j)" for j
    using T(4) [of j] that T(1) by (cases "assets u ! j") (auto simp: asset_index_def)
  have pos: "is_ownership (assets u ! asset_index (assets u ! j))" "asset_index (assets u ! j) < 2 ^ d"
    if "j < 2 ^ d" "is_possession (assets u ! j)" for j
    using T(4) [of j] that T(1) by (cases "assets u ! j"; auto simp: asset_index_def)+
  obtain e where e: "e < length (assets u)" "assets u ! e = EMPTY" using free_slot [OF u(2)] by blast
  have ne: "is_issuance r \<Longrightarrow> r \<noteq> EMPTY" "is_ownership r \<Longrightarrow> r \<noteq> EMPTY" "is_possession r \<Longrightarrow> r \<noteq> EMPTY" for r by auto
  obtain ia where ia: "requested is_issuance pk (assets u) = Some ia" "distinct ia"
    "set ia = {j. j < length (assets u) \<and> is_issuance (assets u ! j) \<and> asset_pk (assets u ! j) = pk}"
    by (rule requested_complete [OF tb e ne(1)])
  obtain js where js: "requested is_ownership pk (assets u) = Some js" "distinct js"
    "set js = {j. j < length (assets u) \<and> is_ownership (assets u ! j) \<and> asset_pk (assets u ! j) = pk}"
    by (rule requested_complete [OF tb e ne(2)])
  obtain ks where ks: "requested is_possession pk (assets u) = Some ks" "distinct ks"
    "set ks = {j. j < length (assets u) \<and> is_possession (assets u ! j) \<and> asset_pk (assets u ! j) = pk}"
    by (rule requested_complete [OF tb e ne(3)])
  from ia js ks show ?thesis
    by (intro conjI [OF exI [of _ "map (issuedReply d tick u') ia"]
          conjI [OF exI [of _ "map (ownedReply d tick u') js"] exI [of _ "map (possessedReply d tick u') ks"]]])
       (simp_all add: processRequestIssuedAssets_def processRequestOwnedAssets_def processRequestPossessedAssets_def
          issuedReply_def ownedReply_def possessedReply_def G(1) T(1) V own pos Let_def comp_def image_image)
qed

text \<open>A universe of 64 slots in which key 5 has issued 100 shares.\<close>

definition issuedUniverse :: universe where
  "issuedUniverse = (case loadUniverse (replicate 64 EMPTY) True (initAssets (2 ^ 6)) of Some u0 \<Rightarrow>
     (case issueAsset 5 7 0 0 100 1 u0 of Some (_, _, u) \<Rightarrow> u))"

lemma issuedUniverse_ok:
  "universe_ok 6 (assets issuedUniverse)" "1 \<le> free_slots (assets issuedUniverse)" "universe_tracked k12 6 issuedUniverse"
  "assets issuedUniverse ! 5 = ISSUANCE 5 7 0 0"
proof -
  let ?e = "replicate 64 EMPTY"
  obtain u0 where l: "loadUniverse ?e True (initAssets (2 ^ 6)) = Some u0" "assets u0 = ?e"
    by (simp add: loadUniverse_def initAssets_def)
  obtain u where u: "issueAsset 5 7 0 0 100 1 u0 = Some (100, Some (5, 6, 7), u)"
    and a: "assets u = ?e[5 := ISSUANCE 5 7 0 0, 6 := OWNERSHIP 5 1 5 100, 7 := POSSESSION 5 1 6 100]"
    by (simp add: issueAsset_def search_def next_empty_def home_slot_def m256i_u32_def name_mask_def Let_def l(2))
  have d: "issuedUniverse = u" using l(1) u by (simp add: issuedUniverse_def)
  have e: "universe_ok 6 (assets u0)" using universe_ok_empty [of 6] l(2) by simp
  have f: "free_slots (assets u0) = 64" by (simp only: l(2) free_slots_def filter_replicate simp_thms if_True length_replicate)
  then have f3: "3 \<le> free_slots (assets u0)" by simp
  have "\<not> (\<exists>i<length (assets u0). same_issue 5 7 (assets u0 ! i))" using l(2) by simp
  then show "universe_ok 6 (assets issuedUniverse)"
    using issue_outcome [OF e _ f3, of 100 5 7 0 0 1] u d by fastforce
  show "universe_tracked k12 6 issuedUniverse"
    using issueAsset_tracked [OF load_tracked [OF _ l(1)] u] d by simp
  have "free_slots ?e \<le> free_slots (assets u) + 3"
    using free_slots_update [of 5 ?e "ISSUANCE 5 7 0 0"] free_slots_update [of 6 "?e[5 := ISSUANCE 5 7 0 0]" "OWNERSHIP 5 1 5 100"]
      free_slots_update [of 7 "?e[5 := ISSUANCE 5 7 0 0, 6 := OWNERSHIP 5 1 5 100]" "POSSESSION 5 1 6 100"] a by simp
  then show "1 \<le> free_slots (assets issuedUniverse)" using f l(2) d by simp
  show "assets issuedUniverse ! 5 = ISSUANCE 5 7 0 0" using a d by simp
qed

theorem asset_requests_complete_witness:
  "universe_ok 6 (assets issuedUniverse) \<and> 1 \<le> free_slots (assets issuedUniverse) \<and>
   universe_tracked sampleHash 6 issuedUniverse \<and>
   (\<exists>root u' rs. getUniverseDigest sampleHash issuedUniverse = (root, u') \<and>
     processRequestIssuedAssets 6 10 demoHeader u' 5 = Some (assetResponses 1 RESPOND_ISSUED_ASSETS 6 demoHeader rs) \<and> 5 \<in> set (map riUniverseIndex rs))"
proof -
  obtain root u' where g: "getUniverseDigest sampleHash issuedUniverse = (root, u')" by (cases rule: prod.exhaust)
  have "\<exists>rs. processRequestIssuedAssets 6 10 demoHeader u' 5 = Some (assetResponses 1 RESPOND_ISSUED_ASSETS 6 demoHeader rs) \<and> 5 \<in> set (map riUniverseIndex rs)"
    using asset_requests_complete [OF issuedUniverse_ok(1-3) g, of 10 demoHeader 5] issuedUniverse_ok(4) demoHeader_ok by auto
  then show ?thesis using g issuedUniverse_ok(1-3) by blast
qed

end
