(* ===== verification/Read_Write_Lock.thy ===== *)
theory Read_Write_Lock
  imports Prelude
begin

text \<open>
  \<open>ReadWriteLock\<close> (\<open>src/src/platform/read_write_lock.h\<close>) used by any number of threads. Each access to a shared variable
  is one atomic step, so that the steps of different threads interleave at exactly the points where they can in the code:
  between the test of \<open>writersWaiting\<close>, the read of \<open>readers\<close> and the compare-exchange of \<open>tryAcquireRead\<close>, and between the three
  steps of \<open>acquireWrite\<close>. The counters are bounded by the number of threads, so they are integers here.
\<close>

section \<open>The lock and its operations\<close>

record rwlock =
  readers :: int
  writersWaiting :: int

definition rw_reset :: rwlock where
  "rw_reset = \<lparr>readers = 0, writersWaiting = 0\<rparr>"

text \<open>\<open>_InterlockedCompareExchange(&readers, new, old) == old\<close>\<close>

definition casReaders :: "int \<Rightarrow> int \<Rightarrow> rwlock \<Rightarrow> bool \<times> rwlock" where
  "casReaders new old l = (if readers l = old then (True, l\<lparr>readers := new\<rparr>) else (False, l))"

text \<open>
  The program point of a thread. \<open>ReadCheck w\<close>, \<open>ReadLoad w\<close> and \<open>ReadCas w c\<close> are inside \<open>tryAcquireRead\<close>, called from
  the waiting loop of \<open>acquireRead\<close> when \<open>w\<close> holds; \<open>WriteOnce\<close> is inside a \<open>tryAcquireWrite\<close> of its own, \<open>WriteEnter\<close>,
  \<open>WriteTry\<close> and \<open>WriteGot\<close> are the steps of \<open>acquireWrite\<close>. \<open>Reading\<close> and \<open>Writing\<close> threads hold the lock.
\<close>

datatype rw_pc = Idle | ReadCheck bool | ReadLoad bool | ReadCas bool int | Reading
  | WriteOnce | WriteEnter | WriteTry | WriteGot | Writing

text \<open>A failing \<open>tryAcquireRead\<close> returns, or is repeated by \<open>WAIT_WHILE\<close>.\<close>

definition readFailed :: "bool \<Rightarrow> rw_pc" where
  "readFailed w = (if w then ReadCheck True else Idle)"

definition tryAcquireRead_check :: "bool \<Rightarrow> rwlock \<Rightarrow> rw_pc \<times> rwlock" where
  "tryAcquireRead_check w l = (if writersWaiting l \<noteq> 0 then (readFailed w, l) else (ReadLoad w, l))"

definition tryAcquireRead_load :: "bool \<Rightarrow> rwlock \<Rightarrow> rw_pc \<times> rwlock" where
  "tryAcquireRead_load w l = (if readers l < 0 then (readFailed w, l) else (ReadCas w (readers l), l))"

definition tryAcquireRead_cas :: "bool \<Rightarrow> int \<Rightarrow> rwlock \<Rightarrow> rw_pc \<times> rwlock" where
  "tryAcquireRead_cas w currentReaders l =
     (case casReaders (currentReaders + 1) currentReaders l of
        (True, l') \<Rightarrow> (Reading, l')
      | (False, l') \<Rightarrow> (ReadLoad w, l'))"

definition releaseRead :: "rwlock \<Rightarrow> rwlock" where
  "releaseRead l = l\<lparr>readers := readers l - 1\<rparr>"

definition tryAcquireWrite :: "rwlock \<Rightarrow> bool \<times> rwlock" where
  "tryAcquireWrite l = casReaders (- 1) 0 l"

definition acquireWrite_enter :: "rwlock \<Rightarrow> rwlock" where
  "acquireWrite_enter l = l\<lparr>writersWaiting := writersWaiting l + 1\<rparr>"

definition acquireWrite_leave :: "rwlock \<Rightarrow> rwlock" where
  "acquireWrite_leave l = l\<lparr>writersWaiting := writersWaiting l - 1\<rparr>"

definition releaseWrite :: "rwlock \<Rightarrow> rwlock" where
  "releaseWrite l = l\<lparr>readers := 0\<rparr>"

definition isLockedForWriting :: "rwlock \<Rightarrow> bool" where
  "isLockedForWriting l \<longleftrightarrow> readers l = - 1"

definition getCurrentReaderLockCount :: "rwlock \<Rightarrow> int" where
  "getCurrentReaderLockCount l = readers l"

text \<open>The next step of a thread that is inside an operation.\<close>

fun advance :: "rw_pc \<Rightarrow> rwlock \<Rightarrow> rw_pc \<times> rwlock" where
  "advance (ReadCheck w) l = tryAcquireRead_check w l"
| "advance (ReadLoad w) l = tryAcquireRead_load w l"
| "advance (ReadCas w c) l = tryAcquireRead_cas w c l"
| "advance WriteOnce l = (case tryAcquireWrite l of (ok, l') \<Rightarrow> (if ok then Writing else Idle, l'))"
| "advance WriteEnter l = (WriteTry, acquireWrite_enter l)"
| "advance WriteTry l = (case tryAcquireWrite l of (ok, l') \<Rightarrow> (if ok then WriteGot else WriteTry, l'))"
| "advance WriteGot l = (Writing, acquireWrite_leave l)"
| "advance pc l = (pc, l)"

section \<open>Threads\<close>

type_synonym rw_state = "rwlock \<times> rw_pc list"

inductive rw_step :: "nat \<Rightarrow> rw_state \<Rightarrow> rw_state \<Rightarrow> bool" where
  call_read: "i < length ps \<Longrightarrow> ps ! i = Idle \<Longrightarrow> rw_step i (l, ps) (l, ps[i := ReadCheck w])"
| call_write: "i < length ps \<Longrightarrow> ps ! i = Idle \<Longrightarrow> rw_step i (l, ps) (l, ps[i := WriteEnter])"
| call_tryWrite: "i < length ps \<Longrightarrow> ps ! i = Idle \<Longrightarrow> rw_step i (l, ps) (l, ps[i := WriteOnce])"
| advance: "i < length ps \<Longrightarrow> ps ! i \<notin> {Idle, Reading, Writing} \<Longrightarrow> advance (ps ! i) l = (pc, l') \<Longrightarrow>
    rw_step i (l, ps) (l', ps[i := pc])"
| end_read: "i < length ps \<Longrightarrow> ps ! i = Reading \<Longrightarrow> rw_step i (l, ps) (releaseRead l, ps[i := Idle])"
| end_write: "i < length ps \<Longrightarrow> ps ! i = Writing \<Longrightarrow> rw_step i (l, ps) (releaseWrite l, ps[i := Idle])"

definition rw_run :: "nat \<Rightarrow> rw_state \<Rightarrow> bool" where
  "rw_run n s \<longleftrightarrow> (\<lambda>s s'. \<exists>i. rw_step i s s')\<^sup>*\<^sup>* (rw_reset, replicate n Idle) s"

section \<open>Invariant\<close>

definition holdsWrite :: "rw_pc \<Rightarrow> bool" where "holdsWrite pc \<longleftrightarrow> pc = WriteGot \<or> pc = Writing"
definition announced :: "rw_pc \<Rightarrow> bool" where "announced pc \<longleftrightarrow> pc = WriteTry \<or> pc = WriteGot"

definition number :: "('a \<Rightarrow> bool) \<Rightarrow> 'a list \<Rightarrow> int" where
  "number P xs = int (length (filter P xs))"

lemma number_update:
  assumes "i < length xs"
  shows "number P (xs[i := x]) = number P xs - (if P (xs ! i) then 1 else 0) + (if P x then 1 else 0)"
  using length_filter_update [of i xs P x] assms by (simp add: number_def)

lemma number_pos: "i < length xs \<Longrightarrow> P (xs ! i) \<Longrightarrow> 0 < number P xs"
  by (simp add: number_def filter_empty_conv) (metis nth_mem)

lemma number_nonneg: "0 \<le> number P xs"
  by (simp add: number_def)

abbreviation reading :: "rw_pc list \<Rightarrow> int" where "reading \<equiv> number (\<lambda>pc. pc = Reading)"

definition rw_inv :: "rw_state \<Rightarrow> bool" where
  "rw_inv s \<longleftrightarrow> (case s of (l, ps) \<Rightarrow>
     number holdsWrite ps \<le> 1 \<and> (number holdsWrite ps = 0 \<or> reading ps = 0) \<and>
     readers l = reading ps - number holdsWrite ps \<and> writersWaiting l = number announced ps \<and>
     (\<forall>i<length ps. \<forall>w c. ps ! i = ReadCas w c \<longrightarrow> 0 \<le> c))"

lemmas rw_op_defs = tryAcquireRead_check_def tryAcquireRead_load_def tryAcquireRead_cas_def casReaders_def readFailed_def
  tryAcquireWrite_def acquireWrite_enter_def acquireWrite_leave_def releaseRead_def releaseWrite_def

lemma rw_inv_reset: "rw_inv (rw_reset, replicate n Idle)"
  by (simp add: rw_inv_def rw_reset_def number_def holdsWrite_def announced_def)

text \<open>One thread moves to \<open>pc\<close>, the lock to \<open>l'\<close>: the counters must follow.\<close>

lemma rw_inv_update:
  assumes inv: "rw_inv (l, ps)" and i: "i < length ps"
    and w: "number holdsWrite ps - of_bool (holdsWrite (ps ! i)) + of_bool (holdsWrite pc) \<le> 1"
      "number holdsWrite ps - of_bool (holdsWrite (ps ! i)) + of_bool (holdsWrite pc) = 0 \<or>
       reading ps - of_bool (ps ! i = Reading) + of_bool (pc = Reading) = 0"
    and r: "readers l' = readers l - of_bool (ps ! i = Reading) + of_bool (pc = Reading)
      + of_bool (holdsWrite (ps ! i)) - of_bool (holdsWrite pc)"
    and a: "writersWaiting l' = writersWaiting l - of_bool (announced (ps ! i)) + of_bool (announced pc)"
    and c: "\<And>w c. pc = ReadCas w c \<Longrightarrow> 0 \<le> c"
  shows "rw_inv (l', ps[i := pc])"
proof -
  have "0 \<le> c" if "k < length (ps[i := pc])" "ps[i := pc] ! k = ReadCas w c" for k w c
    using inv c that i by (cases "k = i") (auto simp: rw_inv_def)
  then show ?thesis using inv w r a unfolding rw_inv_def prod.case number_update [OF i]
    by (auto simp: of_bool_def split: if_splits)
qed

lemma rw_step_inv:
  assumes step: "rw_step i s s'" and inv: "rw_inv s"
  shows "rw_inv s'"
proof -
  obtain l ps l' ps' where s: "s = (l, ps)" "s' = (l', ps')" by (cases s, cases s')
  have I: "rw_inv (l, ps)" using inv s by simp
  note R = I [unfolded rw_inv_def prod.case]
  have nn: "0 \<le> reading ps" "0 \<le> number holdsWrite ps" by (rule number_nonneg)+
  have W: "holdsWrite (ps ! i) \<Longrightarrow> i < length ps \<Longrightarrow> number holdsWrite ps = 1 \<and> reading ps = 0"
    using number_pos [of i ps holdsWrite] R by linarith
  have D: "ps ! i = Reading \<Longrightarrow> i < length ps \<Longrightarrow> number holdsWrite ps = 0"
    using number_pos [of i ps "\<lambda>pc. pc = Reading"] R by linarith
  from step [unfolded s] have "rw_inv (l', ps')"
  proof cases
    case (advance pc)
    note A = advance
    show ?thesis unfolding A(1)
      by (rule rw_inv_update [OF I A(2)])
        (use A R nn W in \<open>cases "ps ! i"; auto simp: rw_op_defs holdsWrite_def announced_def split: if_splits prod.splits\<close>)+
  qed (use R W D nn in \<open>auto simp: rw_op_defs holdsWrite_def announced_def intro!: rw_inv_update [OF I]\<close>)
  then show ?thesis using s(2) by simp
qed

lemma rw_run_inv: "rw_run n s \<Longrightarrow> rw_inv s"
  unfolding rw_run_def by (induction rule: rtranclp_induct) (auto simp: rw_inv_reset intro: rw_step_inv)

lemma number_two:
  assumes "i < length xs" "j < length xs" "i \<noteq> j" "P (xs ! i)" "P (xs ! j)"
  shows "2 \<le> number P xs"
proof -
  have "card {i, j} \<le> card {k. k < length xs \<and> P (xs ! k)}" using assms by (intro card_mono) auto
  then show ?thesis using assms(3) by (simp add: number_def length_filter_conv_card)
qed

section \<open>Waiting writers\<close>

text \<open>The threads that hold the lock or have passed the test of \<open>writersWaiting\<close>.\<close>

fun inside :: "rw_pc \<Rightarrow> bool" where
  "inside (ReadLoad w) = True"
| "inside (ReadCas w c) = True"
| "inside Reading = True"
| "inside WriteGot = True"
| "inside Writing = True"
| "inside pc = False"

lemma inside_holders: "holdsWrite pc \<Longrightarrow> inside pc" "inside Reading"
  by (auto simp: holdsWrite_def)

abbreviation rw_steps :: "rw_state \<Rightarrow> rw_state \<Rightarrow> bool" where
  "rw_steps \<equiv> (\<lambda>s s'. \<exists>i. rw_step i s s')\<^sup>*\<^sup>*"

lemma one_step:
  assumes "rw_step j (l, ps) (l', ps[j := pc])" and "rw_steps (l', ps[j := pc]) (l'', ps[j := pc'])"
  shows "rw_steps (l, ps) (l'', ps[j := pc'])"
  by (rule converse_rtranclp_into_rtranclp [where b = "(l', ps[j := pc])"]) (use assms in auto)

text \<open>A thread that is inside can leave by steps of its own.\<close>

lemma reader_leaves:
  assumes "j < length ps" and "ps ! j = Reading"
  shows "rw_steps (l, ps) (releaseRead l, ps[j := Idle])"
  using end_read [OF assms, of l] by blast

lemma writer_leaves:
  assumes "j < length ps" and "ps ! j = Writing"
  shows "rw_steps (l, ps) (releaseWrite l, ps[j := Idle])"
  using end_write [OF assms, of l] by blast

lemma loader_leaves:
  assumes j: "j < length ps" and p: "ps ! j = ReadLoad w"
  shows "\<exists>l' pc. rw_steps (l, ps) (l', ps[j := pc]) \<and> \<not> inside pc"
proof (cases "readers l < 0")
  case True
  then have "rw_step j (l, ps) (l, ps[j := readFailed w])" by (intro advance) (use j p in \<open>auto simp: rw_op_defs\<close>)
  then have "rw_steps (l, ps) (l, ps[j := readFailed w])" by blast
  moreover have "\<not> inside (readFailed w)" by (simp add: readFailed_def)
  ultimately show ?thesis by blast
next
  case False
  let ?p1 = "ps[j := ReadCas w (readers l)]" and ?l = "l\<lparr>readers := readers l + 1\<rparr>" and ?p2 = "ps[j := Reading]"
  have 1: "rw_step j (l, ps) (l, ?p1)" by (intro advance) (use j p False in \<open>auto simp: rw_op_defs\<close>)
  have 2: "rw_step j (l, ?p1) (?l, ?p1[j := Reading])" by (intro advance) (use j in \<open>auto simp: rw_op_defs\<close>)
  have 3: "rw_steps (?l, ?p2) (releaseRead ?l, ?p2[j := Idle])" by (rule reader_leaves) (use j in auto)
  have "rw_steps (l, ps) (releaseRead ?l, ps[j := Idle])"
    by (rule one_step [OF 1], rule converse_rtranclp_into_rtranclp) (use 2 3 in auto)
  then show ?thesis by (intro exI) auto
qed

lemma drain:
  assumes j: "j < length ps" and p: "inside (ps ! j)"
  shows "\<exists>l' pc. rw_steps (l, ps) (l', ps[j := pc]) \<and> \<not> inside pc"
proof (cases "ps ! j")
  case (ReadLoad w)
  then show ?thesis by (rule loader_leaves [OF j])
next
  case (ReadCas w c)
  show ?thesis
  proof (cases "readers l = c")
    case True
    let ?l = "l\<lparr>readers := c + 1\<rparr>"
    have 1: "rw_step j (l, ps) (?l, ps[j := Reading])" by (intro advance) (use j ReadCas True in \<open>auto simp: rw_op_defs\<close>)
    have "rw_steps (?l, ps[j := Reading]) (releaseRead ?l, ps[j := Reading, j := Idle])" by (rule reader_leaves) (use j in auto)
    then show ?thesis using one_step [OF 1] by fastforce
  next
    case False
    have 1: "rw_step j (l, ps) (l, ps[j := ReadLoad w])" by (intro advance) (use j ReadCas False in \<open>auto simp: rw_op_defs\<close>)
    obtain l' pc where "rw_steps (l, ps[j := ReadLoad w]) (l', ps[j := ReadLoad w, j := pc])" "\<not> inside pc"
      using loader_leaves [of j "ps[j := ReadLoad w]" w l] j by auto
    then show ?thesis using one_step [OF 1] by auto
  qed
next
  case WriteGot
  have 1: "rw_step j (l, ps) (acquireWrite_leave l, ps[j := Writing])" by (intro advance) (use j WriteGot in auto)
  have "rw_steps (acquireWrite_leave l, ps[j := Writing]) (releaseWrite (acquireWrite_leave l), ps[j := Writing, j := Idle])"
    by (rule writer_leaves) (use j in auto)
  then show ?thesis using one_step [OF 1] by fastforce
qed (use p reader_leaves [OF j] writer_leaves [OF j] in fastforce)+

text \<open>Hence a waiting writer can always still get the lock.\<close>

lemma writer_gets_lock:
  assumes "rw_inv (l, ps)" and "i < length ps" and "ps ! i = WriteTry"
  shows "\<exists>s. rw_steps (l, ps) s \<and> snd s ! i = Writing"
  using assms
proof (induction "nat (number inside ps)" arbitrary: l ps rule: less_induct)
  case less
  show ?case
  proof (cases "\<exists>j<length ps. inside (ps ! j)")
    case True
    then obtain j where j: "j < length ps" "inside (ps ! j)" by blast
    then have ij: "i \<noteq> j" using less.prems(3) by auto
    obtain l' pc where d: "rw_steps (l, ps) (l', ps[j := pc])" "\<not> inside pc" using drain [OF j] by blast
    have inv: "rw_inv (l', ps[j := pc])"
      using d(1) less.prems(1) by (induction rule: rtranclp_induct) (auto intro: rw_step_inv)
    have "number inside (ps[j := pc]) = number inside ps - 1" using number_update [OF j(1), of inside pc] j(2) d(2) by simp
    then have "nat (number inside (ps[j := pc])) < nat (number inside ps)" using number_pos [of j ps inside] j by simp
    then obtain s where "rw_steps (l', ps[j := pc]) s" "snd s ! i = Writing"
      using less.hyps inv less.prems(2,3) ij by force
    then show ?thesis using d(1) by (meson rtranclp_trans)
  next
    case False
    then have "\<not> holdsWrite pc \<and> pc \<noteq> Reading" if "pc \<in> set ps" for pc
      using that inside_holders by (metis in_set_conv_nth)
    then have "number holdsWrite ps = 0" "reading ps = 0" by (auto simp: number_def filter_empty_conv)
    then have r: "readers l = 0" using less.prems(1) by (simp add: rw_inv_def)
    let ?l = "l\<lparr>readers := - 1\<rparr>"
    have 1: "rw_step i (l, ps) (?l, ps[i := WriteGot])" by (intro advance) (use less.prems r in \<open>auto simp: rw_op_defs\<close>)
    have 2: "rw_step i (?l, ps[i := WriteGot]) (acquireWrite_leave ?l, ps[i := WriteGot, i := Writing])"
      by (intro advance) (use less.prems(2) in auto)
    show ?thesis using one_step [OF 1, of _ Writing] 2 less.prems(2) by (intro exI [of _ "(acquireWrite_leave ?l, ps[i := Writing])"]) auto
  qed
qed

section \<open>Properties\<close>

text \<open>
  C26: in every state that any number of threads can reach by interleaved steps, a thread that holds the lock for writing
  is the only holder, \<open>readers\<close> is the number of threads that hold the lock for reading or -1, \<open>writersWaiting\<close> the number of
  waiting writers, and the assertions of all operations hold: a thread that is to release a read lock finds \<open>readers > 0\<close>, one
  that is to release the write lock finds -1.
\<close>

theorem rw_lock_exclusion:
  assumes "rw_run n (l, ps)" and "i < length ps" and "j < length ps" and "i \<noteq> j"
  shows "- 1 \<le> readers l \<and> 0 \<le> writersWaiting l \<and> (holdsWrite (ps ! i) \<longrightarrow> \<not> holdsWrite (ps ! j) \<and> ps ! j \<noteq> Reading) \<and>
    (ps ! i = Reading \<longrightarrow> 0 < readers l) \<and> (ps ! i = Writing \<longrightarrow> readers l = - 1) \<and>
    (isLockedForWriting l \<longleftrightarrow> (\<exists>k<length ps. holdsWrite (ps ! k))) \<and>
    (\<not> isLockedForWriting l \<longrightarrow> getCurrentReaderLockCount l = number (\<lambda>pc. pc = Reading) ps) \<and>
    writersWaiting l = number announced ps"
proof -
  note I = rw_run_inv [OF assms(1), unfolded rw_inv_def prod.case]
  have nn: "0 \<le> reading ps" "0 \<le> number holdsWrite ps" "0 \<le> number announced ps" by (rule number_nonneg)+
  have w: "number holdsWrite ps = 1 \<and> reading ps = 0" if "holdsWrite (ps ! k)" "k < length ps" for k
    using number_pos [of k ps holdsWrite] that I by linarith
  have r: "0 < reading ps" if "ps ! k = Reading" "k < length ps" for k
    using number_pos [of k ps "\<lambda>pc. pc = Reading"] that by simp
  have ex: "number holdsWrite ps = 0" if "\<not> (\<exists>k<length ps. holdsWrite (ps ! k))"
    using that by (auto simp: number_def filter_empty_conv in_set_conv_nth)
  have one: "\<not> holdsWrite (ps ! j)" if "holdsWrite (ps ! i)" using number_two [where P = holdsWrite, OF assms(2-4) that] I by auto
  have locked: "readers l = - 1 \<longleftrightarrow> (\<exists>k<length ps. holdsWrite (ps ! k))" using w ex I nn by fastforce
  have Wr: "holdsWrite Writing" by (simp add: holdsWrite_def)
  show ?thesis unfolding isLockedForWriting_def getCurrentReaderLockCount_def
  proof (intro conjI impI)
    show "- 1 \<le> readers l" "0 \<le> writersWaiting l" "writersWaiting l = number announced ps" using I nn by linarith+
    show "readers l = - 1 \<longleftrightarrow> (\<exists>k<length ps. holdsWrite (ps ! k))" by (rule locked)
    show "\<not> holdsWrite (ps ! j)" if "holdsWrite (ps ! i)" by (rule one [OF that])
    show "ps ! j \<noteq> Reading" if "holdsWrite (ps ! i)" using w [OF that assms(2)] r [OF _ assms(3)] by auto
    show "0 < readers l" if "ps ! i = Reading" using r [OF that assms(2)] I by linarith
    show "readers l = - 1" if "ps ! i = Writing" using locked assms(2) that Wr by metis
    show "readers l = reading ps" if "readers l \<noteq> - 1" using ex locked that I by auto
  qed
qed

text \<open>A run of two threads: one acquires the lock for reading and the other starts to wait for writing.\<close>

definition demoRun :: rw_state where
  "demoRun = (\<lparr>readers = 1, writersWaiting = 1\<rparr>, [Reading, WriteTry])"

lemma demoRun_run: "rw_run 2 demoRun"
proof -
  let ?l = "\<lparr>readers = 1, writersWaiting = 0\<rparr>"
  have s1: "rw_step 0 (rw_reset, [Idle, Idle]) (rw_reset, [Idle, Idle][0 := ReadCheck True])" by (rule call_read) auto
  have s2: "rw_step 0 (rw_reset, [ReadCheck True, Idle]) (rw_reset, [ReadCheck True, Idle][0 := ReadLoad True])"
    by (rule advance) (auto simp: rw_op_defs rw_reset_def)
  have s3: "rw_step 0 (rw_reset, [ReadLoad True, Idle]) (rw_reset, [ReadLoad True, Idle][0 := ReadCas True 0])"
    by (rule advance) (auto simp: rw_op_defs rw_reset_def)
  have s4: "rw_step 0 (rw_reset, [ReadCas True 0, Idle]) (?l, [ReadCas True 0, Idle][0 := Reading])"
    by (rule advance) (auto simp: rw_op_defs rw_reset_def)
  have s5: "rw_step 1 (?l, [Reading, Idle]) (?l, [Reading, Idle][1 := WriteEnter])" by (rule call_write) auto
  have s6: "rw_step 1 (?l, [Reading, WriteEnter]) (\<lparr>readers = 1, writersWaiting = 1\<rparr>, [Reading, WriteEnter][1 := WriteTry])"
    by (rule advance) (auto simp: rw_op_defs)
  note r = converse_rtranclp_into_rtranclp [where r = "\<lambda>s s'. \<exists>i. rw_step i s s'", OF exI]
  have "rw_steps (rw_reset, [Idle, Idle]) demoRun" unfolding demoRun_def
    using r [OF s1 [simplified] r [OF s2 [simplified] r [OF s3 [simplified] r [OF s4 [simplified]
      r [OF s5 [simplified] r [OF s6 [simplified] rtranclp.rtrancl_refl]]]]]] .
  then show ?thesis by (simp add: rw_run_def numeral_2_eq_2)
qed

theorem rw_lock_exclusion_witness:
  "rw_run 2 (fst demoRun, snd demoRun) \<and> 0 < readers (fst demoRun) \<and> writersWaiting (fst demoRun) = number announced (snd demoRun)"
proof -
  have "rw_run 2 (fst demoRun, snd demoRun)" using demoRun_run by simp
  from this rw_lock_exclusion [OF this, of 0 1] show ?thesis by (simp add: demoRun_def)
qed

definition readersInside :: "rw_pc list \<Rightarrow> int" where
  "readersInside ps = number (\<lambda>pc. inside pc \<and> \<not> holdsWrite pc) ps"

lemma advance_inside:
  "advance p l = (pc, l') \<Longrightarrow> writersWaiting l \<noteq> 0 \<Longrightarrow> inside pc \<Longrightarrow> \<not> holdsWrite pc \<Longrightarrow> inside p \<and> \<not> holdsWrite p"
  by (cases p) (auto simp: rw_op_defs holdsWrite_def split: if_splits prod.splits)

text \<open>
  C27: a writer that waits is not overtaken for ever. While it waits, no step of any thread adds to the threads that hold
  the lock for reading or have passed the test of \<open>writersWaiting\<close>; and from every reachable state the waiting writer can still get
  the lock: there is a schedule, by steps of the threads inside and then its own, that leads it to \<open>Writing\<close>.
\<close>

theorem rw_writer_progress:
  assumes "rw_run n (l, ps)" and "i < length ps" and "ps ! i = WriteTry"
  shows "(\<exists>s. (\<lambda>s s'. \<exists>k. rw_step k s s')\<^sup>*\<^sup>* (l, ps) s \<and> snd s ! i = Writing) \<and>
    (\<forall>k l' ps'. rw_step k (l, ps) (l', ps') \<longrightarrow> readersInside ps' \<le> readersInside ps)"
proof
  show "\<exists>s. rw_steps (l, ps) s \<and> snd s ! i = Writing" by (rule writer_gets_lock [OF rw_run_inv [OF assms(1)] assms(2,3)])
  have "0 < number announced ps" using number_pos [of i ps announced] assms by (simp add: announced_def)
  then have w: "writersWaiting l \<noteq> 0" using rw_run_inv [OF assms(1)] by (simp add: rw_inv_def)
  show "\<forall>k l' ps'. rw_step k (l, ps) (l', ps') \<longrightarrow> readersInside ps' \<le> readersInside ps"
  proof (intro allI impI)
    fix k l' ps'
    assume "rw_step k (l, ps) (l', ps')"
    then show "readersInside ps' \<le> readersInside ps"
    proof cases
      case (advance pc)
      have "inside pc \<and> \<not> holdsWrite pc \<Longrightarrow> inside (ps ! k) \<and> \<not> holdsWrite (ps ! k)"
        using advance_inside [OF advance(4) w] by blast
      then show ?thesis unfolding readersInside_def advance(1) number_update [OF advance(2)] by auto
    qed (auto simp: readersInside_def number_update holdsWrite_def)
  qed
qed

theorem rw_writer_progress_witness:
  "rw_run 2 (fst demoRun, snd demoRun) \<and> snd demoRun ! 1 = WriteTry \<and>
   (\<exists>s. (\<lambda>s s'. \<exists>k. rw_step k s s')\<^sup>*\<^sup>* (fst demoRun, snd demoRun) s \<and> snd s ! 1 = Writing)"
proof -
  have "rw_run 2 (fst demoRun, snd demoRun)" using demoRun_run by simp
  from this rw_writer_progress [OF this, of 1] show ?thesis by (simp add: demoRun_def)
qed

end
