(* ===== verification/Vote_Counter.thy ===== *)
theory Vote_Counter
  imports Prelude
begin

text \<open>
  \<open>VoteCounter\<close> (\<open>src/src/vote_counter.h\<close>): the votes of the computors per tick in a ring of ticks, the packet of 676 counters
  of ten bits that a tick leader publishes, its validation and the accumulated counts.
\<close>

unbundle bit_operations_syntax

definition NUMBER_OF_COMPUTORS :: nat where "NUMBER_OF_COMPUTORS = 676"
definition QUORUM :: nat where "QUORUM = NUMBER_OF_COMPUTORS * 2 div 3 + 1"
definition VOTE_COUNTER_DATA_SIZE_IN_BYTES :: nat where "VOTE_COUNTER_DATA_SIZE_IN_BYTES = 848"

record VoteCounter =
  votes :: "u32 list list"
  accumulatedVoteCount :: "u64 list"
  vc_buffer :: "u32 list"

section \<open>Ten-bit fields\<close>

definition extract10Bit :: "u8 list \<Rightarrow> nat \<Rightarrow> u32" where
  "extract10Bit data idx =
     (let byte0 = ucast (data ! (idx + drop_bit 2 idx));
          byte1 = ucast (data ! (idx + drop_bit 2 idx + 1));
          last_bit0 = 8 - (idx AND 3) * 2;
          first_bit1 = 10 - last_bit0
      in push_bit first_bit1 (byte0 AND (push_bit last_bit0 1 - 1)) OR drop_bit (8 - first_bit1) byte1)"

text \<open>The two bytes are different bytes of the array, so the updates by reference are two list updates.\<close>

definition update10Bit :: "u8 list \<Rightarrow> nat \<Rightarrow> u32 \<Rightarrow> u8 list" where
  "update10Bit data idx value =
     (let i0 = idx + drop_bit 2 idx;
          i1 = idx + drop_bit 2 idx + 1;
          last_bit0 = 8 - (idx AND 3) * 2;
          first_bit1 = 10 - last_bit0;
          mask0 = NOT (push_bit last_bit0 1 - 1);
          mask1 = push_bit (8 - first_bit1) 1 - 1;
          ubyte0 = ucast (drop_bit first_bit1 value);
          ubyte1 = ucast (push_bit (8 - first_bit1) (value AND (push_bit first_bit1 1 - 1)))
      in data[i0 := (data ! i0 AND mask0) OR ubyte0, i1 := (data ! i1 AND mask1) OR ubyte1])"

section \<open>Operations\<close>

definition vc_init :: VoteCounter where
  "vc_init = \<lparr>votes = replicate (NUMBER_OF_COMPUTORS * 2) (replicate NUMBER_OF_COMPUTORS 0),
     accumulatedVoteCount = replicate NUMBER_OF_COMPUTORS 0, vc_buffer = replicate NUMBER_OF_COMPUTORS 0\<rparr>"

definition accumulateVoteCount :: "nat \<Rightarrow> u32 \<Rightarrow> VoteCounter \<Rightarrow> VoteCounter" where
  "accumulateVoteCount computorIdx value vc =
     vc\<lparr>accumulatedVoteCount := (accumulatedVoteCount vc)[computorIdx := accumulatedVoteCount vc ! computorIdx + ucast value]\<rparr>"

definition registerNewVote :: "u32 \<Rightarrow> nat \<Rightarrow> VoteCounter \<Rightarrow> VoteCounter" where
  "registerNewVote tick computorIdx vc =
     (let slotId = unat tick mod (NUMBER_OF_COMPUTORS * 2)
      in vc\<lparr>votes := (votes vc)[slotId := (votes vc ! slotId)[computorIdx := tick]]\<rparr>)"

text \<open>The counting loops: for one tick, and for all ticks of the range.\<close>

definition countTick :: "VoteCounter \<Rightarrow> u32 list \<Rightarrow> nat \<Rightarrow> u32 list" where
  "countTick vc buf i =
     (let slotId = i mod (NUMBER_OF_COMPUTORS * 2)
      in foldl (\<lambda>buf j. if votes vc ! slotId ! j = of_nat i then buf[j := buf ! j + 1] else buf) buf [0..<NUMBER_OF_COMPUTORS])"

definition countVotes :: "VoteCounter \<Rightarrow> u32 \<Rightarrow> u32 \<Rightarrow> u32 list" where
  "countVotes vc fromTick toTick =
     foldl (countTick vc) (replicate NUMBER_OF_COMPUTORS 0) [unat fromTick..<unat toTick]"

text \<open>\<open>setMem(votePacket, sizeof(votePacket), 0)\<close> clears as many bytes as a pointer has.\<close>

definition clearPacket :: "u8 list \<Rightarrow> u8 list" where
  "clearPacket packet = replicate 8 0 @ drop 8 packet"

definition compressNewVotesPacket ::
  "u32 \<Rightarrow> u32 \<Rightarrow> nat \<Rightarrow> u8 list \<Rightarrow> VoteCounter \<Rightarrow> u8 list \<times> VoteCounter" where
  "compressNewVotesPacket fromTick toTick computorIdx votePacket vc =
     (let buf = (countVotes vc fromTick toTick)[computorIdx := 0]
      in (foldl (\<lambda>packet i. update10Bit packet i (buf ! i)) (clearPacket votePacket) [0..<NUMBER_OF_COMPUTORS],
          vc\<lparr>vc_buffer := buf\<rparr>))"

text \<open>The extraction loop of \<open>validateNewVotesPacket\<close>: \<open>None\<close> is the early \<open>return false\<close>.\<close>

fun validateLoop :: "u8 list \<Rightarrow> nat list \<Rightarrow> u64 \<Rightarrow> u32 list \<Rightarrow> u64 option \<times> u32 list" where
  "validateLoop packet [] voteSum buf = (Some voteSum, buf)"
| "validateLoop packet (i # is) voteSum buf =
     (let buf' = buf[i := extract10Bit packet i]
      in if of_nat NUMBER_OF_COMPUTORS < extract10Bit packet i then (None, buf')
         else validateLoop packet is (voteSum + ucast (extract10Bit packet i)) buf')"

definition validateNewVotesPacket :: "u8 list \<Rightarrow> nat \<Rightarrow> VoteCounter \<Rightarrow> bool \<times> VoteCounter" where
  "validateNewVotesPacket packet computorIdx vc =
     (case validateLoop packet [0..<NUMBER_OF_COMPUTORS] 0 (vc_buffer vc) of
        (None, buf) \<Rightarrow> (False, vc\<lparr>vc_buffer := buf\<rparr>)
      | (Some voteSum, buf) \<Rightarrow>
          (if voteSum < of_nat ((NUMBER_OF_COMPUTORS - 1) * QUORUM) then False
           else if buf ! computorIdx \<noteq> 0 then False else True, vc\<lparr>vc_buffer := buf\<rparr>))"

definition addVotes :: "u8 list \<Rightarrow> nat \<Rightarrow> VoteCounter \<Rightarrow> VoteCounter" where
  "addVotes packet computorIdx vc =
     (case validateNewVotesPacket packet computorIdx vc of (ok, vc') \<Rightarrow>
        if ok then foldl (\<lambda>vc i. accumulateVoteCount i (extract10Bit packet i) vc) vc' [0..<NUMBER_OF_COMPUTORS] else vc')"

text \<open>
  The fields of a transaction that \<open>processTransactionData\<close> reads; \<open>txVotes\<close> and \<open>txDataLock\<close> are the two parts of its input.
\<close>

record VoteTransaction =
  txTick :: u32
  txSource :: m256i
  txAmount :: i64
  txInputSize :: nat
  txVotes :: "u8 list"
  txDataLock :: m256i

definition processTransactionData :: "m256i list \<Rightarrow> VoteTransaction \<Rightarrow> m256i \<Rightarrow> VoteCounter \<Rightarrow> VoteCounter" where
  "processTransactionData computors tx dataLock vc =
     (let computorIndex = unat (txTick tx) mod NUMBER_OF_COMPUTORS
      in if txSource tx = computors ! computorIndex
         then if txAmount tx = 0 \<and> txInputSize tx = VOTE_COUNTER_DATA_SIZE_IN_BYTES + 32
              then if txDataLock tx = dataLock then addVotes (txVotes tx) computorIndex vc else vc
              else vc
         else vc)"

definition getVoteCount :: "VoteCounter \<Rightarrow> nat \<Rightarrow> u64" where
  "getVoteCount vc computorIdx = accumulatedVoteCount vc ! computorIdx"

section \<open>The packet as a stream of bits\<close>

text \<open>Bit \<open>s\<close> of the stream, most significant bits first. Field \<open>i\<close> is the bits \<open>10 * i\<close> to \<open>10 * i + 9\<close>.\<close>

definition streamBit :: "u8 list \<Rightarrow> nat \<Rightarrow> bool" where
  "streamBit data s = bit (data ! (s div 8)) (7 - s mod 8)"

lemma bit_low_mask: "bit (2 ^ l - 1 :: 'a::len word) n \<longleftrightarrow> n < l \<and> n < LENGTH('a)"
  unfolding mask_eq_exp_minus_1 [symmetric] by (auto simp: bit_mask_iff)

lemma field_position:
  fixes idx :: nat
  obtains q r where "idx = 4 * q + r" "r < 4" "idx + drop_bit 2 idx = 5 * q + r" "idx AND 3 = r"
proof
  show "idx = 4 * (idx div 4) + idx mod 4" "idx mod 4 < 4" by simp_all
  show "idx + drop_bit 2 idx = 5 * (idx div 4) + idx mod 4" by (simp add: drop_bit_eq_div)
  show "idx AND 3 = idx mod 4" using and_pow2_mask [of idx 2] by simp
qed

lemma ten_bits: "unat v < 1024 \<longleftrightarrow> (\<forall>n. bit v n \<longrightarrow> n < 10)" for v :: u32
proof
  assume v: "unat v < 1024"
  have "n < 10" if "bit v n" for n
    using v that bit_nat_le [of "unat v" n] power_increasing [of 10 n "2::nat"] bit_unat [of v n] by force
  then show "\<forall>n. bit v n \<longrightarrow> n < 10" by blast
next
  assume "\<forall>n. bit v n \<longrightarrow> n < 10"
  then have "take_bit 10 v = v" by (intro bit_word_eqI) (auto simp: bit_take_bit_iff)
  then have "unat v = take_bit 10 (unat v)" by (metis unsigned_take_bit_eq)
  then show "unat v < 1024" using take_bit_nat_less_exp [of 10 "unat v"] by simp
qed

lemma stream_index: "t < 8 \<Longrightarrow> (8 * k + t) div 8 = k" "t < 8 \<Longrightarrow> (8 * k + t) mod 8 = (t::nat)"
  by simp_all

text \<open>The shifts of both routines, with \<open>l\<close> bits of the field in the first byte and \<open>f\<close> in the second.\<close>

lemma extract_bits:
  fixes byte0 byte1 :: u8
  assumes "f + l = 10" "l \<le> 8" "f \<le> 8"
  shows "bit (push_bit f (ucast byte0 AND (push_bit l 1 - 1)) OR drop_bit (8 - f) (ucast byte1) :: u32) b \<longleftrightarrow>
    (f \<le> b \<and> b < 10 \<and> bit byte0 (b - f)) \<or> (b < f \<and> bit byte1 (8 - f + b))"
proof -
  have "\<not> bit byte1 n" if "8 \<le> n" for n using that bit_imp_le_length [of byte1 n] by auto
  then show ?thesis using assms
    by (auto simp: bit_or_iff bit_push_bit_iff bit_and_iff bit_low_mask bit_drop_bit_eq bit_ucast_iff)
qed

lemma update_bits_0:
  fixes byte0 :: u8 and v :: u32
  assumes "f + l = 10" "\<And>n. 10 \<le> n \<Longrightarrow> \<not> bit v n" "n < 8"
  shows "bit ((byte0 AND NOT (push_bit l 1 - 1)) OR ucast (drop_bit f v) :: u8) n \<longleftrightarrow> (if n < l then bit v (f + n) else bit byte0 n)"
  using assms(2) [of "f + n"] assms(1,3)
  by (auto simp: bit_or_iff bit_and_iff bit_not_iff bit_low_mask bit_ucast_iff bit_drop_bit_eq)

lemma update_bits_1:
  fixes byte1 :: u8 and v :: u32
  assumes "g + f = 8" "n < 8"
  shows "bit ((byte1 AND (push_bit g 1 - 1)) OR ucast (push_bit g (v AND (push_bit f 1 - 1))) :: u8) n \<longleftrightarrow>
    (if g \<le> n then bit v (n - g) else bit byte1 n)"
  using assms by (auto simp: bit_or_iff bit_and_iff bit_low_mask bit_ucast_iff bit_push_bit_iff)

lemma bit_extract10Bit:
  "bit (extract10Bit data idx) b \<longleftrightarrow> b < 10 \<and> streamBit data (10 * idx + 9 - b)"
proof -
  obtain q r where i: "idx = 4 * q + r" "r < 4" "idx + drop_bit 2 idx = 5 * q + r" "idx AND 3 = r" by (rule field_position)
  define l f where "l = 8 - r * 2" and "f = 10 - l"
  have lf: "f + l = 10" "l \<le> 8" "f \<le> 8" "f = 2 + 2 * r" using i(2) by (simp_all add: l_def f_def)
  have e: "bit (extract10Bit data idx) b \<longleftrightarrow> (f \<le> b \<and> b < 10 \<and> bit (data ! (5 * q + r)) (b - f)) \<or>
    (b < f \<and> bit (data ! (5 * q + r + 1)) (8 - f + b))"
    unfolding extract10Bit_def i(3,4) Let_def l_def [symmetric] f_def [symmetric] by (rule extract_bits [OF lf(1-3)])
  consider "b < f" | "f \<le> b" "b < 10" | "10 \<le> b" by linarith
  then show ?thesis
  proof cases
    case 1
    then have s: "10 * idx + 9 - b = 8 * (5 * q + r + 1) + (f - 1 - b)" "f - 1 - b < 8" "7 - (f - 1 - b) = 8 - f + b"
      using i(1,2) lf by auto
    have "streamBit data (10 * idx + 9 - b) = bit (data ! (5 * q + r + 1)) (8 - f + b)"
      unfolding streamBit_def s(1) stream_index [OF s(2)] s(3) ..
    then show ?thesis using e 1 lf(3) by auto
  next
    case 2
    then have s: "10 * idx + 9 - b = 8 * (5 * q + r) + (7 + f - b)" "7 + f - b < 8" "7 - (7 + f - b) = b - f"
      using i(1,2) lf by auto
    have "streamBit data (10 * idx + 9 - b) = bit (data ! (5 * q + r)) (b - f)"
      unfolding streamBit_def s(1) stream_index [OF s(2)] s(3) ..
    then show ?thesis using e 2 by auto
  qed (use e lf(3) in auto)
qed

lemma update10Bit_length [simp]: "length (update10Bit data idx v) = length data"
  by (simp add: update10Bit_def Let_def)

text \<open>Writing a field sets its bits and no others.\<close>

lemma streamBit_update10Bit:
  assumes v: "unat v < 1024" and len: "10 * idx + 10 \<le> 8 * length data"
  shows "streamBit (update10Bit data idx v) s \<longleftrightarrow>
    (if 10 * idx \<le> s \<and> s < 10 * idx + 10 then bit v (10 * idx + 9 - s) else streamBit data s)"
proof -
  obtain q r where i: "idx = 4 * q + r" "r < 4" "idx + drop_bit 2 idx = 5 * q + r" "idx AND 3 = r" by (rule field_position)
  define l f g where "l = 8 - r * 2" and "f = 10 - l" and "g = 8 - f"
  have lf: "f + l = 10" "g + f = 8" "l \<le> 8" "f = 2 + 2 * r" using i(2) by (simp_all add: l_def f_def g_def)
  have vb: "\<not> bit v n" if "10 \<le> n" for n
    using v that ten_bits [of v] by auto
  let ?N = "update10Bit data idx v" and ?i0 = "5 * q + r" and ?i1 = "5 * q + r + 1"
  have "40 * q + 10 * r + 10 \<le> 8 * length data" using len i(1) by simp
  moreover have "r = 0 \<or> r = 1 \<or> r = 2 \<or> r = 3" using i(2) by linarith
  ultimately have L: "?i1 < length data" by (elim disjE) simp_all
  have N: "?N = data[?i0 := (data ! ?i0 AND NOT (push_bit l 1 - 1)) OR ucast (drop_bit f v),
      ?i1 := (data ! ?i1 AND (push_bit g 1 - 1)) OR ucast (push_bit g (v AND (push_bit f 1 - 1)))]"
    unfolding update10Bit_def i(3,4) Let_def l_def [symmetric] f_def [symmetric] g_def [symmetric] ..
  define k t where "k = s div 8" and "t = s mod 8"
  then have s: "s = 8 * k + t" "t < 8" by simp_all
  then have n: "7 - t < 8" by simp
  have S: "streamBit d s = bit (d ! k) (7 - t)" for d by (simp add: streamBit_def k_def t_def)
  consider "k = ?i0" | "k = ?i1" | "k \<noteq> ?i0" "k \<noteq> ?i1" by blast
  then show ?thesis
  proof cases
    case 1
    have "?N ! k = (data ! k AND NOT (push_bit l 1 - 1)) OR ucast (drop_bit f v)" using N 1 L by simp
    then have "streamBit ?N s \<longleftrightarrow> (if 7 - t < l then bit v (f + (7 - t)) else streamBit data s)"
      unfolding S by (simp only: update_bits_0 [OF lf(1) vb n])
    moreover have "7 - t < l \<longleftrightarrow> 10 * idx \<le> s \<and> s < 10 * idx + 10" "10 * idx + 9 - s = f + (7 - t)" using s i(1,2) 1 lf by auto
    ultimately show ?thesis by simp
  next
    case 2
    have "?N ! k = (data ! k AND (push_bit g 1 - 1)) OR ucast (push_bit g (v AND (push_bit f 1 - 1)))" using N 2 L by simp
    then have "streamBit ?N s \<longleftrightarrow> (if g \<le> 7 - t then bit v (7 - t - g) else streamBit data s)"
      unfolding S by (simp only: update_bits_1 [OF lf(2) n])
    moreover have "g \<le> 7 - t \<longleftrightarrow> 10 * idx \<le> s \<and> s < 10 * idx + 10" "g \<le> 7 - t \<Longrightarrow> 10 * idx + 9 - s = 7 - t - g" using s i(1,2) 2 lf by auto
    ultimately show ?thesis by simp
  next
    case 3
    then have "\<not> (10 * idx \<le> s \<and> s < 10 * idx + 10)" using s i(1,2) by auto
    moreover have "?N ! k = data ! k" using N 3 by simp
    ultimately show ?thesis unfolding S by auto
  qed
qed

lemma extract10Bit_less: "unat (extract10Bit data idx) < 1024"
  by (simp add: ten_bits bit_extract10Bit)

lemma extract_update_same:
  assumes "unat v < 1024" and "10 * idx + 10 \<le> 8 * length data"
  shows "extract10Bit (update10Bit data idx v) idx = v"
proof (rule bit_word_eqI)
  fix n
  have "10 * idx + 9 - (10 * idx + 9 - n) = n" if "n < 10" using that by simp
  then show "bit (extract10Bit (update10Bit data idx v) idx) n = bit v n"
    using assms(1) ten_bits [of v] by (auto simp: bit_extract10Bit streamBit_update10Bit [OF assms])
qed

lemma extract_update_other:
  assumes "unat v < 1024" and "10 * idx + 10 \<le> 8 * length data" and "j \<noteq> idx"
  shows "extract10Bit (update10Bit data idx v) j = extract10Bit data j"
proof (rule bit_word_eqI)
  fix n
  have "\<not> (10 * idx \<le> 10 * j + 9 - n \<and> 10 * j + 9 - n < 10 * idx + 10)" if "n < 10" using that assms(3) by linarith
  then show "bit (extract10Bit (update10Bit data idx v) j) n = bit (extract10Bit data j) n"
    by (auto simp: bit_extract10Bit streamBit_update10Bit [OF assms(1,2)])
qed

text \<open>Writing all fields: each field holds its value, whatever the packet held before.\<close>

lemma pack_fields:
  assumes "\<And>i. i < n \<Longrightarrow> unat (f i) < 1024" and "10 * n \<le> 8 * length data"
  shows "length (foldl (\<lambda>p i. update10Bit p i (f i)) data [0..<n]) = length data \<and>
    (\<forall>j<n. extract10Bit (foldl (\<lambda>p i. update10Bit p i (f i)) data [0..<n]) j = f j)"
  using assms
proof (induction n)
  case (Suc n)
  let ?p = "foldl (\<lambda>p i. update10Bit p i (f i)) data [0..<n]"
  have IH: "length ?p = length data" "\<forall>j<n. extract10Bit ?p j = f j" using Suc by auto
  have l: "10 * n + 10 \<le> 8 * length ?p" "unat (f n) < 1024" using Suc.prems IH(1) by simp_all
  show ?case using IH extract_update_same [OF l(2,1)] extract_update_other [OF l(2,1)] by (auto simp: less_Suc_eq)
qed simp

section \<open>Counting\<close>

lemma count_loop:
  fixes buf :: "u32 list" and P :: "nat \<Rightarrow> bool"
  defines "f \<equiv> \<lambda>buf j. if P j then buf[j := buf ! j + 1] else buf"
  shows "length (foldl f buf [0..<n]) = length buf \<and>
    (\<forall>j<length buf. foldl f buf [0..<n] ! j = (if j < n \<and> P j then buf ! j + 1 else buf ! j))"
proof (induction n)
  case (Suc n)
  let ?b = "foldl f buf [0..<n]"
  have e: "foldl f buf [0..<Suc n] = (if P n then ?b[n := ?b ! n + 1] else ?b)" by (simp add: f_def)
  have "foldl f buf [0..<Suc n] ! j = (if j < Suc n \<and> P j then buf ! j + 1 else buf ! j)" if "j < length buf" for j
    using Suc that unfolding e by (cases "j = n") auto
  moreover have "length (foldl f buf [0..<Suc n]) = length buf" using Suc unfolding e by simp
  ultimately show ?case by blast
qed simp

definition voted :: "VoteCounter \<Rightarrow> nat \<Rightarrow> nat \<Rightarrow> bool" where
  "voted vc j i \<longleftrightarrow> votes vc ! (i mod (NUMBER_OF_COMPUTORS * 2)) ! j = of_nat i"

lemma countTick_nth:
  assumes "length buf = NUMBER_OF_COMPUTORS"
  shows "length (countTick vc buf i) = NUMBER_OF_COMPUTORS"
    and "j < NUMBER_OF_COMPUTORS \<Longrightarrow> countTick vc buf i ! j = buf ! j + (if voted vc j i then 1 else 0)"
  using count_loop [of "\<lambda>j. voted vc j i" buf NUMBER_OF_COMPUTORS] assms by (auto simp: countTick_def voted_def Let_def)

lemma countTicks:
  "length buf = NUMBER_OF_COMPUTORS \<Longrightarrow> length (foldl (countTick vc) buf is) = NUMBER_OF_COMPUTORS \<and>
   (\<forall>j<NUMBER_OF_COMPUTORS. foldl (countTick vc) buf is ! j = buf ! j + of_nat (length (filter (voted vc j) is)))"
  by (induction "is" arbitrary: buf) (auto simp: countTick_nth)

lemma countVotes_nth:
  "length (countVotes vc a b) = NUMBER_OF_COMPUTORS"
  "j < NUMBER_OF_COMPUTORS \<Longrightarrow> countVotes vc a b ! j = of_nat (length (filter (voted vc j) [unat a..<unat b]))"
  using countTicks [of "replicate NUMBER_OF_COMPUTORS 0" vc "[unat a..<unat b]"] by (simp_all add: countVotes_def)

section \<open>Registered votes\<close>

definition registerVotes :: "(u32 \<times> nat) list \<Rightarrow> VoteCounter \<Rightarrow> VoteCounter" where
  "registerVotes vs vc = foldl (\<lambda>vc (tick, c). registerNewVote tick c vc) vc vs"

text \<open>The slot of a computor holds the latest tick of the slot in which the computor has voted.\<close>

definition latest :: "(u32 \<times> nat) list \<Rightarrow> VoteCounter \<Rightarrow> bool" where
  "latest vs vc \<longleftrightarrow> length (votes vc) = NUMBER_OF_COMPUTORS * 2 \<and> (\<forall>s<NUMBER_OF_COMPUTORS * 2. length (votes vc ! s) = NUMBER_OF_COMPUTORS) \<and>
     (\<forall>s<NUMBER_OF_COMPUTORS * 2. \<forall>c<NUMBER_OF_COMPUTORS.
        (\<forall>t. (t, c) \<in> set vs \<and> unat t mod (NUMBER_OF_COMPUTORS * 2) = s \<longrightarrow> t \<le> votes vc ! s ! c) \<and>
        (votes vc ! s ! c = 0 \<or> (votes vc ! s ! c, c) \<in> set vs \<and> unat (votes vc ! s ! c) mod (NUMBER_OF_COMPUTORS * 2) = s))"

lemma registered_latest:
  assumes "sorted (map fst vs)" and "\<forall>(t, c)\<in>set vs. c < NUMBER_OF_COMPUTORS"
  shows "latest vs (registerVotes vs vc_init)"
  using assms
proof (induction vs rule: rev_induct)
  case Nil
  then show ?case by (simp add: latest_def registerVotes_def vc_init_def NUMBER_OF_COMPUTORS_def)
next
  case (snoc v vs)
  obtain t c where v: "v = (t, c)" by (cases v)
  let ?vc = "registerVotes vs vc_init" and ?s = "unat t mod (NUMBER_OF_COMPUTORS * 2)"
  have IH: "latest vs ?vc" using snoc by (auto simp: sorted_append)
  have N: "0 < NUMBER_OF_COMPUTORS" by (simp add: NUMBER_OF_COMPUTORS_def)
  then have s: "?s < NUMBER_OF_COMPUTORS * 2" "c < NUMBER_OF_COMPUTORS" using snoc.prems(2) v by auto
  have le: "t' \<le> t" if "(t', c') \<in> set vs" for t' c'
    using snoc.prems(1) that v by (force simp: sorted_append)
  have e: "votes (registerVotes (vs @ [v]) vc_init) = (votes ?vc)[?s := (votes ?vc ! ?s)[c := t]]"
    by (simp add: registerVotes_def v registerNewVote_def Let_def)
  have nth: "votes (registerVotes (vs @ [v]) vc_init) ! x ! y = (if x = ?s \<and> y = c then t else votes ?vc ! x ! y)"
    if "x < NUMBER_OF_COMPUTORS * 2" "y < NUMBER_OF_COMPUTORS" for x y
    using that s IH unfolding e latest_def by (auto simp: nth_list_update)
  have "(\<forall>t'. (t', y) \<in> set (vs @ [v]) \<and> unat t' mod (NUMBER_OF_COMPUTORS * 2) = x \<longrightarrow> t' \<le> w) \<and>
      (w = 0 \<or> (w, y) \<in> set (vs @ [v]) \<and> unat w mod (NUMBER_OF_COMPUTORS * 2) = x)"
    if xy: "x < NUMBER_OF_COMPUTORS * 2" "y < NUMBER_OF_COMPUTORS" and w: "w = votes (registerVotes (vs @ [v]) vc_init) ! x ! y" for x y w
  proof (cases "x = ?s \<and> y = c")
    case True
    then show ?thesis using nth [OF xy] w v le by auto
  next
    case False
    have "w = votes ?vc ! x ! y" unfolding w nth [OF xy] if_not_P [OF False] ..
    then show ?thesis using IH xy False v unfolding latest_def by auto
  qed
  moreover have "length (votes (registerVotes (vs @ [v]) vc_init)) = NUMBER_OF_COMPUTORS * 2"
    "x < NUMBER_OF_COMPUTORS * 2 \<Longrightarrow> length (votes (registerVotes (vs @ [v]) vc_init) ! x) = NUMBER_OF_COMPUTORS" for x
    using IH s unfolding e latest_def by (auto simp: nth_list_update)
  ultimately show ?case unfolding latest_def by blast
qed

lemma voted_iff:
  assumes "latest vs vc" and "c < NUMBER_OF_COMPUTORS" and "0 < a" "a \<le> i" "i < unat b" and "unat b \<le> a + NUMBER_OF_COMPUTORS * 2"
    and "\<And>t c. (t, c) \<in> set vs \<Longrightarrow> t < b"
  shows "voted vc c i \<longleftrightarrow> (of_nat i, c) \<in> set vs"
proof -
  let ?M = "NUMBER_OF_COMPUTORS * 2" let ?w = "votes vc ! (i mod ?M) ! c"
  have M: "0 < ?M" by (simp add: NUMBER_OF_COMPUTORS_def)
  have "i < 2 ^ 32" using assms(5) unat_less_32 [of b] by simp
  then have i: "unat (of_nat i :: u32) = i" by (rule unat_of_nat_32)
  have L: "\<And>t. (t, c) \<in> set vs \<Longrightarrow> unat t mod ?M = i mod ?M \<Longrightarrow> t \<le> ?w" "?w = 0 \<or> (?w, c) \<in> set vs \<and> unat ?w mod ?M = i mod ?M"
    using assms(1,2) mod_less_divisor [OF M] unfolding latest_def by blast+
  show ?thesis
  proof
    assume "voted vc c i"
    then have "?w = of_nat i" by (simp add: voted_def)
    moreover have "(of_nat i :: u32) \<noteq> 0" using i assms(3,4) by (metis not_le unsigned_0)
    ultimately show "(of_nat i, c) \<in> set vs" using L(2) by auto
  next
    assume v: "(of_nat i, c) \<in> set vs"
    then have le: "i \<le> unat ?w" using L(1) [OF v] i by (simp add: word_le_nat_alt)
    then have "?w \<noteq> 0" using assms(3,4) by auto
    then have "unat ?w < unat b" "unat ?w mod ?M = i mod ?M" using L(2) assms(7) by (auto simp: word_less_nat_alt)
    then have "?M dvd unat ?w - i" "unat ?w - i < ?M" using le assms(4,6) by (simp_all add: mod_eq_dvd_iff_nat)
    then have "unat ?w = i" using le by (metis diff_is_0_eq' dvd_imp_le le_antisym linorder_not_le neq0_conv diff_is_0_eq)
    then show "voted vc c i" using i by (simp add: voted_def word_unat_eq_iff)
  qed
qed

section \<open>Validation\<close>

definition packet_ok :: "u8 list \<Rightarrow> nat \<Rightarrow> bool" where
  "packet_ok packet c \<longleftrightarrow> (\<forall>i<NUMBER_OF_COMPUTORS. unat (extract10Bit packet i) \<le> NUMBER_OF_COMPUTORS) \<and>
     (NUMBER_OF_COMPUTORS - 1) * QUORUM \<le> (\<Sum>i<NUMBER_OF_COMPUTORS. unat (extract10Bit packet i)) \<and> extract10Bit packet c = 0"

lemma validateLoop_sum:
  "fst (validateLoop packet is t buf) =
    (if \<forall>i\<in>set is. unat (extract10Bit packet i) \<le> NUMBER_OF_COMPUTORS
     then Some (t + sum_list (map (\<lambda>i. ucast (extract10Bit packet i)) is)) else None)"
  by (induction "is" arbitrary: t buf) (auto simp: Let_def NUMBER_OF_COMPUTORS_def word_less_nat_alt add.assoc)

lemma validateLoop_buffer:
  "\<forall>i\<in>set is. unat (extract10Bit packet i) \<le> NUMBER_OF_COMPUTORS \<Longrightarrow> j < length buf \<Longrightarrow>
    snd (validateLoop packet is t buf) ! j = (if j \<in> set is then extract10Bit packet j else buf ! j)"
  by (induction "is" arbitrary: t buf) (auto simp: Let_def NUMBER_OF_COMPUTORS_def word_less_nat_alt nth_list_update)

lemma unat_sum_fields:
  "length is \<le> 1000 \<Longrightarrow> unat (sum_list (map (\<lambda>i. ucast (extract10Bit packet i)) is) :: u64) = (\<Sum>i\<leftarrow>is. unat (extract10Bit packet i))
    \<and> (\<Sum>i\<leftarrow>is. unat (extract10Bit packet i)) \<le> 1024 * length is"
proof (induction "is")
  case (Cons i "is")
  have "unat (ucast (extract10Bit packet i) :: u64) = unat (extract10Bit packet i)" by (rule unat_ucast_32)
  then show ?case using Cons extract10Bit_less [of packet i] by (simp add: unat_add_64)
qed simp

lemma validateNewVotesPacket_ok:
  assumes "length (vc_buffer vc) = NUMBER_OF_COMPUTORS" and "c < NUMBER_OF_COMPUTORS"
  shows "fst (validateNewVotesPacket packet c vc) = packet_ok packet c"
    and "accumulatedVoteCount (snd (validateNewVotesPacket packet c vc)) = accumulatedVoteCount vc"
    and "votes (snd (validateNewVotesPacket packet c vc)) = votes vc"
proof -
  let ?is = "[0..<NUMBER_OF_COMPUTORS]" let ?v = "validateLoop packet ?is 0 (vc_buffer vc)"
  let ?S = "sum_list (map (\<lambda>i. ucast (extract10Bit packet i)) ?is) :: u64"
  have S: "unat ?S = (\<Sum>i<NUMBER_OF_COMPUTORS. unat (extract10Bit packet i))"
    using unat_sum_fields [of ?is packet] by (simp add: NUMBER_OF_COMPUTORS_def interv_sum_list_conv_sum_set_nat atLeast0LessThan)
  have "unat (of_nat ((NUMBER_OF_COMPUTORS - 1) * QUORUM) :: u64) = (NUMBER_OF_COMPUTORS - 1) * QUORUM"
    by (simp add: NUMBER_OF_COMPUTORS_def QUORUM_def)
  then have c: "?S < of_nat ((NUMBER_OF_COMPUTORS - 1) * QUORUM) \<longleftrightarrow>
      (\<Sum>i<NUMBER_OF_COMPUTORS. unat (extract10Bit packet i)) < (NUMBER_OF_COMPUTORS - 1) * QUORUM"
    unfolding word_less_nat_alt S by simp
  obtain o' b where v: "?v = (o', b)" by (cases ?v)
  show "fst (validateNewVotesPacket packet c vc) = packet_ok packet c"
  proof (cases "\<forall>i<NUMBER_OF_COMPUTORS. unat (extract10Bit packet i) \<le> NUMBER_OF_COMPUTORS")
    case True
    then have "o' = Some ?S" "b ! c = extract10Bit packet c"
      using validateLoop_sum [of packet ?is 0 "vc_buffer vc"] validateLoop_buffer [of ?is packet c "vc_buffer vc" 0] assms v by auto
    then show ?thesis using True v c by (auto simp: validateNewVotesPacket_def packet_ok_def)
  next
    case False
    then have "o' = None" using validateLoop_sum [of packet ?is 0 "vc_buffer vc"] v by auto
    then show ?thesis using False v by (auto simp: validateNewVotesPacket_def packet_ok_def)
  qed
qed (auto simp: validateNewVotesPacket_def split: prod.split option.split)

lemma accumulate_loop:
  "n \<le> length (accumulatedVoteCount vc) \<Longrightarrow>
   length (accumulatedVoteCount (foldl (\<lambda>vc i. accumulateVoteCount i (f i) vc) vc [0..<n])) = length (accumulatedVoteCount vc) \<and>
   (\<forall>j<length (accumulatedVoteCount vc). accumulatedVoteCount (foldl (\<lambda>vc i. accumulateVoteCount i (f i) vc) vc [0..<n]) ! j =
     accumulatedVoteCount vc ! j + (if j < n then ucast (f j) else 0))"
  by (induction n) (auto simp: accumulateVoteCount_def nth_list_update less_Suc_eq)

lemma addVotes_counts:
  assumes "length (vc_buffer vc) = NUMBER_OF_COMPUTORS" "length (accumulatedVoteCount vc) = NUMBER_OF_COMPUTORS"
    and "c < NUMBER_OF_COMPUTORS" and "j < NUMBER_OF_COMPUTORS"
  shows "getVoteCount (addVotes packet c vc) j = getVoteCount vc j + (if packet_ok packet c then ucast (extract10Bit packet j) else 0)"
proof -
  note V = validateNewVotesPacket_ok [OF assms(1,3), of packet]
  obtain ok vc' where v: "validateNewVotesPacket packet c vc = (ok, vc')" by (cases rule: prod.exhaust)
  have "ok = packet_ok packet c" "accumulatedVoteCount vc' = accumulatedVoteCount vc" using V v by auto
  then show ?thesis using accumulate_loop [of NUMBER_OF_COMPUTORS vc' "extract10Bit packet"] v assms(2,4)
    by (simp add: getVoteCount_def addVotes_def)
qed

section \<open>Properties\<close>

text \<open>
  C28: round trip of the vote packet. When votes are registered in the order of their ticks and none is for a tick at or after
  \<open>toTick\<close>, the packet that \<open>compressNewVotesPacket\<close> writes for a range of at most 676 ticks over any old bytes gives back
  for each computor the number of ticks of the range it has voted in, and 0 for the reporting computor; no older vote of
  the same ring slot is counted.
\<close>

theorem vote_packet_roundtrip:
  assumes "sorted (map fst vs)" and c: "\<forall>(t, c)\<in>set vs. c < NUMBER_OF_COMPUTORS \<and> t < b"
    and ab: "0 < a" "unat b \<le> unat a + NUMBER_OF_COMPUTORS"
    and packet: "length packet = VOTE_COUNTER_DATA_SIZE_IN_BYTES" and "j < NUMBER_OF_COMPUTORS"
  shows "unat (extract10Bit (fst (compressNewVotesPacket a b self packet (registerVotes vs vc_init))) j) =
    (if j = self then 0 else card {i. i \<in> {unat a..<unat b} \<and> (of_nat i, j) \<in> set vs})"
proof -
  let ?vc = "registerVotes vs vc_init" let ?b = "countVotes ?vc a b"
  have L: "latest vs ?vc" by (rule registered_latest) (use assms(1) c in auto)
  have "0 < unat a" using ab(1) by (simp add: word_less_nat_alt)
  then have v: "voted ?vc k i \<longleftrightarrow> (of_nat i, k) \<in> set vs" if "i \<in> {unat a..<unat b}" "k < NUMBER_OF_COMPUTORS" for i k
    using voted_iff [OF L that(2), of "unat a" i b] that(1) ab(2) c by auto
  have n: "length (filter (voted ?vc k) [unat a..<unat b]) \<le> NUMBER_OF_COMPUTORS" for k
    using length_filter_le [of "voted ?vc k" "[unat a..<unat b]"] ab(2) by simp
  have count: "unat (?b ! k) = length (filter (voted ?vc k) [unat a..<unat b])" if "k < NUMBER_OF_COMPUTORS" for k
    using countVotes_nth(2) [OF that, of ?vc a b] n [of k] by (simp add: unat_of_nat_32 NUMBER_OF_COMPUTORS_def)
  have small: "unat (?b[self := 0] ! k) < 1024" if "k < NUMBER_OF_COMPUTORS" for k
    using count [OF that] n [of k] that countVotes_nth(1) [of ?vc a b]
    by (cases "k = self") (auto simp: NUMBER_OF_COMPUTORS_def)
  have "length (clearPacket packet) = length packet" using packet by (simp add: clearPacket_def VOTE_COUNTER_DATA_SIZE_IN_BYTES_def)
  then have "10 * NUMBER_OF_COMPUTORS \<le> 8 * length (clearPacket packet)"
    using packet by (simp add: NUMBER_OF_COMPUTORS_def VOTE_COUNTER_DATA_SIZE_IN_BYTES_def)
  then have e: "extract10Bit (fst (compressNewVotesPacket a b self packet ?vc)) j = ?b[self := 0] ! j"
    using pack_fields [of NUMBER_OF_COMPUTORS "\<lambda>i. ?b[self := 0] ! i" "clearPacket packet"] small assms(6)
    by (simp add: compressNewVotesPacket_def Let_def)
  show ?thesis
  proof (cases "j = self")
    case True
    then show ?thesis using e assms(6) countVotes_nth(1) [of ?vc a b] by simp
  next
    case False
    have "length (filter (voted ?vc j) [unat a..<unat b]) = card {i \<in> {unat a..<unat b}. voted ?vc j i}"
      by (simp add: distinct_length_filter Int_def Collect_conj_eq [symmetric] conj_commute)
    also have "\<dots> = card {i. i \<in> {unat a..<unat b} \<and> (of_nat i, j) \<in> set vs}"
      using v assms(6) by (intro arg_cong [where f = card]) auto
    finally show ?thesis using e False count [OF assms(6)] by simp
  qed
qed

theorem vote_packet_roundtrip_witness:
  "unat (extract10Bit (fst (compressNewVotesPacket 10 13 0 (replicate 848 255) (registerVotes [(10, 5), (11, 5), (12, 0)] vc_init))) 5) = 2"
proof -
  have "{i. i \<in> {unat (10::u32)..<unat (13::u32)} \<and> (of_nat i, 5) \<in> set [(10::u32, 5::nat), (11, 5), (12, 0)]} = {10, 11}"
    by (auto simp: unat_of_nat_32 dest!: arg_cong [where f = unat])
  then show ?thesis
    using vote_packet_roundtrip [of "[(10, 5), (11, 5), (12, 0)]" 13 10 "replicate 848 255" 5 0]
    by (simp add: NUMBER_OF_COMPUTORS_def VOTE_COUNTER_DATA_SIZE_IN_BYTES_def)
qed

text \<open>
  C29: votes are accumulated only from packets that pass every check. A transaction of another sender than the tick leader, with
  an amount, of another size or with a wrong data lock changes no count; otherwise each computor is credited its field of the packet
  when every field is at most 676, the fields sum up to at least \<open>675 * 451\<close> and the sender's own field is zero, and nothing when
  one of these fails.
\<close>

theorem processTransactionData_guarded:
  assumes "length (vc_buffer vc) = NUMBER_OF_COMPUTORS" "length (accumulatedVoteCount vc) = NUMBER_OF_COMPUTORS" "j < NUMBER_OF_COMPUTORS"
  shows "getVoteCount (processTransactionData computors tx dataLock vc) j = getVoteCount vc j +
    (if txSource tx = computors ! (unat (txTick tx) mod NUMBER_OF_COMPUTORS) \<and> txAmount tx = 0 \<and>
        txInputSize tx = VOTE_COUNTER_DATA_SIZE_IN_BYTES + 32 \<and> txDataLock tx = dataLock \<and>
        packet_ok (txVotes tx) (unat (txTick tx) mod NUMBER_OF_COMPUTORS)
     then ucast (extract10Bit (txVotes tx) j) else 0)"
proof -
  have "unat (txTick tx) mod NUMBER_OF_COMPUTORS < NUMBER_OF_COMPUTORS" by (simp add: NUMBER_OF_COMPUTORS_def)
  from addVotes_counts [OF assms(1,2) this assms(3)] show ?thesis by (simp add: processTransactionData_def Let_def)
qed

theorem processTransactionData_guarded_witness:
  "getVoteCount (processTransactionData [7] \<lparr>txTick = 0, txSource = 8, txAmount = 0, txInputSize = 880, txVotes = [], txDataLock = 1\<rparr> 1 vc_init) 3 =
   getVoteCount vc_init 3"
  using processTransactionData_guarded [of vc_init 3 "[7]"
    "\<lparr>txTick = 0, txSource = 8, txAmount = 0, txInputSize = 880, txVotes = [], txDataLock = 1\<rparr>" 1]
  by (simp add: vc_init_def NUMBER_OF_COMPUTORS_def)

end
