(* ===== verification/Stable_Computor_Index.thy ===== *)
theory Stable_Computor_Index
  imports Prelude "HOL-Library.Multiset"
begin

text \<open>
  \<open>calculateStableComputorIndex\<close> (\<open>src/src/ticking/stable_computor_index.h\<close>): the order of the computors of the next epoch in
  which requalifying computors keep their index. The number of computors is the length of the lists.
\<close>

section \<open>The routine\<close>

text \<open>The inner loop of step 1 stops at the first index with the same computor.\<close>

definition keepIndex :: "m256i list \<Rightarrow> m256i list \<Rightarrow> m256i list \<times> bool list \<times> bool list \<Rightarrow> nat \<Rightarrow> m256i list \<times> bool list \<times> bool list" where
  "keepIndex futureComputors currentComputors = (\<lambda>(tempComputorList, isIndexTaken, isFutureComputorUsed) futureIdx.
     case find (\<lambda>currentIdx. futureComputors ! futureIdx = currentComputors ! currentIdx) [0..<length currentComputors] of
       None \<Rightarrow> (tempComputorList, isIndexTaken, isFutureComputorUsed)
     | Some currentIdx \<Rightarrow> (tempComputorList[currentIdx := futureComputors ! futureIdx], isIndexTaken[currentIdx := True],
         isFutureComputorUsed[futureIdx := True]))"

function skipUsed :: "bool list \<Rightarrow> nat \<Rightarrow> nat" where
  "skipUsed used n = (if n < length used \<and> used ! n then skipUsed used (Suc n) else n)"
  by auto
termination by (relation "measure (\<lambda>(used, n). length used - n)") auto

declare skipUsed.simps [simp del]

text \<open>Step 2 for the slots of a list; \<open>None\<close> is \<open>return false\<close>.\<close>

fun fillSlots :: "m256i list \<Rightarrow> bool list \<Rightarrow> nat list \<Rightarrow> m256i list \<Rightarrow> bool list \<Rightarrow> nat \<Rightarrow> m256i list option" where
  "fillSlots future taken [] temp used next = Some temp"
| "fillSlots future taken (i # is) temp used next =
     (if taken ! i then fillSlots future taken is temp used next
      else let n = skipUsed used next
           in if length future \<le> n then None
              else fillSlots future taken is (temp[i := future ! n]) (used[n := True]) (Suc n))"

definition calculateStableComputorIndex :: "m256i list \<Rightarrow> m256i list \<Rightarrow> m256i list option" where
  "calculateStableComputorIndex future current =
     (let N = length future;
          (temp, taken, used) = foldl (keepIndex future current) (replicate N 0, replicate N False, replicate N False) [0..<N]
      in fillSlots future taken [0..<N] temp used 0)"

section \<open>Step 1\<close>

lemma keepIndex_loop:
  assumes "length current = N" and "distinct current" and "n \<le> N"
    and "foldl (keepIndex future current) (replicate N 0, replicate N False, replicate N False) [0..<n] = (temp, taken, used)"
  shows "length temp = N \<and> length taken = N \<and> length used = N \<and>
    (\<forall>c<N. taken ! c \<longleftrightarrow> (\<exists>f<n. future ! f = current ! c)) \<and> (\<forall>c<N. taken ! c \<longrightarrow> temp ! c = current ! c) \<and>
    (\<forall>f<N. used ! f \<longleftrightarrow> f < n \<and> future ! f \<in> set current)"
  using assms(3,4)
proof (induction n arbitrary: temp taken used)
  case (Suc n)
  obtain temp0 taken0 used0 where e: "foldl (keepIndex future current) (replicate N 0, replicate N False, replicate N False) [0..<n] = (temp0, taken0, used0)"
    by (cases rule: prod_cases3)
  note IH = Suc.IH [OF _ e]
  show ?case
  proof (cases "find (\<lambda>c. future ! n = current ! c) [0..<length current]")
    case None
    then have no: "future ! n \<noteq> current ! c" if "c < N" for c using that assms(1) by (auto simp: find_None_iff)
    have "future ! n \<notin> set current" using no assms(1) by (metis in_set_conv_nth)
    then show ?thesis using IH Suc.prems e None no by (auto simp: keepIndex_def less_Suc_eq)
  next
    case (Some c)
    then have c: "c < N" "future ! n = current ! c" using assms(1) by (auto simp: find_Some_iff)
    then have u: "future ! n = current ! k \<longleftrightarrow> k = c" if "k < N" for k
      using that assms(1,2) by (auto simp: nth_eq_iff_index_eq)
    have "future ! n \<in> set current" using c assms(1) by (auto simp: in_set_conv_nth)
    moreover have "temp = temp0[c := current ! c]" "taken = taken0[c := True]" "used = used0[n := True]"
      using Suc.prems(2) e Some c by (simp_all add: keepIndex_def)
    ultimately show ?thesis using IH Suc.prems(1) c(1) u by (auto simp: nth_list_update less_Suc_eq)
  qed
qed auto

section \<open>Step 2\<close>

definition unusedFrom :: "bool list \<Rightarrow> nat \<Rightarrow> nat list" where
  "unusedFrom used next = filter (\<lambda>f. \<not> used ! f) [next..<length used]"

lemma skipUsed_first:
  "unusedFrom used n = (if skipUsed used n < length used then skipUsed used n # unusedFrom used (Suc (skipUsed used n)) else [])"
proof (induction used n rule: skipUsed.induct)
  case (1 used n)
  show ?case
  proof (cases "n < length used \<and> used ! n")
    case True
    then have "unusedFrom used n = unusedFrom used (Suc n)" by (simp add: unusedFrom_def upt_conv_Cons)
    moreover have "skipUsed used n = skipUsed used (Suc n)" using True by (subst skipUsed.simps) simp
    ultimately show ?thesis using 1 True by simp
  next
    case False
    then have "skipUsed used n = n" by (subst skipUsed.simps) auto
    then show ?thesis using False by (auto simp: unusedFrom_def upt_conv_Cons)
  qed
qed

lemma unusedFrom_update: "k < n \<Longrightarrow> unusedFrom (used[k := True]) n = unusedFrom used n"
  by (auto simp: unusedFrom_def intro!: filter_cong)

lemma fillSlots_result:
  assumes "distinct is" and "\<forall>i\<in>set is. i < length temp" and "length used = length future"
    and "length (filter (\<lambda>i. \<not> taken ! i) is) \<le> length (unusedFrom used next)"
  shows "\<exists>temp'. fillSlots future taken is temp used next = Some temp' \<and> length temp' = length temp \<and>
    (\<forall>k<length (filter (\<lambda>i. \<not> taken ! i) is). temp' ! (filter (\<lambda>i. \<not> taken ! i) is ! k) = future ! (unusedFrom used next ! k)) \<and>
    (\<forall>i. i \<notin> set (filter (\<lambda>i. \<not> taken ! i) is) \<longrightarrow> temp' ! i = temp ! i)"
  using assms
proof (induction "is" arbitrary: temp used "next")
  case (Cons i "is")
  show ?case
  proof (cases "taken ! i")
    case True
    then show ?thesis using Cons by simp
  next
    case False
    let ?n = "skipUsed used next" and ?F = "filter (\<lambda>i. \<not> taken ! i) is"
    have u: "unusedFrom used next = ?n # unusedFrom used (Suc ?n)" "?n < length used"
      using skipUsed_first [of used "next"] Cons.prems(4) False by (auto split: if_splits)
    have "unusedFrom (used[?n := True]) (Suc ?n) = unusedFrom used (Suc ?n)" by (simp add: unusedFrom_update)
    then obtain temp' where t: "fillSlots future taken is (temp[i := future ! ?n]) (used[?n := True]) (Suc ?n) = Some temp'"
      "length temp' = length temp" "\<And>k. k < length ?F \<Longrightarrow> temp' ! (?F ! k) = future ! (unusedFrom used (Suc ?n) ! k)"
      "\<And>j. j \<notin> set ?F \<Longrightarrow> temp' ! j = temp[i := future ! ?n] ! j"
      using Cons.IH [of "temp[i := future ! ?n]" "used[?n := True]" "Suc ?n"] Cons.prems False u(1) by auto
    have "temp' ! ((i # ?F) ! k) = future ! ((?n # unusedFrom used (Suc ?n)) ! k)" if "k < Suc (length ?F)" for k
      using t(3,4) that Cons.prems(1,2) by (cases k) auto
    moreover have "temp' ! j = temp ! j" if "j \<notin> set (i # ?F)" for j using t(4) that by auto
    ultimately show ?thesis using t(1,2) u Cons.prems(3) False by (simp add: Let_def)
  qed
qed simp

section \<open>Property\<close>

lemma count_members:
  assumes "distinct xs" and "distinct ys" and "length xs = length ys"
  shows "length (filter (\<lambda>i. xs ! i \<notin> set ys) [0..<length xs]) = length (filter (\<lambda>i. ys ! i \<notin> set xs) [0..<length ys])"
proof -
  have c: "length (filter (\<lambda>i. as ! i \<notin> set bs) [0..<length as]) = length as - card (set as \<inter> set bs)" if "distinct as" for as bs :: "'a list"
  proof -
    have "filter (\<lambda>x. x \<notin> set bs) as = map ((!) as) (filter (\<lambda>i. as ! i \<notin> set bs) [0..<length as])"
      using filter_map [of "\<lambda>x. x \<notin> set bs" "(!) as" "[0..<length as]"] by (simp add: map_nth comp_def)
    then have "length (filter (\<lambda>i. as ! i \<notin> set bs) [0..<length as]) = length (filter (\<lambda>x. x \<notin> set bs) as)" by simp
    also have "\<dots> = card (set as - set bs)" using that by (simp add: distinct_length_filter set_diff_eq Int_def conj_commute)
    also have "\<dots> = length as - card (set as \<inter> set bs)" using that by (simp add: card_Diff_subset_Int distinct_card)
    finally show ?thesis .
  qed
  show ?thesis using c [OF assms(1)] c [OF assms(2)] assms(3) by (simp add: Int_commute)
qed

text \<open>
  C30: for as many distinct future computors as distinct current ones the routine succeeds; its result is a permutation of the
  future computors in which every computor that is also a current one has its current index.
\<close>

theorem calculateStableComputorIndex_stable:
  assumes "length current = length future" and d: "distinct future" "distinct current"
  shows "\<exists>result. calculateStableComputorIndex future current = Some result \<and> mset result = mset future \<and>
    (\<forall>i<length current. current ! i \<in> set future \<longrightarrow> result ! i = current ! i)"
proof -
  let ?N = "length future"
  obtain temp taken used where s1: "foldl (keepIndex future current) (replicate ?N 0, replicate ?N False, replicate ?N False) [0..<?N] = (temp, taken, used)"
    by (cases rule: prod_cases3)
  note K = keepIndex_loop [OF assms(1) d(2) order_refl s1]
  have taken: "taken ! c \<longleftrightarrow> current ! c \<in> set future" if "c < ?N" for c using K that by (auto simp: in_set_conv_nth)
  have used: "used ! f \<longleftrightarrow> future ! f \<in> set current" if "f < ?N" for f using K that by auto
  let ?F = "filter (\<lambda>i. \<not> taken ! i) [0..<?N]" and ?U = "unusedFrom used 0"
  have F: "?F = filter (\<lambda>i. current ! i \<notin> set future) [0..<?N]" using taken by (intro filter_cong) auto
  have U: "?U = filter (\<lambda>f. future ! f \<notin> set current) [0..<?N]" unfolding unusedFrom_def using used K by (intro filter_cong) auto
  have len: "length ?F = length ?U" unfolding F U using count_members [OF d(2,1) assms(1)] assms(1) by simp
  obtain result where r: "fillSlots future taken [0..<?N] temp used 0 = Some result" "length result = ?N"
    "\<And>k. k < length ?F \<Longrightarrow> result ! (?F ! k) = future ! (?U ! k)" "\<And>i. i \<notin> set ?F \<Longrightarrow> result ! i = temp ! i"
    using fillSlots_result [of "[0..<?N]" temp used future taken 0] K len by auto
  have keep: "result ! i = current ! i" if "i < ?N" "current ! i \<in> set future" for i
    using r(4) [of i] that taken [of i] K by auto
  have "future ! f \<in> set result" if f: "f < ?N" for f
  proof (cases "future ! f \<in> set current")
    case True
    then obtain c where "c < ?N" "current ! c = future ! f" using assms(1) by (metis in_set_conv_nth)
    then show ?thesis using keep [of c] f r(2) by (metis nth_mem)
  next
    case False
    then have "f \<in> set ?U" using f U by simp
    then obtain k where k: "k < length ?U" "?U ! k = f" by (metis in_set_conv_nth)
    have "?F ! k \<in> set ?F" using k len by (metis nth_mem)
    then have "?F ! k < length result" using r(2) by simp
    then show ?thesis using r(3) [of k] k len by (metis nth_mem)
  qed
  then have sub: "set future \<subseteq> set result" by (metis in_set_conv_nth subsetI)
  have "card (set result) \<le> card (set future)" using card_length [of result] r(2) d(1) by (simp add: distinct_card)
  then have eq: "set future = set result" using sub by (intro card_seteq) auto
  then have "distinct result" using r(2) d(1) by (metis card_distinct distinct_card)
  then have "mset result = mset future" using eq d(1) by (metis set_eq_iff_mset_eq_distinct)
  then show ?thesis using s1 r(1) keep assms(1) by (auto simp: calculateStableComputorIndex_def Let_def)
qed

theorem calculateStableComputorIndex_stable_witness:
  "\<exists>result. calculateStableComputorIndex [4, 3, 1] [1, 2, 3] = Some result \<and> result ! 0 = 1 \<and> result ! 2 = 3"
proof -
  obtain result where r: "calculateStableComputorIndex [4, 3, 1] [1, 2, 3] = Some result"
    "\<forall>i<length [1, 2, 3 :: m256i]. [1, 2, 3] ! i \<in> set [4, 3, 1 :: m256i] \<longrightarrow> result ! i = [1, 2, 3] ! i"
    using calculateStableComputorIndex_stable [of "[1, 2, 3]" "[4, 3, 1]"] by fastforce
  from r(1) r(2) [rule_format, of 0] r(2) [rule_format, of 2] show ?thesis by simp
qed

end
