(* ===== verification/Sorting.thy ===== *)
theory Sorting
  imports Prelude "HOL-Library.Multiset"
begin

text \<open>
  The sorting routines of \<open>src/lib/platform_common/sorting.h\<close>: quicksort with Lomuto's partition, in both orders, and the binary heap
  \<open>MinHeap\<close>. Quicksort is shown to sort the given range and nothing else.
\<close>

section \<open>Quicksort\<close>

datatype SortingOrder = SortAscending | SortDescending

definition swap :: "'a list \<Rightarrow> nat \<Rightarrow> nat \<Rightarrow> 'a list" where
  "swap xs i j = xs[i := xs ! j, j := xs ! i]"

definition shouldGoBefore :: "SortingOrder \<Rightarrow> 'a::linorder \<Rightarrow> 'a \<Rightarrow> bool" where
  "shouldGoBefore order x pivot = (if order = SortDescending then \<not> x < pivot else x < pivot)"

definition partitionStep :: "SortingOrder \<Rightarrow> 'a::linorder \<Rightarrow> nat \<times> 'a list \<Rightarrow> nat \<Rightarrow> nat \<times> 'a list" where
  "partitionStep order pivot = (\<lambda>(nextIndex, rng) i.
     if shouldGoBefore order (rng ! i) pivot then (nextIndex + 1, swap rng nextIndex i) else (nextIndex, rng))"

definition lomuto :: "SortingOrder \<Rightarrow> 'a::linorder list \<Rightarrow> nat \<Rightarrow> nat \<Rightarrow> nat \<times> 'a list" where
  "lomuto order rng first lst =
     (let (nextIndex, rng') = foldl (partitionStep order (rng ! lst)) (first, rng) [first..<lst]
      in (nextIndex, swap rng' nextIndex lst))"

text \<open>The values of a range are permuted, the others stay.\<close>

definition permuted :: "nat \<Rightarrow> nat \<Rightarrow> 'a list \<Rightarrow> 'a list \<Rightarrow> bool" where
  "permuted f l xs ys \<longleftrightarrow> mset ys = mset xs \<and> (\<forall>i. i < f \<or> l \<le> i \<longrightarrow> ys ! i = xs ! i)"

lemma permuted_refl [simp]: "permuted f l xs xs"
  by (simp add: permuted_def)

lemma permuted_trans [trans]: "permuted f l xs ys \<Longrightarrow> permuted f l ys zs \<Longrightarrow> permuted f l xs zs"
  by (simp add: permuted_def)

lemma permuted_mono: "permuted f' l' xs ys \<Longrightarrow> f \<le> f' \<Longrightarrow> l' \<le> l \<Longrightarrow> permuted f l xs ys"
  by (auto simp: permuted_def)

lemma permuted_length: "permuted f l xs ys \<Longrightarrow> length ys = length xs"
  unfolding permuted_def by (metis size_mset)

lemma permuted_swap: "f \<le> i \<Longrightarrow> i < l \<Longrightarrow> f \<le> j \<Longrightarrow> j < l \<Longrightarrow> l \<le> length xs \<Longrightarrow> permuted f l xs (swap xs i j)"
  by (auto simp: permuted_def swap_def mset_swap)

lemma permuted_set:
  assumes "permuted f l xs ys" and "f \<le> l" "l \<le> length xs"
  shows "(!) ys ` {f..<l} = (!) xs ` {f..<l}"
proof -
  have len: "length ys = length xs" using assms(1) by (rule permuted_length)
  have seg: "zs = take f zs @ map ((!) zs) [f..<l] @ drop l zs" if "length zs = length xs" for zs
    using that assms(2,3) by (intro nth_equalityI) (auto simp: nth_append)
  have "take f ys = take f xs" "drop l ys = drop l xs"
    using assms len by (auto simp: permuted_def intro!: nth_equalityI)
  moreover have "mset ys = mset xs" using assms(1) by (simp add: permuted_def)
  ultimately have "mset (map ((!) ys) [f..<l]) = mset (map ((!) xs) [f..<l])"
    using arg_cong [OF seg [OF len], of mset] arg_cong [OF seg [of xs], of mset] by simp
  then have "set (map ((!) ys) [f..<l]) = set (map ((!) xs) [f..<l])" by (rule mset_eq_setD)
  then show ?thesis by simp
qed

lemma partition_loop:
  assumes "f \<le> i" "i \<le> l" "l \<le> length rng" and "foldl (partitionStep order pivot) (f, rng) [f..<i] = (n, rng')"
  shows "f \<le> n \<and> n \<le> i \<and> permuted f i rng rng' \<and> (\<forall>k\<in>{f..<n}. shouldGoBefore order (rng' ! k) pivot) \<and>
    (\<forall>k\<in>{n..<i}. \<not> shouldGoBefore order (rng' ! k) pivot)"
  using assms
proof (induction i arbitrary: n rng')
  case (Suc i)
  show ?case
  proof (cases "f \<le> i")
    case True
    obtain m r where e: "foldl (partitionStep order pivot) (f, rng) [f..<i] = (m, r)" by (cases rule: prod.exhaust)
    have IH: "f \<le> m" "m \<le> i" "permuted f i rng r" "\<And>k. k \<in> {f..<m} \<Longrightarrow> shouldGoBefore order (r ! k) pivot"
      "\<And>k. k \<in> {m..<i} \<Longrightarrow> \<not> shouldGoBefore order (r ! k) pivot" using Suc.IH [OF True _ _ e] Suc.prems by auto
    have len: "i < length r" using permuted_length [OF IH(3)] Suc.prems by simp
    have p: "permuted f (Suc i) rng r" using permuted_mono [OF IH(3)] by simp
    show ?thesis
    proof (cases "shouldGoBefore order (r ! i) pivot")
      case b: True
      then have n: "n = Suc m" "rng' = swap r m i" using Suc.prems(4) e True by (simp_all add: partitionStep_def)
      have "permuted f (Suc i) r rng'" unfolding n using IH(1,2) len by (intro permuted_swap) auto
      moreover have "rng' ! k = (if k = m then r ! i else if k = i then r ! m else r ! k)" for k
        using IH(2) len unfolding n swap_def by (auto simp: nth_list_update)
      ultimately show ?thesis using IH p b n(1) permuted_trans [OF p] by (auto simp: less_Suc_eq)
    next
      case False
      then have n: "n = m" "rng' = r" using Suc.prems(4) e True by (simp_all add: partitionStep_def)
      then show ?thesis using IH p False by (auto simp: less_Suc_eq)
    qed
  next
    case False
    then show ?thesis using Suc.prems by (auto simp: not_less_eq_eq)
  qed
qed simp

lemma partition_loop_bounds:
  "fst (foldl (partitionStep order pivot) (f, rng) [f..<i]) \<in> {f..max f i}"
proof (induction i)
  case (Suc i)
  show ?case
  proof (cases "f \<le> i")
    case True
    then show ?thesis using Suc by (auto simp: partitionStep_def split: prod.splits)
  qed simp
qed simp

lemma lomuto_bounds: "lomuto order rng f l = (p, rng') \<Longrightarrow> f \<le> l \<Longrightarrow> f \<le> p \<and> p \<le> l"
  using partition_loop_bounds [of order "rng ! l" f rng l] by (auto simp: lomuto_def split: prod.splits)

text \<open>
  The lower end is never negative (0 or one past a pivot); the upper end is \<open>-1\<close> when the pivot is the first element.
\<close>

function quickSort :: "SortingOrder \<Rightarrow> 'a::linorder list \<Rightarrow> nat \<Rightarrow> int \<Rightarrow> 'a list" where
  "quickSort order rng first lst =
     (if int first \<ge> lst then rng
      else let (pivot, rng1) = lomuto order rng first (nat lst);
               rng2 = quickSort order rng1 first (int pivot - 1)
           in quickSort order rng2 (pivot + 1) lst)"
  by auto
termination
proof (relation "measure (\<lambda>(_, _, f, l). nat (l + 1 - int f))", goal_cases)
  case (2 order rng first lst x pivot rng1)
  then have "lomuto order rng first (nat lst) = (pivot, rng1)" "first \<le> nat lst" "int first < lst" by simp_all
  then show ?case using lomuto_bounds [of order rng first "nat lst" pivot rng1] by auto
next
  case (3 order rng first lst x pivot rng1 rng2)
  then have "lomuto order rng first (nat lst) = (pivot, rng1)" "first \<le> nat lst" "int first < lst" by simp_all
  then show ?case using lomuto_bounds [of order rng first "nat lst" pivot rng1] by auto
qed simp

declare quickSort.simps [simp del]

definition inOrder :: "SortingOrder \<Rightarrow> 'a::linorder \<Rightarrow> 'a \<Rightarrow> bool" where
  "inOrder order x y = (if order = SortDescending then y \<le> x else x \<le> y)"

definition sortedRange :: "SortingOrder \<Rightarrow> nat \<Rightarrow> nat \<Rightarrow> 'a::linorder list \<Rightarrow> bool" where
  "sortedRange order f l xs \<longleftrightarrow> (\<forall>i j. f \<le> i \<longrightarrow> i < j \<longrightarrow> j < l \<longrightarrow> inOrder order (xs ! i) (xs ! j))"

lemma inOrder_trans: "inOrder order x y \<Longrightarrow> inOrder order y z \<Longrightarrow> inOrder order x z"
  by (auto simp: inOrder_def split: if_splits)

lemma shouldGoBefore_inOrder:
  "shouldGoBefore order x p \<Longrightarrow> inOrder order x p" "\<not> shouldGoBefore order x p \<Longrightarrow> inOrder order p x"
  by (auto simp: shouldGoBefore_def inOrder_def split: if_splits)

lemma lomuto_correct:
  assumes "lomuto order rng f l = (p, rng')" "f \<le> l" "l < length rng"
  shows "f \<le> p \<and> p \<le> l \<and> permuted f (Suc l) rng rng' \<and> (\<forall>k\<in>{f..<p}. inOrder order (rng' ! k) (rng' ! p)) \<and>
    (\<forall>k\<in>{p<..l}. inOrder order (rng' ! p) (rng' ! k))"
proof -
  let ?v = "rng ! l"
  obtain n r where e: "foldl (partitionStep order ?v) (f, rng) [f..<l] = (n, r)" by (cases rule: prod.exhaust)
  note loop = partition_loop [OF assms(2) order_refl less_imp_le [OF assms(3)] e]
  then have perm: "permuted f (Suc l) rng r" using permuted_mono by fastforce
  have p: "p = n" "rng' = swap r n l" using assms(1) e by (auto simp: lomuto_def)
  have len: "l < length r" using permuted_length [OF perm] assms(3) by simp
  have last: "r ! l = ?v" using loop by (simp add: permuted_def)
  have nth: "rng' ! k = (if k = n then ?v else if k = l then r ! n else r ! k)" for k
    using loop len last unfolding p swap_def by (auto simp: nth_list_update)
  have "permuted f (Suc l) r rng'" unfolding p using loop len by (intro permuted_swap) auto
  then have "permuted f (Suc l) rng rng'" using permuted_trans [OF perm] by blast
  moreover have "inOrder order (rng' ! k) (rng' ! p)" if "k \<in> {f..<p}" for k
    using that p(1) loop shouldGoBefore_inOrder(1) [of order "r ! k" ?v] unfolding nth p(1) by auto
  moreover have "inOrder order (rng' ! p) (rng' ! k)" if "k \<in> {p<..l}" for k
    using that p(1) loop shouldGoBefore_inOrder(2) [of order "r ! k" ?v] shouldGoBefore_inOrder(2) [of order "r ! n" ?v]
    unfolding nth p(1) by auto
  ultimately show ?thesis using loop p by auto
qed

lemma permuted_transfer:
  assumes "permuted f l xs ys" "f \<le> l" "l \<le> length xs" "\<forall>k\<in>{f..<l}. P (xs ! k)"
  shows "\<forall>k\<in>{f..<l}. P (ys ! k)"
proof
  fix k assume "k \<in> {f..<l}"
  then have "ys ! k \<in> (!) xs ` {f..<l}" using permuted_set [OF assms(1-3)] by blast
  then show "P (ys ! k)" using assms(4) by auto
qed

lemma sortedRange_join:
  assumes "sortedRange order f p xs" "sortedRange order (Suc p) l xs" "\<forall>k\<in>{f..<p}. inOrder order (xs ! k) (xs ! p)"
    "\<forall>k\<in>{Suc p..<l}. inOrder order (xs ! p) (xs ! k)"
  shows "sortedRange order f l xs"
  unfolding sortedRange_def
proof (intro allI impI)
  fix i j assume ij: "f \<le> i" "i < j" "j < l"
  consider "j < p" | "j = p" | "p < i" | "i = p" | "i < p" "p < j" by linarith
  then show "inOrder order (xs ! i) (xs ! j)"
  proof cases
    case 1
    then show ?thesis using assms(1) ij unfolding sortedRange_def by blast
  next
    case 3
    then show ?thesis using assms(2) ij unfolding sortedRange_def by (meson Suc_leI)
  next
    case 5
    then have "inOrder order (xs ! i) (xs ! p)" "inOrder order (xs ! p) (xs ! j)" using assms(3,4) ij by simp_all
    then show ?thesis by (rule inOrder_trans)
  qed (use assms(3,4) ij in simp_all)
qed

lemma quickSort_correct:
  "lst < int (length rng) \<Longrightarrow>
     permuted first (nat (lst + 1)) rng (quickSort order rng first lst) \<and> sortedRange order first (nat (lst + 1)) (quickSort order rng first lst)"
proof (induction order rng first lst rule: quickSort.induct)
  case (1 order rng first lst)
  show ?case
  proof (cases "int first \<ge> lst")
    case True
    then show ?thesis by (subst (1 2) quickSort.simps) (auto simp: sortedRange_def)
  next
    case False
    obtain p r1 where e: "lomuto order rng first (nat lst) = (p, r1)" by (cases rule: prod.exhaust)
    define r2 where "r2 = quickSort order r1 first (int p - 1)"
    define r3 where "r3 = quickSort order r2 (p + 1) lst"
    have eq: "quickSort order rng first lst = r3"
      using False by (subst quickSort.simps) (simp add: e r2_def r3_def)
    have l: "first \<le> nat lst" "nat lst < length rng" "nat (lst + 1) = Suc (nat lst)" using False "1.prems" by auto
    note part = lomuto_correct [OF e l(1,2)]
    then have len1: "length r1 = length rng" using permuted_length by blast
    have IH2: "permuted first p r1 r2" "sortedRange order first p r2"
      using "1.IH"(1) [OF False e [symmetric] refl] part len1 l unfolding r2_def by auto
    then have len2: "length r2 = length rng" using permuted_length len1 by fastforce
    have "permuted (Suc p) (nat (lst + 1)) r2 r3 \<and> sortedRange order (Suc p) (nat (lst + 1)) r3"
      using "1.IH"(2) [OF False e [symmetric] refl refl] "1.prems" len2 unfolding r3_def r2_def by simp
    then have IH3: "permuted (Suc p) (Suc (nat lst)) r2 r3" "sortedRange order (Suc p) (Suc (nat lst)) r3" by (simp_all add: l(3))
    have same2: "r2 ! k = r1 ! k" if "p \<le> k" for k using IH2(1) that by (simp add: permuted_def)
    have same3: "r3 ! k = r2 ! k" if "k \<le> p" for k using IH3(1) that by (simp add: permuted_def)
    have left: "\<forall>k\<in>{first..<p}. inOrder order (r2 ! k) (r1 ! p)"
      by (rule permuted_transfer [OF IH2(1), where P = "\<lambda>x. inOrder order x (r1 ! p)"]) (use part len1 l in auto)
    have right: "\<forall>k\<in>{Suc p..<Suc (nat lst)}. inOrder order (r1 ! p) (r3 ! k)"
      by (rule permuted_transfer [OF IH3(1), where P = "inOrder order (r1 ! p)"]) (use part len2 l same2 in auto)
    have front: "sortedRange order first p r3" using IH2(2) same3 by (auto simp: sortedRange_def)
    have "sortedRange order first (Suc (nat lst)) r3"
      by (rule sortedRange_join [OF front IH3(2)]) (use left right same2 same3 in auto)
    moreover have "permuted first (Suc (nat lst)) rng r3"
    proof (rule permuted_trans [OF _ permuted_trans])
      show "permuted first (Suc (nat lst)) rng r1" using part by blast
      show "permuted first (Suc (nat lst)) r1 r2" by (rule permuted_mono [OF IH2(1)]) (use part in auto)
      show "permuted first (Suc (nat lst)) r2 r3" by (rule permuted_mono [OF IH3(1)]) (use part in auto)
    qed
    ultimately show ?thesis unfolding eq l(3) by blast
  qed
qed

lemma inOrder_fun: "inOrder SortAscending = (\<le>)" "inOrder SortDescending = (\<lambda>x y. y \<le> x)"
  by (auto simp: inOrder_def fun_eq_iff)

lemma sortedRange_all:
  assumes "sortedRange order 0 (length xs) xs"
  shows "sorted_wrt (inOrder order) xs"
  using assms by (auto simp: sortedRange_def sorted_wrt_iff_nth_less)

lemma quickSort_all:
  fixes xs :: "'a::linorder list"
  shows "quickSort SortAscending xs 0 (int (length xs) - 1) = sort xs \<and>
    quickSort SortDescending xs 0 (int (length xs) - 1) = rev (sort xs)"
proof -
  let ?qs = "\<lambda>order. quickSort order xs 0 (int (length xs) - 1)"
  have "permuted 0 (length xs) xs (?qs order) \<and> sortedRange order 0 (length xs) (?qs order)" for order
    using quickSort_correct [of "int (length xs) - 1" xs 0 order] by simp
  then have m: "mset (?qs order) = mset xs" and s: "sorted_wrt (inOrder order) (?qs order)" for order
    using sortedRange_all [of order "?qs order"] permuted_length [of 0 "length xs" xs "?qs order"]
    by (simp_all add: permuted_def)
  have "sorted (?qs SortAscending)" using s [of SortAscending] by (simp add: inOrder_fun)
  moreover have "sorted (rev (?qs SortDescending))" using s [of SortDescending] by (simp add: inOrder_fun sorted_wrt_rev)
  ultimately have "sort xs = ?qs SortAscending" "sort xs = rev (?qs SortDescending)"
    by (auto intro!: properties_for_sort simp: m)
  then show ?thesis by (metis rev_rev_ident)
qed

text \<open>
  C31: \<open>quickSort\<close> ends on every array and puts the elements of the given range in the given order: it permutes them, leaves
  the elements outside the range alone, and on a whole array agrees with the list sorted ascending or descending.
\<close>

theorem quickSort_sorts:
  fixes rng :: "'a::linorder list"
  assumes "lst < int (length rng)"
  shows "permuted first (nat (lst + 1)) rng (quickSort order rng first lst) \<and>
    sortedRange order first (nat (lst + 1)) (quickSort order rng first lst) \<and>
    quickSort SortAscending rng 0 (int (length rng) - 1) = sort rng \<and>
    quickSort SortDescending rng 0 (int (length rng) - 1) = rev (sort rng)"
  using quickSort_correct [OF assms] quickSort_all by blast

theorem quickSort_sorts_witness:
  "sortedRange SortDescending 1 4 (quickSort SortDescending [9, 1, 5, 3, 7 :: nat] 1 3) \<and>
   quickSort SortDescending [9, 1, 5, 3, 7 :: nat] 1 3 = [9, 5, 3, 1, 7]"
proof
  show "sortedRange SortDescending 1 4 (quickSort SortDescending [9, 1, 5, 3, 7 :: nat] 1 3)"
    using quickSort_sorts [of 3 "[9, 1, 5, 3, 7 :: nat]" 1 SortDescending] by simp
qed code_simp

end
