(* ===== verification/Min_Heap.thy ===== *)
theory Min_Heap
  imports Sorting
begin

text \<open>
  The priority queue \<open>MinHeap\<close> (\<open>src/lib/platform_common/sorting.h\<close>): a binary heap in an array. The comparison is a template
  parameter of the source and a parameter here; the contract \<open>compare_order\<close> says what the heap needs of it, and both
  comparisons of the source, \<open>CompareLess\<close> and \<open>CompareGreater\<close>, fulfil it. Indices stay below the capacity, far from the
  bound of \<open>unsigned int\<close>.
\<close>

definition CompareLess :: "'a::linorder \<Rightarrow> 'a \<Rightarrow> bool" where
  "CompareLess lhs rhs = (lhs < rhs)"

definition CompareGreater :: "'a::linorder \<Rightarrow> 'a \<Rightarrow> bool" where
  "CompareGreater lhs rhs = (lhs > rhs)"

record 'a MinHeap =
  heapData :: "'a list"
  heapSize :: nat

definition heapCapacity :: "'a MinHeap \<Rightarrow> nat" where
  "heapCapacity h = length (heapData h)"

definition heapInit :: "'a list \<Rightarrow> 'a MinHeap" where
  "heapInit storage = \<lparr>heapData = storage, heapSize = 0\<rparr>"

definition heapSwap :: "'a list \<Rightarrow> nat \<Rightarrow> nat \<Rightarrow> 'a list" where
  "heapSwap d idx1 idx2 = (let tmp = d ! idx1 in (d[idx1 := d ! idx2])[idx2 := tmp])"

function upHeap :: "('a \<Rightarrow> 'a \<Rightarrow> bool) \<Rightarrow> 'a list \<Rightarrow> nat \<Rightarrow> nat \<times> 'a list" where
  "upHeap compare d idx =
     (if idx \<noteq> 0
      then let parentIdx = (idx - 1) div 2
           in if compare (d ! idx) (d ! parentIdx) then upHeap compare (heapSwap d idx parentIdx) parentIdx else (idx, d)
      else (idx, d))"
  by auto
termination by (relation "measure (\<lambda>(_, _, idx). idx)") auto

definition minChild :: "('a \<Rightarrow> 'a \<Rightarrow> bool) \<Rightarrow> nat \<Rightarrow> 'a list \<Rightarrow> nat \<Rightarrow> nat" where
  "minChild compare n d idx =
     (let childIdx1 = idx * 2 + 1; childIdx2 = childIdx1 + 1
      in if childIdx2 < n \<and> compare (d ! childIdx2) (d ! childIdx1) then childIdx2 else childIdx1)"

function downHeap :: "('a \<Rightarrow> 'a \<Rightarrow> bool) \<Rightarrow> nat \<Rightarrow> 'a list \<Rightarrow> nat \<Rightarrow> 'a list" where
  "downHeap compare n d idx =
     (if idx * 2 + 1 \<ge> n then d
      else let minChildIdx = minChild compare n d idx
           in if compare (d ! minChildIdx) (d ! idx) then downHeap compare n (heapSwap d idx minChildIdx) minChildIdx else d)"
  by auto
termination by (relation "measure (\<lambda>(_, n, _, idx). n - idx)") (auto simp: minChild_def Let_def split: if_splits)

declare upHeap.simps [simp del] downHeap.simps [simp del]

definition heapInsert :: "('a \<Rightarrow> 'a \<Rightarrow> bool) \<Rightarrow> 'a \<Rightarrow> 'a MinHeap \<Rightarrow> bool \<times> 'a MinHeap" where
  "heapInsert compare newElement h =
     (if heapSize h \<ge> heapCapacity h then (False, h)
      else let newIndex = heapSize h
           in (True, \<lparr>heapData = snd (upHeap compare ((heapData h)[newIndex := newElement]) newIndex), heapSize = newIndex + 1\<rparr>))"

definition heapPeek :: "'a MinHeap \<Rightarrow> 'a option" where
  "heapPeek h = (if heapSize h = 0 then None else Some (heapData h ! 0))"

definition heapDrop :: "('a \<Rightarrow> 'a \<Rightarrow> bool) \<Rightarrow> 'a MinHeap \<Rightarrow> bool \<times> 'a MinHeap" where
  "heapDrop compare h =
     (if heapSize h = 0 then (False, h)
      else let n = heapSize h - 1
           in (True, \<lparr>heapData = downHeap compare n ((heapData h)[0 := heapData h ! n]) 0, heapSize = n\<rparr>))"

definition heapExtract :: "('a \<Rightarrow> 'a \<Rightarrow> bool) \<Rightarrow> 'a MinHeap \<Rightarrow> 'a option \<times> 'a MinHeap" where
  "heapExtract compare h =
     (case heapPeek h of None \<Rightarrow> (None, h)
      | Some minElement \<Rightarrow> (case heapDrop compare h of (ok, h') \<Rightarrow> (if ok then Some minElement else None, h')))"

definition heapReplace :: "('a \<Rightarrow> 'a \<Rightarrow> bool) \<Rightarrow> 'a \<Rightarrow> 'a MinHeap \<Rightarrow> 'a option \<times> 'a MinHeap" where
  "heapReplace compare newElement h =
     (if heapSize h = 0 then (None, h)
      else (Some (heapData h ! 0), h\<lparr>heapData := downHeap compare (heapSize h) ((heapData h)[0 := newElement]) 0\<rparr>))"

definition findElement :: "'a MinHeap \<Rightarrow> 'a \<Rightarrow> nat" where
  "findElement h x = length (takeWhile (\<lambda>y. y \<noteq> x) (take (heapSize h) (heapData h)))"

definition removeFirstMatch :: "('a \<Rightarrow> 'a \<Rightarrow> bool) \<Rightarrow> 'a \<Rightarrow> 'a MinHeap \<Rightarrow> bool \<times> 'a MinHeap" where
  "removeFirstMatch compare elementToRemove h =
     (let i = findElement h elementToRemove
      in if i = heapSize h then (False, h)
         else let n = heapSize h - 1
              in if i < n
                 then let (i', d) = upHeap compare ((heapData h)[i := heapData h ! n]) i
                      in (True, \<lparr>heapData = downHeap compare n d i', heapSize = n\<rparr>)
                 else (True, h\<lparr>heapSize := n\<rparr>))"

section \<open>The order of the heap\<close>

text \<open>
  \<open>heapOrdered\<close>: no element comes before its parent. \<open>downFrom\<close> is the invariant of \<open>downHeap\<close>, \<open>brokenAt\<close> that of \<open>upHeap\<close>: all is
  in order but around one index, and the children of that index do not come before its parent.
\<close>

definition parentIndex :: "nat \<Rightarrow> nat" where
  "parentIndex i = (i - 1) div 2"

definition inPlace :: "('a \<Rightarrow> 'a \<Rightarrow> bool) \<Rightarrow> 'a list \<Rightarrow> nat \<Rightarrow> bool" where
  "inPlace compare d i \<longleftrightarrow> \<not> compare (d ! i) (d ! parentIndex i)"

definition heapOrdered :: "('a \<Rightarrow> 'a \<Rightarrow> bool) \<Rightarrow> nat \<Rightarrow> 'a list \<Rightarrow> bool" where
  "heapOrdered compare n d \<longleftrightarrow> (\<forall>i. 0 < i \<longrightarrow> i < n \<longrightarrow> inPlace compare d i)"

definition bypass :: "('a \<Rightarrow> 'a \<Rightarrow> bool) \<Rightarrow> nat \<Rightarrow> 'a list \<Rightarrow> nat \<Rightarrow> bool" where
  "bypass compare n d idx \<longleftrightarrow>
     (\<forall>c. 0 < idx \<longrightarrow> 0 < c \<longrightarrow> c < n \<longrightarrow> parentIndex c = idx \<longrightarrow> \<not> compare (d ! c) (d ! parentIndex idx))"

definition downFrom :: "('a \<Rightarrow> 'a \<Rightarrow> bool) \<Rightarrow> nat \<Rightarrow> 'a list \<Rightarrow> nat \<Rightarrow> bool" where
  "downFrom compare n d idx \<longleftrightarrow>
     (\<forall>i. 0 < i \<longrightarrow> i < n \<longrightarrow> parentIndex i \<noteq> idx \<longrightarrow> inPlace compare d i) \<and> bypass compare n d idx"

definition brokenAt :: "('a \<Rightarrow> 'a \<Rightarrow> bool) \<Rightarrow> nat \<Rightarrow> 'a list \<Rightarrow> nat \<Rightarrow> bool" where
  "brokenAt compare n d idx \<longleftrightarrow>
     (\<forall>i. 0 < i \<longrightarrow> i < n \<longrightarrow> i \<noteq> idx \<longrightarrow> parentIndex i \<noteq> idx \<longrightarrow> inPlace compare d i) \<and> bypass compare n d idx"

definition childrenOk :: "('a \<Rightarrow> 'a \<Rightarrow> bool) \<Rightarrow> nat \<Rightarrow> 'a list \<Rightarrow> nat \<Rightarrow> bool" where
  "childrenOk compare n d idx \<longleftrightarrow> (\<forall>c. 0 < c \<longrightarrow> c < n \<longrightarrow> parentIndex c = idx \<longrightarrow> inPlace compare d c)"

lemma parentIndex_less: "0 < i \<Longrightarrow> parentIndex i < i"
  by (simp add: parentIndex_def)

lemma heapSwap_swap: "heapSwap d i j = swap d i j"
  by (simp add: heapSwap_def swap_def)

lemma swap_nth:
  "i < length d \<Longrightarrow> j < length d \<Longrightarrow> swap d i j ! k = (if k = i then d ! j else if k = j then d ! i else d ! k)"
  by (auto simp: swap_def nth_list_update)

lemma length_swap [simp]: "length (swap d i j) = length d"
  by (simp add: swap_def)

section \<open>Sifting up and down\<close>

locale compare_order =
  fixes compare :: "'a \<Rightarrow> 'a \<Rightarrow> bool"
  assumes asym: "compare x y \<Longrightarrow> \<not> compare y x"
    and neg_trans: "\<not> compare z y \<Longrightarrow> \<not> compare y x \<Longrightarrow> \<not> compare z x"
begin

lemma up_step:
  assumes "0 < idx" "idx < n" "n \<le> length d" "brokenAt compare n d idx" "compare (d ! idx) (d ! parentIndex idx)"
  defines "d' \<equiv> swap d idx (parentIndex idx)"
  shows "brokenAt compare n d' (parentIndex idx) \<and> childrenOk compare n d' (parentIndex idx)"
proof -
  let ?p = "parentIndex idx"
  have p: "?p < idx" using assms(1) by (rule parentIndex_less)
  have nth: "d' ! k = (if k = idx then d ! ?p else if k = ?p then d ! idx else d ! k)" for k
    unfolding d'_def using assms(2,3) p by (intro swap_nth) auto
  have ok: "\<not> compare (d ! i) (d ! parentIndex i)" if "0 < i" "i < n" "i \<noteq> idx" "parentIndex i \<noteq> idx" for i
    using assms(4) that by (simp add: brokenAt_def inPlace_def)
  have up: "\<not> compare (d ! c) (d ! ?p)" if "0 < c" "c < n" "parentIndex c = idx" for c
    using assms(1,4) that by (simp add: brokenAt_def bypass_def)
  have "inPlace compare d' i" if "0 < i" "i < n" "i \<noteq> ?p" "parentIndex i \<noteq> ?p" for i
    using that ok [of i] up [of i] p by (auto simp: inPlace_def nth)
  moreover have "\<not> compare (d' ! c) (d' ! parentIndex ?p)" if "0 < ?p" "0 < c" "c < n" "parentIndex c = ?p" for c
  proof -
    have pp: "parentIndex ?p < ?p" using that(1) by (rule parentIndex_less)
    have a: "\<not> compare (d ! ?p) (d ! parentIndex ?p)" using that(1) p pp assms(2) by (intro ok) auto
    then show ?thesis using ok [of c] neg_trans [of "d ! c" "d ! ?p"] that p pp parentIndex_less [of c] by (auto simp: nth)
  qed
  moreover have "inPlace compare d' c" if "0 < c" "c < n" "parentIndex c = ?p" for c
    using asym [OF assms(5)] ok [of c] neg_trans [of "d ! c" "d ! ?p" "d ! idx"] that p parentIndex_less [of c]
    by (auto simp: inPlace_def nth)
  ultimately show ?thesis by (simp add: brokenAt_def bypass_def childrenOk_def)
qed

lemma up_stop:
  assumes "brokenAt compare n d idx" "idx = 0 \<or> \<not> compare (d ! idx) (d ! parentIndex idx)"
  shows "downFrom compare n d idx \<and> (childrenOk compare n d idx \<longrightarrow> heapOrdered compare n d)"
proof -
  have "inPlace compare d i" if "0 < i" "i < n" "parentIndex i \<noteq> idx" for i
    using assms that by (cases "i = idx") (auto simp: brokenAt_def inPlace_def)
  then show ?thesis using assms(1) unfolding brokenAt_def downFrom_def childrenOk_def heapOrdered_def by blast
qed

lemma upHeap_correct:
  "idx < n \<Longrightarrow> n \<le> length d \<Longrightarrow> brokenAt compare n d idx \<Longrightarrow> upHeap compare d idx = (i', d') \<Longrightarrow>
   i' < n \<and> permuted 0 n d d' \<and> downFrom compare n d' i' \<and> (childrenOk compare n d idx \<longrightarrow> heapOrdered compare n d')"
proof (induction idx arbitrary: d rule: less_induct)
  case (less idx)
  show ?case
  proof (cases "idx \<noteq> 0 \<and> compare (d ! idx) (d ! parentIndex idx)")
    case True
    let ?p = "parentIndex idx" let ?d = "swap d idx (parentIndex idx)"
    have p: "?p < idx" using True parentIndex_less by simp
    have e: "upHeap compare ?d ?p = (i', d')"
      using less.prems(4) True by (simp add: upHeap.simps [of compare d idx] Let_def heapSwap_swap parentIndex_def)
    have step: "brokenAt compare n ?d ?p" "childrenOk compare n ?d ?p"
      using up_step [of idx n d] True less.prems by auto
    have "permuted 0 n d ?d" using less.prems p by (intro permuted_swap) auto
    then show ?thesis using less.IH [OF p _ _ step(1) e] step(2) less.prems p permuted_trans by auto
  next
    case False
    then have "i' = idx" "d' = d"
      using less.prems(4) by (auto simp: upHeap.simps [of compare d idx] Let_def parentIndex_def split: if_splits)
    then show ?thesis using up_stop [OF less.prems(3)] False less.prems(1) by auto
  qed
qed

lemma minChild_least:
  assumes "idx * 2 + 1 < n"
  shows "0 < minChild compare n d idx \<and> minChild compare n d idx < n \<and> parentIndex (minChild compare n d idx) = idx \<and>
    (\<forall>c. 0 < c \<longrightarrow> c < n \<longrightarrow> parentIndex c = idx \<longrightarrow> \<not> compare (d ! c) (d ! minChild compare n d idx))"
proof -
  have child: "c = idx * 2 + 1 \<or> c = idx * 2 + 2" if "0 < c" "parentIndex c = idx" for c
    using that unfolding parentIndex_def by presburger
  have "\<not> compare (d ! c) (d ! minChild compare n d idx)" if "0 < c" "c < n" "parentIndex c = idx" for c
    using child [OF that(1,3)] that(2) asym [of "d ! c" "d ! c"] asym [of "d ! (idx * 2 + 2)" "d ! (idx * 2 + 1)"]
    by (auto simp: minChild_def Let_def)
  then show ?thesis using assms by (auto simp: minChild_def parentIndex_def Let_def)
qed

lemma down_step:
  assumes "m < n" "n \<le> length d" "downFrom compare n d idx" "compare (d ! m) (d ! idx)" "0 < m" "parentIndex m = idx"
    "\<And>c. 0 < c \<Longrightarrow> c < n \<Longrightarrow> parentIndex c = idx \<Longrightarrow> \<not> compare (d ! c) (d ! m)"
  defines "d' \<equiv> swap d idx m"
  shows "downFrom compare n d' m"
proof -
  have im: "idx < m" using parentIndex_less [OF assms(5)] assms(6) by simp
  have nth: "d' ! k = (if k = idx then d ! m else if k = m then d ! idx else d ! k)" for k
    unfolding d'_def using assms(1,2) im by (intro swap_nth) auto
  have ok: "\<not> compare (d ! i) (d ! parentIndex i)" if "0 < i" "i < n" "parentIndex i \<noteq> idx" for i
    using assms(3) that by (simp add: downFrom_def inPlace_def)
  have up: "\<not> compare (d ! c) (d ! parentIndex idx)" if "0 < idx" "0 < c" "c < n" "parentIndex c = idx" for c
    using assms(3) that by (simp add: downFrom_def bypass_def)
  have "inPlace compare d' i" if i: "0 < i" "i < n" "parentIndex i \<noteq> m" for i
  proof -
    consider "i = m" | "i = idx" | "i \<noteq> m" "i \<noteq> idx" by blast
    then show ?thesis
    proof cases
      case 1
      then show ?thesis using asym [OF assms(4)] assms(6) im by (simp add: inPlace_def nth)
    next
      case 2
      then show ?thesis using up [of m] i assms(1,5,6) im parentIndex_less [of idx] by (simp add: inPlace_def nth)
    next
      case 3
      then show ?thesis using ok [of i] assms(7) [of i] i by (simp add: inPlace_def nth)
    qed
  qed
  moreover have "bypass compare n d' m"
    unfolding bypass_def
  proof (intro allI impI)
    fix c assume c: "0 < c" "c < n" "parentIndex c = m"
    then have "m < c" using parentIndex_less [of c] by simp
    then show "\<not> compare (d' ! c) (d' ! parentIndex m)" using ok [of c] c im assms(6) by (simp add: nth)
  qed
  ultimately show ?thesis by (simp add: downFrom_def)
qed

lemma downHeap_correct:
  "n \<le> length d \<Longrightarrow> downFrom compare n d idx \<Longrightarrow> permuted 0 n d (downHeap compare n d idx) \<and> heapOrdered compare n (downHeap compare n d idx)"
proof (induction "n - idx" arbitrary: d idx rule: less_induct)
  case less
  show ?case
  proof (cases "idx * 2 + 1 < n")
    case True
    let ?m = "minChild compare n d idx"
    note m = minChild_least [OF True, of d]
    show ?thesis
    proof (cases "compare (d ! ?m) (d ! idx)")
      case c: True
      have "n - ?m < n - idx" using m parentIndex_less [of ?m] by auto
      moreover have "downFrom compare n (swap d idx ?m) ?m"
        using m by (intro down_step [OF _ less.prems c]) auto
      moreover have "permuted 0 n d (swap d idx ?m)" using True m less.prems(1) by (intro permuted_swap) auto
      ultimately show ?thesis
        using less.hyps [of ?m "swap d idx ?m"] less.prems(1) True c permuted_trans
        by (subst (1 2) downHeap.simps) (auto simp: Let_def heapSwap_swap)
    next
      case False
      have "inPlace compare d c" if "0 < c" "c < n" for c
        using m False less.prems(2) that neg_trans [of "d ! c" "d ! ?m" "d ! idx"]
        by (cases "parentIndex c = idx") (auto simp: inPlace_def downFrom_def)
      then show ?thesis using True False by (subst (1 2) downHeap.simps) (simp add: Let_def heapOrdered_def)
    qed
  next
    case False
    then have "inPlace compare d c" if "0 < c" "c < n" for c
      using that less.prems(2) unfolding downFrom_def parentIndex_def by (cases "(c - 1) div 2 = idx") auto
    then show ?thesis using False by (subst (1 2) downHeap.simps) (simp add: heapOrdered_def)
  qed
qed

lemma root_least: "heapOrdered compare n d \<Longrightarrow> i < n \<Longrightarrow> \<not> compare (d ! i) (d ! 0)"
proof (induction i rule: less_induct)
  case (less i)
  show ?case
  proof (cases "i = 0")
    case True
    then show ?thesis using asym by blast
  next
    case False
    then have "\<not> compare (d ! parentIndex i) (d ! 0)" using less parentIndex_less [of i] by simp
    moreover have "\<not> compare (d ! i) (d ! parentIndex i)" using less.prems False by (simp add: heapOrdered_def inPlace_def)
    ultimately show ?thesis using neg_trans by blast
  qed
qed

end

section \<open>The heap as a priority queue\<close>

definition heapOk :: "('a \<Rightarrow> 'a \<Rightarrow> bool) \<Rightarrow> 'a MinHeap \<Rightarrow> bool" where
  "heapOk compare h \<longleftrightarrow> heapSize h \<le> heapCapacity h \<and> heapOrdered compare (heapSize h) (heapData h)"

definition elements :: "'a MinHeap \<Rightarrow> 'a multiset" where
  "elements h = mset (take (heapSize h) (heapData h))"

lemma permuted_take: "permuted 0 n d d' \<Longrightarrow> n \<le> length d \<Longrightarrow> mset (take n d') = mset (take n d)"
proof -
  assume p: "permuted 0 n d d'" "n \<le> length d"
  then have "drop n d' = drop n d"
    using permuted_length [OF p(1)] by (intro nth_equalityI) (auto simp: permuted_def)
  moreover have "mset (take n d' @ drop n d') = mset (take n d @ drop n d)" using p(1) by (simp add: permuted_def)
  ultimately show ?thesis by (simp only: mset_append) simp
qed

lemma take_update_Suc: "n < length d \<Longrightarrow> mset (take (Suc n) (d[n := x])) = add_mset x (mset (take n d))"
  by (simp add: take_Suc_conv_app_nth)

lemma mset_take_move:
  assumes "i < n" "n < length d"
  shows "add_mset (d ! i) (mset (take n (d[i := d ! n]))) = mset (take (Suc n) d)"
proof -
  have "d ! i \<in> set (take n d)" using assms by (auto simp: in_set_conv_nth intro!: exI [of _ i])
  then show ?thesis using assms by (simp add: take_Suc_conv_app_nth take_update_swap mset_update)
qed

lemma mset_take_update:
  assumes "i < n" "n \<le> length d"
  shows "mset (take n (d[i := x])) = add_mset x (mset (take n d) - {#d ! i#})"
  using assms by (simp add: take_update_swap mset_update)

lemma first_match:
  "x \<in> set l \<Longrightarrow> length (takeWhile (\<lambda>y. y \<noteq> x) l) < length l \<and> l ! length (takeWhile (\<lambda>y. y \<noteq> x) l) = x"
  "x \<notin> set l \<Longrightarrow> length (takeWhile (\<lambda>y. y \<noteq> x) l) = length l"
  by (induction l) auto

context compare_order
begin

lemma broken_update:
  assumes "heapOrdered compare m d" "i \<le> m" "n \<le> m \<or> n \<le> Suc m \<and> i = m"
  shows "brokenAt compare n (d[i := x]) i"
proof -
  have ok: "\<not> compare (d ! j) (d ! parentIndex j)" if "0 < j" "j < m" for j
    using assms(1) that by (simp add: heapOrdered_def inPlace_def)
  have "inPlace compare (d[i := x]) j" if "0 < j" "j < n" "j \<noteq> i" "parentIndex j \<noteq> i" for j
    using that ok [of j] assms(2,3) by (auto simp: inPlace_def)
  moreover have "\<not> compare (d[i := x] ! c) (d[i := x] ! parentIndex i)" if "0 < i" "0 < c" "c < n" "parentIndex c = i" for c
  proof -
    have "i < c" "parentIndex i < i" using parentIndex_less that by blast+
    then show ?thesis using that ok [of c] ok [of i] neg_trans assms(2,3) by auto
  qed
  ultimately show ?thesis by (simp add: brokenAt_def bypass_def)
qed

lemma insert_correct:
  assumes "heapOk compare h"
  shows "fst (heapInsert compare x h) = (size (elements h) < heapCapacity h) \<and> heapOk compare (snd (heapInsert compare x h)) \<and>
    heapCapacity (snd (heapInsert compare x h)) = heapCapacity h \<and>
    elements (snd (heapInsert compare x h)) = (if size (elements h) < heapCapacity h then add_mset x (elements h) else elements h)"
proof (cases "heapSize h < heapCapacity h")
  case True
  let ?n = "heapSize h" let ?d = "(heapData h)[heapSize h := x]"
  obtain i d' where e: "upHeap compare ?d ?n = (i, d')" by (cases rule: prod.exhaust)
  have n: "Suc ?n \<le> length ?d" using True by (simp add: heapCapacity_def)
  have "brokenAt compare (Suc ?n) ?d ?n" using assms by (intro broken_update [of ?n]) (auto simp: heapOk_def)
  moreover have "childrenOk compare (Suc ?n) ?d ?n"
    unfolding childrenOk_def
  proof (intro allI impI)
    fix c assume "0 < c" "c < Suc ?n" "parentIndex c = ?n"
    then show "inPlace compare ?d c" using parentIndex_less [of c] by simp
  qed
  ultimately have d': "permuted 0 (Suc ?n) ?d d'" "heapOrdered compare (Suc ?n) d'"
    using upHeap_correct [OF _ n _ e] by auto
  have "mset (take (Suc ?n) d') = add_mset x (elements h)"
    using permuted_take [OF d'(1) n] True by (simp add: elements_def take_update_Suc heapCapacity_def)
  moreover have "size (elements h) = ?n" using True by (simp add: elements_def heapCapacity_def)
  ultimately show ?thesis
    using True d'(2) permuted_length [OF d'(1)] by (simp add: heapInsert_def Let_def e elements_def heapOk_def heapCapacity_def)
next
  case False
  then have "size (elements h) = heapCapacity h" using assms by (simp add: elements_def heapOk_def heapCapacity_def)
  then show ?thesis using False assms by (simp add: heapInsert_def)
qed

lemma sink_root:
  assumes "heapOrdered compare m d" "n \<le> m" "n \<le> length d"
  shows "permuted 0 n (d[0 := x]) (downHeap compare n (d[0 := x]) 0) \<and> heapOrdered compare n (downHeap compare n (d[0 := x]) 0)"
proof -
  have "brokenAt compare n (d[0 := x]) 0" using assms(2) by (intro broken_update [OF assms(1)]) auto
  then have "downFrom compare n (d[0 := x]) 0" using up_stop by blast
  then show ?thesis using assms(3) by (intro downHeap_correct) auto
qed

lemma drop_correct:
  assumes "heapOk compare h" "heapSize h \<noteq> 0"
  shows "fst (heapDrop compare h) \<and> heapOk compare (snd (heapDrop compare h)) \<and>
    heapCapacity (snd (heapDrop compare h)) = heapCapacity h \<and>
    elements (snd (heapDrop compare h)) = elements h - {#heapData h ! 0#}"
proof -
  let ?d = "heapData h"
  obtain n where n: "heapSize h = Suc n" using assms(2) not0_implies_Suc by blast
  have len: "n < length ?d" using assms(1) n by (simp add: heapOk_def heapCapacity_def)
  let ?d' = "downHeap compare n (?d[0 := ?d ! n]) 0"
  have d': "permuted 0 n (?d[0 := ?d ! n]) ?d'" "heapOrdered compare n ?d'"
    using sink_root [of "Suc n" ?d n] assms(1) len n by (auto simp: heapOk_def)
  have "add_mset (?d ! 0) (mset (take n (?d[0 := ?d ! n]))) = mset (take (Suc n) ?d)"
  proof (cases n)
    case 0
    then show ?thesis using len by (simp add: take_Suc_conv_app_nth)
  qed (use len in \<open>intro mset_take_move, auto\<close>)
  then have "mset (take n ?d') = mset (take (Suc n) ?d) - {#?d ! 0#}"
    using permuted_take [OF d'(1)] len by (metis add_mset_remove_trivial length_list_update less_imp_le)
  then show ?thesis
    using n d'(2) len permuted_length [OF d'(1)] by (simp add: heapDrop_def Let_def heapOk_def heapCapacity_def elements_def)
qed

lemma replace_correct:
  assumes "heapOk compare h" "heapSize h \<noteq> 0"
  shows "heapOk compare (snd (heapReplace compare x h)) \<and> heapCapacity (snd (heapReplace compare x h)) = heapCapacity h \<and>
    elements (snd (heapReplace compare x h)) = add_mset x (elements h - {#heapData h ! 0#})"
proof -
  let ?n = "heapSize h" let ?d = "heapData h"
  have len: "?n \<le> length ?d" using assms(1) by (simp add: heapOk_def heapCapacity_def)
  let ?d' = "downHeap compare ?n (?d[0 := x]) 0"
  have d': "permuted 0 ?n (?d[0 := x]) ?d'" "heapOrdered compare ?n ?d'"
    using sink_root [of ?n ?d ?n] assms(1) len by (auto simp: heapOk_def)
  have "mset (take ?n ?d') = add_mset x (mset (take ?n ?d) - {#?d ! 0#})"
    using permuted_take [OF d'(1)] len assms(2) by (simp add: mset_take_update)
  then show ?thesis
    using d'(2) len assms(2) permuted_length [OF d'(1)] by (simp add: heapReplace_def heapOk_def heapCapacity_def elements_def)
qed

lemma findElement_correct:
  assumes "heapOk compare h"
  shows "(findElement h x = heapSize h \<longleftrightarrow> x \<notin># elements h) \<and>
    (x \<in># elements h \<longrightarrow> findElement h x < heapSize h \<and> heapData h ! findElement h x = x)"
proof -
  let ?l = "take (heapSize h) (heapData h)"
  have len: "length ?l = heapSize h" using assms by (simp add: heapOk_def heapCapacity_def)
  have "findElement h x < heapSize h \<and> heapData h ! findElement h x = x" if "x \<in> set ?l"
    using first_match(1) [OF that] len unfolding findElement_def by (metis nth_take)
  moreover have "findElement h x = heapSize h" if "x \<notin> set ?l"
    using first_match(2) [OF that] len unfolding findElement_def by simp
  ultimately show ?thesis unfolding elements_def by fastforce
qed

lemma removeFirstMatch_correct:
  assumes "heapOk compare h"
  shows "fst (removeFirstMatch compare x h) = (x \<in># elements h) \<and> heapOk compare (snd (removeFirstMatch compare x h)) \<and>
    heapCapacity (snd (removeFirstMatch compare x h)) = heapCapacity h \<and>
    elements (snd (removeFirstMatch compare x h)) = elements h - {#x#}"
proof (cases "x \<in># elements h")
  case True
  let ?d = "heapData h" let ?i = "findElement h x"
  have i: "?i < heapSize h" "?d ! ?i = x" using findElement_correct [OF assms] True by auto
  then obtain n where n: "heapSize h = Suc n" using not0_implies_Suc by (cases "heapSize h") auto
  have len: "n < length ?d" using assms n by (simp add: heapOk_def heapCapacity_def)
  have ord: "heapOrdered compare (Suc n) ?d" using assms n by (simp add: heapOk_def)
  show ?thesis
  proof (cases "?i < n")
    case lt: True
    let ?e = "?d[?i := ?d ! n]"
    obtain i' d1 where e: "upHeap compare ?e ?i = (i', d1)" by (cases rule: prod.exhaust)
    have "brokenAt compare n ?e ?i" using lt by (intro broken_update [OF ord]) auto
    then have d1: "permuted 0 n ?e d1" "downFrom compare n d1 i'" using upHeap_correct [OF lt _ _ e] len by auto
    have len1: "n \<le> length d1" using permuted_length [OF d1(1)] len by simp
    let ?r = "downHeap compare n d1 i'"
    have r: "permuted 0 n d1 ?r" "heapOrdered compare n ?r" using downHeap_correct [OF len1 d1(2)] by auto
    have "mset (take n ?r) = mset (take n ?e)"
      using permuted_take [OF r(1) len1] permuted_take [OF d1(1)] len by simp
    then have "add_mset x (mset (take n ?r)) = mset (take (Suc n) ?d)" using mset_take_move [OF lt len] i(2) by simp
    then have "mset (take n ?r) = elements h - {#x#}" by (metis add_mset_remove_trivial elements_def n)
    then show ?thesis
      using True lt n r(2) len len1 permuted_length [OF r(1)] permuted_length [OF d1(1)]
      by (simp add: removeFirstMatch_def Let_def e heapOk_def heapCapacity_def elements_def)
  next
    case False
    then have "?i = n" using i n by simp
    then have "mset (take (Suc n) ?d) = add_mset x (mset (take n ?d))" using i(2) len by (simp add: take_Suc_conv_app_nth)
    moreover have "heapOrdered compare n ?d" using ord by (simp add: heapOrdered_def)
    ultimately show ?thesis
      using True n len \<open>?i = n\<close> by (simp add: removeFirstMatch_def Let_def heapOk_def heapCapacity_def elements_def)
  qed
next
  case False
  then have "findElement h x = heapSize h" using findElement_correct [OF assms] by blast
  then show ?thesis using False assms by (simp add: removeFirstMatch_def diff_single_trivial)
qed

end

interpretation less_order: compare_order "CompareLess :: 'a::linorder \<Rightarrow> 'a \<Rightarrow> bool"
  by unfold_locales (auto simp: CompareLess_def)

interpretation greater_order: compare_order "CompareGreater :: 'a::linorder \<Rightarrow> 'a \<Rightarrow> bool"
  by unfold_locales (auto simp: CompareGreater_def)

text \<open>
  The contract of the class: a bag of at most \<open>capacity\<close> elements, of which the first in the order of the comparison is read
  or taken out.
\<close>

datatype 'a heap_op = Insert 'a | Extract | Drop | Replace 'a | RemoveFirstMatch 'a | Peek

datatype 'a heap_out = Success bool | Element "'a option"

fun heapStep :: "('a \<Rightarrow> 'a \<Rightarrow> bool) \<Rightarrow> 'a MinHeap \<Rightarrow> 'a heap_op \<Rightarrow> 'a heap_out \<times> 'a MinHeap" where
  "heapStep compare h (Insert x) = map_prod Success id (heapInsert compare x h)"
| "heapStep compare h Extract = map_prod Element id (heapExtract compare h)"
| "heapStep compare h Drop = map_prod Success id (heapDrop compare h)"
| "heapStep compare h (Replace x) = map_prod Element id (heapReplace compare x h)"
| "heapStep compare h (RemoveFirstMatch x) = map_prod Success id (removeFirstMatch compare x h)"
| "heapStep compare h Peek = (Element (heapPeek h), h)"

fun bagStep :: "('a multiset \<Rightarrow> 'a) \<Rightarrow> nat \<Rightarrow> 'a multiset \<Rightarrow> 'a heap_op \<Rightarrow> 'a heap_out \<times> 'a multiset" where
  "bagStep least capacity M (Insert x) = (if size M < capacity then (Success True, add_mset x M) else (Success False, M))"
| "bagStep least capacity M Extract = (if M = {#} then (Element None, M) else (Element (Some (least M)), M - {#least M#}))"
| "bagStep least capacity M Drop = (if M = {#} then (Success False, M) else (Success True, M - {#least M#}))"
| "bagStep least capacity M (Replace x) =
     (if M = {#} then (Element None, M) else (Element (Some (least M)), add_mset x (M - {#least M#})))"
| "bagStep least capacity M (RemoveFirstMatch x) = (Success (x \<in># M), M - {#x#})"
| "bagStep least capacity M Peek = (Element (if M = {#} then None else Some (least M)), M)"

fun outputs :: "('s \<Rightarrow> 'op \<Rightarrow> 'out \<times> 's) \<Rightarrow> 's \<Rightarrow> 'op list \<Rightarrow> 'out list" where
  "outputs step s [] = []"
| "outputs step s (op # ops) = (case step s op of (out, s') \<Rightarrow> out # outputs step s' ops)"

locale least_order = compare_order +
  fixes least :: "'a multiset \<Rightarrow> 'a"
  assumes total: "\<not> compare x y \<Longrightarrow> \<not> compare y x \<Longrightarrow> x = y"
    and least_in: "M \<noteq> {#} \<Longrightarrow> least M \<in># M"
    and least_first: "x \<in># M \<Longrightarrow> \<not> compare x (least M)"
begin

lemma root_is_least:
  assumes "heapOk compare h" "heapSize h \<noteq> 0"
  shows "elements h \<noteq> {#} \<and> heapData h ! 0 = least (elements h)"
proof -
  have len: "heapSize h \<le> length (heapData h)" using assms by (simp add: heapOk_def heapCapacity_def)
  have mem: "x \<in># elements h \<longleftrightarrow> (\<exists>i<heapSize h. heapData h ! i = x)" for x
    using len by (auto simp: elements_def in_set_conv_nth)
  then have root: "heapData h ! 0 \<in># elements h" using assms(2) by auto
  then have ne: "elements h \<noteq> {#}" by auto
  obtain i where "i < heapSize h" "heapData h ! i = least (elements h)" using mem least_in [OF ne] by blast
  then have "\<not> compare (least (elements h)) (heapData h ! 0)"
    using root_least [of "heapSize h" "heapData h" i] assms(1) by (simp add: heapOk_def)
  then show ?thesis using least_first [OF root] total ne by blast
qed

lemma empty_iff: "heapOk compare h \<Longrightarrow> elements h = {#} \<longleftrightarrow> heapSize h = 0"
  using root_is_least [of h] by (auto simp: elements_def)

lemma step_refines:
  assumes "heapOk compare h"
  shows "heapOk compare (snd (heapStep compare h op)) \<and> heapCapacity (snd (heapStep compare h op)) = heapCapacity h \<and>
    bagStep least (heapCapacity h) (elements h) op = map_prod id elements (heapStep compare h op)"
proof (cases op)
  case (Insert x)
  then show ?thesis using insert_correct [OF assms, of x] by (cases "heapInsert compare x h") simp
next
  case Extract
  then show ?thesis using drop_correct [OF assms] root_is_least [OF assms] empty_iff [OF assms] assms
    by (cases "heapDrop compare h") (auto simp: heapExtract_def heapPeek_def)
next
  case Drop
  then show ?thesis using drop_correct [OF assms] root_is_least [OF assms] empty_iff [OF assms] assms
    by (cases "heapSize h = 0"; cases "heapDrop compare h") (auto simp: heapDrop_def)
next
  case (Replace x)
  then show ?thesis using replace_correct [OF assms, of x] root_is_least [OF assms] empty_iff [OF assms] assms
    by (auto simp: heapReplace_def)
next
  case (RemoveFirstMatch x)
  then show ?thesis using removeFirstMatch_correct [OF assms, of x] by (cases "removeFirstMatch compare x h") simp
next
  case Peek
  then show ?thesis using root_is_least [OF assms] empty_iff [OF assms] assms by (auto simp: heapPeek_def)
qed

lemma outputs_refine:
  "heapOk compare h \<Longrightarrow> outputs (heapStep compare) h ops = outputs (bagStep least (heapCapacity h)) (elements h) ops"
proof (induction ops arbitrary: h)
  case (Cons op ops)
  obtain out h' where e: "heapStep compare h op = (out, h')" by (cases rule: prod.exhaust)
  have "heapOk compare h'" "heapCapacity h' = heapCapacity h" "bagStep least (heapCapacity h) (elements h) op = (out, elements h')"
    using step_refines [OF Cons.prems, of op] e by auto
  then show ?case using Cons.IH [of h'] e by simp
qed simp

end

interpretation min_queue: least_order "CompareLess :: 'a::linorder \<Rightarrow> 'a \<Rightarrow> bool" Min_mset
  by unfold_locales (auto simp: CompareLess_def not_less)

interpretation max_queue: least_order "CompareGreater :: 'a::linorder \<Rightarrow> 'a \<Rightarrow> bool" Max_mset
  by unfold_locales (auto simp: CompareGreater_def not_less)

lemma heapInit_ok:
  "heapOk compare (heapInit storage) \<and> elements (heapInit storage) = {#} \<and> heapCapacity (heapInit storage) = length storage"
  by (simp add: heapInit_def heapOk_def heapOrdered_def elements_def heapCapacity_def)

text \<open>
  C32: Any sequence of insertions, extractions, drops, replacements, removals and reads on a new \<open>MinHeap\<close> gives the results of a
  bag of at most \<open>capacity\<close> elements from which the least element (the greatest one for \<open>CompareGreater\<close>) is read and taken;
  an insertion fails exactly when the heap is full, a removal exactly when there is no such element.
\<close>

theorem MinHeap_refines_bag:
  "outputs (heapStep CompareLess) (heapInit storage) ops = outputs (bagStep Min_mset (length storage)) {#} ops \<and>
   outputs (heapStep CompareGreater) (heapInit storage) ops = outputs (bagStep Max_mset (length storage)) {#} ops"
  for storage :: "'a::linorder list"
  using min_queue.outputs_refine [of "heapInit storage" ops] max_queue.outputs_refine [of "heapInit storage" ops]
    heapInit_ok [of _ storage] by simp

end
