(* ===== verification/Byte_Memory.thy ===== *)
theory Byte_Memory
  imports Prelude
begin

text \<open>
  Memory as a list of bytes, for the code that builds and reads messages through pointers: integers are stored with the least
  significant byte first, and \<open>copyMem\<close> may move overlapping regions (\<open>src/src/platform/memory.h\<close>).
\<close>

definition getBytes :: "u8 list \<Rightarrow> nat \<Rightarrow> nat \<Rightarrow> u8 list" where
  "getBytes mem off n = take n (drop off mem)"

definition putBytes :: "u8 list \<Rightarrow> nat \<Rightarrow> u8 list \<Rightarrow> u8 list" where
  "putBytes mem off bs = take off mem @ bs @ drop (off + length bs) mem"

definition copyMem :: "u8 list \<Rightarrow> nat \<Rightarrow> nat \<Rightarrow> nat \<Rightarrow> u8 list" where
  "copyMem mem destination source len = putBytes mem destination (getBytes mem source len)"

definition toBytes :: "nat \<Rightarrow> 'a::len word \<Rightarrow> u8 list" where
  "toBytes k w = map (\<lambda>i. ucast (drop_bit (8 * i) w)) [0..<k]"

definition fromBytes :: "u8 list \<Rightarrow> 'a::len word" where
  "fromBytes bs = of_nat (\<Sum>i<length bs. unat (bs ! i) * 256 ^ i)"

lemma length_getBytes [simp]: "off + n \<le> length mem \<Longrightarrow> length (getBytes mem off n) = n"
  by (simp add: getBytes_def)

lemma length_putBytes [simp]: "off + length bs \<le> length mem \<Longrightarrow> length (putBytes mem off bs) = length mem"
  by (simp add: putBytes_def)

lemma length_toBytes [simp]: "length (toBytes k w) = k"
  by (simp add: toBytes_def)

lemma getBytes_put_same: "off + length bs \<le> length mem \<Longrightarrow> getBytes (putBytes mem off bs) off (length bs) = bs"
  by (simp add: getBytes_def putBytes_def)

lemma getBytes_put_before:
  "off' + n \<le> off \<Longrightarrow> off + length bs \<le> length mem \<Longrightarrow> getBytes (putBytes mem off bs) off' n = getBytes mem off' n"
  unfolding getBytes_def putBytes_def by (intro nth_equalityI) (auto simp: nth_append)

lemma getBytes_put_after:
  "off + length bs \<le> off' \<Longrightarrow> off + length bs \<le> length mem \<Longrightarrow> getBytes (putBytes mem off bs) off' n = getBytes mem off' n"
  unfolding getBytes_def putBytes_def by simp

lemma getBytes_split: "getBytes mem off (m + n) = getBytes mem off m @ getBytes mem (off + m) n"
  by (simp add: getBytes_def take_add add.commute)

lemma getBytes_getBytes: "i + n \<le> m \<Longrightarrow> getBytes (getBytes mem off m) i n = getBytes mem (off + i) n"
  by (simp add: getBytes_def drop_take take_take min_def add.commute)

lemma getBytes_chunk:
  assumes "i < length xs" "\<And>x. length (f x) = k"
  shows "getBytes (concat (map f xs)) (k * i) k = f (xs ! i)"
  using assms(1)
proof (induction xs arbitrary: i)
  case (Cons x xs)
  show ?case
  proof (cases i)
    case 0
    then show ?thesis by (simp add: getBytes_def assms(2))
  next
    case (Suc j)
    then show ?thesis using Cons by (simp add: getBytes_def assms(2))
  qed
qed simp

lemma nat_digits: "(\<Sum>i<k. (n div 256 ^ i mod 256) * 256 ^ i) = n mod (256 :: nat) ^ k"
proof (induction k)
  case (Suc k)
  have "n mod 256 ^ Suc k = 256 ^ k * (n div 256 ^ k mod 256) + n mod 256 ^ k"
    unfolding power_Suc2 by (rule mod_mult2_eq)
  then show ?case using Suc by (simp add: mult.commute)
qed simp

lemma fromBytes_toBytes:
  assumes "LENGTH('a) = 8 * k"
  shows "fromBytes (toBytes k w) = (w :: 'a::len word)"
proof -
  have "unat (toBytes k w ! i) = unat w div 256 ^ i mod 256" if "i < k" for i
  proof -
    have "(2 :: nat) ^ (8 * i) = 256 ^ i" by (simp add: power_mult)
    then show ?thesis
      using that by (simp add: toBytes_def unat_drop_bit unsigned_ucast_eq take_bit_eq_mod)
  qed
  then have "(\<Sum>i<k. unat (toBytes k w ! i) * 256 ^ i) = unat w mod 256 ^ k" by (simp add: nat_digits)
  moreover have "(256 :: nat) ^ k = 2 ^ LENGTH('a)" by (simp add: assms power_mult)
  ultimately show ?thesis by (simp add: fromBytes_def)
qed

end
