(* ===== verification/Quorum_Value.thy ===== *)
theory Quorum_Value
  imports Sorting
begin

text \<open>
  The quorum value of a list of reports (\<open>src/src/platform/quorum_value.h\<close>): the element at two thirds of the sorted list. As
  long as few reports are faulty it lies between two honest ones.
\<close>

definition calculatePercentileValue :: "u32 \<Rightarrow> u32 \<Rightarrow> SortingOrder \<Rightarrow> u64 list \<Rightarrow> u32 \<Rightarrow> u64 \<times> u64 list" where
  "calculatePercentileValue numerator denominator order values cnt =
     (if cnt = 0 then (0, values)
      else let values' = quickSort order values 0 (sint (cnt - 1));
               percentileIndex = (cnt * numerator) div denominator
           in (values' ! unat percentileIndex, values'))"

definition calculateAscendingQuorumValue :: "u64 list \<Rightarrow> u32 \<Rightarrow> u64 \<times> u64 list" where
  "calculateAscendingQuorumValue values cnt = calculatePercentileValue 2 3 SortAscending values cnt"

lemma quorum_index:
  fixes cnt :: u32
  assumes "0 < n" "2 * n < 2 ^ 31" "cnt = of_nat n"
  shows "sint (cnt - 1) = int n - 1" "unat ((cnt * 2) div 3) = 2 * n div 3"
proof -
  have c: "unat cnt = n" using assms by (simp add: unat_of_nat_32)
  have pred: "cnt - 1 = (of_nat (n - 1) :: u32)" using assms by simp
  have small: "sint (of_nat m :: u32) = int m" if "m < 2 ^ 31" for m
    using that by (simp add: signed_of_nat signed_take_bit_int_eq_self)
  show "sint (cnt - 1) = int n - 1" unfolding pred by (subst small) (use assms(1,2) in auto)
  have "unat (cnt * 2) = 2 * n" using c assms(2) by (simp add: unat_word_ariths)
  then show "unat ((cnt * 2) div 3) = 2 * n div 3" by (simp add: unat_div)
qed

lemma filter_sort_length: "length (filter P (sort xs)) = length (filter P xs)"
  by (metis mset_filter mset_sort size_mset)

lemma sorted_percentile:
  fixes xs :: "'a::linorder list"
  assumes "k < length xs"
  shows "Suc k \<le> card {i. i < length xs \<and> xs ! i \<le> sort xs ! k}"
    and "length xs - k \<le> card {i. i < length xs \<and> sort xs ! k \<le> xs ! i}"
proof -
  let ?s = "sort xs"
  have "{..k} \<subseteq> {i. i < length ?s \<and> ?s ! i \<le> ?s ! k}" using assms by (auto intro: sorted_nth_mono)
  then have "card {..k} \<le> length (filter (\<lambda>x. x \<le> ?s ! k) ?s)" unfolding length_filter_conv_card by (intro card_mono) auto
  then have "Suc k \<le> length (filter (\<lambda>x. x \<le> ?s ! k) xs)" by (simp only: filter_sort_length card_atMost)
  then show "Suc k \<le> card {i. i < length xs \<and> xs ! i \<le> ?s ! k}" by (simp only: length_filter_conv_card)
  have "{k..<length xs} \<subseteq> {i. i < length ?s \<and> ?s ! k \<le> ?s ! i}" using assms by (auto intro: sorted_nth_mono)
  then have "card {k..<length xs} \<le> length (filter (\<lambda>x. ?s ! k \<le> x) ?s)" unfolding length_filter_conv_card by (intro card_mono) auto
  then have "length xs - k \<le> length (filter (\<lambda>x. ?s ! k \<le> x) xs)" by (simp only: filter_sort_length card_atLeastLessThan)
  then show "length xs - k \<le> card {i. i < length xs \<and> ?s ! k \<le> xs ! i}" by (simp only: length_filter_conv_card)
qed

lemma calculateAscendingQuorumValue_sorted:
  assumes "0 < length values" "2 * length values < 2 ^ 31"
  shows "calculateAscendingQuorumValue values (of_nat (length values)) = (sort values ! (2 * length values div 3), sort values)"
proof -
  let ?c = "of_nat (length values) :: u32"
  have "unat ?c = length values" using assms(2) by (simp add: unat_of_nat_32)
  then have "?c \<noteq> 0" using assms(1) by (metis unat_0 less_irrefl)
  then show ?thesis
    using quorum_index [OF assms refl] quickSort_all [of "values"]
    by (simp add: calculateAscendingQuorumValue_def calculatePercentileValue_def Let_def)
qed

lemma two_thirds_bounds:
  fixes n :: nat
  assumes "0 < n"
  shows "2 * n div 3 < n" "n - 2 * n div 3 \<le> Suc (2 * n div 3)"
  using assms by presburger+

lemma outside_small:
  assumes "finite A" "card F < card A" "finite F"
  obtains a where "a \<in> A" "a \<notin> F"
  using assms card_mono [of F A] by (metis not_le subsetI)

lemma quorum_range:
  assumes "0 < length values" "2 * length values < 2 ^ 31" "finite F" "card F < length values - 2 * length values div 3"
    "v = fst (calculateAscendingQuorumValue values (of_nat (length values)))"
  shows "v \<in> set values \<and>
    (\<exists>i j. i < length values \<and> i \<notin> F \<and> j < length values \<and> j \<notin> F \<and> values ! i \<le> v \<and> v \<le> values ! j)"
proof -
  let ?n = "length values" let ?k = "2 * length values div 3"
  have v: "v = sort values ! ?k" using assms(5) calculateAscendingQuorumValue_sorted [OF assms(1,2)] by simp
  have k: "?k < ?n" "?n - ?k \<le> Suc ?k" using two_thirds_bounds assms(1) by auto
  note p = sorted_percentile [OF k(1)]
  obtain i where "i \<in> {i. i < ?n \<and> values ! i \<le> v}" "i \<notin> F"
    by (rule outside_small [of "{i. i < ?n \<and> values ! i \<le> v}" F]) (use p(1) k(2) assms(3,4) v in auto)
  moreover obtain j where "j \<in> {i. i < ?n \<and> v \<le> values ! i}" "j \<notin> F"
    by (rule outside_small [of "{i. i < ?n \<and> v \<le> values ! i}" F]) (use p(2) assms(3,4) v in auto)
  moreover have "v \<in> set values" unfolding v using k(1) by (metis length_sort nth_mem set_sort)
  ultimately show ?thesis by blast
qed

end
