(* ===== verification/Execution_Fees.thy ===== *)
theory Execution_Fees
  imports Byte_Memory Quorum_Value Math_Lib Vote_Counter
begin

text \<open>
  Execution fees of contracts: the accumulator of execution times (\<open>src/src/contract_core/execution_time_accumulator.h\<close>), the
  report transactions (\<open>src/src/network_messages/execution_fees.h\<close>), their collector
  (\<open>src/src/ticking/execution_fee_report_collector.h\<close>) and the fee reserves (\<open>src/src/qpi/impl/qpi_spectrum_impl.h\<close>). The number
  of contracts is a parameter: the source takes it from the table of contracts that is compiled in, at most 82.
\<close>

section \<open>Fee reserves\<close>

text \<open>The part of the state of contract 0 that holds the reserves, and its change flag.\<close>

record FeeReserves =
  contractFeeReserves :: "i64 list"
  contract0ChangeFlags :: u64

definition getContractFeeReserve :: "nat \<Rightarrow> FeeReserves \<Rightarrow> i64" where
  "getContractFeeReserve contractIndex s = contractFeeReserves s ! contractIndex"

definition setContractFeeReserve :: "nat \<Rightarrow> i64 \<Rightarrow> FeeReserves \<Rightarrow> FeeReserves" where
  "setContractFeeReserve contractIndex newValue s =
     s\<lparr>contract0ChangeFlags := contract0ChangeFlags s OR 1, contractFeeReserves := (contractFeeReserves s)[contractIndex := newValue]\<rparr>"

definition addToContractFeeReserve :: "nat \<Rightarrow> u64 \<Rightarrow> FeeReserves \<Rightarrow> FeeReserves" where
  "addToContractFeeReserve contractIndex addAmount s =
     (let s1 = s\<lparr>contract0ChangeFlags := contract0ChangeFlags s OR 1\<rparr>;
          amount = (if addAmount > INT64_MAX then INT64_MAX else addAmount)
      in s1\<lparr>contractFeeReserves := (contractFeeReserves s1)[contractIndex := sadd64 (contractFeeReserves s1 ! contractIndex) amount]\<rparr>)"

definition subtractFromContractFeeReserve :: "nat \<Rightarrow> u64 \<Rightarrow> FeeReserves \<Rightarrow> FeeReserves" where
  "subtractFromContractFeeReserve contractIndex subtractAmount s =
     (let s1 = s\<lparr>contract0ChangeFlags := contract0ChangeFlags s OR 1\<rparr>;
          negativeAddAmount = (if subtractAmount > INT64_MAX then INT64_MIN else - 1 * subtractAmount)
      in s1\<lparr>contractFeeReserves :=
           (contractFeeReserves s1)[contractIndex := sadd64 (contractFeeReserves s1 ! contractIndex) negativeAddAmount]\<rparr>)"

section \<open>Execution times\<close>

record ExecutionTimeAccumulator =
  contractExecutionTimePerPhase :: "u64 list list"
  contractExecutionTimeActiveArrayIndex :: nat

definition eta_init :: "nat \<Rightarrow> ExecutionTimeAccumulator" where
  "eta_init contractCount =
     \<lparr>contractExecutionTimePerPhase = replicate 2 (replicate contractCount 0), contractExecutionTimeActiveArrayIndex = 0\<rparr>"

definition startNewAccumulation :: "nat \<Rightarrow> ExecutionTimeAccumulator \<Rightarrow> ExecutionTimeAccumulator" where
  "startNewAccumulation contractCount a =
     (let active = 1 - contractExecutionTimeActiveArrayIndex a
      in \<lparr>contractExecutionTimePerPhase = (contractExecutionTimePerPhase a)[active := replicate contractCount 0],
          contractExecutionTimeActiveArrayIndex = active\<rparr>)"

definition toMicroseconds :: "u64 \<Rightarrow> u64 \<Rightarrow> u64" where
  "toMicroseconds frequency time = (if frequency > 0 then (time * 1000000) div frequency else time)"

definition addTime :: "u64 \<Rightarrow> nat \<Rightarrow> u64 \<Rightarrow> ExecutionTimeAccumulator \<Rightarrow> ExecutionTimeAccumulator" where
  "addTime frequency contractIndex time a =
     (let timeMicroSeconds = toMicroseconds frequency time;
          active = contractExecutionTimeActiveArrayIndex a;
          phaseTimes = contractExecutionTimePerPhase a ! active
      in a\<lparr>contractExecutionTimePerPhase :=
           (contractExecutionTimePerPhase a)[active := phaseTimes[contractIndex := saddu64 (phaseTimes ! contractIndex) timeMicroSeconds]]\<rparr>)"

definition getCurrentPhaseAccumulatedTime :: "ExecutionTimeAccumulator \<Rightarrow> nat \<Rightarrow> u64" where
  "getCurrentPhaseAccumulatedTime a contractIndex =
     contractExecutionTimePerPhase a ! contractExecutionTimeActiveArrayIndex a ! contractIndex"

definition getPrevPhaseAccumulatedTimes :: "ExecutionTimeAccumulator \<Rightarrow> u64 list" where
  "getPrevPhaseAccumulatedTimes a = contractExecutionTimePerPhase a ! (1 - contractExecutionTimeActiveArrayIndex a)"

section \<open>Report transactions\<close>

text \<open>
  A transaction with the bytes that follow its header: the input and the signature. The struct \<open>ExecutionFeeReportPayload\<close> has the
  same header, then \<open>phaseNumber\<close> at byte 0, \<open>numEntries\<close> at 4, the contract indices at 8 and the fees behind them, aligned to 8.
\<close>

record Transaction =
  sourcePublicKey :: m256i
  destinationPublicKey :: m256i
  tx_amount :: i64
  tx_tick :: u32
  inputType :: u16
  inputSize :: u16
  tx_input :: "u8 list"

definition EXECUTION_FEE_REPORT_INPUT_TYPE :: u16 where
  "EXECUTION_FEE_REPORT_INPUT_TYPE = 9"

definition alignmentPadding :: "nat \<Rightarrow> nat" where
  "alignmentPadding numEntries = (if numEntries mod 2 = 1 then 4 else 0)"

definition minInputSize :: u16 where
  "minInputSize = 4 + 4 + 32"

definition maxInputSize :: "nat \<Rightarrow> u16" where
  "maxInputSize contractCount =
     of_nat (4 + 4 + contractCount * 4 + alignmentPadding contractCount + contractCount * 8 + 32)"

definition getNumEntries :: "Transaction \<Rightarrow> u32" where
  "getNumEntries tx = fromBytes (getBytes (tx_input tx) 4 4)"

definition isValidExecutionFeeReport :: "nat \<Rightarrow> Transaction \<Rightarrow> bool" where
  "isValidExecutionFeeReport contractCount tx \<longleftrightarrow>
     tx_amount tx = 0 \<and> inputSize tx \<ge> minInputSize \<and> inputSize tx \<le> maxInputSize contractCount \<and>
     unat (getNumEntries tx) \<le> contractCount"

definition isValidEntryAlignment :: "nat \<Rightarrow> Transaction \<Rightarrow> bool" where
  "isValidEntryAlignment contractCount tx =
     (let numEntries = ucast (getNumEntries tx) :: u64
      in if unat numEntries > contractCount then False
         else let expectedPayloadSize = numEntries * 4 + (if numEntries mod 2 = 1 then 4 else 0) + numEntries * 8;
                  actualPayloadSize = ucast (inputSize tx) - 4 - 4 - 32
              in actualPayloadSize = expectedPayloadSize)"

text \<open>The arrays behind the two pointers, as far as they are read.\<close>

definition getContractIndices :: "Transaction \<Rightarrow> u32 list" where
  "getContractIndices tx = map (\<lambda>i. fromBytes (getBytes (tx_input tx) (4 + 4 + 4 * i) 4)) [0..<unat (getNumEntries tx)]"

definition getExecutionFees :: "Transaction \<Rightarrow> u64 list" where
  "getExecutionFees tx =
     (let numEntries = unat (getNumEntries tx); base = 4 + 4 + numEntries * 4 + alignmentPadding numEntries
      in map (\<lambda>i. fromBytes (getBytes (tx_input tx) (base + 8 * i) 8)) [0..<numEntries])"

definition feesPosition :: "nat \<Rightarrow> nat" where
  "feesPosition contractCount = 4 + 4 + contractCount * 4 + alignmentPadding contractCount"

definition addReportEntry :: "nat \<Rightarrow> u64 list \<Rightarrow> u64 \<Rightarrow> u64 \<Rightarrow> nat \<times> u8 list \<Rightarrow> nat \<Rightarrow> nat \<times> u8 list" where
  "addReportEntry contractCount contractExecutionTimes numerator denominator = (\<lambda>(entryCount, mem) contractIndex.
     let executionTime = contractExecutionTimes ! contractIndex
     in if executionTime > 0
        then let executionFee = (executionTime * numerator) div denominator
             in if executionFee > 0
                then (entryCount + 1,
                      putBytes (putBytes mem (4 + 4 + 4 * entryCount) (toBytes 4 (of_nat contractIndex :: u32)))
                        (feesPosition contractCount + 8 * entryCount) (toBytes 8 executionFee))
                else (entryCount, mem)
        else (entryCount, mem))"

definition buildExecutionFeeReportPayload ::
  "nat \<Rightarrow> Transaction \<Rightarrow> u64 list \<Rightarrow> u32 \<Rightarrow> u64 \<Rightarrow> u64 \<Rightarrow> nat \<times> Transaction" where
  "buildExecutionFeeReportPayload contractCount payload contractExecutionTimes phaseNumber numerator denominator =
     (if denominator = 0 \<or> numerator = 0 then (0, payload)
      else let mem0 = putBytes (tx_input payload) 0 (toBytes 4 phaseNumber);
               (entryCount, mem1) = foldl (addReportEntry contractCount contractExecutionTimes numerator denominator) (0, mem0) [1..<contractCount];
               mem2 = putBytes mem1 4 (toBytes 4 (of_nat entryCount :: u32))
           in if entryCount = 0 then (0, payload\<lparr>tx_input := mem2\<rparr>)
              else let compactFeesPosition = 4 + 4 + entryCount * 4 + alignmentPadding entryCount;
                       mem3 = copyMem mem2 compactFeesPosition (feesPosition contractCount) (entryCount * 8)
                   in (entryCount,
                       payload\<lparr>tx_input := mem3,
                         inputSize := of_nat (4 + 4 + entryCount * 4 + alignmentPadding entryCount + entryCount * 8 + 32)\<rparr>))"

text \<open>
  The transaction a computor sends: the report of the previous phase, with the time lock of the tick behind the fees. Signing it
  and handing it to the network follow.
\<close>

definition makeExecutionFeeTransaction ::
  "nat \<Rightarrow> m256i \<Rightarrow> m256i \<Rightarrow> u32 \<Rightarrow> u32 \<Rightarrow> u64 list \<Rightarrow> u64 \<Rightarrow> u64 \<Rightarrow> Transaction \<Rightarrow> Transaction option" where
  "makeExecutionFeeTransaction contractCount publicKey timelock systemTick offset executionTimes numerator denominator payload =
     (let p1 = payload\<lparr>sourcePublicKey := publicKey, destinationPublicKey := 0, tx_amount := 0, tx_tick := systemTick + offset,
                 inputType := EXECUTION_FEE_REPORT_INPUT_TYPE\<rparr>;
          (entryCount, p2) = buildExecutionFeeReportPayload contractCount p1 executionTimes (systemTick div of_nat NUMBER_OF_COMPUTORS - 1)
                 numerator denominator
      in if entryCount = 0 then None
         else Some (p2\<lparr>tx_input := putBytes (tx_input p2) (unat (inputSize p2) - 32) (toBytes 32 timelock)\<rparr>))"

section \<open>The collector\<close>

definition frc_init :: "nat \<Rightarrow> u64 list list" where
  "frc_init contractCount = replicate contractCount (replicate NUMBER_OF_COMPUTORS 0)"

definition storeReport :: "nat \<Rightarrow> nat \<Rightarrow> nat \<Rightarrow> u64 \<Rightarrow> u64 list list \<Rightarrow> u64 list list" where
  "storeReport contractCount contractIndex computorIndex executionFee reports =
     (if contractIndex > 0 \<and> contractIndex < contractCount \<and> computorIndex < NUMBER_OF_COMPUTORS
      then reports[contractIndex := (reports ! contractIndex)[computorIndex := executionFee]] else reports)"

definition getReportsForContract :: "nat \<Rightarrow> u64 list list \<Rightarrow> nat \<Rightarrow> u64 list option" where
  "getReportsForContract contractCount reports contractIndex =
     (if contractIndex < contractCount then Some (reports ! contractIndex) else None)"

definition validateReportEntries :: "nat \<Rightarrow> u32 list \<Rightarrow> u64 list \<Rightarrow> nat \<Rightarrow> bool" where
  "validateReportEntries contractCount contractIndices executionFees numEntries \<longleftrightarrow>
     numEntries \<le> contractCount \<and>
     (\<forall>i<numEntries. \<not> (contractIndices ! i = 0 \<or> unat (contractIndices ! i) \<ge> contractCount \<or> executionFees ! i = 0))"

definition storeReportEntries :: "nat \<Rightarrow> u32 list \<Rightarrow> u64 list \<Rightarrow> nat \<Rightarrow> nat \<Rightarrow> u64 list list \<Rightarrow> u64 list list" where
  "storeReportEntries contractCount contractIndices executionFees numEntries computorIndex reports =
     foldl (\<lambda>r i. storeReport contractCount (unat (contractIndices ! i)) computorIndex (executionFees ! i) r) reports [0..<numEntries]"

definition frc_processTransactionData :: "nat \<Rightarrow> m256i list \<Rightarrow> Transaction \<Rightarrow> m256i \<Rightarrow> u64 list list \<Rightarrow> u64 list list" where
  "frc_processTransactionData contractCount computors tx dataLock reports =
     (let computorIndex = unat (tx_tick tx) mod NUMBER_OF_COMPUTORS
      in if sourcePublicKey tx \<noteq> computors ! computorIndex then reports
         else if \<not> isValidExecutionFeeReport contractCount tx then reports
         else if fromBytes (getBytes (tx_input tx) (unat (inputSize tx) - 32) 32) \<noteq> dataLock then reports
         else if \<not> isValidEntryAlignment contractCount tx then reports
         else let numEntries = unat (getNumEntries tx); contractIndices = getContractIndices tx; executionFees = getExecutionFees tx
              in if \<not> validateReportEntries contractCount contractIndices executionFees numEntries then reports
                 else storeReportEntries contractCount contractIndices executionFees numEntries computorIndex reports)"

definition chargeContract :: "u64 list list \<times> FeeReserves \<Rightarrow> nat \<Rightarrow> u64 list list \<times> FeeReserves" where
  "chargeContract = (\<lambda>(reports, s) contractIndex.
     let (quorumValue, sorted) = calculateAscendingQuorumValue (reports ! contractIndex) (of_nat NUMBER_OF_COMPUTORS);
         reports' = reports[contractIndex := sorted]
     in (reports', if quorumValue > 0 then subtractFromContractFeeReserve contractIndex quorumValue s else s))"

definition processReports :: "nat \<Rightarrow> u64 list list \<Rightarrow> FeeReserves \<Rightarrow> u64 list list \<times> FeeReserves" where
  "processReports contractCount reports s =
     (let (_, s') = foldl chargeContract (reports, s) [1..<contractCount] in (frc_init contractCount, s'))"

section \<open>What the reserves and the accumulator keep\<close>

lemma feeReserve_lookup [simp]:
  "getContractFeeReserve c (setContractFeeReserve c' v s) =
     (if c = c' \<and> c' < length (contractFeeReserves s) then v else getContractFeeReserve c s)"
  by (auto simp: getContractFeeReserve_def setContractFeeReserve_def nth_list_update list_update_beyond not_less)

lemma subtract_set:
  "subtractFromContractFeeReserve c amount s =
     setContractFeeReserve c (sadd64 (getContractFeeReserve c s) (if amount > INT64_MAX then INT64_MIN else - amount)) s"
  by (simp add: subtractFromContractFeeReserve_def setContractFeeReserve_def getContractFeeReserve_def Let_def)

lemma sint_small:
  assumes "\<not> a > INT64_MAX"
  shows "sint a = int (unat a)" "sint (- a) = - int (unat a)"
proof -
  have le: "uint a < 2 ^ 63" using assms by (simp add: INT64_MAX_def word_less_def not_less)
  have ge: "- (2 ^ 63) \<le> uint a" by (rule order_trans [OF _ uint_ge_0]) simp
  show s: "sint a = int (unat a)" using signed_take_bit_int_eq_self [OF ge le] by (simp add: sint_uint)
  have "- uint a < 2 ^ 63" by (rule le_less_trans [of _ 0]) simp_all
  then show "sint (- a) = - int (unat a)" using le s ge sint_diff_exact [of 0 a] by simp
qed

lemma above_INT64_MAX: "amount > INT64_MAX \<longleftrightarrow> 2 ^ 63 \<le> uint amount"
  by (simp add: INT64_MAX_def word_less_def) linarith

lemma subtract_reserve:
  assumes "getContractFeeReserve c s \<noteq> INT64_MIN \<or> uint amount < 2 ^ 63" "c < length (contractFeeReserves s)"
  shows "sint (getContractFeeReserve c (subtractFromContractFeeReserve c amount s)) =
    clamp 64 (sint (getContractFeeReserve c s) - min (uint amount) (2 ^ 63))"
proof (cases "amount > INT64_MAX")
  case True
  then have big: "2 ^ 63 \<le> uint amount" by (simp add: above_INT64_MAX)
  have "getContractFeeReserve c s \<noteq> INT64_MIN" using assms(1) True by (simp add: above_INT64_MAX)
  then have "sint (sadd64 (getContractFeeReserve c s) INT64_MIN) = clamp 64 (sint (getContractFeeReserve c s) - 2 ^ 63)"
    by (subst sadd64_clamps) (simp_all add: sint_limits)
  then show ?thesis using True assms(2) big by (simp add: subtract_set)
next
  case False
  then have "sint (- amount) = - uint amount" using sint_small(2) by simp
  moreover from this have "- amount \<noteq> INT64_MIN" using False by (auto simp: sint_limits above_INT64_MAX)
  ultimately show ?thesis using False assms(2) by (simp add: subtract_set sadd64_clamps above_INT64_MAX)
qed

text \<open>
  Behind the guard: a reserve at the least value that is charged \<open>2 ^ 63\<close> or more is set to 0, the wrapped sum of
  \<open>sadd\<close>.
\<close>

lemma subtract_reserve_wraps:
  assumes "getContractFeeReserve c s = INT64_MIN" "2 ^ 63 \<le> uint amount" "c < length (contractFeeReserves s)"
  shows "getContractFeeReserve c (subtractFromContractFeeReserve c amount s) = 0"
  using assms by (simp add: subtract_set above_INT64_MAX sadd64_min_min)

lemma subtract_other:
  "c \<noteq> c' \<Longrightarrow> getContractFeeReserve c (subtractFromContractFeeReserve c' amount s) = getContractFeeReserve c s"
  by (simp add: subtract_set)

lemma length_subtract [simp]:
  "length (contractFeeReserves (subtractFromContractFeeReserve c amount s)) = length (contractFeeReserves s)"
  by (simp add: subtract_set setContractFeeReserve_def)

lemma addTo_reserve:
  assumes "c < length (contractFeeReserves s)"
  shows "sint (getContractFeeReserve c (addToContractFeeReserve c amount s)) =
    clamp 64 (sint (getContractFeeReserve c s) + min (uint amount) (2 ^ 63 - 1))"
proof -
  let ?a = "if amount > INT64_MAX then INT64_MAX else amount"
  have a: "sint ?a = min (uint amount) (2 ^ 63 - 1)"
    using sint_small(1) [of amount] above_INT64_MAX [of amount] by (simp add: sint_limits)
  have "?a \<noteq> INT64_MIN" by (auto simp: INT64_MIN_def INT64_MAX_def)
  then have "sint (sadd64 (getContractFeeReserve c s) ?a) = clamp 64 (sint (getContractFeeReserve c s) + sint ?a)"
    by (rule sadd64_clamps [OF disjI2])
  then show ?thesis unfolding a using assms by (simp add: addToContractFeeReserve_def getContractFeeReserve_def Let_def)
qed

text \<open>A phase: the times of all executions since the last start, added up with saturation.\<close>

definition wellFormed_eta :: "nat \<Rightarrow> ExecutionTimeAccumulator \<Rightarrow> bool" where
  "wellFormed_eta contractCount a \<longleftrightarrow>
     length (contractExecutionTimePerPhase a) = 2 \<and> length (contractExecutionTimePerPhase a ! 0) = contractCount \<and>
     length (contractExecutionTimePerPhase a ! 1) = contractCount \<and>
     (contractExecutionTimeActiveArrayIndex a = 0 \<or> contractExecutionTimeActiveArrayIndex a = 1)"

definition addTimes :: "u64 \<Rightarrow> (nat \<times> u64) list \<Rightarrow> ExecutionTimeAccumulator \<Rightarrow> ExecutionTimeAccumulator" where
  "addTimes frequency runs a = foldl (\<lambda>a (c, t). addTime frequency c t a) a runs"

lemma wellFormed_eta_init: "wellFormed_eta n (eta_init n)"
  by (simp add: wellFormed_eta_def eta_init_def numeral_2_eq_2)

lemma wellFormed_addTime:
  assumes "wellFormed_eta n a"
  shows "wellFormed_eta n (addTime frequency c t a)"
  using assms by (auto simp: wellFormed_eta_def addTime_def Let_def)

lemma getCurrent_addTime:
  assumes "wellFormed_eta n a" "c < n"
  shows "unat (getCurrentPhaseAccumulatedTime (addTime frequency c' t a) c) =
    (if c = c' then min (unat (getCurrentPhaseAccumulatedTime a c) + unat (toMicroseconds frequency t)) (2 ^ 64 - 1)
     else unat (getCurrentPhaseAccumulatedTime a c))"
proof -
  have "length (contractExecutionTimePerPhase a ! contractExecutionTimeActiveArrayIndex a) = n"
    "contractExecutionTimeActiveArrayIndex a < length (contractExecutionTimePerPhase a)"
    using assms by (auto simp: wellFormed_eta_def)
  then show ?thesis using assms(2)
    by (simp add: getCurrentPhaseAccumulatedTime_def addTime_def Let_def saddu64_clamps)
qed

lemma addTimes_total:
  assumes "wellFormed_eta n a" "c < n"
  shows "wellFormed_eta n (addTimes frequency runs a) \<and>
    unat (getCurrentPhaseAccumulatedTime (addTimes frequency runs a) c) =
      min (unat (getCurrentPhaseAccumulatedTime a c) + (\<Sum>(c', t)\<leftarrow>runs. if c' = c then unat (toMicroseconds frequency t) else 0)) (2 ^ 64 - 1)"
  using assms
proof (induction runs arbitrary: a)
  case Nil
  then show ?case using unat_less_64 [of "getCurrentPhaseAccumulatedTime a c"] by (simp add: addTimes_def)
next
  case (Cons r runs)
  obtain c' t where r: "r = (c', t)" by (cases r)
  have "addTimes frequency (r # runs) a = addTimes frequency runs (addTime frequency c' t a)" by (simp add: addTimes_def r)
  then show ?case
    using Cons.IH [OF wellFormed_addTime [OF Cons.prems(1), of frequency c' t] Cons.prems(2)]
      getCurrent_addTime [OF Cons.prems, of frequency c' t] by (simp add: r min_def)
qed

lemma startNew:
  assumes "wellFormed_eta n a"
  shows "wellFormed_eta n (startNewAccumulation n a)"
    and "getPrevPhaseAccumulatedTimes (startNewAccumulation n a) ! c = getCurrentPhaseAccumulatedTime a c"
    and "c < n \<Longrightarrow> getCurrentPhaseAccumulatedTime (startNewAccumulation n a) c = 0"
proof -
  have active: "contractExecutionTimeActiveArrayIndex a = 0 \<or> contractExecutionTimeActiveArrayIndex a = 1"
    using assms by (auto simp: wellFormed_eta_def)
  show "wellFormed_eta n (startNewAccumulation n a)"
    using assms by (auto simp: wellFormed_eta_def startNewAccumulation_def Let_def)
  show "getPrevPhaseAccumulatedTimes (startNewAccumulation n a) ! c = getCurrentPhaseAccumulatedTime a c"
    using active by (auto simp: getPrevPhaseAccumulatedTimes_def startNewAccumulation_def getCurrentPhaseAccumulatedTime_def Let_def)
  show "c < n \<Longrightarrow> getCurrentPhaseAccumulatedTime (startNewAccumulation n a) c = 0"
    using assms active
    by (auto simp: wellFormed_eta_def startNewAccumulation_def getCurrentPhaseAccumulatedTime_def Let_def)
qed

lemma length_getPrev: "wellFormed_eta n a \<Longrightarrow> length (getPrevPhaseAccumulatedTimes a) = n"
  by (auto simp: wellFormed_eta_def getPrevPhaseAccumulatedTimes_def)

end
