(* ===== verification/Execution_Fee_Reports.thy ===== *)
theory Execution_Fee_Reports
  imports Execution_Fees
begin

text \<open>
  The way of the execution fees: the report a computor builds is read back by every collector, the collector keeps one report per
  computor and contract, and what it charges a contract lies between the reports of two honest computors.
\<close>

section \<open>Building a report\<close>

definition reportFee :: "u64 list \<Rightarrow> u64 \<Rightarrow> u64 \<Rightarrow> nat \<Rightarrow> u64" where
  "reportFee executionTimes numerator denominator c = (executionTimes ! c * numerator) div denominator"

definition charged :: "nat \<Rightarrow> (nat \<Rightarrow> u64) \<Rightarrow> nat list" where
  "charged n fee = filter (\<lambda>c. fee c \<noteq> 0) [1..<n]"

definition indexBytes :: "nat list \<Rightarrow> u8 list" where
  "indexBytes cs = concat (map (\<lambda>c. toBytes 4 (of_nat c :: u32)) cs)"

definition feeBytes :: "(nat \<Rightarrow> u64) \<Rightarrow> nat list \<Rightarrow> u8 list" where
  "feeBytes fee cs = concat (map (\<lambda>c. toBytes 8 (fee c)) cs)"

lemma length_charged: "length (charged n fee) \<le> n - 1"
  unfolding charged_def by (rule le_trans [OF length_filter_le]) simp

lemma charged_Suc: "0 < n \<Longrightarrow> charged (Suc n) fee = charged n fee @ (if fee n \<noteq> 0 then [n] else [])"
  by (simp add: charged_def)

lemma set_charged: "set (charged n fee) = {c. 0 < c \<and> c < n \<and> fee c \<noteq> 0}"
  by (auto simp: charged_def)

lemma feesPosition_ge: "4 + 4 + 4 * n \<le> feesPosition n"
  by (simp add: feesPosition_def)

lemma alignmentPadding_le: "alignmentPadding n \<le> 4"
  by (simp add: alignmentPadding_def)

lemma addReportEntry_fee:
  "addReportEntry n ts num den (e, mem) c =
     (if reportFee ts num den c \<noteq> 0
      then (e + 1, putBytes (putBytes mem (8 + 4 * e) (toBytes 4 (of_nat c :: u32))) (feesPosition n + 8 * e) (toBytes 8 (reportFee ts num den c)))
      else (e, mem))"
  by (cases "ts ! c = 0") (simp_all add: addReportEntry_def reportFee_def Let_def word_neq_0_conv)

lemma append_entry:
  assumes "8 + 4 * Suc e \<le> fp" "fp + 8 * Suc e \<le> length mem" "length b = 4" "length d = 8"
  shows "getBytes (putBytes (putBytes mem (8 + 4 * e) b) (fp + 8 * e) d) 8 (4 * Suc e) = getBytes mem 8 (4 * e) @ b"
    and "getBytes (putBytes (putBytes mem (8 + 4 * e) b) (fp + 8 * e) d) fp (8 * Suc e) = getBytes mem fp (8 * e) @ d"
proof -
  let ?m1 = "putBytes mem (8 + 4 * e) b" let ?m2 = "putBytes ?m1 (fp + 8 * e) d"
  have l: "length ?m1 = length mem" using assms by simp
  have "getBytes ?m2 8 (4 * Suc e) = getBytes ?m1 8 (4 * e + 4)"
    using assms l by (subst getBytes_put_before) (auto simp: add.commute)
  also have "\<dots> = getBytes mem 8 (4 * e) @ b"
    using assms getBytes_put_same [of "8 + 4 * e" b mem] unfolding getBytes_split by (simp add: getBytes_put_before)
  finally show "getBytes ?m2 8 (4 * Suc e) = getBytes mem 8 (4 * e) @ b" .
  have "getBytes ?m2 fp (8 * e + 8) = getBytes ?m1 fp (8 * e) @ d"
    using assms l getBytes_put_same [of "fp + 8 * e" d ?m1] unfolding getBytes_split by (simp add: getBytes_put_before)
  then show "getBytes ?m2 fp (8 * Suc e) = getBytes mem fp (8 * e) @ d"
    using assms by (simp add: getBytes_put_after add.commute)
qed

lemma report_loop:
  assumes "0 < m" "m \<le> n" "feesPosition n + 8 * n \<le> length mem0"
    "foldl (addReportEntry n ts num den) (0, mem0) [1..<m] = (e, mem)"
  defines "cs \<equiv> charged m (reportFee ts num den)"
  shows "e = length cs \<and> length mem = length mem0 \<and> getBytes mem 8 (4 * e) = indexBytes cs \<and>
    getBytes mem (feesPosition n) (8 * e) = feeBytes (reportFee ts num den) cs"
  using assms(1,2,4) unfolding cs_def
proof (induction m arbitrary: e mem rule: nat_induct_non_zero)
  case 1
  then show ?case by (simp add: charged_def indexBytes_def feeBytes_def getBytes_def)
next
  case (Suc m)
  let ?fee = "reportFee ts num den"
  obtain e1 mem1 where e: "foldl (addReportEntry n ts num den) (0, mem0) [1..<m] = (e1, mem1)" by (cases rule: prod.exhaust)
  have IH: "e1 = length (charged m ?fee)" "length mem1 = length mem0" "getBytes mem1 8 (4 * e1) = indexBytes (charged m ?fee)"
    "getBytes mem1 (feesPosition n) (8 * e1) = feeBytes ?fee (charged m ?fee)"
    using Suc.IH [OF _ e] Suc.prems by auto
  have step: "(e, mem) = addReportEntry n ts num den (e1, mem1) m" using Suc.prems(2) e Suc.hyps by simp
  have small: "Suc e1 \<le> n" using length_charged [of m ?fee] IH(1) Suc.prems(1) Suc.hyps by simp
  then have fits: "8 + 4 * Suc e1 \<le> feesPosition n" "feesPosition n + 8 * Suc e1 \<le> length mem1"
    using feesPosition_ge [of n] assms(3) IH(2) by auto
  show ?case
  proof (cases "?fee m = 0")
    case True
    then show ?thesis using step IH Suc.hyps by (simp add: addReportEntry_fee charged_Suc)
  next
    case False
    then have em: "e = Suc e1"
      "mem = putBytes (putBytes mem1 (8 + 4 * e1) (toBytes 4 (of_nat m :: u32))) (feesPosition n + 8 * e1) (toBytes 8 (?fee m))"
      using step by (simp_all add: addReportEntry_fee)
    have "length mem = length mem0" using IH(2) fits unfolding em by simp
    then show ?thesis
      using append_entry [OF fits, of "toBytes 4 (of_nat m :: u32)" "toBytes 8 (?fee m)"] IH False Suc.hyps
      unfolding em by (simp add: charged_Suc indexBytes_def feeBytes_def)
  qed
qed

text \<open>The length of a report with \<open>e\<close> entries up to the data lock, and the memory that holds the largest one with its signature.\<close>

definition reportLength :: "nat \<Rightarrow> nat" where
  "reportLength e = 4 + 4 + e * 4 + alignmentPadding e + e * 8"

definition payloadLength :: "nat \<Rightarrow> nat" where
  "payloadLength n = feesPosition n + 8 * n + 32 + 64"

definition isReport :: "u8 list \<Rightarrow> (nat \<Rightarrow> u64) \<Rightarrow> nat list \<Rightarrow> bool" where
  "isReport mem fee cs \<longleftrightarrow>
     getBytes mem 4 4 = toBytes 4 (of_nat (length cs) :: u32) \<and> getBytes mem 8 (4 * length cs) = indexBytes cs \<and>
     getBytes mem (4 + 4 + length cs * 4 + alignmentPadding (length cs)) (8 * length cs) = feeBytes fee cs"

lemma reportLength_le: "e < n \<Longrightarrow> reportLength e \<le> feesPosition n + 8 * n"
  using alignmentPadding_le [of e] by (simp add: reportLength_def feesPosition_def)

lemma reportLength_small: "e \<le> 82 \<Longrightarrow> reportLength e + 32 \<le> 1028"
  using alignmentPadding_le [of e] by (simp add: reportLength_def)

lemma length_feeBytes: "length (feeBytes fee cs) = 8 * length cs"
  by (induction cs) (simp_all add: feeBytes_def)

lemma length_indexBytes: "length (indexBytes cs) = 4 * length cs"
  by (induction cs) (simp_all add: indexBytes_def)

lemma no_fees: "num = 0 \<or> den = 0 \<Longrightarrow> charged n (reportFee ts num den) = []"
  by (auto simp: charged_def reportFee_def)

lemma build_report:
  assumes "0 < n" "length (tx_input p) = payloadLength n" "buildExecutionFeeReportPayload n p ts phase num den = (e, p')"
  defines "cs \<equiv> charged n (reportFee ts num den)"
  shows "e = length cs \<and> (cs \<noteq> [] \<longrightarrow> (\<exists>mem. p' = p\<lparr>tx_input := mem, inputSize := of_nat (reportLength e + 32)\<rparr> \<and>
    length mem = payloadLength n \<and> isReport mem (reportFee ts num den) cs))"
proof (cases "den = 0 \<or> num = 0")
  case True
  then have "charged n (reportFee ts num den) = []" using no_fees by blast
  then show ?thesis using True assms(3) by (simp add: buildExecutionFeeReportPayload_def cs_def)
next
  case False
  let ?fee = "reportFee ts num den"
  define mem0 where "mem0 = putBytes (tx_input p) 0 (toBytes 4 phase)"
  obtain e1 mem1 where loop: "foldl (addReportEntry n ts num den) (0, mem0) [1..<n] = (e1, mem1)" by (cases rule: prod.exhaust)
  define mem2 where "mem2 = putBytes mem1 4 (toBytes 4 (of_nat e1 :: u32))"
  have len0: "length mem0 = payloadLength n" using assms(2) by (simp add: mem0_def payloadLength_def)
  have l: "e1 = length cs" "length mem1 = payloadLength n" "getBytes mem1 8 (4 * e1) = indexBytes cs"
    "getBytes mem1 (feesPosition n) (8 * e1) = feeBytes ?fee cs"
    using report_loop [OF assms(1) order_refl _ loop] len0 by (auto simp: payloadLength_def cs_def)
  have len2: "length mem2 = payloadLength n" using l(2) by (simp add: mem2_def payloadLength_def)
  have m2: "getBytes mem2 4 4 = toBytes 4 (of_nat e1 :: u32)" "getBytes mem2 8 (4 * e1) = indexBytes cs"
    "getBytes mem2 (feesPosition n) (8 * e1) = feeBytes ?fee cs"
    using l getBytes_put_same [of 4 "toBytes 4 (of_nat e1 :: u32)" mem1]
    unfolding mem2_def by (simp_all add: getBytes_put_after payloadLength_def feesPosition_def)
  let ?dst = "4 + 4 + e1 * 4 + alignmentPadding e1"
  define mem3 where "mem3 = copyMem mem2 ?dst (feesPosition n) (e1 * 8)"
  have "e1 < n" using length_charged [of n ?fee] assms(1) l(1) cs_def by simp
  then have fits: "?dst + 8 * e1 \<le> length mem2" using reportLength_le [of e1 n] len2 by (simp add: reportLength_def payloadLength_def)
  have m3: "mem3 = putBytes mem2 ?dst (feeBytes ?fee cs)" unfolding mem3_def copyMem_def using m2(3) by (simp add: mult.commute)
  have "length mem3 = payloadLength n" using fits l(1) len2 unfolding m3 by (simp add: length_feeBytes)
  moreover have "isReport mem3 ?fee cs"
    using m2(1,2) fits l(1) getBytes_put_same [of ?dst "feeBytes ?fee cs" mem2] unfolding isReport_def m3
    by (simp add: getBytes_put_before length_feeBytes)
  moreover have "(e, p') = (if e1 = 0 then (0, p\<lparr>tx_input := mem2\<rparr>)
      else (e1, p\<lparr>tx_input := mem3, inputSize := of_nat (reportLength e1 + 32)\<rparr>))"
    using assms(3) False loop by (cases "e1 = 0") (auto simp: buildExecutionFeeReportPayload_def Let_def mem0_def mem2_def mem3_def reportLength_def)
  ultimately show ?thesis using l(1) by (cases "cs = []") auto
qed

lemma isReport_put:
  assumes "isReport mem fee cs" "reportLength (length cs) \<le> off" "off + length bs \<le> length mem"
  shows "isReport (putBytes mem off bs) fee cs"
  using assms alignmentPadding_le [of "length cs"] by (simp add: isReport_def reportLength_def getBytes_put_before)

definition madeReport :: "nat \<Rightarrow> m256i \<Rightarrow> m256i \<Rightarrow> u32 \<Rightarrow> (nat \<Rightarrow> u64) \<Rightarrow> Transaction \<Rightarrow> bool" where
  "madeReport n publicKey timelock tick fee tx \<longleftrightarrow>
     sourcePublicKey tx = publicKey \<and> tx_amount tx = 0 \<and> tx_tick tx = tick \<and>
     inputSize tx = of_nat (reportLength (length (charged n fee)) + 32) \<and> isReport (tx_input tx) fee (charged n fee) \<and>
     fromBytes (getBytes (tx_input tx) (reportLength (length (charged n fee))) 32) = timelock"

lemma unat_of_nat_16: "k < 2 ^ 16 \<Longrightarrow> unat (of_nat k :: u16) = k"
  by (simp add: unat_of_nat)

lemma make_report:
  assumes "0 < n" "n \<le> 82" "length (tx_input p) = payloadLength n"
  shows "case makeExecutionFeeTransaction n publicKey timelock systemTick offset ts num den p of
      None \<Rightarrow> charged n (reportFee ts num den) = []
    | Some tx \<Rightarrow> charged n (reportFee ts num den) \<noteq> [] \<and>
        madeReport n publicKey timelock (systemTick + offset) (reportFee ts num den) tx"
proof -
  let ?cs = "charged n (reportFee ts num den)"
  define p1 where "p1 = p\<lparr>sourcePublicKey := publicKey, destinationPublicKey := 0, tx_amount := 0, tx_tick := systemTick + offset,
                 inputType := EXECUTION_FEE_REPORT_INPUT_TYPE\<rparr>"
  obtain e p2 where b: "buildExecutionFeeReportPayload n p1 ts (systemTick div of_nat NUMBER_OF_COMPUTORS - 1) num den = (e, p2)"
    by (cases rule: prod.exhaust)
  have len1: "length (tx_input p1) = payloadLength n" using assms(3) by (simp add: p1_def)
  note r = build_report [OF assms(1) len1 b]
  show ?thesis
  proof (cases "?cs = []")
    case True
    then show ?thesis using r b by (simp add: makeExecutionFeeTransaction_def p1_def)
  next
    case False
    then obtain mem where p2: "p2 = p1\<lparr>tx_input := mem, inputSize := of_nat (reportLength e + 32)\<rparr>" "length mem = payloadLength n"
      "isReport mem (reportFee ts num den) ?cs" "e = length ?cs" using r by blast
    have e: "e < n" using length_charged [of n "reportFee ts num den"] assms(1) p2(4) by simp
    have "unat (of_nat (reportLength e + 32) :: u16) = reportLength e + 32"
      by (rule unat_of_nat_16) (use reportLength_small [of e] e assms(2) in simp)
    then have size: "unat (inputSize p2) - 32 = reportLength e" unfolding p2(1) by (simp del: of_nat_add)
    have fits: "reportLength e + 32 \<le> length mem" using reportLength_le [OF e] p2(2) by (simp add: payloadLength_def)
    let ?mem = "putBytes mem (reportLength e) (toBytes 32 timelock)"
    have "isReport ?mem (reportFee ts num den) ?cs" using isReport_put [OF p2(3)] p2(4) fits by simp
    moreover have "fromBytes (getBytes ?mem (reportLength e) 32) = timelock"
      using getBytes_put_same [of "reportLength e" "toBytes 32 timelock" mem] fits by (simp add: fromBytes_toBytes)
    moreover have "makeExecutionFeeTransaction n publicKey timelock systemTick offset ts num den p = Some (p2\<lparr>tx_input := ?mem\<rparr>)"
      using b False p2(4) size p2(1) by (simp add: makeExecutionFeeTransaction_def p1_def Let_def)
    ultimately show ?thesis using False p2(1,4) by (simp add: madeReport_def p1_def)
  qed
qed

section \<open>Reading a report\<close>

lemma isReport_read:
  assumes "isReport (tx_input tx) fee cs" "length cs \<le> 82"
  shows "unat (getNumEntries tx) = length cs" "getContractIndices tx = map of_nat cs" "getExecutionFees tx = map fee cs"
proof -
  have "getNumEntries tx = of_nat (length cs)"
    using assms(1) by (simp add: getNumEntries_def isReport_def fromBytes_toBytes)
  then show n: "unat (getNumEntries tx) = length cs" using assms(2) by (simp add: unat_of_nat_32)
  have "fromBytes (getBytes (tx_input tx) (4 + 4 + 4 * i) 4) = (of_nat (cs ! i) :: u32)" if "i < length cs" for i
  proof -
    have "getBytes (tx_input tx) (8 + 4 * i) 4 = getBytes (indexBytes cs) (4 * i) 4"
      using assms(1) that getBytes_getBytes [of "4 * i" 4 "4 * length cs" "tx_input tx" 8] by (simp add: isReport_def)
    also have "\<dots> = toBytes 4 (of_nat (cs ! i) :: u32)" unfolding indexBytes_def using that by (intro getBytes_chunk) simp_all
    finally show ?thesis by (simp add: fromBytes_toBytes)
  qed
  then show "getContractIndices tx = map of_nat cs" unfolding getContractIndices_def n by (intro nth_equalityI) simp_all
  let ?base = "4 + 4 + length cs * 4 + alignmentPadding (length cs)"
  have "fromBytes (getBytes (tx_input tx) (?base + 8 * i) 8) = fee (cs ! i)" if "i < length cs" for i
  proof -
    have "getBytes (tx_input tx) (?base + 8 * i) 8 = getBytes (feeBytes fee cs) (8 * i) 8"
      using assms(1) that getBytes_getBytes [of "8 * i" 8 "8 * length cs" "tx_input tx" ?base] by (simp add: isReport_def)
    also have "\<dots> = toBytes 8 (fee (cs ! i))" unfolding feeBytes_def using that by (intro getBytes_chunk) simp_all
    finally show ?thesis by (simp add: fromBytes_toBytes)
  qed
  then show "getExecutionFees tx = map fee cs" unfolding getExecutionFees_def n Let_def by (intro nth_equalityI) simp_all
qed

lemma reportLength_mono: "e \<le> n \<Longrightarrow> reportLength e \<le> reportLength n"
  using alignmentPadding_le [of e] by (cases "e = n") (simp_all add: reportLength_def)

lemma maxInputSize_report: "maxInputSize n = of_nat (reportLength n + 32)"
  by (simp add: maxInputSize_def reportLength_def)

lemma report_size_valid:
  assumes "e \<le> n" "n \<le> 82"
  shows "minInputSize \<le> of_nat (reportLength e + 32) \<and> of_nat (reportLength e + 32) \<le> maxInputSize n"
proof -
  have u: "unat (of_nat (reportLength k + 32) :: u16) = reportLength k + 32" if "k \<le> n" for k
    by (rule unat_of_nat_16) (use reportLength_small [of k] that assms(2) in simp)
  have "unat minInputSize = 40" by (simp add: minInputSize_def)
  moreover have "40 \<le> reportLength e + 32" by (simp add: reportLength_def)
  ultimately show ?thesis
    using u [OF assms(1)] u [OF order_refl] reportLength_mono [OF assms(1)]
    unfolding maxInputSize_report word_le_nat_alt by (simp del: of_nat_add)
qed

lemma odd_word: "e \<le> 82 \<Longrightarrow> (of_nat e :: u64) mod 2 = 1 \<longleftrightarrow> e mod 2 = 1"
  by (simp add: word_unat_eq_iff unat_mod unat_of_nat take_bit_nat_eq_self)

lemma report_alignment:
  assumes "unat (getNumEntries tx) = e" "e \<le> n" "n \<le> 82" "inputSize tx = of_nat (reportLength e + 32)"
  shows "isValidEntryAlignment n tx"
proof -
  have n: "ucast (getNumEntries tx) = (of_nat e :: u64)" unfolding assms(1) [symmetric] by simp
  have "unat (inputSize tx) = reportLength e + 32"
    unfolding assms(4) by (rule unat_of_nat_16) (use reportLength_small [of e] assms(2,3) in simp)
  then have s: "ucast (inputSize tx) = (of_nat (reportLength e + 32) :: u64)" by (metis of_nat_unat)
  have "unat (of_nat e :: u64) = e" using assms(2,3) by (simp add: unat_of_nat take_bit_nat_eq_self)
  then show ?thesis
    using assms(2,3) odd_word [of e] unfolding isValidEntryAlignment_def n s
    by (simp add: Let_def reportLength_def alignmentPadding_def)
qed

definition wfReports :: "nat \<Rightarrow> u64 list list \<Rightarrow> bool" where
  "wfReports n r \<longleftrightarrow> length r = n \<and> (\<forall>c<n. length (r ! c) = NUMBER_OF_COMPUTORS)"

lemma storeReport_nth:
  assumes "wfReports n r"
  shows "wfReports n (storeReport n ci q fee r) \<and>
    (c < n \<longrightarrow> j < NUMBER_OF_COMPUTORS \<longrightarrow> storeReport n ci q fee r ! c ! j = (if 0 < ci \<and> ci = c \<and> q = j then fee else r ! c ! j))"
  using assms by (auto simp: wfReports_def storeReport_def nth_list_update)

lemma storeEntries_Suc:
  "storeReportEntries n ci fees (Suc k) q r = storeReport n (unat (ci ! k)) q (fees ! k) (storeReportEntries n ci fees k q r)"
  by (simp add: storeReportEntries_def)

lemma storeEntries_frame:
  assumes "wfReports n r"
  shows "wfReports n (storeReportEntries n ci fees k q r) \<and>
    (c < n \<longrightarrow> j < NUMBER_OF_COMPUTORS \<longrightarrow> q \<noteq> j \<longrightarrow> storeReportEntries n ci fees k q r ! c ! j = r ! c ! j)"
proof (induction k)
  case 0
  then show ?case using assms by (simp add: storeReportEntries_def)
next
  case (Suc k)
  then show ?case using storeReport_nth [of n "storeReportEntries n ci fees k q r" "unat (ci ! k)" q "fees ! k" c j]
    unfolding storeEntries_Suc by simp
qed

lemma storeEntries_fee:
  assumes "wfReports n r" "c < n" "q < NUMBER_OF_COMPUTORS" "k \<le> length cs"
    "\<And>i. i < length cs \<Longrightarrow> unat (ci ! i) = cs ! i \<and> fees ! i = fee (cs ! i) \<and> 0 < cs ! i"
  shows "storeReportEntries n ci fees k q r ! c ! q = (if c \<in> set (take k cs) then fee c else r ! c ! q)"
  using assms(4)
proof (induction k)
  case 0
  then show ?case by (simp add: storeReportEntries_def)
next
  case (Suc k)
  have "wfReports n (storeReportEntries n ci fees k q r)" using storeEntries_frame [OF assms(1)] by blast
  then have "storeReportEntries n ci fees (Suc k) q r ! c ! q =
      (if cs ! k = c then fee c else storeReportEntries n ci fees k q r ! c ! q)"
    using storeReport_nth [of n "storeReportEntries n ci fees k q r" "cs ! k" q "fee (cs ! k)" c q] assms(2,3) assms(5) [of k] Suc.prems
    unfolding storeEntries_Suc by auto
  then show ?case using Suc by (auto simp: take_Suc_conv_app_nth)
qed

lemma process_frame:
  assumes "wfReports n r" "c < n" "j < NUMBER_OF_COMPUTORS"
    "unat (tx_tick tx) mod NUMBER_OF_COMPUTORS \<noteq> j \<or> sourcePublicKey tx \<noteq> computors ! j"
  shows "frc_processTransactionData n computors tx dataLock r ! c ! j = r ! c ! j"
proof (cases "unat (tx_tick tx) mod NUMBER_OF_COMPUTORS = j")
  case True
  then show ?thesis using assms(4) by (simp add: frc_processTransactionData_def)
next
  case False
  then show ?thesis using assms(2,3) storeEntries_frame [OF assms(1)] by (simp add: frc_processTransactionData_def Let_def)
qed

lemma process_wf: "wfReports n r \<Longrightarrow> wfReports n (frc_processTransactionData n computors tx dataLock r)"
  using storeEntries_frame by (auto simp: frc_processTransactionData_def Let_def)

lemma process_made:
  assumes "madeReport n (computors ! q) timelock tick fee tx" "charged n fee \<noteq> []" "n \<le> 82" "wfReports n r"
    "q = unat tick mod NUMBER_OF_COMPUTORS" "0 < c" "c < n"
  shows "frc_processTransactionData n computors tx timelock r ! c ! q = (if fee c \<noteq> 0 then fee c else r ! c ! q)"
proof -
  let ?cs = "charged n fee" let ?e = "length (charged n fee)"
  have e: "?e \<le> n" "?e \<le> 82" using length_charged [of n fee] assms(3) by auto
  note rd = isReport_read [of tx fee ?cs, OF _ e(2)]
  have m: "isReport (tx_input tx) fee ?cs" "tx_amount tx = 0" "inputSize tx = of_nat (reportLength ?e + 32)" "tx_tick tx = tick"
    "sourcePublicKey tx = computors ! q" "fromBytes (getBytes (tx_input tx) (reportLength ?e) 32) = timelock"
    using assms(1) by (simp_all add: madeReport_def)
  have mem: "cs_i \<in> set ?cs \<Longrightarrow> 0 < cs_i \<and> cs_i < n \<and> fee cs_i \<noteq> 0" for cs_i by (simp add: set_charged)
  have i: "unat (of_nat (?cs ! i) :: u32) = ?cs ! i" "0 < ?cs ! i" "?cs ! i < n" "fee (?cs ! i) \<noteq> 0" if "i < ?e" for i
    using mem [OF nth_mem [OF that]] assms(3) by (auto intro: unat_of_nat_32)
  have "isValidExecutionFeeReport n tx"
    using report_size_valid [OF e(1) assms(3)] m e(1) rd(1) by (simp add: isValidExecutionFeeReport_def)
  moreover have "isValidEntryAlignment n tx" using report_alignment [OF rd(1) e(1) assms(3) m(3)] m(1) by blast
  moreover have "unat (inputSize tx) - 32 = reportLength ?e"
    unfolding m(3) by (subst unat_of_nat_16) (use reportLength_small [OF e(2)] in simp_all)
  moreover have "validateReportEntries n (map of_nat ?cs) (map fee ?cs) ?e"
    using e(1) i unfolding validateReportEntries_def by (auto simp: word_unat_eq_iff not_le)
  ultimately have "frc_processTransactionData n computors tx timelock r = storeReportEntries n (map of_nat ?cs) (map fee ?cs) ?e q r"
    using m rd assms(5) by (simp add: frc_processTransactionData_def Let_def)
  moreover have "storeReportEntries n (map of_nat ?cs) (map fee ?cs) ?e q r ! c ! q = (if c \<in> set (take ?e ?cs) then fee c else r ! c ! q)"
    using i assms(5) by (intro storeEntries_fee [OF assms(4,7)]) (simp_all add: NUMBER_OF_COMPUTORS_def)
  ultimately show ?thesis using assms(6,7) by (simp add: set_charged)
qed

section \<open>Collecting the reports of a phase\<close>

text \<open>
  All report transactions of a phase in the order in which they are processed; \<open>lock\<close> gives the time lock of each tick. What a
  computor has measured and configured is its \<open>Reporter\<close>; it is honest if the only transaction it signs for its tick is the one that
  the code makes (none when there is nothing to report).
\<close>

definition collectReports :: "nat \<Rightarrow> m256i list \<Rightarrow> (u32 \<Rightarrow> m256i) \<Rightarrow> Transaction list \<Rightarrow> u64 list list \<Rightarrow> u64 list list" where
  "collectReports n computors lock txs r = foldl (\<lambda>r tx. frc_processTransactionData n computors tx (lock (tx_tick tx)) r) r txs"

record Reporter =
  rSystemTick :: u32
  rOffset :: u32
  rTimes :: "u64 list"
  rNumerator :: u64
  rDenominator :: u64
  rPayload :: Transaction

definition feeOf :: "Reporter \<Rightarrow> nat \<Rightarrow> u64" where
  "feeOf R = reportFee (rTimes R) (rNumerator R) (rDenominator R)"

definition sentBy :: "m256i list \<Rightarrow> Transaction list \<Rightarrow> nat \<Rightarrow> Transaction set" where
  "sentBy computors txs i = {tx \<in> set txs. unat (tx_tick tx) mod NUMBER_OF_COMPUTORS = i \<and> sourcePublicKey tx = computors ! i}"

definition honest :: "nat \<Rightarrow> m256i list \<Rightarrow> (u32 \<Rightarrow> m256i) \<Rightarrow> Transaction list \<Rightarrow> nat \<Rightarrow> Reporter \<Rightarrow> bool" where
  "honest n computors lock txs i R \<longleftrightarrow>
     unat (rSystemTick R + rOffset R) mod NUMBER_OF_COMPUTORS = i \<and> length (tx_input (rPayload R)) = payloadLength n \<and>
     sentBy computors txs i =
       set_option (makeExecutionFeeTransaction n (computors ! i) (lock (rSystemTick R + rOffset R)) (rSystemTick R) (rOffset R)
         (rTimes R) (rNumerator R) (rDenominator R) (rPayload R))"

lemma collect_wf: "wfReports n r \<Longrightarrow> wfReports n (collectReports n computors lock txs r)"
  by (induction txs arbitrary: r) (simp_all add: collectReports_def process_wf)

lemma collect_frame:
  assumes "wfReports n r" "c < n" "j < NUMBER_OF_COMPUTORS" "sentBy computors txs j = {}"
  shows "collectReports n computors lock txs r ! c ! j = r ! c ! j"
  using assms(1,4)
proof (induction txs arbitrary: r)
  case (Cons tx txs)
  have "frc_processTransactionData n computors tx (lock (tx_tick tx)) r ! c ! j = r ! c ! j"
    using Cons.prems assms(2,3) by (intro process_frame) (auto simp: sentBy_def)
  moreover have "sentBy computors txs j = {}" using Cons.prems(2) by (auto simp: sentBy_def)
  ultimately show ?case
    using Cons.IH [OF process_wf [OF Cons.prems(1), of computors tx "lock (tx_tick tx)"]] by (simp add: collectReports_def)
qed (simp add: collectReports_def)

lemma collect_made:
  assumes "madeReport n (computors ! j) (lock tick) tick fee tx" "charged n fee \<noteq> []" "n \<le> 82"
    "j = unat tick mod NUMBER_OF_COMPUTORS" "0 < c" "c < n"
    "wfReports n r" "sentBy computors txs j \<subseteq> {tx}" "r ! c ! j = 0 \<or> r ! c ! j = fee c"
  shows "(collectReports n computors lock txs r ! c ! j = 0 \<or> collectReports n computors lock txs r ! c ! j = fee c) \<and>
    (tx \<in> sentBy computors txs j \<or> r ! c ! j = fee c \<longrightarrow> collectReports n computors lock txs r ! c ! j = fee c)"
  using assms(7-9)
proof (induction txs arbitrary: r)
  case Nil
  then show ?case by (simp add: collectReports_def sentBy_def)
next
  case (Cons t txs)
  let ?r = "frc_processTransactionData n computors t (lock (tx_tick t)) r"
  have j: "j < NUMBER_OF_COMPUTORS" using assms(4) by (simp add: NUMBER_OF_COMPUTORS_def)
  have tx: "tx_tick tx = tick" "sourcePublicKey tx = computors ! j" using assms(1) by (simp_all add: madeReport_def)
  have sub: "sentBy computors txs j \<subseteq> {tx}" using Cons.prems(2) by (auto simp: sentBy_def)
  have other: "?r ! c ! j = r ! c ! j" if "t \<noteq> tx"
  proof (rule process_frame [OF Cons.prems(1) assms(6) j])
    show "unat (tx_tick t) mod NUMBER_OF_COMPUTORS \<noteq> j \<or> sourcePublicKey t \<noteq> computors ! j"
      using that Cons.prems(2) by (auto simp: sentBy_def)
  qed
  have same: "?r ! c ! j = (if fee c \<noteq> 0 then fee c else r ! c ! j)" if "t = tx"
    using process_made [OF assms(1-3) Cons.prems(1) assms(4-6)] that tx(1) by simp
  have v: "?r ! c ! j = (if t = tx \<and> fee c \<noteq> 0 then fee c else r ! c ! j)"
  proof (cases "t = tx")
    case True
    show ?thesis unfolding same [OF True] using True by simp
  next
    case False
    show ?thesis unfolding other [OF False] using False by simp
  qed
  have step: "?r ! c ! j = 0 \<or> ?r ! c ! j = fee c" "r ! c ! j = fee c \<longrightarrow> ?r ! c ! j = fee c" "t = tx \<longrightarrow> ?r ! c ! j = fee c"
    unfolding v using Cons.prems(3) by auto
  have "tx \<in> sentBy computors (t # txs) j \<Longrightarrow> t = tx \<or> tx \<in> sentBy computors txs j" by (auto simp: sentBy_def)
  then show ?case
    using Cons.IH [OF process_wf [OF Cons.prems(1), of computors t "lock (tx_tick t)"] sub step(1)] step(2,3)
    by (auto simp: collectReports_def)
qed

lemma wf_init: "wfReports n (frc_init n)"
  by (simp add: wfReports_def frc_init_def)

lemma honest_collected:
  assumes "honest n computors lock txs i R" "n \<le> 82" "0 < c" "c < n"
  shows "collectReports n computors lock txs (frc_init n) ! c ! i = feeOf R c"
proof -
  have i: "i = unat (rSystemTick R + rOffset R) mod NUMBER_OF_COMPUTORS" "i < NUMBER_OF_COMPUTORS"
    using assms(1) by (auto simp: honest_def NUMBER_OF_COMPUTORS_def)
  have zero: "frc_init n ! c ! i = 0" using assms(4) i(2) by (simp add: frc_init_def)
  let ?make = "makeExecutionFeeTransaction n (computors ! i) (lock (rSystemTick R + rOffset R)) (rSystemTick R) (rOffset R)
         (rTimes R) (rNumerator R) (rDenominator R) (rPayload R)"
  have h: "sentBy computors txs i = set_option ?make" "length (tx_input (rPayload R)) = payloadLength n"
    using assms(1) by (simp_all add: honest_def)
  have n: "0 < n" using assms(4) by simp
  note make = make_report [OF n assms(2) h(2), where publicKey = "computors ! i" and timelock = "lock (rSystemTick R + rOffset R)" and
      systemTick = "rSystemTick R" and offset = "rOffset R" and ts = "rTimes R" and num = "rNumerator R" and den = "rDenominator R"]
  show ?thesis
  proof (cases ?make)
    case None
    then have "feeOf R c = 0" using make assms(3,4) set_charged [of n "feeOf R"] by (auto simp: feeOf_def)
    moreover have "sentBy computors txs i = {}" using h(1) None by simp
    ultimately show ?thesis using collect_frame [OF wf_init assms(4) i(2)] zero by simp
  next
    case (Some tx)
    then have "madeReport n (computors ! i) (lock (rSystemTick R + rOffset R)) (rSystemTick R + rOffset R) (feeOf R) tx"
      "charged n (feeOf R) \<noteq> []" using make by (simp_all add: feeOf_def)
    then show ?thesis using collect_made [OF _ _ assms(2) i(1) assms(3,4) wf_init, of computors lock "feeOf R" tx txs] h(1) Some zero by simp
  qed
qed

section \<open>Charging the contracts\<close>

definition quorumOf :: "u64 list list \<Rightarrow> nat \<Rightarrow> u64" where
  "quorumOf reports c = fst (calculateAscendingQuorumValue (reports ! c) (of_nat NUMBER_OF_COMPUTORS))"

lemma subtract_local:
  assumes "getContractFeeReserve c s = getContractFeeReserve c s'" "length (contractFeeReserves s) = length (contractFeeReserves s')"
  shows "getContractFeeReserve c (subtractFromContractFeeReserve c amount s) =
    getContractFeeReserve c (subtractFromContractFeeReserve c amount s')"
  using assms by (simp add: subtract_set)

lemma chargeContract_eq:
  "chargeContract (reports, s) c =
     (reports[c := snd (calculateAscendingQuorumValue (reports ! c) (of_nat NUMBER_OF_COMPUTORS))],
      if quorumOf reports c > 0 then subtractFromContractFeeReserve c (quorumOf reports c) s else s)"
  by (simp add: chargeContract_def quorumOf_def Let_def split: prod.splits)

lemma charge_loop:
  assumes "0 < m" "foldl chargeContract (reports, s) [1..<m] = (r', s')"
  shows "(\<forall>c\<ge>m. r' ! c = reports ! c) \<and> length (contractFeeReserves s') = length (contractFeeReserves s) \<and>
    (\<forall>c. getContractFeeReserve c s' =
      getContractFeeReserve c (if 0 < c \<and> c < m \<and> quorumOf reports c > 0 then subtractFromContractFeeReserve c (quorumOf reports c) s else s))"
  using assms
proof (induction m arbitrary: r' s' rule: nat_induct_non_zero)
  case (Suc m)
  obtain r1 s1 where e: "foldl chargeContract (reports, s) [1..<m] = (r1, s1)" by (cases rule: prod.exhaust)
  note IH = Suc.IH [OF e]
  have step: "(r', s') = chargeContract (r1, s1) m" using Suc.prems e Suc.hyps by simp
  have q: "quorumOf r1 m = quorumOf reports m" using IH by (simp add: quorumOf_def)
  have s': "s' = (if quorumOf reports m > 0 then subtractFromContractFeeReserve m (quorumOf reports m) s1 else s1)"
    using step q by (simp add: chargeContract_eq)
  have len: "length (contractFeeReserves s1) = length (contractFeeReserves s)" using IH by simp
  have at_m: "getContractFeeReserve m s1 = getContractFeeReserve m s" using IH by simp
  have "getContractFeeReserve c s' =
      getContractFeeReserve c (if 0 < c \<and> c < Suc m \<and> quorumOf reports c > 0 then subtractFromContractFeeReserve c (quorumOf reports c) s else s)" for c
  proof (cases "c = m")
    case True
    then show ?thesis using s' subtract_local [OF at_m len] at_m Suc.hyps by simp
  next
    case False
    then have "getContractFeeReserve c s' = getContractFeeReserve c s1" using s' subtract_other by simp
    then show ?thesis using IH False by (simp add: less_Suc_eq)
  qed
  moreover have "\<forall>c\<ge>Suc m. r' ! c = reports ! c" using step IH by (simp add: chargeContract_eq)
  moreover have "length (contractFeeReserves s') = length (contractFeeReserves s)" using s' len by simp
  ultimately show ?case by blast
qed simp

lemma processReports_reserve:
  assumes "0 < c" "c < n" "c < length (contractFeeReserves s)" "uint (quorumOf reports c) < 2 ^ 63"
  shows "sint (getContractFeeReserve c (snd (processReports n reports s))) =
    clamp 64 (sint (getContractFeeReserve c s) - uint (quorumOf reports c))"
proof -
  obtain r' s' where e: "foldl chargeContract (reports, s) [1..<n] = (r', s')" by (cases rule: prod.exhaust)
  have n: "0 < n" using assms(2) by simp
  have s': "getContractFeeReserve c s' =
      getContractFeeReserve c (if quorumOf reports c > 0 then subtractFromContractFeeReserve c (quorumOf reports c) s else s)"
    using charge_loop [OF n e] assms(1,2) by simp
  have "sint (getContractFeeReserve c s') = clamp 64 (sint (getContractFeeReserve c s) - uint (quorumOf reports c))"
  proof (cases "quorumOf reports c > 0")
    case True
    then show ?thesis using s' subtract_reserve [OF disjI2 [OF assms(4)] assms(3)] assms(4) by simp
  next
    case False
    then have "quorumOf reports c = 0" by (simp add: word_gt_0)
    then show ?thesis using s' sint_bounds(1,2) [of "getContractFeeReserve c s"] by (simp add: clamp_def)
  qed
  then show ?thesis using e by (simp add: processReports_def)
qed

text \<open>
  C34: A report that a computor makes is read back by every collector: its transaction passes all checks and stores, in the column of
  that computor, exactly the fees computed from the execution times; other columns and contracts without a fee keep their value. No
  transaction is made exactly when no contract has a fee.
\<close>

theorem execution_fee_report_roundtrip:
  assumes "n \<le> 82" "length (tx_input payload) = payloadLength n" "wfReports n reports" "0 < c" "c < n" "j < NUMBER_OF_COMPUTORS"
    "computors ! q = publicKey" "unat (systemTick + offset) mod NUMBER_OF_COMPUTORS = q"
  shows "case makeExecutionFeeTransaction n publicKey timelock systemTick offset executionTimes numerator denominator payload of
      None \<Rightarrow> reportFee executionTimes numerator denominator c = 0
    | Some tx \<Rightarrow> frc_processTransactionData n computors tx timelock reports ! c ! j =
        (if j = q \<and> reportFee executionTimes numerator denominator c \<noteq> 0 then reportFee executionTimes numerator denominator c
         else reports ! c ! j)"
proof -
  let ?fee = "reportFee executionTimes numerator denominator"
  have n: "0 < n" using assms(5) by simp
  note make = make_report [OF n assms(1,2), where publicKey = publicKey and timelock = timelock and systemTick = systemTick and
      offset = offset and ts = executionTimes and num = numerator and den = denominator]
  show ?thesis
  proof (cases "makeExecutionFeeTransaction n publicKey timelock systemTick offset executionTimes numerator denominator payload")
    case None
    then show ?thesis using make assms(4,5) set_charged [of n ?fee] by auto
  next
    case (Some tx)
    then have tx: "madeReport n (computors ! q) timelock (systemTick + offset) ?fee tx" "charged n ?fee \<noteq> []"
      using make assms(7) by simp_all
    have "frc_processTransactionData n computors tx timelock reports ! c ! j =
        (if j = q \<and> ?fee c \<noteq> 0 then ?fee c else reports ! c ! j)"
    proof (cases "j = q")
      case True
      then show ?thesis using process_made [OF tx assms(1,3) assms(8) [symmetric] assms(4,5)] by simp
    next
      case False
      then have "unat (tx_tick tx) mod NUMBER_OF_COMPUTORS \<noteq> j" using tx(1) assms(8) by (simp add: madeReport_def)
      then show ?thesis using process_frame [OF assms(3,5,6)] False by simp
    qed
    then show ?thesis using Some by simp
  qed
qed

theorem execution_fee_report_roundtrip_witness:
  "wfReports 3 (frc_init 3) \<and>
   (case makeExecutionFeeTransaction 3 7 99 1351 2 [0, 0, 1000] 1 10
      \<lparr>sourcePublicKey = 0, destinationPublicKey = 0, tx_amount = 0, tx_tick = 0, inputType = 0, inputSize = 0, tx_input = replicate 144 0\<rparr> of
      None \<Rightarrow> reportFee [0, 0, 1000] 1 10 2 = 0
    | Some tx \<Rightarrow> frc_processTransactionData 3 [5, 7] tx 99 (frc_init 3) ! 2 ! 1 = 100)"
proof -
  have len: "length (replicate 144 (0 :: u8)) = payloadLength 3" by (simp add: payloadLength_def feesPosition_def alignmentPadding_def)
  have fee: "reportFee [0, 0, 1000] 1 10 2 = 100" by (simp add: reportFee_def)
  show ?thesis
    using execution_fee_report_roundtrip [where n = 3 and payload = "\<lparr>sourcePublicKey = 0, destinationPublicKey = 0, tx_amount = 0,
        tx_tick = 0, inputType = 0, inputSize = 0, tx_input = replicate 144 0\<rparr>" and reports = "frc_init 3" and c = 2 and j = 1 and
        computors = "[5, 7]" and q = 1 and publicKey = 7 and systemTick = 1351 and offset = 2 and timelock = 99 and
        executionTimes = "[0, 0, 1000]" and numerator = 1 and denominator = 10]
      len fee wf_init [of 3] by (simp add: NUMBER_OF_COMPUTORS_def split: option.splits)
qed

lemma quorum_honest:
  assumes "n \<le> 82" "0 < c" "c < n" "finite F" "card F \<le> 225"
    "\<And>i. i < NUMBER_OF_COMPUTORS \<Longrightarrow> i \<notin> F \<Longrightarrow> honest n computors lock txs i (R i)"
  defines "v \<equiv> quorumOf (collectReports n computors lock txs (frc_init n)) c"
  shows "\<exists>a b. a < NUMBER_OF_COMPUTORS \<and> a \<notin> F \<and> b < NUMBER_OF_COMPUTORS \<and> b \<notin> F \<and> feeOf (R a) c \<le> v \<and> v \<le> feeOf (R b) c"
proof -
  let ?col = "collectReports n computors lock txs (frc_init n) ! c"
  have len: "length ?col = NUMBER_OF_COMPUTORS" using collect_wf [OF wf_init] assms(3) by (simp add: wfReports_def)
  have pos: "0 < length ?col" "2 * length ?col < 2 ^ 31" "card F < length ?col - 2 * length ?col div 3"
    using assms(5) by (simp_all add: len NUMBER_OF_COMPUTORS_def)
  have "v = fst (calculateAscendingQuorumValue ?col (of_nat (length ?col)))" by (simp add: v_def quorumOf_def len)
  from quorum_range [OF pos(1,2) assms(4) pos(3) this]
  obtain a b where ab: "a < NUMBER_OF_COMPUTORS" "a \<notin> F" "b < NUMBER_OF_COMPUTORS" "b \<notin> F" "?col ! a \<le> v" "v \<le> ?col ! b"
    using len by auto
  moreover have "?col ! i = feeOf (R i) c" if "i < NUMBER_OF_COMPUTORS" "i \<notin> F" for i
    using honest_collected [OF assms(6) [OF that] assms(1-3)] .
  ultimately show ?thesis by metis
qed

text \<open>
  C33: The charge of a phase. Whatever up to 225 of the 676 computors send, a contract is charged a fee that lies between the fees
  that two honest computors measured for it; its reserve falls by exactly this fee (down to the least value), and the collector is
  empty for the next phase.
\<close>

theorem execution_fees_between_honest:
  assumes "n \<le> 82" "0 < c" "c < n" "c < length (contractFeeReserves s)" "finite F" "card F \<le> 225"
    "\<And>i. i < NUMBER_OF_COMPUTORS \<Longrightarrow> i \<notin> F \<Longrightarrow> honest n computors lock txs i (R i) \<and> uint (feeOf (R i) c) < 2 ^ 63"
  shows "let reports = collectReports n computors lock txs (frc_init n); v = quorumOf reports c; (reports', s') = processReports n reports s
    in (\<exists>a b. a < NUMBER_OF_COMPUTORS \<and> a \<notin> F \<and> b < NUMBER_OF_COMPUTORS \<and> b \<notin> F \<and> feeOf (R a) c \<le> v \<and> v \<le> feeOf (R b) c) \<and>
       sint (getContractFeeReserve c s') = clamp 64 (sint (getContractFeeReserve c s) - uint v) \<and> reports' = frc_init n"
proof -
  let ?r = "collectReports n computors lock txs (frc_init n)"
  have range: "\<exists>a b. a < NUMBER_OF_COMPUTORS \<and> a \<notin> F \<and> b < NUMBER_OF_COMPUTORS \<and> b \<notin> F \<and>
      feeOf (R a) c \<le> quorumOf ?r c \<and> quorumOf ?r c \<le> feeOf (R b) c"
    using quorum_honest [OF assms(1-3,5,6)] assms(7) by blast
  then have "uint (quorumOf ?r c) < 2 ^ 63" using assms(7) by (meson le_less_trans word_le_def)
  from processReports_reserve [OF assms(2-4) this] range show ?thesis
    by (simp add: processReports_def split: prod.splits)
qed

theorem execution_fees_between_honest_witness:
  "\<exists>a b. a < NUMBER_OF_COMPUTORS \<and> a \<notin> {3} \<and> b < NUMBER_OF_COMPUTORS \<and> b \<notin> {3} \<and>
     (0 :: u64) \<le> quorumOf (collectReports 2 [] (\<lambda>_. 0) [] (frc_init 2)) 1 \<and>
     quorumOf (collectReports 2 [] (\<lambda>_. 0) [] (frc_init 2)) 1 \<le> 0"
proof -
  let ?p = "\<lparr>sourcePublicKey = 0, destinationPublicKey = 0, tx_amount = 0, tx_tick = 0, inputType = 0, inputSize = 0,
    tx_input = replicate 128 0\<rparr>"
  let ?R = "\<lambda>i. \<lparr>rSystemTick = of_nat i, rOffset = 0, rTimes = [0, 0], rNumerator = 1, rDenominator = 1, rPayload = ?p\<rparr>"
  have "[1..<2] = [1 :: nat]" by (simp add: upt_rec)
  then have "makeExecutionFeeTransaction 2 key lock (of_nat i) 0 [0, 0] 1 1 ?p = None" for key lock and i :: nat
    by (simp add: makeExecutionFeeTransaction_def buildExecutionFeeReportPayload_def addReportEntry_def)
  then have "honest 2 [] (\<lambda>_. 0) [] i (?R i) \<and> uint (feeOf (?R i) 1) < 2 ^ 63" if "i < NUMBER_OF_COMPUTORS" for i
    using that by (simp add: honest_def sentBy_def feeOf_def reportFee_def NUMBER_OF_COMPUTORS_def payloadLength_def feesPosition_def
        alignmentPadding_def unat_of_nat_32)
  then show ?thesis
    using execution_fees_between_honest [of 2 1 "\<lparr>contractFeeReserves = [0, 5], contract0ChangeFlags = 0\<rparr>" "{3}" "[]" "\<lambda>_. 0" "[]" ?R]
    by (simp add: Let_def feeOf_def reportFee_def split: prod.splits)
qed

text \<open>
  C35: The accumulator of execution times: after a phase, the times kept for the reports are, for every contract, the sum of the
  times of its executions in that phase in microseconds, capped at the largest 64-bit number; the times of the new phase start at zero.
\<close>

theorem execution_time_phase:
  assumes "wellFormed_eta n a" "c < n"
  shows "let a1 = startNewAccumulation n a; a2 = addTimes frequency runs a1; a3 = startNewAccumulation n a2
    in wellFormed_eta n a3 \<and> getCurrentPhaseAccumulatedTime a3 c = 0 \<and>
       unat (getPrevPhaseAccumulatedTimes a3 ! c) =
         min (\<Sum>(c', t)\<leftarrow>runs. if c' = c then unat (toMicroseconds frequency t) else 0) (2 ^ 64 - 1)"
proof -
  let ?a1 = "startNewAccumulation n a"
  have a1: "wellFormed_eta n ?a1" "getCurrentPhaseAccumulatedTime ?a1 c = 0" using startNew assms by auto
  note t = addTimes_total [OF a1(1) assms(2), of frequency runs]
  show ?thesis using startNew [of n "addTimes frequency runs ?a1"] t a1(2) assms(2) unfolding Let_def by simp
qed

theorem execution_time_phase_witness:
  "unat (getPrevPhaseAccumulatedTimes (startNewAccumulation 2 (addTimes 1000000 [(1, 5), (0, 9), (1, 7)] (startNewAccumulation 2 (eta_init 2)))) ! 1) = 12"
  using execution_time_phase [of 2 "eta_init 2" 1 1000000 "[(1, 5), (0, 9), (1, 7)]"]
    wellFormed_eta_init [of 2] by (simp add: Let_def toMicroseconds_def)

end
