(* ===== verification/Date_Time.thy ===== *)
theory Date_Time
  imports Prelude "HOL-Library.Monad_Syntax"
begin

text \<open>
  \<open>QPI::DateAndTime\<close> (\<open>src/src/qpi/qpi_date_time.h\<close>): a date and time packed into 64 bits, its fields, the check of validity and the
  addition of time units. Values of type \<open>sint64\<close> are integers here; where the source can leave the range of the type,
  \<open>wrap64\<close> writes the wrap-around out, and a conversion to \<open>uint64\<close> is that to a word.
\<close>

type_synonym DateAndTime = u64

section \<open>Fields\<close>

definition dt_set :: "u64 \<Rightarrow> u64 \<Rightarrow> u64 \<Rightarrow> u64 \<Rightarrow> u64 \<Rightarrow> u64 \<Rightarrow> u64 \<Rightarrow> u64 \<Rightarrow> DateAndTime" where
  "dt_set year month day hour minute second millisec microsec =
     push_bit 46 year OR push_bit 42 month OR push_bit 37 day OR push_bit 32 hour OR push_bit 26 minute OR push_bit 20 second OR
     push_bit 10 millisec OR microsec"

definition setInvalid :: "bool \<Rightarrow> DateAndTime" where
  "setInvalid smallestValue = (if smallestValue then 0 else 0xFFFFFFFFFFFFFFFF)"

definition setDate :: "u64 \<Rightarrow> u64 \<Rightarrow> u64 \<Rightarrow> DateAndTime \<Rightarrow> DateAndTime" where
  "setDate year month day v = (v AND 0x1fffffffff) OR (push_bit 46 year OR push_bit 42 month OR push_bit 37 day)"

definition setTime :: "u64 \<Rightarrow> u64 \<Rightarrow> u64 \<Rightarrow> u64 \<Rightarrow> u64 \<Rightarrow> DateAndTime \<Rightarrow> DateAndTime" where
  "setTime hour minute second millisec microsec v =
     (v AND push_bit 37 0x1ffffff) OR
     (push_bit 32 hour OR push_bit 26 minute OR push_bit 20 second OR push_bit 10 millisec OR microsec)"

definition getYear :: "DateAndTime \<Rightarrow> u16" where
  "getYear v = ucast (drop_bit 46 v)"

definition getMonth :: "DateAndTime \<Rightarrow> u8" where
  "getMonth v = ucast (drop_bit 42 v) AND 0b1111"

definition getDay :: "DateAndTime \<Rightarrow> u8" where
  "getDay v = ucast (drop_bit 37 v) AND 0b11111"

definition getHour :: "DateAndTime \<Rightarrow> u8" where
  "getHour v = ucast (drop_bit 32 v) AND 0b11111"

definition getMinute :: "DateAndTime \<Rightarrow> u8" where
  "getMinute v = ucast (drop_bit 26 v) AND 0b111111"

definition getSecond :: "DateAndTime \<Rightarrow> u8" where
  "getSecond v = ucast (drop_bit 20 v) AND 0b111111"

definition getMillisec :: "DateAndTime \<Rightarrow> u16" where
  "getMillisec v = ucast (drop_bit 10 v) AND 0b1111111111"

definition getMicrosecDuringMillisec :: "DateAndTime \<Rightarrow> u16" where
  "getMicrosecDuringMillisec v = ucast v AND 0b1111111111"

section \<open>The calendar of the source\<close>

definition isLeapYear :: "u64 \<Rightarrow> bool" where
  "isLeapYear year =
     (if year mod 4 \<noteq> 0 then False
      else if year mod 100 = 0 then (if year mod 400 = 0 then True else False)
      else True)"

definition daysInMonth :: "u64 \<Rightarrow> u64 \<Rightarrow> u8" where
  "daysInMonth year month =
     (if month < 1 \<or> month > 12 then 0
      else if month = 2 \<and> isLeapYear year then 29
      else [0, 31, 28, 31, 30, 31, 30, 31, 31, 30, 31, 30, 31] ! unat month)"

definition isValidFields :: "u64 \<Rightarrow> u64 \<Rightarrow> u64 \<Rightarrow> u64 \<Rightarrow> u64 \<Rightarrow> u64 \<Rightarrow> u64 \<Rightarrow> u64 \<Rightarrow> bool" where
  "isValidFields year month day hour minute second millisec microsec =
     (if year > 0xffff then False
      else if month > 12 \<or> month = 0 then False
      else if day > 31 \<or> day = 0 then False
      else if day = 31 \<and> month \<noteq> 1 \<and> month \<noteq> 3 \<and> month \<noteq> 5 \<and> month \<noteq> 7 \<and> month \<noteq> 8 \<and> month \<noteq> 10 \<and> month \<noteq> 12 then False
      else if day = 30 \<and> month = 2 then False
      else if day = 29 \<and> month = 2 \<and> \<not> isLeapYear year then False
      else if hour \<ge> 24 then False
      else if minute \<ge> 60 then False
      else if second \<ge> 60 then False
      else if millisec \<ge> 1000 then False
      else if microsec \<ge> 1000 then False
      else True)"

definition dt_isValid :: "DateAndTime \<Rightarrow> bool" where
  "dt_isValid v =
     (if v = 0 then False
      else isValidFields (ucast (getYear v)) (ucast (getMonth v)) (ucast (getDay v)) (ucast (getHour v)) (ucast (getMinute v))
             (ucast (getSecond v)) (ucast (getMillisec v)) (ucast (getMicrosecDuringMillisec v)))"

definition setIfValid :: "u64 \<Rightarrow> u64 \<Rightarrow> u64 \<Rightarrow> u64 \<Rightarrow> u64 \<Rightarrow> u64 \<Rightarrow> u64 \<Rightarrow> u64 \<Rightarrow> DateAndTime \<Rightarrow> bool \<times> DateAndTime" where
  "setIfValid year month day hour minute second millisec microsec v =
     (if \<not> isValidFields year month day hour minute second millisec microsec then (False, v)
      else (True, dt_set year month day hour minute second millisec microsec))"

text \<open>The comparison operators compare the packed values.\<close>

definition dt_less :: "DateAndTime \<Rightarrow> DateAndTime \<Rightarrow> bool" where
  "dt_less v other \<longleftrightarrow> v < other"

definition dt_greater :: "DateAndTime \<Rightarrow> DateAndTime \<Rightarrow> bool" where
  "dt_greater v other \<longleftrightarrow> v > other"

definition dt_lessEq :: "DateAndTime \<Rightarrow> DateAndTime \<Rightarrow> bool" where
  "dt_lessEq v other \<longleftrightarrow> v \<le> other"

definition dt_greaterEq :: "DateAndTime \<Rightarrow> DateAndTime \<Rightarrow> bool" where
  "dt_greaterEq v other \<longleftrightarrow> v \<ge> other"

section \<open>Addition with carry\<close>

definition wrap64 :: "int \<Rightarrow> int" where
  "wrap64 x = (x + 2 ^ 63) mod 2 ^ 64 - 2 ^ 63"

text \<open>Division of the source: towards zero, for a positive divisor.\<close>

definition cdiv :: "int \<Rightarrow> int \<Rightarrow> int" where
  "cdiv a b = (if a < 0 then - ((- a) div b) else a div b)"

definition addWithoutOverflow :: "int \<Rightarrow> int \<Rightarrow> int option" where
  "addWithoutOverflow val valToAdd =
     (let sm = wrap64 (val + valToAdd)
      in if val < 0 \<and> valToAdd < 0 \<and> sm > 0 then None
         else if val > 0 \<and> valToAdd > 0 \<and> sm < 0 then None
         else Some sm)"

definition splitCarry :: "int \<Rightarrow> int \<Rightarrow> int \<times> int" where
  "splitCarry factor low =
     (if low = 0 then (low, 0)
      else if low > 0 then (low mod factor, low div factor)
      else let highCarryOut = cdiv (wrap64 (low - factor + 1)) factor
           in (wrap64 (low - wrap64 (highCarryOut * factor)), highCarryOut))"

definition addAndComputeCarry :: "int \<Rightarrow> int \<Rightarrow> int \<Rightarrow> int \<Rightarrow> (int \<times> int) option" where
  "addAndComputeCarry low factor lowAdd1 lowAdd2 =
     do {
       low1 \<leftarrow> addWithoutOverflow low lowAdd1;
       low2 \<leftarrow> (if lowAdd2 \<noteq> 0 then addWithoutOverflow low1 lowAdd2 else Some low1);
       Some (splitCarry factor low2)
     }"

section \<open>Adding days, months and years\<close>

definition leapYear_int :: "int \<Rightarrow> bool" where
  "leapYear_int y = isLeapYear (of_int y)"

definition monthDays :: "int \<Rightarrow> int \<Rightarrow> int" where
  "monthDays y m = uint (daysInMonth (of_int y) (of_int m))"

definition daysPer400years :: int where
  "daysPer400years = 97 * 366 + 303 * 365"

function skipYearsUp :: "int \<Rightarrow> int \<Rightarrow> int \<Rightarrow> int \<times> int" where
  "skipYearsUp yShift newYear days =
     (if days \<ge> 365
      then let daysInYear = (if leapYear_int (newYear + yShift) then 366 else 365)
           in if days < daysInYear then (newYear, days) else skipYearsUp yShift (newYear + 1) (days - daysInYear)
      else (newYear, days))"
  by auto
termination by (relation "measure (\<lambda>(_, _, days). nat days)") auto

function skipYearsDown :: "int \<Rightarrow> int \<Rightarrow> int \<Rightarrow> int \<times> int" where
  "skipYearsDown yShift newYear days =
     (if days \<le> - 365
      then let daysInYear = (if leapYear_int (newYear + yShift) then - 366 else - 365)
           in if days > daysInYear then (newYear, days) else skipYearsDown yShift (newYear - 1) (days - daysInYear)
      else (newYear, days))"
  by auto
termination by (relation "measure (\<lambda>(_, _, days). nat (- days))") auto

definition dayOverflow :: "int \<Rightarrow> int \<Rightarrow> int \<Rightarrow> int \<times> int" where
  "dayOverflow newYear newMonth newDay =
     (if newDay > 28 \<and> newDay > monthDays newYear newMonth then (newMonth + 1, newDay - monthDays newYear newMonth)
      else (newMonth, newDay))"

text \<open>The body of the first loop over the months, on year, month, day and the days that are left.\<close>

definition forwardStep :: "int \<times> int \<times> int \<times> int \<Rightarrow> int \<times> int \<times> int \<times> int" where
  "forwardStep = (\<lambda>(newYear, newMonth, newDay, days).
     let md = monthDays newYear newMonth;
         (m1, d1, left) =
           (if days \<ge> md then (newMonth + 1, newDay, days - md)
            else if newDay + days > md then (newMonth + 1, newDay + days - md, 0)
            else (newMonth, newDay + days, 0));
         (y2, m2) = (if m1 > 12 then (newYear + 1, 1) else (newYear, m1));
         (m3, d3) = dayOverflow y2 m2 d1
     in (y2, m3, d3, left))"

definition backwardStep :: "int \<times> int \<times> int \<times> int \<Rightarrow> int \<times> int \<times> int \<times> int" where
  "backwardStep = (\<lambda>(newYear, newMonth, newDay, days).
     if - days < newDay then (newYear, newMonth, newDay + days, 0)
     else let (y1, m1) = (if newMonth - 1 < 1 then (newYear - 1, 12) else (newYear, newMonth - 1));
              md = monthDays y1 m1
          in if - days \<ge> md then (y1, m1, newDay, days + md) else (y1, m1, newDay + (md + days), 0))"

partial_function (option) forwardLoop :: "int \<times> int \<times> int \<times> int \<Rightarrow> (int \<times> int \<times> int \<times> int) option" where
  "forwardLoop s = (if snd (snd (snd s)) > 0 then forwardLoop (forwardStep s) else Some s)"

partial_function (option) backwardLoop :: "int \<times> int \<times> int \<times> int \<Rightarrow> (int \<times> int \<times> int \<times> int) option" where
  "backwardLoop s = (if snd (snd (snd s)) < 0 then backwardLoop (backwardStep s) else Some s)"

declare forwardLoop.simps [code] backwardLoop.simps [code]

definition skip400years :: "int \<Rightarrow> int \<Rightarrow> int \<times> int" where
  "skip400years newYear days =
     (if days \<ge> daysPer400years \<or> days \<le> - daysPer400years
      then let factor400years = cdiv days daysPer400years
           in (newYear + factor400years * 400, days - factor400years * daysPer400years)
      else (newYear, days))"

definition skipYears :: "int \<Rightarrow> int \<Rightarrow> int \<Rightarrow> int \<times> int" where
  "skipYears newYear newMonth days =
     (if days \<ge> 365 then skipYearsUp (if newMonth \<ge> 3 then 1 else 0) newYear days
      else if days \<le> - 365 then skipYearsDown (if newMonth \<ge> 3 then 0 else - 1) newYear days
      else (newYear, days))"

text \<open>The end of \<open>add\<close>: months and years are added, a day past the end of its month moves to the next one.\<close>

definition addMonths :: "int \<Rightarrow> int \<Rightarrow> int \<Rightarrow> (int \<times> int) option" where
  "addMonths months newYear newMonth =
     (if months \<noteq> 0
      then do {
        (month0, yearsCarry) \<leftarrow> addAndComputeCarry (newMonth - 1) 12 months 0;
        year1 \<leftarrow> (if yearsCarry \<noteq> 0 then addWithoutOverflow newYear yearsCarry else Some newYear);
        Some (year1, month0 + 1)
      }
      else Some (newYear, newMonth))"

definition finishDate :: "int \<Rightarrow> int \<Rightarrow> int \<times> int \<times> int \<times> int \<Rightarrow> (int \<times> int \<times> int) option" where
  "finishDate years months = (\<lambda>(newYear, newMonth, newDay, _).
     do {
       (y1, m1) \<leftarrow> addMonths months newYear newMonth;
       y2 \<leftarrow> (if years \<noteq> 0 then addWithoutOverflow y1 years else Some y1);
       let (m2, d2) = dayOverflow y2 m1 newDay;
       if y2 < 0 \<or> y2 > 0xffff then None else Some (y2, m2, d2)
     })"

text \<open>
  Both \<open>add\<close> functions: the outer option is \<open>None\<close> when a loop does not end, the flag is the value that the source returns, and
  the object is given back as it is left.
\<close>

definition addDate :: "int \<Rightarrow> int \<Rightarrow> int \<Rightarrow> DateAndTime \<Rightarrow> (bool \<times> DateAndTime) option" where
  "addDate years months days v =
     (let newDay = uint (getDay v); newMonth = uint (getMonth v); newYear = uint (getYear v)
      in if \<not> dt_isValid v then Some (False, v)
         else let (y1, days1) = skip400years newYear days;
                  (y2, days2) = skipYears y1 newMonth days1
              in do {
                   s1 \<leftarrow> forwardLoop (y2, newMonth, newDay, days2);
                   s2 \<leftarrow> backwardLoop s1;
                   Some (case finishDate years months s2 of
                           None \<Rightarrow> (False, v)
                         | Some (y, m, d) \<Rightarrow> (True, setDate (of_int y) (of_int m) (of_int d) v))
                 })"

definition addUnit :: "int \<Rightarrow> int \<Rightarrow> int \<Rightarrow> int \<Rightarrow> (int \<times> int) option" where
  "addUnit low factor amount carry = (if amount \<noteq> 0 \<or> carry \<noteq> 0 then addAndComputeCarry low factor amount carry else Some (low, 0))"

definition addTimeOfDay :: "int \<Rightarrow> int \<Rightarrow> int \<Rightarrow> int \<Rightarrow> int \<Rightarrow> DateAndTime \<Rightarrow> (DateAndTime \<times> int) option" where
  "addTimeOfDay hours minutes seconds millisecs microsecs v =
     do {
       (newMicrosec, millisecCarry) \<leftarrow> addUnit (uint (getMicrosecDuringMillisec v)) 1000 microsecs 0;
       (newMillisec, secCarry) \<leftarrow> addUnit (uint (getMillisec v)) 1000 millisecs millisecCarry;
       (newSec, minuteCarry) \<leftarrow> addUnit (uint (getSecond v)) 60 seconds secCarry;
       (newMinute, hourCarry) \<leftarrow> addUnit (uint (getMinute v)) 60 minutes minuteCarry;
       (newHour, dayCarry) \<leftarrow> addUnit (uint (getHour v)) 24 hours hourCarry;
       Some (setTime (of_int newHour) (of_int newMinute) (of_int newSec) (of_int newMillisec) (of_int newMicrosec) v, dayCarry)
     }"

definition dt_add :: "int \<Rightarrow> int \<Rightarrow> int \<Rightarrow> int \<Rightarrow> int \<Rightarrow> int \<Rightarrow> int \<Rightarrow> int \<Rightarrow> DateAndTime \<Rightarrow> (bool \<times> DateAndTime) option" where
  "dt_add years months days hours minutes seconds millisecs microsecs v =
     (case addTimeOfDay hours minutes seconds millisecs microsecs v of
        None \<Rightarrow> Some (False, v)
      | Some (v1, dayCarry) \<Rightarrow>
          if dayCarry \<noteq> 0 \<or> days \<noteq> 0 \<or> months \<noteq> 0 \<or> years \<noteq> 0
          then (case (if dayCarry \<noteq> 0 then addWithoutOverflow days dayCarry else Some days) of
                  None \<Rightarrow> Some (False, v1)
                | Some days1 \<Rightarrow> addDate years months days1 v1)
          else Some (True, v1))"

definition addDays :: "int \<Rightarrow> DateAndTime \<Rightarrow> (bool \<times> DateAndTime) option" where
  "addDays days = addDate 0 0 days"

definition addMillisec :: "int \<Rightarrow> DateAndTime \<Rightarrow> (bool \<times> DateAndTime) option" where
  "addMillisec millisec = dt_add 0 0 0 0 0 0 millisec 0"

definition addMicrosec :: "int \<Rightarrow> DateAndTime \<Rightarrow> (bool \<times> DateAndTime) option" where
  "addMicrosec microsec = dt_add 0 0 0 0 0 0 0 microsec"

section \<open>Durations\<close>

definition timeDiffs :: "DateAndTime \<Rightarrow> DateAndTime \<Rightarrow> int \<times> int \<times> int \<times> int \<times> int" where
  "timeDiffs b e =
     (uint (getHour e) - uint (getHour b), uint (getMinute e) - uint (getMinute b), uint (getSecond e) - uint (getSecond b),
      uint (getMillisec e) - uint (getMillisec b), uint (getMicrosecDuringMillisec e) - uint (getMicrosecDuringMillisec b))"

definition guessDays :: "DateAndTime \<Rightarrow> DateAndTime \<Rightarrow> int" where
  "guessDays b e =
     (let dayDiff = uint (getDay e) - uint (getDay b); monthDiff = uint (getMonth e) - uint (getMonth b);
          yearDiff = uint (getYear e) - uint (getYear b); days = yearDiff * 365 + monthDiff * 28
      in if days = 0 then dayDiff else days)"

primrec countDays :: "nat \<Rightarrow> DateAndTime \<Rightarrow> DateAndTime \<Rightarrow> int \<Rightarrow> (DateAndTime \<times> int) option" where
  "countDays 0 e b totalDays = Some (b, totalDays)"
| "countDays (Suc i) e b totalDays =
     (if b \<noteq> e
      then let days = guessDays b e
           in do { (okay, b1) \<leftarrow> addDate 0 0 days b; countDays i e b1 (totalDays + days) }
      else Some (b, totalDays))"

definition durationMicrosec :: "DateAndTime \<Rightarrow> DateAndTime \<Rightarrow> u64 option" where
  "durationMicrosec v dt =
     (if \<not> dt_isValid v \<or> \<not> dt_isValid dt then Some 0xFFFFFFFFFFFFFFFF
      else if v = dt then Some 0
      else let (b, e) = (if dt_greater v dt then (dt, v) else (v, dt));
               (hourDiff, minuteDiff, secondDiff, milliDiff, microDiff) = timeDiffs b e;
               totalMicrosec = ((((hourDiff * 60) + minuteDiff) * 60 + secondDiff) * 1000 + milliDiff) * 1000 + microDiff
           in do {
                (okay, b1) \<leftarrow> dt_add 0 0 0 hourDiff minuteDiff secondDiff milliDiff microDiff b;
                if b1 \<noteq> e
                then do {
                  (b2, totalDays) \<leftarrow> countDays 10 e b1 0;
                  Some (if b2 \<noteq> e then 0xFFFFFFFFFFFFFFFF
                        else of_int totalMicrosec + of_int totalDays * (24 * 60 * 60 * 1000 * 1000))
                }
                else Some (of_int totalMicrosec)
              })"

definition durationDays :: "DateAndTime \<Rightarrow> DateAndTime \<Rightarrow> u64 option" where
  "durationDays v dt =
     do {
       ret \<leftarrow> durationMicrosec v dt;
       Some (if ret \<noteq> 0xFFFFFFFFFFFFFFFF then ret div (24 * 60 * 60 * 1000 * 1000) else ret)
     }"

end
