(* ===== verification/Date_Time_Fields.thy ===== *)
theory Date_Time_Fields
  imports Date_Time
begin

text \<open>
  The fields of \<open>DateAndTime\<close> as digits of one number: reading a field, packing fields, and replacing the date or the time of day.
\<close>

section \<open>Digits\<close>

lemma or_digits:
  fixes a b :: nat
  assumes "b < 2 ^ n"
  shows "a * 2 ^ n OR b = a * 2 ^ n + b"
proof -
  have "b = take_bit n b" using assms by (simp add: take_bit_nat_eq_self)
  then have "\<not> bit b i" if "n \<le> i" for i using that by (metis bit_take_bit_iff not_le)
  then have "\<not> bit (a * 2 ^ n) i \<or> \<not> bit b i" for i
    by (cases "n \<le> i") (auto simp: bit_push_bit_iff simp flip: push_bit_eq_mult)
  then show ?thesis by (metis disjunctive_add)
qed

lemma unat_push_small: "unat x * 2 ^ n < 2 ^ 64 \<Longrightarrow> unat (push_bit n (x::u64)) = unat x * 2 ^ n"
  by (simp add: unat_push_bit_64)

lemma unat_or: "unat (x OR y) = unat x OR unat y" for x y :: u64
  by (simp add: unsigned_or_eq)

lemma field_mask:
  "n \<le> 8 \<Longrightarrow> unat ((ucast (drop_bit k (v::u64)) :: u8) AND mask n) = unat v div 2 ^ k mod 2 ^ n"
  "n \<le> 16 \<Longrightarrow> unat ((ucast (drop_bit k (v::u64)) :: u16) AND mask n) = unat v div 2 ^ k mod 2 ^ n"
  by (simp_all add: unsigned_take_bit_eq unsigned_ucast_eq unat_drop_bit min_def flip: take_bit_eq_mask take_bit_eq_mod)

lemma masks: "(0b1111 :: u8) = mask 4" "(0b11111 :: u8) = mask 5" "(0b111111 :: u8) = mask 6" "(0b1111111111 :: u16) = mask 10"
  by (simp_all add: mask_eq_exp_minus_1)

lemma getters:
  "unat (getYear v) = unat v div 2 ^ 46 mod 2 ^ 16"
  "unat (getMonth v) = unat v div 2 ^ 42 mod 2 ^ 4"
  "unat (getDay v) = unat v div 2 ^ 37 mod 2 ^ 5"
  "unat (getHour v) = unat v div 2 ^ 32 mod 2 ^ 5"
  "unat (getMinute v) = unat v div 2 ^ 26 mod 2 ^ 6"
  "unat (getSecond v) = unat v div 2 ^ 20 mod 2 ^ 6"
  "unat (getMillisec v) = unat v div 2 ^ 10 mod 2 ^ 10"
  "unat (getMicrosecDuringMillisec v) = unat v mod 2 ^ 10"
proof -
  show "unat (getYear v) = unat v div 2 ^ 46 mod 2 ^ 16"
    by (simp only: getYear_def unsigned_ucast_eq unat_drop_bit take_bit_eq_mod) simp
  show "unat (getMicrosecDuringMillisec v) = unat v mod 2 ^ 10"
    using field_mask(2) [of 10 0 v] unfolding getMicrosecDuringMillisec_def masks by simp
qed (unfold getMonth_def getDay_def getHour_def getMinute_def getSecond_def getMillisec_def masks, (rule field_mask, simp)+)

section \<open>Packing\<close>

definition packDate :: "nat \<Rightarrow> nat \<Rightarrow> nat \<Rightarrow> nat" where
  "packDate y m d = (y * 2 ^ 4 + m) * 2 ^ 5 + d"

definition packTime :: "nat \<Rightarrow> nat \<Rightarrow> nat \<Rightarrow> nat \<Rightarrow> nat \<Rightarrow> nat" where
  "packTime h mi s ms us = (((h * 2 ^ 6 + mi) * 2 ^ 6 + s) * 2 ^ 10 + ms) * 2 ^ 10 + us"

lemma packDate_less: "y < 2 ^ 16 \<Longrightarrow> m < 2 ^ 4 \<Longrightarrow> d < 2 ^ 5 \<Longrightarrow> packDate y m d < 2 ^ 25"
  by (simp add: packDate_def)

lemma packTime_less: "h < 2 ^ 5 \<Longrightarrow> mi < 2 ^ 6 \<Longrightarrow> s < 2 ^ 6 \<Longrightarrow> ms < 2 ^ 10 \<Longrightarrow> us < 2 ^ 10 \<Longrightarrow> packTime h mi s ms us < 2 ^ 37"
  by (simp add: packTime_def)

lemma digit_div: "(b::nat) < 2 ^ n \<Longrightarrow> (a * 2 ^ n + b) div 2 ^ (n + k) = a div 2 ^ k"
  by (simp add: power_add div_mult2_eq)

lemma digit_div_one: "(b::nat) < 2 ^ n \<Longrightarrow> (a * 2 ^ n + b) div 2 ^ n = a"
  by simp

lemma digit_mod: "(b::nat) < 2 ^ n \<Longrightarrow> (a * 2 ^ n + b) mod 2 ^ n = b"
  by simp

lemma or_time:
  fixes h mi s ms us :: u64
  assumes "unat h < 2 ^ 5" "unat mi < 2 ^ 6" "unat s < 2 ^ 6" "unat ms < 2 ^ 10" "unat us < 2 ^ 10"
  shows "unat (push_bit 32 h OR push_bit 26 mi OR push_bit 20 s OR push_bit 10 ms OR us) =
    packTime (unat h) (unat mi) (unat s) (unat ms) (unat us)"
proof -
  have p: "unat (push_bit 32 h) = unat h * 2 ^ 32" "unat (push_bit 26 mi) = unat mi * 2 ^ 26"
    "unat (push_bit 20 s) = unat s * 2 ^ 20" "unat (push_bit 10 ms) = unat ms * 2 ^ 10"
    by (rule unat_push_small, use assms in simp)+
  have a: "unat ms * 2 ^ 10 OR unat us = unat ms * 2 ^ 10 + unat us" using assms by (intro or_digits)
  have b: "unat s * 2 ^ 20 OR (unat ms * 2 ^ 10 + unat us) = unat s * 2 ^ 20 + (unat ms * 2 ^ 10 + unat us)"
    using assms by (intro or_digits) simp
  have c: "unat mi * 2 ^ 26 OR (unat s * 2 ^ 20 + (unat ms * 2 ^ 10 + unat us)) =
      unat mi * 2 ^ 26 + (unat s * 2 ^ 20 + (unat ms * 2 ^ 10 + unat us))"
    using assms by (intro or_digits) simp
  have d: "unat h * 2 ^ 32 OR (unat mi * 2 ^ 26 + (unat s * 2 ^ 20 + (unat ms * 2 ^ 10 + unat us))) =
      unat h * 2 ^ 32 + (unat mi * 2 ^ 26 + (unat s * 2 ^ 20 + (unat ms * 2 ^ 10 + unat us)))"
    using assms by (intro or_digits) simp
  show ?thesis unfolding unat_or p a b c d packTime_def by simp
qed

lemma or_date:
  fixes y m d r :: u64
  assumes "unat y < 2 ^ 16" "unat m < 2 ^ 4" "unat d < 2 ^ 5" "unat r < 2 ^ 37"
  shows "unat (push_bit 46 y OR push_bit 42 m OR push_bit 37 d OR r) = packDate (unat y) (unat m) (unat d) * 2 ^ 37 + unat r"
proof -
  have p: "unat (push_bit 46 y) = unat y * 2 ^ 46" "unat (push_bit 42 m) = unat m * 2 ^ 42" "unat (push_bit 37 d) = unat d * 2 ^ 37"
    by (rule unat_push_small, use assms in simp)+
  have a: "unat d * 2 ^ 37 OR unat r = unat d * 2 ^ 37 + unat r" using assms by (intro or_digits)
  have b: "unat m * 2 ^ 42 OR (unat d * 2 ^ 37 + unat r) = unat m * 2 ^ 42 + (unat d * 2 ^ 37 + unat r)"
    using assms by (intro or_digits) simp
  have c: "unat y * 2 ^ 46 OR (unat m * 2 ^ 42 + (unat d * 2 ^ 37 + unat r)) =
      unat y * 2 ^ 46 + (unat m * 2 ^ 42 + (unat d * 2 ^ 37 + unat r))"
    using assms by (intro or_digits) simp
  show ?thesis unfolding unat_or p a b c packDate_def by simp
qed

lemma unat_dt_set:
  assumes "unat y < 2 ^ 16" "unat m < 2 ^ 4" "unat d < 2 ^ 5" "unat h < 2 ^ 5" "unat mi < 2 ^ 6" "unat s < 2 ^ 6"
    "unat ms < 2 ^ 10" "unat us < 2 ^ 10"
  shows "unat (dt_set y m d h mi s ms us) =
    packDate (unat y) (unat m) (unat d) * 2 ^ 37 + packTime (unat h) (unat mi) (unat s) (unat ms) (unat us)"
  unfolding dt_set_def
  by (subst or_date) (use assms or_time [OF assms(4-8)] packTime_less [OF assms(4-8)] in simp_all)

lemma unat_setDate:
  assumes "unat y < 2 ^ 16" "unat m < 2 ^ 4" "unat d < 2 ^ 5"
  shows "unat (setDate y m d v) = packDate (unat y) (unat m) (unat d) * 2 ^ 37 + unat v mod 2 ^ 37"
proof -
  have r: "(v AND 0x1fffffffff) = take_bit 37 v" by (simp add: take_bit_eq_mask mask_eq_exp_minus_1)
  have u: "unat (take_bit 37 v) = unat v mod 2 ^ 37" by (simp only: unsigned_take_bit_eq) (simp only: take_bit_eq_mod)
  have "setDate y m d v = push_bit 46 y OR push_bit 42 m OR push_bit 37 d OR take_bit 37 v"
    by (simp only: setDate_def r or.assoc or.commute or.left_commute)
  then show ?thesis by (simp only: or_date [OF assms] u mod_less_divisor zero_less_power zero_less_numeral)
qed

lemma unat_setTime:
  assumes "unat h < 2 ^ 5" "unat mi < 2 ^ 6" "unat s < 2 ^ 6" "unat ms < 2 ^ 10" "unat us < 2 ^ 10"
  shows "unat (setTime h mi s ms us v) =
    (unat v div 2 ^ 37 mod 2 ^ 25) * 2 ^ 37 + packTime (unat h) (unat mi) (unat s) (unat ms) (unat us)"
proof -
  let ?t = "push_bit 32 h OR push_bit 26 mi OR push_bit 20 s OR push_bit 10 ms OR us"
  have m: "(0x1ffffff :: u64) = mask 25" by (simp add: mask_eq_exp_minus_1)
  have d: "v AND push_bit 37 (mask 25) = push_bit 37 (take_bit 25 (drop_bit 37 v))"
    by (rule bit_eqI) (auto simp: bit_simps)
  have u: "unat (take_bit 25 (drop_bit 37 v)) = unat v div 2 ^ 37 mod 2 ^ 25"
    by (simp only: unsigned_take_bit_eq unat_drop_bit) (simp only: take_bit_eq_mod)
  have "unat (push_bit 37 (take_bit 25 (drop_bit 37 v))) = unat (take_bit 25 (drop_bit 37 v)) * 2 ^ 37"
    by (rule unat_push_small) (simp add: u)
  then show ?thesis
    unfolding setTime_def m d unat_or [of _ ?t] or_time [OF assms] u
    by (simp only: or_digits [OF packTime_less [OF assms]])
qed

section \<open>The fields as a view\<close>

definition dateOf :: "DateAndTime \<Rightarrow> int \<times> int \<times> int" where
  "dateOf v = (uint (getYear v), uint (getMonth v), uint (getDay v))"

definition timeOf :: "DateAndTime \<Rightarrow> int \<times> int \<times> int \<times> int \<times> int" where
  "timeOf v = (uint (getHour v), uint (getMinute v), uint (getSecond v), uint (getMillisec v), uint (getMicrosecDuringMillisec v))"

lemma unpack_date:
  assumes "unat v = packDate y m d * 2 ^ 37 + r" "y < 2 ^ 16" "m < 2 ^ 4" "d < 2 ^ 5" "r < 2 ^ 37"
  shows "dateOf v = (int y, int m, int d)"
proof -
  have q: "unat v div 2 ^ 37 = packDate y m d" unfolding assms(1) using assms(5) by simp
  have "unat v div 2 ^ 42 = packDate y m d div 2 ^ 5" "unat v div 2 ^ 46 = packDate y m d div 2 ^ 5 div 2 ^ 4"
    unfolding q [symmetric] by (simp_all flip: div_mult2_eq)
  moreover have "packDate y m d div 2 ^ 5 = y * 2 ^ 4 + m" "packDate y m d mod 2 ^ 5 = d"
    by (simp_all only: packDate_def digit_div_one [OF assms(4)] digit_mod [OF assms(4)])
  ultimately have "unat (getDay v) = d" "unat (getMonth v) = m" "unat (getYear v) = y"
    unfolding getters q using assms(2,3) by simp_all
  then show ?thesis by (auto simp: dateOf_def)
qed

lemma time_digits:
  "unat (getHour v) = unat v mod 2 ^ 37 div 2 ^ 32" "unat (getMinute v) = unat v mod 2 ^ 37 div 2 ^ 26 mod 2 ^ 6"
  "unat (getSecond v) = unat v mod 2 ^ 37 div 2 ^ 20 mod 2 ^ 6" "unat (getMillisec v) = unat v mod 2 ^ 37 div 2 ^ 10 mod 2 ^ 10"
  "unat (getMicrosecDuringMillisec v) = unat v mod 2 ^ 37 mod 2 ^ 10"
proof -
  have low: "x mod 2 ^ 37 div 2 ^ k mod 2 ^ n = x div 2 ^ k mod 2 ^ n" if "k + n \<le> 37" for x k n :: nat
  proof -
    have "take_bit n (drop_bit k (take_bit 37 x)) = take_bit n (drop_bit k x)" using that by (auto simp: take_bit_drop_bit min_def)
    then show ?thesis by (simp only: take_bit_eq_mod drop_bit_eq_div)
  qed
  show "unat (getHour v) = unat v mod 2 ^ 37 div 2 ^ 32" using low [of 32 5 "unat v"] unfolding getters by simp
  show "unat (getMicrosecDuringMillisec v) = unat v mod 2 ^ 37 mod 2 ^ 10" using low [of 0 10 "unat v"] unfolding getters by simp
  show "unat (getMinute v) = unat v mod 2 ^ 37 div 2 ^ 26 mod 2 ^ 6" "unat (getSecond v) = unat v mod 2 ^ 37 div 2 ^ 20 mod 2 ^ 6"
    "unat (getMillisec v) = unat v mod 2 ^ 37 div 2 ^ 10 mod 2 ^ 10" unfolding getters by (simp_all only: low)
qed

lemma unpack_time:
  assumes "unat v mod 2 ^ 37 = packTime h mi s ms us" "h < 2 ^ 5" "mi < 2 ^ 6" "s < 2 ^ 6" "ms < 2 ^ 10" "us < 2 ^ 10"
  shows "timeOf v = (int h, int mi, int s, int ms, int us)"
proof -
  let ?a = "h * 2 ^ 6 + mi" let ?b = "?a * 2 ^ 6 + s" let ?c = "?b * 2 ^ 10 + ms"
  have p: "packTime h mi s ms us = ?c * 2 ^ 10 + us" by (simp only: packTime_def)
  have "packTime h mi s ms us div 2 ^ 10 = ?c" "packTime h mi s ms us mod 2 ^ 10 = us"
    "packTime h mi s ms us div 2 ^ 20 = ?c div 2 ^ 10" "packTime h mi s ms us div 2 ^ 26 = ?c div 2 ^ 16"
    "packTime h mi s ms us div 2 ^ 32 = ?c div 2 ^ 22"
    using digit_div [OF assms(6), of ?c 10] digit_div [OF assms(6), of ?c 16] digit_div [OF assms(6), of ?c 22]
    unfolding p digit_div_one [OF assms(6)] digit_mod [OF assms(6)] by simp_all
  moreover have "?c mod 2 ^ 10 = ms" "?c div 2 ^ 10 = ?b" "?c div 2 ^ 16 = ?b div 2 ^ 6" "?c div 2 ^ 22 = ?b div 2 ^ 12"
    using digit_div [OF assms(5), of ?b 6] digit_div [OF assms(5), of ?b 12]
    unfolding digit_div_one [OF assms(5)] digit_mod [OF assms(5)] by simp_all
  moreover have "?b mod 2 ^ 6 = s" "?b div 2 ^ 6 = ?a" "?b div 2 ^ 12 = ?a div 2 ^ 6"
    using digit_div [OF assms(4), of ?a 6] unfolding digit_div_one [OF assms(4)] digit_mod [OF assms(4)] by simp_all
  moreover have "?a mod 2 ^ 6 = mi" "?a div 2 ^ 6 = h" by (simp_all only: digit_div_one [OF assms(3)] digit_mod [OF assms(3)])
  ultimately have "unat (getHour v) = h" "unat (getMinute v) = mi" "unat (getSecond v) = s" "unat (getMillisec v) = ms"
    "unat (getMicrosecDuringMillisec v) = us"
    unfolding time_digits assms(1) by (simp_all only:)
  then show ?thesis by (auto simp: timeOf_def)
qed

lemma unat_of_int: "0 \<le> x \<Longrightarrow> x < 2 ^ 64 \<Longrightarrow> unat (of_int x :: u64) = nat x"
  by (simp add: unat_eq_nat_uint uint_word_of_int_eq take_bit_int_eq_self)

definition dateRange :: "int \<times> int \<times> int \<Rightarrow> bool" where
  "dateRange = (\<lambda>(y, m, d). 0 \<le> y \<and> y < 2 ^ 16 \<and> 0 \<le> m \<and> m < 2 ^ 4 \<and> 0 \<le> d \<and> d < 2 ^ 5)"

definition timeRange :: "int \<times> int \<times> int \<times> int \<times> int \<Rightarrow> bool" where
  "timeRange = (\<lambda>(h, mi, s, ms, us). 0 \<le> h \<and> h < 2 ^ 5 \<and> 0 \<le> mi \<and> mi < 2 ^ 6 \<and> 0 \<le> s \<and> s < 2 ^ 6 \<and>
     0 \<le> ms \<and> ms < 2 ^ 10 \<and> 0 \<le> us \<and> us < 2 ^ 10)"

lemma timeOf_cong: "unat v mod 2 ^ 37 = unat w mod 2 ^ 37 \<Longrightarrow> timeOf v = timeOf w"
  by (simp only: timeOf_def uint_nat time_digits)

lemma dateOf_cong: "unat v div 2 ^ 37 mod 2 ^ 25 = unat w div 2 ^ 37 mod 2 ^ 25 \<Longrightarrow> dateOf v = dateOf w"
proof -
  assume e: "unat v div 2 ^ 37 mod 2 ^ 25 = unat w div 2 ^ 37 mod 2 ^ 25"
  have "x div 2 ^ (37 + k) mod 2 ^ n = x div 2 ^ 37 mod 2 ^ 25 div 2 ^ k mod 2 ^ n" if "k + n \<le> 25" for x k n :: nat
  proof -
    have "take_bit n (drop_bit (37 + k) x) = take_bit n (drop_bit k (take_bit 25 (drop_bit 37 x)))"
      using that by (intro bit_eqI) (auto simp: bit_simps ac_simps)
    then show ?thesis by (simp only: take_bit_eq_mod drop_bit_eq_div)
  qed
  from this [of 0 5] this [of 5 4] this [of 9 16] show ?thesis unfolding dateOf_def uint_nat getters using e by simp
qed

lemma view_setDate:
  fixes v :: DateAndTime
  assumes "dateRange (y, m, d)"
  defines "w \<equiv> setDate (of_int y) (of_int m) (of_int d) v"
  shows "dateOf w = (y, m, d)" "timeOf w = timeOf v" "unat w < 2 ^ 62"
proof -
  have r: "0 \<le> y" "y < 2 ^ 16" "0 \<le> m" "m < 2 ^ 4" "0 \<le> d" "d < 2 ^ 5" using assms(1) by (simp_all add: dateRange_def)
  have u: "unat (of_int y :: u64) = nat y" "unat (of_int m :: u64) = nat m" "unat (of_int d :: u64) = nat d"
    using r by (simp_all add: unat_of_int)
  have w: "unat w = packDate (nat y) (nat m) (nat d) * 2 ^ 37 + unat v mod 2 ^ 37"
    unfolding w_def by (subst unat_setDate) (use r in \<open>simp_all add: u nat_less_iff\<close>)
  have n: "nat y < 2 ^ 16" "nat m < 2 ^ 4" "nat d < 2 ^ 5" using r by (simp_all add: nat_less_iff)
  show "dateOf w = (y, m, d)" using unpack_date [OF w n] r by simp
  show "timeOf w = timeOf v" by (rule timeOf_cong) (simp add: w)
  show "unat w < 2 ^ 62" unfolding w using packDate_less [OF n] mod_less_divisor [of "2 ^ 37" "unat v"] by simp
qed

lemma view_setTime:
  fixes v :: DateAndTime
  assumes "timeRange (h, mi, s, ms, us)"
  defines "w \<equiv> setTime (of_int h) (of_int mi) (of_int s) (of_int ms) (of_int us) v"
  shows "dateOf w = dateOf v" "timeOf w = (h, mi, s, ms, us)" "unat w < 2 ^ 62"
proof -
  have r: "0 \<le> h" "h < 2 ^ 5" "0 \<le> mi" "mi < 2 ^ 6" "0 \<le> s" "s < 2 ^ 6" "0 \<le> ms" "ms < 2 ^ 10" "0 \<le> us" "us < 2 ^ 10"
    using assms(1) by (simp_all add: timeRange_def)
  have u: "unat (of_int h :: u64) = nat h" "unat (of_int mi :: u64) = nat mi" "unat (of_int s :: u64) = nat s"
    "unat (of_int ms :: u64) = nat ms" "unat (of_int us :: u64) = nat us"
    using r by (simp_all add: unat_of_int)
  have n: "nat h < 2 ^ 5" "nat mi < 2 ^ 6" "nat s < 2 ^ 6" "nat ms < 2 ^ 10" "nat us < 2 ^ 10" using r by (simp_all add: nat_less_iff)
  let ?t = "packTime (nat h) (nat mi) (nat s) (nat ms) (nat us)"
  have w: "unat w = (unat v div 2 ^ 37 mod 2 ^ 25) * 2 ^ 37 + ?t"
    unfolding w_def by (subst unat_setTime) (use n in \<open>simp_all only: u\<close>)
  have t: "?t < 2 ^ 37" by (rule packTime_less [OF n])
  have "unat w mod 2 ^ 37 = ?t" unfolding w by (rule digit_mod [OF t])
  then show "timeOf w = (h, mi, s, ms, us)" using unpack_time [OF _ n] r by simp
  have "unat w div 2 ^ 37 mod 2 ^ 25 = unat v div 2 ^ 37 mod 2 ^ 25" unfolding w digit_div_one [OF t] by simp
  then show "dateOf w = dateOf v" by (rule dateOf_cong)
  have "unat v div 2 ^ 37 mod 2 ^ 25 < 2 ^ 25" by simp
  then show "unat w < 2 ^ 62" unfolding w using t by (simp del: mod_less_divisor)
qed

end
