(* ===== verification/Date_Time_Calendar.thy ===== *)
theory Date_Time_Calendar
  imports Date_Time_Fields
begin

text \<open>
  The Gregorian calendar as a reference for \<open>DateAndTime\<close>: lengths of months and years, the number of days since the first day of
  year 0, and the time since then in microseconds. Its facts carry the proofs about \<open>add\<close> and \<open>durationMicrosec\<close>.
\<close>

section \<open>Years and months\<close>

definition leap :: "int \<Rightarrow> bool" where
  "leap y \<longleftrightarrow> 4 dvd y \<and> (100 dvd y \<longrightarrow> 400 dvd y)"

definition yearLength :: "int \<Rightarrow> int" where
  "yearLength y = (if leap y then 366 else 365)"

definition monthLength :: "int \<Rightarrow> int \<Rightarrow> int" where
  "monthLength y m = (if m = 2 then (if leap y then 29 else 28) else if m \<in> {4, 6, 9, 11} then 30 else 31)"

text \<open>Days before the first day of a year and before the first day of a month within its year.\<close>

definition daysBeforeYear :: "int \<Rightarrow> int" where
  "daysBeforeYear y = (\<Sum>k\<in>{0..<y}. yearLength k)"

definition daysBeforeMonth :: "int \<Rightarrow> int \<Rightarrow> int" where
  "daysBeforeMonth y m = (\<Sum>k\<in>{1..<m}. monthLength y k)"

definition dayNumber :: "int \<times> int \<times> int \<Rightarrow> int" where
  "dayNumber = (\<lambda>(y, m, d). daysBeforeYear y + daysBeforeMonth y m + d - 1)"

definition microsOfDay :: "int \<times> int \<times> int \<times> int \<times> int \<Rightarrow> int" where
  "microsOfDay = (\<lambda>(h, mi, s, ms, us). (((h * 60 + mi) * 60 + s) * 1000 + ms) * 1000 + us)"

definition microsPerDay :: int where
  "microsPerDay = 24 * 60 * 60 * 1000 * 1000"

definition micros :: "DateAndTime \<Rightarrow> int" where
  "micros v = dayNumber (dateOf v) * microsPerDay + microsOfDay (timeOf v)"

definition validDate :: "int \<times> int \<times> int \<Rightarrow> bool" where
  "validDate = (\<lambda>(y, m, d). 0 \<le> y \<and> y \<le> 0xffff \<and> 1 \<le> m \<and> m \<le> 12 \<and> 1 \<le> d \<and> d \<le> monthLength y m)"

definition validTime :: "int \<times> int \<times> int \<times> int \<times> int \<Rightarrow> bool" where
  "validTime = (\<lambda>(h, mi, s, ms, us). 0 \<le> h \<and> h < 24 \<and> 0 \<le> mi \<and> mi < 60 \<and> 0 \<le> s \<and> s < 60 \<and> 0 \<le> ms \<and> ms < 1000 \<and> 0 \<le> us \<and> us < 1000)"

lemma month_cases:
  fixes m :: int
  assumes "1 \<le> m" "m \<le> 12"
  obtains "m = 1" | "m = 2" | "m = 3" | "m = 4" | "m = 5" | "m = 6" | "m = 7" | "m = 8" | "m = 9" | "m = 10" | "m = 11" | "m = 12"
proof -
  have "m = 1 \<or> m = 2 \<or> m = 3 \<or> m = 4 \<or> m = 5 \<or> m = 6 \<or> m = 7 \<or> m = 8 \<or> m = 9 \<or> m = 10 \<or> m = 11 \<or> m = 12"
    using assms by arith
  then show ?thesis using that by blast
qed

lemma monthLength_bounds: "28 \<le> monthLength y m" "monthLength y m \<le> 31"
  by (simp_all add: monthLength_def)

lemma yearLength_bounds: "365 \<le> yearLength y" "yearLength y \<le> 366"
  by (simp_all add: yearLength_def)

lemma daysBeforeYear_step: "0 \<le> y \<Longrightarrow> daysBeforeYear (y + 1) = daysBeforeYear y + yearLength y"
proof -
  assume "0 \<le> y"
  then have "{0..<y + 1} = insert y {0..<y}" by auto
  then show ?thesis by (simp add: daysBeforeYear_def)
qed

lemma daysBeforeMonth_step: "1 \<le> m \<Longrightarrow> daysBeforeMonth y (m + 1) = daysBeforeMonth y m + monthLength y m"
proof -
  assume "1 \<le> m"
  then have "{1..<m + 1} = insert m {1..<m}" by auto
  then show ?thesis by (simp add: daysBeforeMonth_def)
qed

lemma daysBeforeMonth_table:
  "daysBeforeMonth y 1 = 0" "daysBeforeMonth y 2 = 31" "daysBeforeMonth y 3 = 59 + of_bool (leap y)"
  "daysBeforeMonth y 4 = 90 + of_bool (leap y)" "daysBeforeMonth y 5 = 120 + of_bool (leap y)"
  "daysBeforeMonth y 6 = 151 + of_bool (leap y)" "daysBeforeMonth y 7 = 181 + of_bool (leap y)"
  "daysBeforeMonth y 8 = 212 + of_bool (leap y)" "daysBeforeMonth y 9 = 243 + of_bool (leap y)"
  "daysBeforeMonth y 10 = 273 + of_bool (leap y)" "daysBeforeMonth y 11 = 304 + of_bool (leap y)"
  "daysBeforeMonth y 12 = 334 + of_bool (leap y)" "daysBeforeMonth y 13 = yearLength y"
  using daysBeforeMonth_step [of 1 y] daysBeforeMonth_step [of 2 y] daysBeforeMonth_step [of 3 y] daysBeforeMonth_step [of 4 y]
    daysBeforeMonth_step [of 5 y] daysBeforeMonth_step [of 6 y] daysBeforeMonth_step [of 7 y] daysBeforeMonth_step [of 8 y]
    daysBeforeMonth_step [of 9 y] daysBeforeMonth_step [of 10 y] daysBeforeMonth_step [of 11 y] daysBeforeMonth_step [of 12 y]
  by (simp_all add: daysBeforeMonth_def monthLength_def yearLength_def)

lemma ceil_step:
  fixes y k :: int
  assumes "0 < k"
  shows "(y + k) div k = (y + (k - 1)) div k + of_bool (k dvd y)"
proof -
  let ?r = "y mod k"
  have y: "y = ?r + y div k * k" by simp
  have r: "0 \<le> ?r" "?r < k" using assms by simp_all
  have "(y + (k - 1)) div k = (?r + (k - 1)) div k + y div k"
    using div_mult_self1 [of k "?r + (k - 1)" "y div k"] assms y by (simp add: algebra_simps)
  moreover have "(?r + (k - 1)) div k = 1 - of_bool (?r = 0)"
  proof (cases "?r = 0")
    case False
    then have "(?r - 1) div k = 0" using r by (intro div_pos_pos_trivial) simp_all
    then have "(?r - 1 + k) div k = 1" using assms div_add_self2 [of k "?r - 1"] by simp
    then show ?thesis using False by (simp add: algebra_simps)
  qed (use assms in simp)
  ultimately show ?thesis using assms div_add_self2 [of k y] by (simp add: dvd_eq_mod_eq_0)
qed

lemma daysBeforeYear_closed:
  assumes "0 \<le> y"
  shows "daysBeforeYear y = 365 * y + (y + 3) div 4 - (y + 99) div 100 + (y + 399) div 400"
  using assms
proof (induction y rule: int_ge_induct)
  case base
  then show ?case by (simp add: daysBeforeYear_def)
next
  case (step y)
  have "100 dvd y \<Longrightarrow> 4 dvd y" "400 dvd y \<Longrightarrow> 100 dvd y" by (auto elim: dvd_trans [rotated])
  then have "yearLength y = 365 + of_bool (4 dvd y) - of_bool (100 dvd y) + of_bool (400 dvd y)"
    by (cases "400 dvd y"; cases "100 dvd y"; cases "4 dvd y") (simp_all only: yearLength_def leap_def of_bool_def if_True if_False simp_thms, simp_all)
  note len = this
  have c: "(y + 1 + 3) div 4 = (y + 3) div 4 + of_bool (4 dvd y)" "(y + 1 + 99) div 100 = (y + 99) div 100 + of_bool (100 dvd y)"
    "(y + 1 + 399) div 400 = (y + 399) div 400 + of_bool (400 dvd y)"
    using ceil_step [of 4 y] ceil_step [of 100 y] ceil_step [of 400 y] by (simp_all only: add.assoc) simp_all
  show ?case unfolding daysBeforeYear_step [OF step.hyps] step.IH c len by (simp only: distrib_left ring_class.ring_distribs)
qed

lemma daysBeforeYear_period: "0 \<le> y \<Longrightarrow> 0 \<le> k \<Longrightarrow> daysBeforeYear (y + 400 * k) = daysBeforeYear y + 146097 * k"
proof -
  assume yk: "0 \<le> y" "0 \<le> k"
  have "(a + 400 * k) div 4 = a div 4 + 100 * k" "(a + 400 * k) div 100 = a div 100 + 4 * k" "(a + 400 * k) div 400 = a div 400 + k" for a
    using div_mult_self2 [of 4 a "100 * k"] div_mult_self2 [of 100 a "4 * k"] by simp_all
  then have d: "(y + 400 * k + 3) div 4 = (y + 3) div 4 + 100 * k" "(y + 400 * k + 99) div 100 = (y + 99) div 100 + 4 * k"
    "(y + 400 * k + 399) div 400 = (y + 399) div 400 + k" by (metis add.assoc add.commute)+
  have "0 \<le> y + 400 * k" using yk by simp
  moreover have "365 * (y + 400 * k) + (a + 100 * k) - (b + 4 * k) + (c + k) = 365 * y + a - b + c + 146097 * k" for a b c by simp
  ultimately show ?thesis using yk(1) by (simp only: daysBeforeYear_closed d)
qed

lemma leap_period: "leap (y + 400 * k) = leap y"
proof -
  have "4 dvd 400 * k" "100 dvd 400 * k" "400 dvd 400 * k" by (simp_all add: dvd_mult2)
  then show ?thesis unfolding leap_def by (simp only: dvd_add_left_iff)
qed


lemma daysBeforeYear_mono: "0 \<le> a \<Longrightarrow> a \<le> b \<Longrightarrow> daysBeforeYear a \<le> daysBeforeYear b"
  unfolding daysBeforeYear_def using yearLength_bounds(1) by (intro sum_mono2) (auto intro: order_trans [of 0 365])

section \<open>Positions\<close>

text \<open>
  The loops of \<open>add\<close> may pass through years below 0, which the source reads as unsigned 64-bit numbers. \<open>position\<close> extends the day number
  to them, with the leap years that the source sees.
\<close>

definition yearStart :: "int \<Rightarrow> int" where
  "yearStart y = (if 0 \<le> y then daysBeforeYear y else daysBeforeYear (y + 2 ^ 64) - daysBeforeYear (2 ^ 64))"

definition position :: "int \<Rightarrow> int \<Rightarrow> int \<Rightarrow> int" where
  "position y m d = yearStart y + daysBeforeMonth (y mod 2 ^ 64) m + d - 1"

definition smallYear :: "int \<Rightarrow> bool" where
  "smallYear y \<longleftrightarrow> - (2 ^ 63) \<le> y \<and> y < 2 ^ 63"

lemma position_dayNumber: "0 \<le> y \<Longrightarrow> smallYear y \<Longrightarrow> position y m d = dayNumber (y, m, d)"
  by (simp add: position_def yearStart_def dayNumber_def smallYear_def)

lemma yearStart_step:
  assumes "smallYear y"
  shows "yearStart (y + 1) = yearStart y + yearLength (y mod 2 ^ 64)"
proof (cases "0 \<le> y")
  case True
  then show ?thesis using assms daysBeforeYear_step [of y] by (simp add: yearStart_def smallYear_def)
next
  case False
  then have "(y + 2 ^ 64) mod 2 ^ 64 = y + 2 ^ 64" using assms by (intro mod_pos_pos_trivial) (simp_all add: smallYear_def)
  then have m: "y mod 2 ^ 64 = y + 2 ^ 64" by (simp only: mod_add_self2)
  have s: "daysBeforeYear (y + 2 ^ 64 + 1) = daysBeforeYear (y + 2 ^ 64) + yearLength (y + 2 ^ 64)"
    using assms by (intro daysBeforeYear_step) (simp add: smallYear_def)
  show ?thesis
  proof (cases "y = - 1")
    case True
    then show ?thesis using s by (simp add: yearStart_def daysBeforeYear_def)
  next
    case F: False
    then have "\<not> 0 \<le> y + 1" using False by simp
    moreover have "y + 1 + 2 ^ 64 = y + 2 ^ 64 + 1" by simp
    ultimately show ?thesis using s False unfolding m by (simp add: yearStart_def)
  qed
qed

end
