(* ===== verification/Date_Time_Add.thy ===== *)
theory Date_Time_Add
  imports Date_Time_Calendar
begin

text \<open>
  \<open>DateAndTime::add\<close> against the calendar: every loop keeps the position of the date plus the days that are left, so that a date and
  time moves by exactly the given duration, and fails exactly when the result is outside of the years 0 to 65535.
\<close>

section \<open>The calendar of the source is the Gregorian one\<close>

lemma isLeapYear_leap: "isLeapYear w = leap (uint w)"
proof -
  have z: "w mod k = 0 \<longleftrightarrow> uint k dvd uint w" for k :: u64
    by (simp add: word_uint_eq_iff uint_mod dvd_eq_mod_eq_0)
  have "uint (4 :: u64) = 4" "uint (100 :: u64) = 100" "uint (400 :: u64) = 400" by simp_all
  then show ?thesis unfolding isLeapYear_def leap_def z by auto
qed

lemma leapYear_int_leap: "leapYear_int y = leap (y mod 2 ^ 64)"
  by (simp add: leapYear_int_def isLeapYear_leap uint_word_of_int)

lemma daysInMonth_monthLength:
  assumes "1 \<le> m" "m \<le> 12"
  shows "uint (daysInMonth y (of_int m)) = monthLength (uint y) m"
  by (rule month_cases [OF assms]) (simp_all add: daysInMonth_def monthLength_def isLeapYear_leap)

lemma monthDays_monthLength: "1 \<le> m \<Longrightarrow> m \<le> 12 \<Longrightarrow> monthDays y m = monthLength (y mod 2 ^ 64) m"
  unfolding monthDays_def by (subst daysInMonth_monthLength) (simp_all add: uint_word_of_int)

section \<open>Steps keep the position\<close>

lemma position_next_month: "1 \<le> m \<Longrightarrow> position y (m + 1) d = position y m d + monthLength (y mod 2 ^ 64) m"
  by (simp add: position_def daysBeforeMonth_step)

lemma position_next_year: "smallYear y \<Longrightarrow> position (y + 1) 1 d = position y 13 d"
  by (simp add: position_def yearStart_step daysBeforeMonth_table)

lemma position_day: "position y m (d + k) = position y m d + k"
  by (simp add: position_def)

lemma position_year:
  assumes "smallYear y" "1 \<le> m" "m \<le> 12"
  shows "position (y + 1) m d = position y m d + (if leapYear_int (y + (if m \<ge> 3 then 1 else 0)) then 366 else 365)"
  unfolding position_def yearStart_step [OF assms(1)] leapYear_int_leap
  by (rule month_cases [OF assms(2,3)]) (simp_all add: daysBeforeMonth_table yearLength_def)

declare skipYearsUp.simps [simp del] skipYearsDown.simps [simp del]

lemma skipYearsUp_correct:
  assumes "1 \<le> m" "m \<le> 12"
  shows "sh = (if m \<ge> 3 then 1 else 0) \<Longrightarrow> - (2 ^ 63) \<le> y \<Longrightarrow> y + days < 2 ^ 63 \<Longrightarrow> 0 \<le> days \<Longrightarrow> skipYearsUp sh y days = (y', days') \<Longrightarrow>
    position y' m d + days' = position y m d + days \<and> 0 \<le> days' \<and> y \<le> y' \<and> y' + days' \<le> y + days"
proof (induction sh y days rule: skipYearsUp.induct)
  case (1 sh y days)
  define len where "len = (if leapYear_int (y + sh) then 366 else 365 :: int)"
  have len: "365 \<le> len" by (simp add: len_def)
  show ?case
  proof (cases "days \<ge> 365 \<and> \<not> days < len")
    case True
    then have e: "skipYearsUp sh (y + 1) (days - len) = (y', days')"
      using "1.prems"(5) by (simp add: skipYearsUp.simps [of sh y days] len_def)
    have "position (y + 1) m d = position y m d + len"
      using position_year [of y m d] assms "1.prems" True len by (simp add: smallYear_def len_def)
    moreover have "position y' m d + days' = position (y + 1) m d + (days - len) \<and> 0 \<le> days' \<and> y + 1 \<le> y' \<and> y' + days' \<le> y + 1 + (days - len)"
      using "1.IH" [OF _ len_def, OF _ _ "1.prems"(1) _ _ _ e] "1.prems" True len by simp
    ultimately show ?thesis using len by auto
  next
    case False
    then have "y' = y" "days' = days" using "1.prems"(5) by (auto simp: skipYearsUp.simps [of sh y days] len_def Let_def split: if_splits)
    then show ?thesis using "1.prems" by simp
  qed
qed

lemma skipYearsDown_correct:
  assumes "1 \<le> m" "m \<le> 12"
  shows "sh = (if m \<ge> 3 then 0 else - 1) \<Longrightarrow> - (2 ^ 63) \<le> y + days \<Longrightarrow> y < 2 ^ 63 \<Longrightarrow> days \<le> 0 \<Longrightarrow> skipYearsDown sh y days = (y', days') \<Longrightarrow>
    position y' m d + days' = position y m d + days \<and> days' \<le> 0 \<and> y' \<le> y \<and> y + days \<le> y' + days'"
proof (induction sh y days rule: skipYearsDown.induct)
  case (1 sh y days)
  define len where "len = (if leapYear_int (y + sh) then - 366 else - 365 :: int)"
  have len: "len \<le> - 365" by (simp add: len_def)
  show ?case
  proof (cases "days \<le> - 365 \<and> \<not> days > len")
    case True
    then have e: "skipYearsDown sh (y - 1) (days - len) = (y', days')"
      using "1.prems"(5) by (simp add: skipYearsDown.simps [of sh y days] len_def)
    have sh: "y - 1 + (if m \<ge> 3 then 1 else 0) = y + sh" using "1.prems"(1) by simp
    have "smallYear (y - 1)" using "1.prems"(2-4) True len by (simp add: smallYear_def)
    from position_year [OF this assms, of d, unfolded sh] have "position y m d = position (y - 1) m d - len"
      by (simp add: len_def)
    moreover have "position y' m d + days' = position (y - 1) m d + (days - len) \<and> days' \<le> 0 \<and> y' \<le> y - 1 \<and> y - 1 + (days - len) \<le> y' + days'"
      using "1.IH" [OF _ len_def, OF _ _ "1.prems"(1) _ _ _ e] "1.prems" True len by simp
    ultimately show ?thesis using len by auto
  next
    case False
    then have "y' = y" "days' = days" using "1.prems"(5) by (auto simp: skipYearsDown.simps [of sh y days] len_def Let_def split: if_splits)
    then show ?thesis using "1.prems" by simp
  qed
qed

text \<open>The fields of a state of the loops: a month of the year, and a day that is at most a few days past the end of its month.\<close>

definition stateOk :: "int \<times> int \<times> int \<times> int \<Rightarrow> bool" where
  "stateOk = (\<lambda>(y, m, d, days). 1 \<le> m \<and> m \<le> 12 \<and> 1 \<le> d \<and> d \<le> 31)"

definition sumOf :: "int \<times> int \<times> int \<times> int \<Rightarrow> int" where
  "sumOf = (\<lambda>(y, m, d, days). position y m d + days)"

lemma dayOverflow_correct:
  assumes "1 \<le> m" "m \<le> 12" "1 \<le> d" "d \<le> 31" "dayOverflow y m d = (m', d')"
  shows "position y m' d' = position y m d \<and> 1 \<le> m' \<and> m' \<le> 12 \<and> 1 \<le> d' \<and> d' \<le> monthLength (y mod 2 ^ 64) m'"
proof -
  note ml = monthDays_monthLength [OF assms(1,2), of y] monthLength_bounds [of "y mod 2 ^ 64" m] monthLength_bounds [of "y mod 2 ^ 64" m']
  show ?thesis
  proof (cases "d > monthLength (y mod 2 ^ 64) m")
    case True
    then have "d > 28" using ml by simp
    then have e: "m' = m + 1" "d' = d - monthLength (y mod 2 ^ 64) m" using True assms(5) ml(1) by (simp_all add: dayOverflow_def)
    have "m \<noteq> 12" using True assms(4) by (auto simp: monthLength_def)
    moreover have "position y m' d' = position y m d" using assms(1) unfolding e by (simp add: position_def daysBeforeMonth_step)
    ultimately show ?thesis using assms True ml e by simp
  next
    case False
    then have "m' = m" "d' = d" using assms(5) ml(1) by (auto simp: dayOverflow_def split: if_splits)
    then show ?thesis using assms False by simp
  qed
qed

lemma forwardStep_correct:
  assumes "stateOk (y, m, d, days)" "0 < days" "- (2 ^ 63) \<le> y" "y + days < 2 ^ 63" "forwardStep (y, m, d, days) = (y', m', d', days')"
  shows "stateOk (y', m', d', days') \<and> sumOf (y', m', d', days') = sumOf (y, m, d, days) \<and> 0 \<le> days' \<and> days' < days \<and> y \<le> y' \<and>
    y' + days' \<le> y + days"
proof -
  let ?ml = "monthLength (y mod 2 ^ 64) m"
  have s: "1 \<le> m" "m \<le> 12" "1 \<le> d" "d \<le> 31" using assms(1) by (simp_all add: stateOk_def)
  note ml = monthDays_monthLength [OF s(1,2), of y] monthLength_bounds [of "y mod 2 ^ 64" m]
  define a where "a = (if days \<ge> ?ml then (m + 1, d, days - ?ml) else if d + days > ?ml then (m + 1, d + days - ?ml, 0) else (m, d + days, 0))"
  obtain m1 d1 left where a1: "a = (m1, d1, left)" by (cases a)
  have 1: "position y m1 d1 + left = position y m d + days" "1 \<le> d1" "d1 \<le> 31" "m \<le> m1" "m1 \<le> m + 1" "0 \<le> left" "left < days"
    using a1 s ml assms(2) position_next_month [OF s(1), of y]
    by (auto simp: a_def position_def split: if_splits)
  define b where "b = (if m1 > 12 then (y + 1, 1) else (y, m1))"
  obtain y2 m2 where b2: "b = (y2, m2)" by (cases b)
  have 2: "position y2 m2 d1 = position y m1 d1 \<and> 1 \<le> m2 \<and> m2 \<le> 12 \<and> y \<le> y2 \<and> y2 \<le> y + 1"
  proof (cases "m1 > 12")
    case True
    then have m13: "m1 = 13" using s(2) 1(5) by simp
    have "smallYear y" using assms(2-4) by (simp add: smallYear_def)
    then show ?thesis using b2 position_next_year [of y d1] unfolding b_def m13 by simp
  next
    case False
    then show ?thesis using b2 s(1) 1(4) by (simp add: b_def)
  qed
  obtain m3 d3 where c: "dayOverflow y2 m2 d1 = (m3, d3)" by (cases "dayOverflow y2 m2 d1")
  have m2: "1 \<le> m2" "m2 \<le> 12" using 2 by simp_all
  note 3 = dayOverflow_correct [OF m2 1(2,3) c]
  have "(y', m', d', days') = (y2, m3, d3, left)"
    using assms(5) c b2 a1 ml(1) unfolding forwardStep_def a_def b_def by (auto simp: Let_def split: if_splits)
  then show ?thesis
    using 1 2 3 monthLength_bounds(2) [of "y2 mod 2 ^ 64" m3] by (auto simp: stateOk_def sumOf_def)
qed

lemma backwardStep_correct:
  assumes "stateOk (y, m, d, days)" "days < 0" "- (2 ^ 63) \<le> y + days" "y < 2 ^ 63" "backwardStep (y, m, d, days) = (y', m', d', days')"
  shows "stateOk (y', m', d', days') \<and> sumOf (y', m', d', days') = sumOf (y, m, d, days) \<and> days' \<le> 0 \<and> days < days' \<and> y' \<le> y \<and>
    y + days \<le> y' + days'"
proof (cases "- days < d")
  case True
  then show ?thesis using assms by (auto simp: backwardStep_def stateOk_def sumOf_def position_def)
next
  case False
  have s: "1 \<le> m" "m \<le> 12" "1 \<le> d" "d \<le> 31" using assms(1) by (simp_all add: stateOk_def)
  define b where "b = (if m - 1 < 1 then (y - 1, 12) else (y, m - 1))"
  obtain y1 m1 where b1: "b = (y1, m1)" by (cases b)
  have 1: "1 \<le> m1" "m1 \<le> 12" "y1 \<le> y" "y - 1 \<le> y1" using b1 s by (auto simp: b_def split: if_splits)
  let ?ml = "monthLength (y1 mod 2 ^ 64) m1"
  note ml = monthDays_monthLength [OF 1(1,2), of y1] monthLength_bounds [of "y1 mod 2 ^ 64" m1]
  have p: "position y1 m1 k + ?ml = position y m k" for k
  proof (cases "m = 1")
    case True
    then have e: "y1 = y - 1" "m1 = 12" using b1 by (simp_all add: b_def)
    have "smallYear (y - 1)" using assms(2-4) by (simp add: smallYear_def)
    from position_next_year [OF this, of k] position_next_month [of 12 "y - 1" k] show ?thesis unfolding e True by simp
  next
    case F: False
    then have "y1 = y" "m1 = m - 1" using b1 s by (auto simp: b_def)
    then show ?thesis using position_next_month [of m1 y1 k] 1(1) by simp
  qed
  have "(y', m', d', days') = (if - days \<ge> ?ml then (y1, m1, d, days + ?ml) else (y1, m1, d + (?ml + days), 0))"
    using assms(5) False b1 ml(1) unfolding backwardStep_def b_def by (auto simp: Let_def split: if_splits)
  then show ?thesis
    using False s 1 ml p assms(2) by (auto simp: stateOk_def sumOf_def position_def split: if_splits)
qed

text \<open>Both loops end, because every round uses up days.\<close>

lemma forwardLoop_correct:
  "stateOk (y, m, d, days) \<Longrightarrow> 0 \<le> days \<Longrightarrow> - (2 ^ 63) \<le> y \<Longrightarrow> y + days < 2 ^ 63 \<Longrightarrow>
   \<exists>y' m' d'. forwardLoop (y, m, d, days) = Some (y', m', d', 0) \<and> stateOk (y', m', d', 0) \<and> position y' m' d' = position y m d + days \<and>
     y \<le> y' \<and> y' \<le> y + days"
proof (induction "nat days" arbitrary: y m d days rule: less_induct)
  case less
  show ?case
  proof (cases "days = 0")
    case True
    then show ?thesis using less.prems(1) by (simp add: forwardLoop.simps)
  next
    case False
    obtain y1 m1 d1 days1 where e: "forwardStep (y, m, d, days) = (y1, m1, d1, days1)" by (metis prod_cases4)
    have pos: "0 < days" using False less.prems(2) by simp
    note step = forwardStep_correct [OF less.prems(1) pos less.prems(3,4) e]
    have "\<exists>y' m' d'. forwardLoop (y1, m1, d1, days1) = Some (y', m', d', 0) \<and> stateOk (y', m', d', 0) \<and>
        position y' m' d' = position y1 m1 d1 + days1 \<and> y1 \<le> y' \<and> y' \<le> y1 + days1"
      by (rule less.hyps) (use step less.prems in auto)
    moreover have "forwardLoop (y, m, d, days) = forwardLoop (y1, m1, d1, days1)"
      using pos e by (simp add: forwardLoop.simps [of "(y, m, d, days)"])
    ultimately show ?thesis using step by (auto simp: sumOf_def)
  qed
qed

lemma backwardLoop_correct:
  "stateOk (y, m, d, days) \<Longrightarrow> days \<le> 0 \<Longrightarrow> - (2 ^ 63) \<le> y + days \<Longrightarrow> y < 2 ^ 63 \<Longrightarrow>
   \<exists>y' m' d'. backwardLoop (y, m, d, days) = Some (y', m', d', 0) \<and> stateOk (y', m', d', 0) \<and> position y' m' d' = position y m d + days \<and>
     y' \<le> y \<and> y + days \<le> y'"
proof (induction "nat (- days)" arbitrary: y m d days rule: less_induct)
  case less
  show ?case
  proof (cases "days = 0")
    case True
    then show ?thesis using less.prems(1) by (simp add: backwardLoop.simps)
  next
    case False
    obtain y1 m1 d1 days1 where e: "backwardStep (y, m, d, days) = (y1, m1, d1, days1)" by (metis prod_cases4)
    have neg: "days < 0" using False less.prems(2) by simp
    note step = backwardStep_correct [OF less.prems(1) neg less.prems(3,4) e]
    have "\<exists>y' m' d'. backwardLoop (y1, m1, d1, days1) = Some (y', m', d', 0) \<and> stateOk (y', m', d', 0) \<and>
        position y' m' d' = position y1 m1 d1 + days1 \<and> y' \<le> y1 \<and> y1 + days1 \<le> y'"
      by (rule less.hyps) (use step less.prems in auto)
    moreover have "backwardLoop (y, m, d, days) = backwardLoop (y1, m1, d1, days1)"
      using neg e by (simp add: backwardLoop.simps [of "(y, m, d, days)"])
    ultimately show ?thesis using step by (auto simp: sumOf_def)
  qed
qed

text \<open>All of the date arithmetic after the jump over multiples of 400 years.\<close>

lemma loops_correct:
  assumes "1 \<le> m" "m \<le> 12" "1 \<le> d" "d \<le> 31" "\<bar>y\<bar> < 2 ^ 62" "\<bar>days\<bar> < 2 ^ 62"
  shows "\<exists>y' m' d'. (case skipYears y m days of (y2, days2) \<Rightarrow> do { s1 \<leftarrow> forwardLoop (y2, m, d, days2); backwardLoop s1 }) =
      Some (y', m', d', 0) \<and> stateOk (y', m', d', 0) \<and> position y' m' d' = position y m d + days \<and> smallYear y' \<and>
      (0 \<le> days \<longrightarrow> y \<le> y') \<and> (days \<le> 0 \<longrightarrow> y' \<le> y)"
proof -
  obtain y2 days2 where e: "skipYears y m days = (y2, days2)" by (cases "skipYears y m days")
  have sk: "position y2 m d + days2 = position y m d + days \<and> (0 \<le> days \<longrightarrow> 0 \<le> days2 \<and> y \<le> y2 \<and> y2 + days2 \<le> y + days) \<and>
      (days \<le> 0 \<longrightarrow> days2 \<le> 0 \<and> y2 \<le> y \<and> y + days \<le> y2 + days2)"
    using e skipYearsUp_correct [OF assms(1,2) refl, of y days y2 days2 d] skipYearsDown_correct [OF assms(1,2) refl, of y days y2 days2 d] assms(5,6)
    by (auto simp: skipYears_def split: if_splits)
  have ok: "stateOk (y2, m, d, days2)" using assms by (simp add: stateOk_def)
  show ?thesis
  proof (cases "0 \<le> days")
    case True
    have "\<exists>y' m' d'. forwardLoop (y2, m, d, days2) = Some (y', m', d', 0) \<and> stateOk (y', m', d', 0) \<and>
        position y' m' d' = position y2 m d + days2 \<and> y2 \<le> y' \<and> y' \<le> y2 + days2"
      by (rule forwardLoop_correct [OF ok]) (use sk True assms in auto)
    then show ?thesis using sk True e assms(5,6) by (fastforce simp: backwardLoop.simps smallYear_def)
  next
    case False
    have "\<exists>y' m' d'. backwardLoop (y2, m, d, days2) = Some (y', m', d', 0) \<and> stateOk (y', m', d', 0) \<and>
        position y' m' d' = position y2 m d + days2 \<and> y' \<le> y2 \<and> y2 + days2 \<le> y'"
      by (rule backwardLoop_correct [OF ok]) (use sk False assms in auto)
    moreover have "forwardLoop (y2, m, d, days2) = Some (y2, m, d, days2)" using sk False by (simp add: forwardLoop.simps)
    ultimately show ?thesis using sk False e assms(5,6) by (fastforce simp: smallYear_def)
  qed
qed

section \<open>Validity\<close>

lemma day_of_month:
  fixes y m d :: int
  assumes "1 \<le> m" "m \<le> 12" "1 \<le> d"
  shows "d \<le> monthLength y m \<longleftrightarrow> d \<le> 31 \<and> \<not> (d = 31 \<and> m \<noteq> 1 \<and> m \<noteq> 3 \<and> m \<noteq> 5 \<and> m \<noteq> 7 \<and> m \<noteq> 8 \<and> m \<noteq> 10 \<and> m \<noteq> 12) \<and>
    \<not> (d = 30 \<and> m = 2) \<and> \<not> (d = 29 \<and> m = 2 \<and> \<not> leap y)"
  by (rule month_cases [OF assms(1,2)]) (auto simp: monthLength_def)

lemma isValidFields_iff:
  "isValidFields y m d h mi s ms us \<longleftrightarrow> validDate (uint y, uint m, uint d) \<and> validTime (uint h, uint mi, uint s, uint ms, uint us)"
proof -
  have t: "validTime (uint h, uint mi, uint s, uint ms, uint us) \<longleftrightarrow> \<not> h \<ge> 24 \<and> \<not> mi \<ge> 60 \<and> \<not> s \<ge> 60 \<and> \<not> ms \<ge> 1000 \<and> \<not> us \<ge> 1000"
    by (auto simp: validTime_def word_le_def not_le)
  have pos: "1 \<le> uint x \<longleftrightarrow> uint x \<noteq> 0" for x :: u64 using uint_ge_0 [of x] by linarith
  have m: "1 \<le> uint m \<and> uint m \<le> 12 \<longleftrightarrow> \<not> (m > 12 \<or> m = 0)"
    using pos [of m] by (auto simp: word_less_def word_uint_eq_iff not_less)
  have c: "m = k \<longleftrightarrow> uint m = uint k" "d = k \<longleftrightarrow> uint d = uint k" for k by (simp_all add: word_uint_eq_iff)
  have d: "1 \<le> uint d \<longleftrightarrow> d \<noteq> 0" using pos [of d] by (auto simp: word_uint_eq_iff)
  show ?thesis
  proof (cases "y > 0xffff \<or> m > 12 \<or> m = 0 \<or> d = 0")
    case True
    then have "\<not> validDate (uint y, uint m, uint d)" using m d by (elim disjE) (auto simp: validDate_def word_less_def)
    moreover have "\<not> isValidFields y m d h mi s ms us" using True unfolding isValidFields_def by (elim disjE) simp_all
    ultimately show ?thesis by blast
  next
    case False
    then have r: "1 \<le> uint m" "uint m \<le> 12" "1 \<le> uint d" "uint y \<le> 0xffff" using m d by (auto simp: word_less_def not_less)
    have "validDate (uint y, uint m, uint d) \<longleftrightarrow> \<not> d > 31 \<and> \<not> (d = 31 \<and> m \<noteq> 1 \<and> m \<noteq> 3 \<and> m \<noteq> 5 \<and> m \<noteq> 7 \<and> m \<noteq> 8 \<and> m \<noteq> 10 \<and> m \<noteq> 12) \<and>
        \<not> (d = 30 \<and> m = 2) \<and> \<not> (d = 29 \<and> m = 2 \<and> \<not> isLeapYear y)"
      using r day_of_month [OF r(1-3), of "uint y"] by (simp add: validDate_def c isLeapYear_leap word_less_def not_less)
    then show ?thesis unfolding t using False by (simp add: isValidFields_def)
  qed
qed

lemma dt_isValid_iff: "dt_isValid v \<longleftrightarrow> validDate (dateOf v) \<and> validTime (timeOf v)"
proof (cases "v = 0")
  case True
  then show ?thesis by (simp add: dt_isValid_def validDate_def dateOf_def getMonth_def)
next
  case False
  have "uint (ucast (a :: u16) :: u64) = uint a" "uint (ucast (b :: u8) :: u64) = uint b" for a b
    by (simp_all add: uint_up_ucast is_up)
  then show ?thesis using False by (simp only: dt_isValid_def isValidFields_iff dateOf_def timeOf_def) simp
qed

lemma validDate_range: "validDate (y, m, d) \<Longrightarrow> dateRange (y, m, d)"
  using monthLength_bounds(2) [of y m] by (simp add: validDate_def dateRange_def)

lemma validTime_range: "validTime t \<Longrightarrow> timeRange t"
  by (cases t) (simp add: validTime_def timeRange_def)

section \<open>Dates and years\<close>

lemma position_bounds:
  assumes "1 \<le> m" "m \<le> 12" "1 \<le> d" "d \<le> monthLength (y mod 2 ^ 64) m" "smallYear y"
  shows "yearStart y \<le> position y m d" "position y m d < yearStart (y + 1)"
proof -
  have "0 \<le> daysBeforeMonth (y mod 2 ^ 64) m \<and> daysBeforeMonth (y mod 2 ^ 64) m + monthLength (y mod 2 ^ 64) m \<le> yearLength (y mod 2 ^ 64)"
    by (rule month_cases [OF assms(1,2)]) (simp_all add: daysBeforeMonth_table monthLength_def yearLength_def)
  then show "yearStart y \<le> position y m d" "position y m d < yearStart (y + 1)"
    using assms by (simp_all add: position_def yearStart_step)
qed

lemma yearStart_sign: "smallYear y \<Longrightarrow> y < 0 \<Longrightarrow> yearStart (y + 1) \<le> 0"
  using daysBeforeYear_mono [of "y + 1 + 2 ^ 64" "2 ^ 64"] by (auto simp: yearStart_def smallYear_def daysBeforeYear_def)

lemma yearStart_mono: "0 \<le> a \<Longrightarrow> a \<le> b \<Longrightarrow> yearStart a \<le> yearStart b"
  using daysBeforeYear_mono by (simp add: yearStart_def)

text \<open>A date in order is in the years 0 to 65535 exactly when its day number is in their range.\<close>

lemma year_in_range:
  assumes "1 \<le> m" "m \<le> 12" "1 \<le> d" "d \<le> monthLength (y mod 2 ^ 64) m" "smallYear y"
  shows "0 \<le> y \<and> y \<le> 0xffff \<longleftrightarrow> 0 \<le> position y m d \<and> position y m d < daysBeforeYear 0x10000"
proof -
  note b = position_bounds [OF assms]
  have z: "yearStart 0 = 0" "yearStart 0x10000 = daysBeforeYear 0x10000" by (simp_all add: yearStart_def daysBeforeYear_def)
  consider "y < 0" | "0 \<le> y" "y \<le> 0xffff" | "0x10000 \<le> y" by linarith
  then show ?thesis
  proof cases
    case 1
    then show ?thesis using b(2) yearStart_sign [OF assms(5)] by simp
  next
    case 2
    then show ?thesis using b yearStart_mono [of 0 y] yearStart_mono [of "y + 1" "0x10000"] z by simp
  next
    case 3
    then show ?thesis using b(1) yearStart_mono [of "0x10000" y] z by simp
  qed
qed

section \<open>Adding days\<close>

definition dayInRange :: "int \<Rightarrow> bool" where
  "dayInRange n \<longleftrightarrow> 0 \<le> n \<and> n < daysBeforeYear 0x10000"

lemma dateRange_numbers: "validDate t \<Longrightarrow> dayInRange (dayNumber t)"
proof -
  assume "validDate t"
  moreover obtain y m d where t: "t = (y, m, d)" by (cases t)
  ultimately have v: "0 \<le> y" "y \<le> 0xffff" "1 \<le> m" "m \<le> 12" "1 \<le> d" "d \<le> monthLength y m" by (simp_all add: validDate_def)
  then have s: "smallYear y" "y mod 2 ^ 64 = y" by (simp_all add: smallYear_def)
  show ?thesis
    using year_in_range [of m d y] position_dayNumber [of y m d] v s unfolding t dayInRange_def by simp
qed

lemma state_in_range:
  assumes "stateOk (y, m, d, 0)" "smallYear y"
  shows "0 \<le> y \<and> y \<le> 0xffff \<longleftrightarrow> dayInRange (position y m d)"
proof -
  obtain m' d' where e: "dayOverflow y m d = (m', d')" by (cases "dayOverflow y m d")
  have o: "position y m' d' = position y m d" "1 \<le> m'" "m' \<le> 12" "1 \<le> d'" "d' \<le> monthLength (y mod 2 ^ 64) m'"
    using dayOverflow_correct [OF _ _ _ _ e] assms(1) by (auto simp: stateOk_def)
  then show ?thesis using year_in_range [OF o(2-5) assms(2)] by (simp add: dayInRange_def)
qed

lemma finish_days:
  assumes "stateOk (y, m, d, 0)" "smallYear y"
  shows "if dayInRange (position y m d)
    then \<exists>m' d'. finishDate 0 0 (y, m, d, 0) = Some (y, m', d') \<and> validDate (y, m', d') \<and> dayNumber (y, m', d') = position y m d
    else finishDate 0 0 (y, m, d, 0) = None"
proof -
  obtain m' d' where e: "dayOverflow y m d = (m', d')" by (cases "dayOverflow y m d")
  have o: "position y m' d' = position y m d" "1 \<le> m'" "m' \<le> 12" "1 \<le> d'" "d' \<le> monthLength (y mod 2 ^ 64) m'"
    using dayOverflow_correct [OF _ _ _ _ e] assms(1) by (auto simp: stateOk_def)
  note r = state_in_range [OF assms]
  have f: "finishDate 0 0 (y, m, d, 0) = (if y < 0 \<or> y > 0xffff then None else Some (y, m', d'))"
    by (simp add: finishDate_def addMonths_def e)
  show ?thesis
  proof (cases "dayInRange (position y m d)")
    case True
    then have y: "0 \<le> y" "y \<le> 0xffff" using r by auto
    then have "y mod 2 ^ 64 = y" by simp
    then have "validDate (y, m', d')" using o y by (simp add: validDate_def)
    then show ?thesis using True f y o(1) position_dayNumber [OF y(1) assms(2), of m' d'] by simp
  next
    case False
    then show ?thesis using f r by auto
  qed
qed

lemma cdiv_rest:
  assumes "0 < k"
  shows "0 \<le> a \<Longrightarrow> 0 \<le> cdiv a k \<and> 0 \<le> a - cdiv a k * k \<and> a - cdiv a k * k < k"
    and "a \<le> 0 \<Longrightarrow> cdiv a k \<le> 0 \<and> a - cdiv a k * k \<le> 0 \<and> - k < a - cdiv a k * k"
proof -
  have r: "a - cdiv a k * k = (if a < 0 then - ((- a) mod k) else a mod k)"
    using minus_div_mult_eq_mod [of a k] minus_div_mult_eq_mod [of "- a" k] by (auto simp: cdiv_def)
  show "0 \<le> a \<Longrightarrow> 0 \<le> cdiv a k \<and> 0 \<le> a - cdiv a k * k \<and> a - cdiv a k * k < k"
    unfolding r using assms by (simp add: cdiv_def pos_imp_zdiv_nonneg_iff)
  show "a \<le> 0 \<Longrightarrow> cdiv a k \<le> 0 \<and> a - cdiv a k * k \<le> 0 \<and> - k < a - cdiv a k * k"
    unfolding r using assms by (auto simp: cdiv_def pos_imp_zdiv_nonneg_iff)
qed

text \<open>The jump over multiples of 400 years keeps the day number, or leaves the calendar downwards.\<close>

lemma dayNumber_period:
  assumes "0 \<le> y" "0 \<le> y + 400 * k"
  shows "dayNumber (y + 400 * k, m, d) = dayNumber (y, m, d) + 146097 * k"
proof -
  have "daysBeforeMonth (y + 400 * k) m = daysBeforeMonth y m"
    by (simp add: daysBeforeMonth_def monthLength_def leap_period)
  moreover have "daysBeforeYear (y + 400 * k) = daysBeforeYear y + 146097 * k"
  proof (cases "0 \<le> k")
    case True
    then show ?thesis using daysBeforeYear_period [OF assms(1)] by simp
  next
    case False
    then show ?thesis using daysBeforeYear_period [OF assms(2), of "- k"] by simp
  qed
  ultimately show ?thesis by (simp add: dayNumber_def)
qed

lemma skip400_correct:
  assumes "validDate (y, m, d)" "\<bar>days\<bar> \<le> 2 ^ 63" "skip400years y days = (y1, days1)"
  shows "\<bar>days1\<bar> < 146097 \<and> \<bar>y1\<bar> < 2 ^ 62 \<and>
    (if 0 \<le> y1 then dayNumber (y1, m, d) + days1 = dayNumber (y, m, d) + days else days1 \<le> 0 \<and> dayNumber (y, m, d) + days < 0)"
proof -
  have v: "0 \<le> y" "y \<le> 0xffff" "1 \<le> m" "m \<le> 12" "1 \<le> d" "d \<le> monthLength y m" using assms(1) by (simp_all add: validDate_def)
  have D: "daysPer400years = 146097" by (simp add: daysPer400years_def)
  show ?thesis
  proof (cases "days \<ge> 146097 \<or> days \<le> - 146097")
    case False
    then have "y1 = y" "days1 = days" using assms(3) by (auto simp: skip400years_def D)
    then show ?thesis using False v by auto
  next
    case True
    define f where "f = cdiv days 146097"
    have e: "y1 = y + 400 * f" "days1 = days - 146097 * f" using assms(3) True by (auto simp: skip400years_def D f_def Let_def)
    have c: "0 \<le> days \<Longrightarrow> 0 \<le> f \<and> 0 \<le> days1 \<and> days1 < 146097" "days \<le> 0 \<Longrightarrow> f \<le> 0 \<and> days1 \<le> 0 \<and> - 146097 < days1"
      using cdiv_rest [of 146097 days] unfolding e f_def by simp_all
    have b: "\<bar>days1\<bar> < 146097" using c by linarith
    have "\<bar>146097 * f\<bar> \<le> 2 ^ 63 + 146097" using e(2) b assms(2) by linarith
    then have y1: "\<bar>y1\<bar> < 2 ^ 62" unfolding e(1) using v(1,2) by simp
    show ?thesis
    proof (cases "0 \<le> y1")
      case True
      then show ?thesis using b y1 dayNumber_period [of y f m d] v(1) unfolding e by simp
    next
      case False
      then have neg: "f < 0" "y + 1 \<le> 400 * (- f)" using v(1) e by auto
      have "daysBeforeYear (400 * (- f)) = 146097 * (- f)"
        using daysBeforeYear_period [of 0 "- f"] neg(1) by (simp add: daysBeforeYear_def)
      moreover have "dayNumber (y, m, d) < daysBeforeYear (y + 1)"
        using position_bounds(2) [of m d y] v position_dayNumber [of y m d] by (simp add: smallYear_def yearStart_def)
      ultimately have "dayNumber (y, m, d) < 146097 * (- f)" using daysBeforeYear_mono [of "y + 1" "400 * (- f)"] neg v(1) by simp
      moreover have "days1 \<le> 0" using c neg(1) by linarith
      ultimately show ?thesis using b y1 False e(2) by simp
    qed
  qed
qed

lemma addDate_days:
  assumes "dt_isValid v" "\<bar>days\<bar> \<le> 2 ^ 63"
  shows "if dayInRange (dayNumber (dateOf v) + days)
    then \<exists>v'. addDate 0 0 days v = Some (True, v') \<and> dt_isValid v' \<and> dayNumber (dateOf v') = dayNumber (dateOf v) + days \<and>
      timeOf v' = timeOf v \<and> unat v' < 2 ^ 62
    else addDate 0 0 days v = Some (False, v)"
proof -
  obtain y m d where date: "dateOf v = (y, m, d)" by (cases "dateOf v")
  then have g: "uint (getYear v) = y" "uint (getMonth v) = m" "uint (getDay v) = d" by (simp_all add: dateOf_def)
  have valid: "validDate (y, m, d)" "validTime (timeOf v)" using assms(1) date by (simp_all add: dt_isValid_iff)
  then have md: "1 \<le> m" "m \<le> 12" "1 \<le> d" "d \<le> 31" using monthLength_bounds(2) [of y m] by (simp_all add: validDate_def)
  obtain y1 days1 where s4: "skip400years y days = (y1, days1)" by (cases "skip400years y days")
  note jump = skip400_correct [OF valid(1) assms(2) s4]
  obtain y' m' d' where loops: "(case skipYears y1 m days1 of (y2, days2) \<Rightarrow> do { s1 \<leftarrow> forwardLoop (y2, m, d, days2); backwardLoop s1 }) =
      Some (y', m', d', 0)" "stateOk (y', m', d', 0)" "position y' m' d' = position y1 m d + days1" "smallYear y'" "days1 \<le> 0 \<longrightarrow> y' \<le> y1"
    using loops_correct [OF md, of y1 days1] jump by auto
  have small1: "smallYear y1" using jump by (auto simp: smallYear_def)
  have target: "dayInRange (position y' m' d') \<longleftrightarrow> dayInRange (dayNumber (dateOf v) + days)"
    "0 \<le> y1 \<Longrightarrow> position y' m' d' = dayNumber (dateOf v) + days"
    using jump loops(3,5) state_in_range [OF loops(2,4)] position_dayNumber [OF _ small1, of m d] date
    by (auto simp: dayInRange_def split: if_splits)
  have add: "addDate 0 0 days v = Some (case finishDate 0 0 (y', m', d', 0) of None \<Rightarrow> (False, v)
      | Some (y, m, d) \<Rightarrow> (True, setDate (of_int y) (of_int m) (of_int d) v))"
    using loops(1) s4 assms(1) by (auto simp: addDate_def g Let_def bind_eq_Some_conv split: prod.splits)
  show ?thesis
  proof (cases "dayInRange (dayNumber (dateOf v) + days)")
    case True
    then obtain m2 d2 where f: "finishDate 0 0 (y', m', d', 0) = Some (y', m2, d2)" "validDate (y', m2, d2)" "dayNumber (y', m2, d2) = position y' m' d'"
      using finish_days [OF loops(2,4)] target(1) by auto
    have "0 \<le> y1" using True jump date by (auto simp: dayInRange_def split: if_splits)
    then show ?thesis
      using True add f view_setDate [OF validDate_range [OF f(2)], of v] target(2) valid(2) by (simp add: dt_isValid_iff)
  next
    case False
    then show ?thesis using finish_days [OF loops(2,4)] target(1) add by simp
  qed
qed

section \<open>Adding time\<close>

lemma wrap64_small: "- (2 ^ 63) \<le> x \<Longrightarrow> x < 2 ^ 63 \<Longrightarrow> wrap64 x = x"
  by (simp add: wrap64_def)

lemma addWithoutOverflow_small: "- (2 ^ 63) \<le> a + b \<Longrightarrow> a + b < 2 ^ 63 \<Longrightarrow> addWithoutOverflow a b = Some (a + b)"
  by (auto simp: addWithoutOverflow_def wrap64_small Let_def)

lemma splitCarry_floor:
  assumes "0 < k" "- (2 ^ 63) \<le> x - k" "x < 2 ^ 63"
  shows "splitCarry k x = (x mod k, x div k)"
proof (cases "x < 0")
  case True
  have m: "0 \<le> x mod k" "x mod k < k" using assms(1) by simp_all
  have d: "x - x div k * k = x mod k" by (rule minus_div_mult_eq_mod)
  have "- (x - k + 1) div k = - (x div k)"
  proof (rule int_div_pos_eq [where r = "k - 1 - x mod k"])
    show "- (x - k + 1) = k * - (x div k) + (k - 1 - x mod k)" using d by (simp add: mult.commute)
  qed (use m in linarith)+
  then have c: "cdiv (x - k + 1) k = x div k" using True assms(1) by (simp add: cdiv_def)
  have "wrap64 (x - k + 1) = x - k + 1" using assms True by (intro wrap64_small) simp_all
  moreover have "wrap64 (x div k * k) = x div k * k"
    using assms True d m by (intro wrap64_small) linarith+
  moreover have "wrap64 (x mod k) = x mod k"
    using assms True m by (intro wrap64_small) linarith+
  ultimately show ?thesis using True c d by (simp add: splitCarry_def Let_def)
next
  case False
  then show ?thesis by (simp add: splitCarry_def)
qed

lemma addUnit_floor:
  assumes "24 \<le> k" "k \<le> 1000" "0 \<le> low" "low < k" "\<bar>amount\<bar> \<le> 2 ^ 62" "\<bar>carry\<bar> \<le> 2 ^ 61"
  defines "x \<equiv> low + amount + carry"
  shows "addUnit low k amount carry = Some (x mod k, x div k)" "\<bar>x div k\<bar> \<le> 2 ^ 61"
proof -
  have b: "- (2 ^ 63) \<le> x - k" "x < 2 ^ 63" "- (2 ^ 63) \<le> low + amount" "low + amount < 2 ^ 63" using assms by simp_all
  show "addUnit low k amount carry = Some (x mod k, x div k)"
  proof (cases "amount = 0 \<and> carry = 0")
    case True
    then show ?thesis using assms by (simp add: addUnit_def)
  next
    case False
    have "addWithoutOverflow (low + amount) carry = Some x" using b assms(1) by (simp add: x_def addWithoutOverflow_small)
    then show ?thesis
      using False b assms(1) addWithoutOverflow_small [of low amount] splitCarry_floor [of k x]
      by (auto simp: addUnit_def addAndComputeCarry_def x_def)
  qed
  have "x div k * k \<le> x" "x - k < x div k * k"
    using minus_div_mult_eq_mod [of x k] pos_mod_sign [of k x] pos_mod_bound [of k x] assms(1) by linarith+
  then have "\<bar>x div k * k\<bar> \<le> 2 ^ 63" using b by linarith
  moreover have "\<bar>x div k\<bar> * 24 \<le> \<bar>x div k\<bar> * k" using assms(1) by (intro mult_left_mono) simp_all
  ultimately show "\<bar>x div k\<bar> \<le> 2 ^ 61" using assms(1) by (simp add: abs_mult)
qed

lemma addUnit_digits:
  assumes "24 \<le> k" "k \<le> 1000" "0 \<le> low" "low < k" "\<bar>amount\<bar> \<le> 2 ^ 62" "\<bar>carry\<bar> \<le> 2 ^ 61"
  obtains r c where "addUnit low k amount carry = Some (r, c)" "low + amount + carry = c * k + r" "0 \<le> r" "r < k" "\<bar>c\<bar> \<le> 2 ^ 61"
proof (rule that [OF addUnit_floor(1) [OF assms]])
  show "\<bar>(low + amount + carry) div k\<bar> \<le> 2 ^ 61" by (rule addUnit_floor(2) [OF assms])
qed (use assms(1) in simp_all)

lemma microsOfDay_bounds: "validTime t \<Longrightarrow> 0 \<le> microsOfDay t" "validTime t \<Longrightarrow> microsOfDay t < microsPerDay"
  by (cases t; simp add: validTime_def microsOfDay_def microsPerDay_def)+

definition moderate :: "int \<Rightarrow> bool" where
  "moderate x \<longleftrightarrow> \<bar>x\<bar> \<le> 2 ^ 62"

lemma addTimeOfDay_correct:
  assumes "validTime (timeOf v)" "moderate hours" "moderate minutes" "moderate seconds" "moderate millisecs" "moderate microsecs"
  shows "\<exists>v1 dayCarry. addTimeOfDay hours minutes seconds millisecs microsecs v = Some (v1, dayCarry) \<and> validTime (timeOf v1) \<and>
    dateOf v1 = dateOf v \<and> unat v1 < 2 ^ 62 \<and> \<bar>dayCarry\<bar> \<le> 2 ^ 61 \<and>
    microsOfDay (timeOf v) + microsOfDay (hours, minutes, seconds, millisecs, microsecs) = dayCarry * microsPerDay + microsOfDay (timeOf v1)"
proof -
  obtain h mi s ms us where t: "timeOf v = (h, mi, s, ms, us)" by (cases "timeOf v")
  then have g: "uint (getHour v) = h" "uint (getMinute v) = mi" "uint (getSecond v) = s" "uint (getMillisec v) = ms"
    "uint (getMicrosecDuringMillisec v) = us" by (simp_all add: timeOf_def)
  have r: "0 \<le> h" "h < 24" "0 \<le> mi" "mi < 60" "0 \<le> s" "s < 60" "0 \<le> ms" "ms < 1000" "0 \<le> us" "us < 1000"
    using assms(1) by (simp_all add: t validTime_def)
  note md = assms(2-6) [unfolded moderate_def]
  obtain r1 c1 where 1: "addUnit us 1000 microsecs 0 = Some (r1, c1)" "us + microsecs + 0 = c1 * 1000 + r1" "0 \<le> r1" "r1 < 1000" "\<bar>c1\<bar> \<le> 2 ^ 61"
    by (rule addUnit_digits [of 1000 us microsecs 0, OF _ _ r(9,10) md(5)]) simp_all
  obtain r2 c2 where 2: "addUnit ms 1000 millisecs c1 = Some (r2, c2)" "ms + millisecs + c1 = c2 * 1000 + r2" "0 \<le> r2" "r2 < 1000" "\<bar>c2\<bar> \<le> 2 ^ 61"
    by (rule addUnit_digits [of 1000 ms millisecs c1, OF _ _ r(7,8) md(4) 1(5)]) simp_all
  obtain r3 c3 where 3: "addUnit s 60 seconds c2 = Some (r3, c3)" "s + seconds + c2 = c3 * 60 + r3" "0 \<le> r3" "r3 < 60" "\<bar>c3\<bar> \<le> 2 ^ 61"
    by (rule addUnit_digits [of 60 s seconds c2, OF _ _ r(5,6) md(3) 2(5)]) simp_all
  obtain r4 c4 where 4: "addUnit mi 60 minutes c3 = Some (r4, c4)" "mi + minutes + c3 = c4 * 60 + r4" "0 \<le> r4" "r4 < 60" "\<bar>c4\<bar> \<le> 2 ^ 61"
    by (rule addUnit_digits [of 60 mi minutes c3, OF _ _ r(3,4) md(2) 3(5)]) simp_all
  obtain r5 c5 where 5: "addUnit h 24 hours c4 = Some (r5, c5)" "h + hours + c4 = c5 * 24 + r5" "0 \<le> r5" "r5 < 24" "\<bar>c5\<bar> \<le> 2 ^ 61"
    by (rule addUnit_digits [of 24 h hours c4, OF _ _ r(1,2) md(1) 4(5)]) simp_all
  have vt: "validTime (r5, r4, r3, r2, r1)" using 1 2 3 4 5 by (simp add: validTime_def)
  let ?v = "setTime (of_int r5) (of_int r4) (of_int r3) (of_int r2) (of_int r1) v"
  note view = view_setTime [OF validTime_range [OF vt], of v]
  have "addTimeOfDay hours minutes seconds millisecs microsecs v = Some (?v, c5)"
    by (simp add: addTimeOfDay_def g 1(1) 2(1) 3(1) 4(1) 5(1))
  moreover have "microsOfDay (timeOf v) + microsOfDay (hours, minutes, seconds, millisecs, microsecs) =
      c5 * microsPerDay + microsOfDay (r5, r4, r3, r2, r1)"
    using 1(2) 2(2) 3(2) 4(2) 5(2) by (simp add: t microsOfDay_def microsPerDay_def)
  ultimately show ?thesis using view vt 5(5) by simp
qed

definition inCalendar :: "int \<Rightarrow> bool" where
  "inCalendar t \<longleftrightarrow> 0 \<le> t \<and> t < daysBeforeYear 0x10000 * microsPerDay"

lemma inCalendar_day: "0 \<le> r \<Longrightarrow> r < microsPerDay \<Longrightarrow> inCalendar (n * microsPerDay + r) \<longleftrightarrow> dayInRange n"
proof -
  assume r: "0 \<le> r" "r < microsPerDay"
  define N where "N = daysBeforeYear 0x10000"
  have "0 \<le> n * microsPerDay + r \<longleftrightarrow> 0 \<le> n" "n * microsPerDay + r < N * microsPerDay \<longleftrightarrow> n < N"
    using r by (auto simp: microsPerDay_def)
  then show ?thesis by (simp add: inCalendar_def dayInRange_def N_def)
qed

lemma dt_add_micros:
  assumes "dt_isValid v" "moderate days" "moderate hours" "moderate minutes" "moderate seconds" "moderate millisecs" "moderate microsecs"
  defines "target \<equiv> micros v + days * microsPerDay + microsOfDay (hours, minutes, seconds, millisecs, microsecs)"
  shows "if inCalendar target
    then \<exists>v'. dt_add 0 0 days hours minutes seconds millisecs microsecs v = Some (True, v') \<and> dt_isValid v' \<and> unat v' < 2 ^ 62 \<and> micros v' = target
    else \<exists>v'. dt_add 0 0 days hours minutes seconds millisecs microsecs v = Some (False, v') \<and> dt_isValid v' \<and> dateOf v' = dateOf v"
proof -
  have valid: "validDate (dateOf v)" "validTime (timeOf v)" using assms(1) by (simp_all add: dt_isValid_iff)
  obtain v1 dc where t: "addTimeOfDay hours minutes seconds millisecs microsecs v = Some (v1, dc)" "validTime (timeOf v1)" "dateOf v1 = dateOf v"
    "unat v1 < 2 ^ 62" "\<bar>dc\<bar> \<le> 2 ^ 61" "microsOfDay (timeOf v) + microsOfDay (hours, minutes, seconds, millisecs, microsecs) = dc * microsPerDay + microsOfDay (timeOf v1)"
    using addTimeOfDay_correct [OF valid(2) assms(3-7)] by blast
  have v1: "dt_isValid v1" using t(2,3) valid(1) by (simp add: dt_isValid_iff)
  define n where "n = dayNumber (dateOf v) + (days + dc)"
  have target: "target = n * microsPerDay + microsOfDay (timeOf v1)" using t(6) by (simp add: target_def micros_def n_def distrib_right)
  have range: "inCalendar target \<longleftrightarrow> dayInRange n"
    unfolding target by (rule inCalendar_day [OF microsOfDay_bounds [OF t(2)]])
  have sum: "addWithoutOverflow days dc = Some (days + dc)"
    using assms(2) t(5) by (intro addWithoutOverflow_small) (simp_all add: moderate_def)
  show ?thesis
  proof (cases "dc = 0 \<and> days = 0")
    case True
    then have "dt_add 0 0 days hours minutes seconds millisecs microsecs v = Some (True, v1)" using t(1) by (simp add: dt_add_def)
    moreover have "dayInRange n" using True dateRange_numbers [OF valid(1)] by (simp add: n_def)
    moreover have "micros v1 = target" using True target t(3) by (simp add: micros_def n_def)
    ultimately show ?thesis using range v1 t(4) by simp
  next
    case False
    have "(if dc \<noteq> 0 then addWithoutOverflow days dc else Some days) = Some (days + dc)" using sum by simp
    then have e: "dt_add 0 0 days hours minutes seconds millisecs microsecs v = addDate 0 0 (days + dc) v1"
      using False t(1) by (auto simp: dt_add_def)
    have "\<bar>days + dc\<bar> \<le> 2 ^ 63" using assms(2) t(5) by (simp add: moderate_def)
    from addDate_days [OF v1 this] show ?thesis
      unfolding e t(3) n_def [symmetric] range using target t(3) v1 by (auto simp: micros_def)
  qed
qed

section \<open>Months and years\<close>

lemma addMonths_month:
  assumes "addMonths months y m = Some (y', m')" "1 \<le> m" "m \<le> 12" "moderate months"
  shows "1 \<le> m' \<and> m' \<le> 12"
proof (cases "months = 0")
  case True
  then show ?thesis using assms by (simp add: addMonths_def)
next
  case False
  have "splitCarry 12 (m - 1 + months) = ((m - 1 + months) mod 12, (m - 1 + months) div 12)"
    by (rule splitCarry_floor) (use assms(2-4) in \<open>simp_all add: moderate_def\<close>)
  moreover have "addWithoutOverflow (m - 1) months = Some (m - 1 + months)"
    by (rule addWithoutOverflow_small) (use assms(2-4) in \<open>simp_all add: moderate_def\<close>)
  ultimately have "m' = (m - 1 + months) mod 12 + 1"
    using assms(1) False by (auto simp: addMonths_def addAndComputeCarry_def bind_eq_Some_conv split: if_splits)
  then show ?thesis using pos_mod_bound [of 12 "m - 1 + months"] pos_mod_sign [of 12 "m - 1 + months"] by linarith
qed

lemma finishDate_valid:
  assumes "stateOk (y, m, d, days)" "moderate months" "finishDate years months (y, m, d, days) = Some t"
  shows "validDate t"
proof -
  obtain y1 m1 y2 where a: "addMonths months y m = Some (y1, m1)" "0 \<le> y2" "y2 \<le> 0xffff" "t = (y2, dayOverflow y2 m1 d)"
    using assms(3) by (auto simp: finishDate_def bind_eq_Some_conv Let_def not_less split: if_splits)
  obtain m2 d2 where f: "addMonths months y m = Some (y1, m1)" "dayOverflow y2 m1 d = (m2, d2)" "0 \<le> y2" "y2 \<le> 0xffff" "t = (y2, m2, d2)"
    using a by (cases "dayOverflow y2 m1 d") simp
  have m1: "1 \<le> m1 \<and> m1 \<le> 12" using addMonths_month [OF f(1) _ _ assms(2)] assms(1) by (simp add: stateOk_def)
  have "y2 mod 2 ^ 64 = y2" using f(3,4) by simp
  then show ?thesis using dayOverflow_correct [OF _ _ _ _ f(2)] m1 assms(1) f(3-5) by (simp add: validDate_def stateOk_def)
qed

lemma addDate_valid:
  assumes "dt_isValid v" "\<bar>days\<bar> \<le> 2 ^ 63" "moderate months" "unat v < 2 ^ 62"
  shows "\<exists>ok v'. addDate years months days v = Some (ok, v') \<and> dt_isValid v' \<and> unat v' < 2 ^ 62 \<and> timeOf v' = timeOf v"
proof -
  obtain y m d where date: "dateOf v = (y, m, d)" by (cases "dateOf v")
  then have g: "uint (getYear v) = y" "uint (getMonth v) = m" "uint (getDay v) = d" by (simp_all add: dateOf_def)
  have valid: "validDate (y, m, d)" "validTime (timeOf v)" using assms(1) date by (simp_all add: dt_isValid_iff)
  then have md: "1 \<le> m" "m \<le> 12" "1 \<le> d" "d \<le> 31" using monthLength_bounds(2) [of y m] by (simp_all add: validDate_def)
  obtain y1 days1 where s4: "skip400years y days = (y1, days1)" by (cases "skip400years y days")
  obtain y' m' d' where loops: "(case skipYears y1 m days1 of (y2, days2) \<Rightarrow> do { s1 \<leftarrow> forwardLoop (y2, m, d, days2); backwardLoop s1 }) =
      Some (y', m', d', 0)" "stateOk (y', m', d', 0)"
    using loops_correct [OF md, of y1 days1] skip400_correct [OF valid(1) assms(2) s4] by auto
  have add: "addDate years months days v = Some (case finishDate years months (y', m', d', 0) of None \<Rightarrow> (False, v)
      | Some (y, m, d) \<Rightarrow> (True, setDate (of_int y) (of_int m) (of_int d) v))"
    using loops(1) s4 assms(1) by (auto simp: addDate_def g Let_def bind_eq_Some_conv split: prod.splits)
  show ?thesis
  proof (cases "finishDate years months (y', m', d', 0)")
    case None
    then have "addDate years months days v = Some (False, v)" using add by simp
    then show ?thesis using assms(1,4) by blast
  next
    case (Some t)
    obtain y2 m2 d2 where t: "t = (y2, m2, d2)" by (cases t)
    have "validDate (y2, m2, d2)" using finishDate_valid [OF loops(2) assms(3) Some] t by simp
    then have "dt_isValid (setDate (of_int y2) (of_int m2) (of_int d2) v)" "unat (setDate (of_int y2) (of_int m2) (of_int d2) v) < 2 ^ 62"
      "timeOf (setDate (of_int y2) (of_int m2) (of_int d2) v) = timeOf v"
      using view_setDate [OF validDate_range, of y2 m2 d2 v] valid(2) by (simp_all add: dt_isValid_iff)
    moreover have "addDate years months days v = Some (True, setDate (of_int y2) (of_int m2) (of_int d2) v)" using add Some t by simp
    ultimately show ?thesis by blast
  qed
qed

lemma dt_add_valid:
  assumes "dt_isValid v" "unat v < 2 ^ 62" "moderate months" "moderate days" "moderate hours" "moderate minutes" "moderate seconds"
    "moderate millisecs" "moderate microsecs"
  shows "\<exists>ok v'. dt_add years months days hours minutes seconds millisecs microsecs v = Some (ok, v') \<and> dt_isValid v' \<and> unat v' < 2 ^ 62"
proof -
  have valid: "validDate (dateOf v)" "validTime (timeOf v)" using assms(1) by (simp_all add: dt_isValid_iff)
  obtain v1 dc where t: "addTimeOfDay hours minutes seconds millisecs microsecs v = Some (v1, dc)" "validTime (timeOf v1)" "dateOf v1 = dateOf v"
    "unat v1 < 2 ^ 62" "\<bar>dc\<bar> \<le> 2 ^ 61" using addTimeOfDay_correct [OF valid(2) assms(5-9)] by blast
  have v1: "dt_isValid v1" using t(2,3) valid(1) by (simp add: dt_isValid_iff)
  show ?thesis
  proof (cases "dc = 0 \<and> days = 0 \<and> months = 0 \<and> years = 0")
    case True
    then have "dt_add years months days hours minutes seconds millisecs microsecs v = Some (True, v1)" using t(1) by (simp add: dt_add_def)
    then show ?thesis using t(4) v1 by blast
  next
    case False
    have "addWithoutOverflow days dc = Some (days + dc)"
      using assms(4) t(5) by (intro addWithoutOverflow_small) (simp_all add: moderate_def)
    then have "(if dc \<noteq> 0 then addWithoutOverflow days dc else Some days) = Some (days + dc)" by simp
    then have e: "dt_add years months days hours minutes seconds millisecs microsecs v = addDate years months (days + dc) v1"
      using False t(1) by (auto simp: dt_add_def)
    have "\<bar>days + dc\<bar> \<le> 2 ^ 63" using assms(4) t(5) by (simp add: moderate_def)
    then show ?thesis unfolding e using addDate_valid [OF v1 _ assms(3) t(4)] by blast
  qed
qed

lemma unat_less_uint: "uint x < 2 ^ k \<Longrightarrow> unat x < 2 ^ k" for x :: u64
  unfolding unat_eq_nat_uint by (subst nat_less_iff) simp_all

lemma dt_set_valid:
  assumes "isValidFields y m d h mi s ms us"
  defines "v \<equiv> dt_set y m d h mi s ms us"
  shows "dt_isValid v \<and> unat v < 2 ^ 62 \<and> dateOf v = (uint y, uint m, uint d) \<and> timeOf v = (uint h, uint mi, uint s, uint ms, uint us)"
proof -
  have vd: "validDate (uint y, uint m, uint d)" and vt: "validTime (uint h, uint mi, uint s, uint ms, uint us)"
    using assms(1) by (simp_all add: isValidFields_iff)
  have r: "unat y < 2 ^ 16" "unat m < 2 ^ 4" "unat d < 2 ^ 5" "unat h < 2 ^ 5" "unat mi < 2 ^ 6" "unat s < 2 ^ 6" "unat ms < 2 ^ 10" "unat us < 2 ^ 10"
    using validDate_range [OF vd] validTime_range [OF vt] unfolding dateRange_def timeRange_def prod.case by (blast intro: unat_less_uint)+
  let ?t = "packTime (unat h) (unat mi) (unat s) (unat ms) (unat us)"
  have v: "unat v = packDate (unat y) (unat m) (unat d) * 2 ^ 37 + ?t" unfolding v_def by (rule unat_dt_set [OF r])
  have t: "?t < 2 ^ 37" by (rule packTime_less [OF r(4-8)])
  have "dateOf v = (uint y, uint m, uint d)" using unpack_date [OF v r(1-3) t] by simp
  moreover have "timeOf v = (uint h, uint mi, uint s, uint ms, uint us)"
    using unpack_time [OF _ r(4-8), of v] digit_mod [OF t] by (simp add: v)
  moreover have "unat v < 2 ^ 62" unfolding v using t packDate_less [OF r(1-3)] by simp
  ultimately show ?thesis using vd vt by (simp add: dt_isValid_iff)
qed

end
