(* ===== verification/Date_Time_Order.thy ===== *)
theory Date_Time_Order
  imports Date_Time_Add
begin

text \<open>
  The packed value orders dates and times as the calendar does, so that two values with the same time since year 0 are equal.
\<close>

section \<open>Dates\<close>

lemma daysBeforeMonth_mono: "1 \<le> m \<Longrightarrow> m \<le> m' \<Longrightarrow> daysBeforeMonth y m \<le> daysBeforeMonth y m'"
  unfolding daysBeforeMonth_def using monthLength_bounds(1) by (intro sum_mono2) (auto intro: order_trans [of 0 28])

definition dateLess :: "int \<times> int \<times> int \<Rightarrow> int \<times> int \<times> int \<Rightarrow> bool" where
  "dateLess = (\<lambda>(y, m, d) (y', m', d'). y < y' \<or> y = y' \<and> (m < m' \<or> m = m' \<and> d < d'))"

lemma dayNumber_less:
  assumes "validDate s" "validDate t" "dateLess s t"
  shows "dayNumber s < dayNumber t"
proof -
  obtain y m d y' m' d' where st: "s = (y, m, d)" "t = (y', m', d')" by (cases s, cases t)
  have v: "0 \<le> y" "y \<le> 0xffff" "1 \<le> m" "m \<le> 12" "1 \<le> d" "d \<le> monthLength y m"
    and v': "0 \<le> y'" "y' \<le> 0xffff" "1 \<le> m'" "m' \<le> 12" "1 \<le> d'" "d' \<le> monthLength y' m'"
    using assms(1,2) by (simp_all add: st validDate_def)
  consider "y < y'" | "y = y'" "m < m'" | "y = y'" "m = m'" "d < d'" using assms(3) by (auto simp: st dateLess_def)
  then show ?thesis
  proof cases
    case 1
    have "position y m d < yearStart (y + 1)" "yearStart y' \<le> position y' m' d'"
      using position_bounds(2) [of m d y] position_bounds(1) [of m' d' y'] v v' by (simp_all add: smallYear_def)
    then show ?thesis
      using 1 v v' yearStart_mono [of "y + 1" y'] position_dayNumber [of y m d] position_dayNumber [of y' m' d']
      by (simp add: st smallYear_def)
  next
    case 2
    then show ?thesis
      using v v' daysBeforeMonth_step [of m y] daysBeforeMonth_mono [of "m + 1" m' y] by (simp add: st dayNumber_def)
  next
    case 3
    then show ?thesis by (simp add: st dayNumber_def)
  qed
qed

lemma dayNumber_inject:
  assumes "validDate s" "validDate t" "dayNumber s = dayNumber t"
  shows "s = t"
proof -
  have "dateLess s t \<or> dateLess t s \<or> s = t" by (cases s; cases t) (auto simp: dateLess_def)
  then show ?thesis using dayNumber_less [OF assms(1,2)] dayNumber_less [OF assms(2,1)] assms(3) by auto
qed

section \<open>Values\<close>

text \<open>Two numbers written with the digits of the packed form and with those of the clock compare alike.\<close>

definition sameOrder :: "int \<Rightarrow> int \<Rightarrow> int \<Rightarrow> int \<Rightarrow> bool" where
  "sameOrder a a' b b' \<longleftrightarrow> (a < a' \<longrightarrow> b < b') \<and> (a = a' \<longrightarrow> b = b')"

lemma sameOrder_digit:
  fixes p q :: int
  assumes "sameOrder a a' b b'" "0 \<le> r" "r < q" "0 \<le> r'" "r' < q" "q \<le> p"
  shows "sameOrder (a * p + r) (a' * p + r') (b * q + r) (b' * q + r')"
proof -
  have less: "x * k + r < x' * k + r' \<longleftrightarrow> x < x' \<or> x = x' \<and> r < r'" if "q \<le> k" for x x' k
  proof -
    have k: "r < k" "r' < k" "0 < k" using assms that by simp_all
    consider "x < x'" | "x = x'" | "x' < x" by linarith
    then show ?thesis
    proof cases
      case 1
      then have "(x + 1) * k \<le> x' * k" using k(3) by (intro mult_right_mono) simp_all
      then show ?thesis using 1 k assms by (simp add: distrib_right)
    next
      case 3
      then have "(x' + 1) * k \<le> x * k" using k(3) by (intro mult_right_mono) simp_all
      then show ?thesis using 3 k assms by (simp add: distrib_right)
    qed simp
  qed
  have eq: "x = x' \<and> r = r'" if "x * k + r = x' * k + r'" "q \<le> k" for x x' k
  proof -
    have "(z * k + r) div k = z" "(z * k + r') div k = z" for z using assms that(2) by simp_all
    then show ?thesis using that(1) by (metis add_left_cancel)
  qed
  show ?thesis using assms(1) less [of p a a'] less [of q b b'] eq [of a p a'] assms(6) unfolding sameOrder_def by auto
qed

lemma packed_time: "unat v mod 2 ^ 37 = packTime (unat (getHour v)) (unat (getMinute v)) (unat (getSecond v)) (unat (getMillisec v))
    (unat (getMicrosecDuringMillisec v))"
proof -
  define t where "t = unat v mod 2 ^ 37"
  have split: "x = x div 2 ^ n * 2 ^ n + x mod 2 ^ n" for x n :: nat by (simp only: div_mult_mod_eq)
  have "t = t div 2 ^ 10 * 2 ^ 10 + t mod 2 ^ 10" by (rule split)
  also have "t div 2 ^ 10 = t div 2 ^ 20 * 2 ^ 10 + t div 2 ^ 10 mod 2 ^ 10" using split [of "t div 2 ^ 10" 10] by (simp flip: div_mult2_eq)
  also have "t div 2 ^ 20 = t div 2 ^ 26 * 2 ^ 6 + t div 2 ^ 20 mod 2 ^ 6" using split [of "t div 2 ^ 20" 6] by (simp flip: div_mult2_eq)
  also have "t div 2 ^ 26 = t div 2 ^ 32 * 2 ^ 6 + t div 2 ^ 26 mod 2 ^ 6" using split [of "t div 2 ^ 26" 6] by (simp flip: div_mult2_eq)
  finally show ?thesis unfolding packTime_def time_digits t_def by simp
qed

lemma packed_date:
  assumes "unat v < 2 ^ 62"
  shows "unat v div 2 ^ 37 = packDate (unat (getYear v)) (unat (getMonth v)) (unat (getDay v))"
proof -
  define t where "t = unat v div 2 ^ 37"
  have split: "x = x div 2 ^ n * 2 ^ n + x mod 2 ^ n" for x n :: nat by (simp only: div_mult_mod_eq)
  have t: "unat v div 2 ^ 42 = t div 2 ^ 5" "unat v div 2 ^ 46 = t div 2 ^ 9" unfolding t_def by (simp_all flip: div_mult2_eq)
  have "unat v div 2 ^ 46 < 2 ^ 16" using assms by (simp add: div_less_iff_less_mult)
  then have y: "unat v div 2 ^ 46 mod 2 ^ 16 = t div 2 ^ 9" unfolding t(2) by (rule mod_less)
  have "t = t div 2 ^ 5 * 2 ^ 5 + t mod 2 ^ 5" by (rule split)
  also have "t div 2 ^ 5 = t div 2 ^ 9 * 2 ^ 4 + t div 2 ^ 5 mod 2 ^ 4" using split [of "t div 2 ^ 5" 4] by (simp flip: div_mult2_eq)
  finally show ?thesis unfolding packDate_def getters y unfolding t t_def [symmetric] .
qed

lemma time_order:
  assumes "validTime (timeOf v)" "validTime (timeOf w)"
  shows "sameOrder (int (unat v mod 2 ^ 37)) (int (unat w mod 2 ^ 37)) (microsOfDay (timeOf v)) (microsOfDay (timeOf w))"
proof -
  let ?h = "\<lambda>v. uint (getHour v)" let ?mi = "\<lambda>v. uint (getMinute v)" let ?s = "\<lambda>v. uint (getSecond v)"
  let ?ms = "\<lambda>v. uint (getMillisec v)" let ?us = "\<lambda>v. uint (getMicrosecDuringMillisec v)"
  have r: "0 \<le> ?mi u \<and> ?mi u < 60 \<and> 0 \<le> ?s u \<and> ?s u < 60 \<and> 0 \<le> ?ms u \<and> ?ms u < 1000 \<and> 0 \<le> ?us u \<and> ?us u < 1000" if "u \<in> {v, w}" for u
    using assms that by (auto simp: validTime_def timeOf_def)
  have p: "int (unat u mod 2 ^ 37) = (((?h u * 2 ^ 6 + ?mi u) * 2 ^ 6 + ?s u) * 2 ^ 10 + ?ms u) * 2 ^ 10 + ?us u" for u
    unfolding packed_time packTime_def by simp
  have "sameOrder (?h v) (?h w) (?h v) (?h w)" by (simp add: sameOrder_def)
  then have "sameOrder (?h v * 2 ^ 6 + ?mi v) (?h w * 2 ^ 6 + ?mi w) (?h v * 60 + ?mi v) (?h w * 60 + ?mi w)"
    by (rule sameOrder_digit) (use r in auto)
  then have "sameOrder ((?h v * 2 ^ 6 + ?mi v) * 2 ^ 6 + ?s v) ((?h w * 2 ^ 6 + ?mi w) * 2 ^ 6 + ?s w)
      ((?h v * 60 + ?mi v) * 60 + ?s v) ((?h w * 60 + ?mi w) * 60 + ?s w)"
    by (rule sameOrder_digit) (use r in auto)
  then have "sameOrder (((?h v * 2 ^ 6 + ?mi v) * 2 ^ 6 + ?s v) * 2 ^ 10 + ?ms v) (((?h w * 2 ^ 6 + ?mi w) * 2 ^ 6 + ?s w) * 2 ^ 10 + ?ms w)
      (((?h v * 60 + ?mi v) * 60 + ?s v) * 1000 + ?ms v) (((?h w * 60 + ?mi w) * 60 + ?s w) * 1000 + ?ms w)"
    by (rule sameOrder_digit) (use r in auto)
  then show ?thesis unfolding p timeOf_def microsOfDay_def prod.case by (rule sameOrder_digit) (use r in auto)
qed

lemma date_order:
  assumes "unat v < 2 ^ 62" "unat w < 2 ^ 62" "unat v div 2 ^ 37 < unat w div 2 ^ 37"
  shows "dateLess (dateOf v) (dateOf w)"
proof -
  let ?y = "\<lambda>v. unat (getYear v)" let ?m = "\<lambda>v. unat (getMonth v)" let ?d = "\<lambda>v. unat (getDay v)"
  have r: "?m u < 2 ^ 4" "?d u < 2 ^ 5" for u unfolding getters by simp_all
  have lt: "(?y v * 2 ^ 4 + ?m v) * 2 ^ 5 + ?d v < (?y w * 2 ^ 4 + ?m w) * 2 ^ 5 + ?d w"
    using assms(3) unfolding packed_date [OF assms(1)] packed_date [OF assms(2)] packDate_def .
  have "?y v < ?y w \<or> ?y v = ?y w \<and> (?m v < ?m w \<or> ?m v = ?m w \<and> ?d v < ?d w)"
    using lt r(1) [of v] r(2) [of v] r(1) [of w] r(2) [of w] by (simp; linarith)
  then show ?thesis unfolding dateLess_def dateOf_def prod.case uint_nat of_nat_less_iff of_nat_eq_iff by simp
qed

lemma micros_less:
  assumes "dt_isValid v" "dt_isValid w" "unat v < 2 ^ 62" "unat w < 2 ^ 62" "v < w"
  shows "micros v < micros w"
proof -
  have valid: "validDate (dateOf v)" "validDate (dateOf w)" "validTime (timeOf v)" "validTime (timeOf w)"
    using assms(1,2) by (simp_all add: dt_isValid_iff)
  note t = microsOfDay_bounds [OF valid(3)] microsOfDay_bounds [OF valid(4)]
  have lt: "unat v < unat w" using assms(5) by (simp add: word_less_nat_alt)
  consider "unat v div 2 ^ 37 < unat w div 2 ^ 37" | "unat v div 2 ^ 37 = unat w div 2 ^ 37" "unat v mod 2 ^ 37 < unat w mod 2 ^ 37"
    using lt div_le_mono [of "unat v" "unat w" "2 ^ 37"] div_mult_mod_eq [of "unat v" "2 ^ 37"] div_mult_mod_eq [of "unat w" "2 ^ 37"]
    by (metis less_imp_le nat_add_left_cancel_less order_le_imp_less_or_eq)
  then show ?thesis
  proof cases
    case 1
    have "dayNumber (dateOf v) + 1 \<le> dayNumber (dateOf w)"
      using dayNumber_less [OF valid(1,2) date_order [OF assms(3,4) 1]] by simp
    then have "(dayNumber (dateOf v) + 1) * microsPerDay \<le> dayNumber (dateOf w) * microsPerDay"
      by (intro mult_right_mono) (simp_all add: microsPerDay_def)
    then show ?thesis using t by (simp add: micros_def distrib_right)
  next
    case 2
    have "dateOf v = dateOf w" by (rule dateOf_cong) (simp only: 2(1))
    moreover have "int (unat v mod 2 ^ 37) < int (unat w mod 2 ^ 37)" using 2(2) by (simp only: of_nat_less_iff)
    then have "microsOfDay (timeOf v) < microsOfDay (timeOf w)" using time_order [OF valid(3,4)] unfolding sameOrder_def by blast
    ultimately show ?thesis by (simp add: micros_def)
  qed
qed

lemma micros_inject:
  assumes "dt_isValid v" "dt_isValid w" "unat v < 2 ^ 62" "unat w < 2 ^ 62"
  shows "micros v < micros w \<longleftrightarrow> v < w" "micros v = micros w \<longleftrightarrow> v = w"
  using micros_less [OF assms] micros_less [OF assms(2,1,4,3)] by (metis less_asym less_linear)+

end
