(* ===== verification/Date_Time_Duration.thy ===== *)
theory Date_Time_Duration
  imports Date_Time_Order
begin

text \<open>
  \<open>durationMicrosec\<close>: the iteration that counts the days between two dates by guesses of 365 days per year and 28 days per month always
  meets the later date within its ten rounds, and the result is the exact time between the two values.
\<close>

section \<open>Guesses\<close>

text \<open>What a month starts later than it would if all months had 28 days, and a date in that measure.\<close>

definition excess :: "int \<Rightarrow> int \<Rightarrow> int" where
  "excess y m = daysBeforeMonth y m - 28 * (m - 1)"

definition late :: "int \<times> int \<times> int \<Rightarrow> int" where
  "late = (\<lambda>(y, m, d). excess y m + d - 1)"

definition guess :: "int \<times> int \<times> int \<Rightarrow> int \<times> int \<times> int \<Rightarrow> int" where
  "guess = (\<lambda>(y, m, d) (y', m', d'). if y = y' \<and> m = m' then d' - d else (y' - y) * 365 + (m' - m) * 28)"

lemma excess_step: "1 \<le> m \<Longrightarrow> excess y (m + 1) = excess y m + monthLength y m - 28"
  by (simp add: excess_def daysBeforeMonth_step)

lemma excess_first: "excess y 1 = 0"
  by (simp add: excess_def daysBeforeMonth_table)

lemma excess_mono:
  assumes "1 \<le> m" "m \<le> m'"
  shows "excess y m \<le> excess y m'"
  using assms(2)
proof (induction m' rule: int_ge_induct)
  case (step k)
  then show ?case using excess_step [of k y] monthLength_bounds(1) [of y k] assms(1) by simp
qed simp

lemma excess_bounds:
  assumes "1 \<le> m" "m \<le> 12"
  shows "0 \<le> excess y m" "excess y m \<le> 26 + of_bool (leap y)" "m \<le> 11 \<Longrightarrow> excess y m + monthLength y m \<le> 55" "excess y 12 \<ge> 26"
  by (rule month_cases [OF assms], simp_all add: excess_def daysBeforeMonth_table monthLength_def)+

lemma dayNumber_late: "dayNumber (y, m, d) = daysBeforeYear y + 28 * (m - 1) + late (y, m, d)"
  by (simp add: dayNumber_def late_def excess_def)

lemma late_bounds:
  assumes "validDate (y, m, d)"
  shows "0 \<le> late (y, m, d)" "late (y, m, d) \<le> 56 + of_bool (leap y)" "m \<le> 11 \<Longrightarrow> late (y, m, d) \<le> 54"
  using assms excess_bounds [of m y] monthLength_bounds(2) [of y m] by (simp_all add: validDate_def late_def)

definition leaps :: "int \<Rightarrow> int \<Rightarrow> int" where
  "leaps y y' = daysBeforeYear y' - daysBeforeYear y - 365 * (y' - y)"

lemma leaps_swap: "leaps y' y = - leaps y y'"
  by (simp add: leaps_def)

lemma leaps_bounds:
  assumes "0 \<le> y" "y \<le> y'"
  shows "0 \<le> leaps y y'" "4 * leaps y y' \<le> y' - y + 3" "leap y \<Longrightarrow> y < y' \<Longrightarrow> 1 \<le> leaps y y'"
proof -
  have "0 \<le> leaps y y' \<and> leaps y y' \<le> (y' + 3) div 4 - (y + 3) div 4 \<and> (leap y \<longrightarrow> y < y' \<longrightarrow> 1 \<le> leaps y y')"
    using assms(2)
  proof (induction y' rule: int_ge_induct)
    case base
    then show ?case by (simp add: leaps_def)
  next
    case (step z)
    have "leaps y (z + 1) = leaps y z + of_bool (leap z)"
      using daysBeforeYear_step [of z] assms(1) step.hyps by (simp add: leaps_def yearLength_def)
    moreover have "(z + 1 + 3) div 4 = (z + 3) div 4 + of_bool (4 dvd z)" using ceil_step [of 4 z] by (simp add: add.assoc)
    ultimately show ?case using step by (auto simp: leap_def)
  qed
  moreover have "4 * ((y' + 3) div 4 - (y + 3) div 4) \<le> y' - y + 3" by presburger
  ultimately show "0 \<le> leaps y y'" "4 * leaps y y' \<le> y' - y + 3" "leap y \<Longrightarrow> y < y' \<Longrightarrow> 1 \<le> leaps y y'" by auto
qed

lemma leaps_next: "0 \<le> y \<Longrightarrow> leaps y (y + 1) = of_bool (leap y)"
  using daysBeforeYear_step [of y] by (simp add: leaps_def yearLength_def)

lemma guess_target:
  assumes "y \<noteq> y' \<or> m \<noteq> m'"
  shows "dayNumber (y, m, d) + guess (y, m, d) (y', m', d') = daysBeforeYear y' + 28 * (m' - 1) + late (y, m, d) - leaps y y'"
  using assms by (auto simp: dayNumber_late guess_def leaps_def algebra_simps)

section \<open>Convergence\<close>

text \<open>\<open>reach n e b\<close>: from the date \<open>b\<close> the iteration stays in the calendar and is at \<open>e\<close> after at most \<open>n\<close> rounds.\<close>

primrec reach :: "nat \<Rightarrow> int \<times> int \<times> int \<Rightarrow> int \<times> int \<times> int \<Rightarrow> bool" where
  "reach 0 e b \<longleftrightarrow> b = e"
| "reach (Suc n) e b \<longleftrightarrow> b = e \<or> (\<exists>b'. validDate b' \<and> dayNumber b' = dayNumber b + guess b e \<and> reach n e b')"

lemma reach_mono: "reach n e b \<Longrightarrow> n \<le> k \<Longrightarrow> reach k e b"
proof (induction n arbitrary: b k)
  case 0
  then show ?case by (cases k) auto
next
  case (Suc n)
  then obtain k' where k: "k = Suc k'" "n \<le> k'" by (cases k) auto
  show ?case using Suc.IH [OF _ k(2)] Suc.prems(1) unfolding k(1) reach.simps by blast
qed

lemma reach_step: "validDate b' \<Longrightarrow> dayNumber b' = dayNumber b + guess b e \<Longrightarrow> reach n e b' \<Longrightarrow> reach (Suc n) e b"
  unfolding reach.simps by blast

text \<open>In the same month the guess is exact.\<close>

lemma reach_same_month:
  assumes "validDate (y, m, d')"
  shows "reach 1 (y, m, d') (y, m, d)"
proof -
  have "dayNumber (y, m, d') = dayNumber (y, m, d) + guess (y, m, d) (y, m, d')" by (simp add: dayNumber_def guess_def)
  then show ?thesis using assms by (auto intro: reach_step)
qed

text \<open>A round that lands \<open>k\<close> days after the first day of the month of \<open>e\<close>.\<close>

lemma land_in_month:
  assumes "validDate (y', m', d')" "dayNumber b + guess b (y', m', d') = dayNumber (y', m', 1) + k" "0 \<le> k" "k < monthLength y' m'"
  shows "reach 2 (y', m', d') b"
proof -
  have "validDate (y', m', k + 1)" using assms by (simp add: validDate_def)
  moreover have "dayNumber (y', m', k + 1) = dayNumber b + guess b (y', m', d')" using assms(2) by (simp add: dayNumber_def)
  ultimately show ?thesis using reach_same_month [OF assms(1), of "k + 1"] reach_step numeral_2_eq_2 One_nat_def by metis
qed

lemma guess_same_year:
  assumes "m \<noteq> m'"
  shows "dayNumber (y, m, d) + guess (y, m, d) (y, m', d') = dayNumber (y, m', 1) + (excess y m - excess y m' + d - 1)"
  using assms guess_target [of y y m m' d d'] by (simp add: dayNumber_late late_def leaps_def)

lemma reach_before:
  assumes "validDate (y, m', d')" "validDate (y, m, d)" "m < m'"
  shows "reach 3 (y, m', d') (y, m, d)"
proof -
  define k where "k = excess y m - excess y m' + d - 1"
  have v: "1 \<le> m" "m' \<le> 12" "1 \<le> d" "d \<le> monthLength y m" using assms by (simp_all add: validDate_def)
  have up: "k \<le> 27" using excess_step [of m y] excess_mono [of "m + 1" m' y] v assms(3) by (simp add: k_def)
  have low: "- 27 \<le> k" using excess_bounds(1,2) [of m y] excess_bounds(1,2) [of m' y] v assms(3) by (cases "leap y") (simp_all add: k_def)
  have t: "dayNumber (y, m, d) + guess (y, m, d) (y, m', d') = dayNumber (y, m', 1) + k"
    using guess_same_year [of m m'] assms(3) by (simp add: k_def)
  show ?thesis
  proof (cases "0 \<le> k")
    case True
    then show ?thesis using land_in_month [OF assms(1) t] up monthLength_bounds(1) [of y m'] reach_mono [of 2 _ _ 3] by simp
  next
    case False
    let ?n = "m' - 1" let ?d = "monthLength y (m' - 1) + k + 1"
    have n: "1 \<le> ?n" "?n \<noteq> m'" using v(1) assms(3) by simp_all
    have b: "validDate (y, ?n, ?d)" using False low monthLength_bounds(1) [of y ?n] assms n(1) by (simp add: validDate_def)
    have "dayNumber (y, ?n, ?d) = dayNumber (y, m', 1) + k" using daysBeforeMonth_step [OF n(1), of y] by (simp add: dayNumber_def)
    then have e: "dayNumber (y, ?n, ?d) = dayNumber (y, m, d) + guess (y, m, d) (y, m', d')" using t by simp
    have "dayNumber (y, ?n, ?d) + guess (y, ?n, ?d) (y, m', d') = dayNumber (y, m', 1) + (k + 28)"
      using guess_same_year [OF n(2), of y ?d d'] excess_step [OF n(1), of y] by simp
    then have "reach 2 (y, m', d') (y, ?n, ?d)" using land_in_month [OF assms(1)] low False monthLength_bounds(1) [of y m'] by simp
    then show ?thesis using reach_step [OF b e, of 2] by (simp add: numeral_3_eq_3)
  qed
qed

lemma land_after_month:
  assumes "validDate (y, m', d')" "m' < 12" "dayNumber b + guess b (y, m', d') = dayNumber (y, m', 1) + k" "0 \<le> k" "k \<le> 57"
  shows "reach 4 (y, m', d') b"
proof -
  have v: "0 \<le> y" "y \<le> 0xffff" "1 \<le> m'" using assms(1) by (simp_all add: validDate_def)
  let ?n = "m' + 1" let ?l = "monthLength y m'"
  have two: "?l \<ge> 28" "k < ?l + monthLength y ?n"
  proof -
    have "59 \<le> ?l + monthLength y ?n" using v(3) assms(2) by (auto simp: monthLength_def)
    then show "k < ?l + monthLength y ?n" using assms(5) by simp
  qed (rule monthLength_bounds)
  have next_month: "validDate (y, ?n, j - ?l + 1) \<and> dayNumber (y, ?n, j - ?l + 1) = dayNumber (y, m', 1) + j \<and>
      dayNumber (y, ?n, j - ?l + 1) + guess (y, ?n, j - ?l + 1) (y, m', d') = dayNumber (y, m', 1) + (j - 28)"
    if "?l \<le> j" "j < ?l + monthLength y ?n" for j
    using that v assms(2) daysBeforeMonth_step [OF v(3), of y] guess_same_year [of ?n m' y "j - ?l + 1" d'] excess_step [OF v(3), of y]
    by (simp add: validDate_def dayNumber_def)
  have near: "reach 3 (y, m', d') c" if "dayNumber c + guess c (y, m', d') = dayNumber (y, m', 1) + j" "0 \<le> j" "j \<le> 29" for c j
  proof (cases "j < ?l")
    case True
    then show ?thesis using land_in_month [OF assms(1) that(1)] that(2) reach_mono [of 2 _ _ 3] by simp
  next
    case False
    then have n: "validDate (y, ?n, j - ?l + 1)" "dayNumber (y, ?n, j - ?l + 1) = dayNumber c + guess c (y, m', d')"
      "dayNumber (y, ?n, j - ?l + 1) + guess (y, ?n, j - ?l + 1) (y, m', d') = dayNumber (y, m', 1) + (j - 28)"
      using next_month [of j] that two monthLength_bounds(1) [of y ?n] by simp_all
    have "reach 2 (y, m', d') (y, ?n, j - ?l + 1)" using land_in_month [OF assms(1) n(3)] False two(1) that(3) by simp
    then show ?thesis using reach_step [OF n(1,2), of 2] by (simp add: numeral_3_eq_3)
  qed
  show ?thesis
  proof (cases "k < ?l")
    case True
    then show ?thesis using land_in_month [OF assms(1,3)] assms(4) reach_mono [of 2 _ _ 4] by simp
  next
    case False
    then have n: "validDate (y, ?n, k - ?l + 1)" "dayNumber (y, ?n, k - ?l + 1) = dayNumber b + guess b (y, m', d')"
      "dayNumber (y, ?n, k - ?l + 1) + guess (y, ?n, k - ?l + 1) (y, m', d') = dayNumber (y, m', 1) + (k - 28)"
      using next_month [of k] two assms(3) by simp_all
    have "reach 3 (y, m', d') (y, ?n, k - ?l + 1)" using near [OF n(3)] False two(1) assms(5) by simp
    then show ?thesis using reach_step [OF n(1,2), of 3] by (simp add: eval_nat_numeral)
  qed
qed

lemma reach_same_year:
  assumes "validDate (y, m', d')" "validDate (y, m, d)"
  shows "reach 4 (y, m', d') (y, m, d)"
proof -
  have v: "1 \<le> m" "m \<le> 12" "1 \<le> m'" "m' \<le> 12" "1 \<le> d" "d \<le> 31" using assms monthLength_bounds(2) [of y m] by (simp_all add: validDate_def)
  consider "m < m'" | "m = m'" | "m' < m" by linarith
  then show ?thesis
  proof cases
    case 1
    then show ?thesis using reach_before [OF assms] reach_mono [of 3 _ _ 4] by simp
  next
    case 2
    then show ?thesis using reach_same_month [OF assms(1)] reach_mono [of 1 _ _ 4] by simp
  next
    case 3
    have "0 \<le> excess y m - excess y m' + d - 1" using excess_mono [of m' m y] 3 v by simp
    moreover have "excess y m - excess y m' + d - 1 \<le> 57"
      using excess_bounds(1,2) [of m y] excess_bounds(1) [of m' y] v by (cases "leap y") simp_all
    ultimately show ?thesis using land_after_month [OF assms(1) _ guess_same_year] 3 v by simp
  qed
qed

section \<open>Across years\<close>

text \<open>Every day of the calendar has a date.\<close>

lemma date_exists:
  assumes "validDate t" "dayInRange (dayNumber t + k)"
  obtains b where "validDate b" "dayNumber b = dayNumber t + k"
proof -
  obtain y m d where t: "t = (y, m, d)" by (cases t)
  define v where "v = setDate (of_int y) (of_int m) (of_int d) 0"
  have "dateRange (y, m, d)" using assms(1) validDate_range by (simp add: t)
  from view_setDate [OF this, of 0] have v: "dateOf v = t" "timeOf v = timeOf 0" by (simp_all add: v_def t)
  have "timeOf 0 = (0, 0, 0, 0, 0)"
    by (simp add: timeOf_def getHour_def getMinute_def getSecond_def getMillisec_def getMicrosecDuringMillisec_def)
  then have valid: "dt_isValid v" using assms(1) v by (simp add: dt_isValid_iff validTime_def)
  have "daysBeforeYear 0x10000 < 2 ^ 63" by (simp add: daysBeforeYear_closed)
  then have "\<bar>k\<bar> \<le> 2 ^ 63" using dateRange_numbers [OF assms(1)] assms(2) unfolding dayInRange_def by linarith
  from addDate_days [OF valid this] assms(2) obtain v' where "dt_isValid v'" "dayNumber (dateOf v') = dayNumber t + k"
    unfolding v(1) by auto
  then show ?thesis using that [of "dateOf v'"] by (simp add: dt_isValid_iff)
qed

lemma guess_in_range:
  assumes "validDate b" "validDate e"
  shows "dayInRange (dayNumber b + guess b e)"
proof -
  obtain y m d y' m' d' where be: "b = (y, m, d)" "e = (y', m', d')" by (cases b, cases e)
  have v: "0 \<le> y" "y \<le> 0xffff" "1 \<le> m" "m \<le> 12" and v': "0 \<le> y'" "y' \<le> 0xffff" "1 \<le> m'" "m' \<le> 12"
    using assms by (simp_all add: be validDate_def)
  note w = late_bounds [of y m d] and ib = dateRange_numbers [OF assms(1)] and ie = dateRange_numbers [OF assms(2)]
  have top: "daysBeforeYear (y' + 1) \<le> daysBeforeYear 0x10000" using v' by (intro daysBeforeYear_mono) simp_all
  have start: "0 \<le> daysBeforeYear y'" "0 \<le> daysBeforeYear y" using daysBeforeYear_mono [of 0 y'] daysBeforeYear_mono [of 0 y] v v'
    by (simp_all add: daysBeforeYear_def)
  show ?thesis
  proof (cases "y = y' \<and> m = m'")
    case True
    then have "dayNumber b + guess b e = dayNumber e" by (simp add: be guess_def dayNumber_def)
    then show ?thesis using ie by simp
  next
    case False
    then have t: "dayNumber b + guess b e = daysBeforeYear y' + 28 * (m' - 1) + late (y, m, d) - leaps y y'"
      using guess_target [of y y' m m' d d'] by (simp add: be)
    have g: "guess b e = (y' - y) * 365 + (m' - m) * 28" using False by (auto simp: be guess_def)
    show ?thesis
    proof (cases "y' < y")
      case True
      have "leaps y y' \<le> 0" using leaps_bounds(1) [of y' y] leaps_swap [of y y'] True v' by simp
      moreover have "guess b e < 0" unfolding g using True v v' by simp
      ultimately show ?thesis using ib t w assms(1) v' start by (simp add: be dayInRange_def)
    next
      case ge: False
      have L: "0 \<le> leaps y y'" "leap y \<Longrightarrow> y < y' \<Longrightarrow> 1 \<le> leaps y y'" using leaps_bounds(1,3) [of y y'] ge v by simp_all
      have "0 \<le> dayNumber b + guess b e"
        using dayNumber_late [of y m d] g w(1) assms(1) v' ge start unfolding be by (simp add: algebra_simps)
      moreover have "28 * (m' - 1) + late (y, m, d) - leaps y y' < yearLength y'"
      proof (cases "m \<le> 11")
        case True
        then show ?thesis using w(3) assms(1) v' L(1) yearLength_bounds(1) [of y'] by (simp add: be)
      next
        case F: False
        then have "late (y, m, d) - leaps y y' \<le> 56 \<or> m' \<le> 11 \<and> late (y, m, d) - leaps y y' \<le> 57"
          using w(2) assms(1) L False ge v v' by (cases "leap y"; cases "y = y'") (auto simp: be)
        then show ?thesis using v' yearLength_bounds(1) [of y'] by auto
      qed
      ultimately show ?thesis using t top daysBeforeYear_step [OF v'(1)] by (simp add: dayInRange_def)
    qed
  qed
qed

lemma reach_guess:
  assumes "validDate b" "validDate e" "\<And>b'. validDate b' \<Longrightarrow> dayNumber b' = dayNumber b + guess b e \<Longrightarrow> reach n e b'"
  shows "reach (Suc n) e b"
proof -
  obtain b' where "validDate b'" "dayNumber b' = dayNumber b + guess b e"
    by (rule date_exists [OF assms(1) guess_in_range [OF assms(1,2)]])
  then show ?thesis using reach_step assms(3) by blast
qed

text \<open>The year in which a day of the calendar lies.\<close>

lemma dayNumber_year:
  assumes "validDate (y, m, d)"
  shows "daysBeforeYear y \<le> dayNumber (y, m, d)" "dayNumber (y, m, d) < daysBeforeYear (y + 1)"
proof -
  have v: "0 \<le> y" "y \<le> 0xffff" "1 \<le> m" "m \<le> 12" "1 \<le> d" "d \<le> monthLength y m" using assms by (simp_all add: validDate_def)
  show "daysBeforeYear y \<le> dayNumber (y, m, d)" "dayNumber (y, m, d) < daysBeforeYear (y + 1)"
    using position_bounds [of m d y] v position_dayNumber [of y m d] by (simp_all add: smallYear_def yearStart_def)
qed

lemma year_of_day:
  assumes "validDate (y, m, d)" "0 \<le> z" "dayNumber (y, m, d) = daysBeforeYear z + k"
  shows "0 \<le> k \<Longrightarrow> k < yearLength z \<Longrightarrow> y = z" "k < 0 \<Longrightarrow> y < z" "yearLength z \<le> k \<Longrightarrow> z < y"
proof -
  have v: "0 \<le> y" using assms(1) by (simp add: validDate_def)
  note b = dayNumber_year [OF assms(1)]
  have less: "y + 1 \<le> z \<Longrightarrow> k < 0" using daysBeforeYear_mono [of "y + 1" z] b(2) assms(3) v(1) by simp
  have more: "z + 1 \<le> y \<Longrightarrow> yearLength z \<le> k"
    using daysBeforeYear_mono [of "z + 1" y] b(1) assms(2,3) daysBeforeYear_step [OF assms(2)] by simp
  have eq: "y = z \<Longrightarrow> 0 \<le> k \<and> k < yearLength z" using b assms(3) daysBeforeYear_step [OF v(1)] by auto
  show "0 \<le> k \<Longrightarrow> k < yearLength z \<Longrightarrow> y = z" "k < 0 \<Longrightarrow> y < z" "yearLength z \<le> k \<Longrightarrow> z < y"
    using less more eq yearLength_bounds(1) [of z] by fastforce+
qed

lemma reach_5:
  assumes "validDate b" "validDate (y', m', d')" "dayNumber b + guess b (y', m', d') = daysBeforeYear y' + k" "0 \<le> k" "k < yearLength y'"
  shows "reach 5 (y', m', d') b"
proof -
  have "reach 4 (y', m', d') c" if c: "validDate c" "dayNumber c = dayNumber b + guess b (y', m', d')" for c
  proof -
    obtain y m d where e: "c = (y, m, d)" by (cases c)
    have "y = y'" using year_of_day(1) [of y m d y' k] c assms e by (simp add: validDate_def)
    then show ?thesis using reach_same_year [OF assms(2)] c(1) e by simp
  qed
  then have "reach (Suc 4) (y', m', d') b" by (rule reach_guess [OF assms(1,2)])
  then show ?thesis by simp
qed

lemma guess_other_year:
  assumes "y \<noteq> y'"
  shows "dayNumber (y, m, d) + guess (y, m, d) (y', m', d') = daysBeforeYear y' + (28 * (m' - 1) + late (y, m, d) - leaps y y')"
  using guess_target [of y y' m m' d d'] assms by simp

lemma reach_year_before:
  assumes "validDate (y', m', d')" "validDate (y, m, d)" "y' = y + 1"
  shows "reach 6 (y', m', d') (y, m, d)"
proof -
  have v: "0 \<le> y" "1 \<le> m'" "m' \<le> 12" using assms(1,2) by (simp_all add: validDate_def)
  define q where "q = 28 * (m' - 1) + late (y, m, d) - of_bool (leap y)"
  have len: "365 \<le> yearLength y'" by (rule yearLength_bounds)
  have q: "- 1 \<le> q" "q < 365" using late_bounds [OF assms(2)] v unfolding q_def by (cases "leap y"; simp)+
  have t: "dayNumber (y, m, d) + guess (y, m, d) (y', m', d') = daysBeforeYear y' + q"
    using guess_other_year [of y y' m d m' d'] leaps_next [OF v(1)] assms(3) by (simp add: q_def)
  show ?thesis
  proof (cases "0 \<le> q")
    case True
    then show ?thesis using reach_5 [OF assms(2,1) t] q len reach_mono [of 5 _ _ 6] by simp
  next
    case False
    have dec: "validDate (y, 12, 31)" using assms(2) by (simp add: validDate_def monthLength_def)
    have "dayNumber (y, 12, 31) = daysBeforeYear y' - 1"
      using daysBeforeYear_step [OF v(1)] assms(3) by (simp add: dayNumber_def daysBeforeMonth_table yearLength_def)
    then have e: "dayNumber (y, 12, 31) = dayNumber (y, m, d) + guess (y, m, d) (y', m', d')" using t False q by simp
    define q2 where "q2 = 28 * (m' - 1) + 56"
    have "late (y, 12, 31) = 56 + of_bool (leap y)" by (simp add: late_def excess_def daysBeforeMonth_table)
    then have "dayNumber (y, 12, 31) + guess (y, 12, 31) (y', m', d') = daysBeforeYear y' + q2"
      using guess_other_year [of y y' 12 31 m' d'] leaps_next [OF v(1)] assms(3) by (simp add: q2_def)
    then have "reach 5 (y', m', d') (y, 12, 31)" using reach_5 [OF dec assms(1)] v len by (simp add: q2_def)
    then show ?thesis using reach_step [OF dec e, of 5] by (simp add: eval_nat_numeral)
  qed
qed

lemma reach_year_after:
  assumes "validDate (y', m', d')" "validDate (y, m, d)" "y = y' + 1"
  shows "reach 6 (y', m', d') (y, m, d)"
proof -
  have v: "0 \<le> y'" "1 \<le> m'" "m' \<le> 12" using assms(1,2) by (simp_all add: validDate_def)
  define q where "q = 28 * (m' - 1) + late (y, m, d) + of_bool (leap y')"
  have len: "yearLength y' = 365 + of_bool (leap y')" by (simp add: yearLength_def)
  have q: "0 \<le> q" "q \<le> 365 + of_bool (leap y')" using late_bounds [OF assms(2)] v unfolding q_def by (cases "leap y"; simp)+
  have lp: "leaps y y' = - of_bool (leap y')" using leaps_next [OF v(1)] leaps_swap [of y y'] assms(3) by simp
  have t: "dayNumber (y, m, d) + guess (y, m, d) (y', m', d') = daysBeforeYear y' + q"
    using guess_other_year [of y y' m d m' d'] lp assms(3) by (simp add: q_def)
  show ?thesis
  proof (cases "q < yearLength y'")
    case True
    then show ?thesis using reach_5 [OF assms(2,1) t] q reach_mono [of 5 _ _ 6] by simp
  next
    case False
    then have q1: "q = yearLength y'" using q len by simp
    have jan: "validDate (y, 1, 1)" using assms(2) by (simp add: validDate_def monthLength_def)
    have e: "dayNumber (y, 1, 1) = dayNumber (y, m, d) + guess (y, m, d) (y', m', d')"
      using t q1 daysBeforeYear_step [OF v(1)] assms(3) by (simp add: dayNumber_def daysBeforeMonth_table)
    have "late (y, 1, 1) = 0" by (simp add: late_def excess_first)
    then have "dayNumber (y, 1, 1) + guess (y, 1, 1) (y', m', d') = daysBeforeYear y' + (28 * (m' - 1) + of_bool (leap y'))"
      using guess_other_year [of y y' 1 1 m' d'] lp assms(3) by simp
    then have "reach 5 (y', m', d') (y, 1, 1)" using reach_5 [OF jan assms(1)] v len by simp
    then show ?thesis using reach_step [OF jan e, of 5] by (simp add: eval_nat_numeral)
  qed
qed

lemma reach_neighbours:
  assumes "validDate (y', m', d')" "validDate (y, m, d)" "\<bar>y' - y\<bar> \<le> 1"
  shows "reach 6 (y', m', d') (y, m, d)"
proof -
  consider "y' = y" | "y' = y + 1" | "y = y' + 1" using assms(3) by linarith
  then show ?thesis
    using reach_same_year [of y m' d' m d] reach_mono [of 4 _ _ 6] reach_year_before [OF assms(1,2)] reach_year_after [OF assms(1,2)] assms(1,2)
    by cases auto
qed

lemma years_apart:
  assumes "validDate (y, m, d)" "validDate (y', m', d')"
  shows "365 * \<bar>y' - y\<bar> \<le> \<bar>dayNumber (y', m', d') - dayNumber (y, m, d)\<bar> + 366"
proof -
  have later: "365 * (b - a) \<le> dayNumber (b, mb, db) - dayNumber (a, ma, da) + 366"
    if v: "validDate (a, ma, da)" "validDate (b, mb, db)" "a < b" for a b ma mb da db
  proof -
    have a: "0 \<le> a" using v(1) by (simp add: validDate_def)
    have "dayNumber (a, ma, da) < daysBeforeYear (a + 1)" "daysBeforeYear b \<le> dayNumber (b, mb, db)"
      using dayNumber_year [OF v(1)] dayNumber_year [OF v(2)] daysBeforeYear_step [OF a] by simp_all
    moreover have "0 \<le> leaps (a + 1) b" using leaps_bounds(1) [of "a + 1" b] a v(3) by simp
    ultimately show ?thesis by (simp add: leaps_def)
  qed
  consider "y < y'" | "y = y'" | "y' < y" by linarith
  then show ?thesis using later [OF assms] later [OF assms(2,1)] by cases auto
qed

lemma guess_error:
  assumes "validDate (y, m, d)" "validDate (y', m', d')" "y \<noteq> y'"
  shows "4 * \<bar>dayNumber (y', m', d') - (dayNumber (y, m, d) + guess (y, m, d) (y', m', d'))\<bar> \<le> \<bar>y' - y\<bar> + 231"
proof -
  have v: "0 \<le> y" "0 \<le> y'" using assms by (simp_all add: validDate_def)
  have "4 * \<bar>leaps y y'\<bar> \<le> \<bar>y' - y\<bar> + 3"
    using leaps_bounds(1,2) [of y y'] leaps_bounds(1,2) [of y' y] leaps_swap [of y y'] v by (cases "y \<le> y'") auto
  moreover have eq: "dayNumber (y', m', d') - (dayNumber (y, m, d) + guess (y, m, d) (y', m', d')) =
      late (y', m', d') - late (y, m, d) + leaps y y'"
    using guess_other_year [OF assms(3), of m d m' d'] dayNumber_late [of y' m' d'] by simp
  moreover have "\<bar>late (y', m', d') - late (y, m, d)\<bar> \<le> 57"
    using late_bounds [OF assms(1)] late_bounds [OF assms(2)] by (cases "leap y"; cases "leap y'"; simp)
  ultimately show ?thesis unfolding eq using abs_triangle_ineq [of "late (y', m', d') - late (y, m, d)" "leaps y y'"] by simp
qed

lemma reach_closer:
  assumes "validDate (y', m', d')" "validDate (y, m, d)"
    and "y \<noteq> y'" and near: "\<And>yc mc dc. validDate (yc, mc, dc) \<Longrightarrow> 1460 * \<bar>y' - yc\<bar> \<le> \<bar>y' - y\<bar> + 1695 \<Longrightarrow> reach n (y', m', d') (yc, mc, dc)"
  shows "reach (Suc n) (y', m', d') (y, m, d)"
proof -
  have "reach n (y', m', d') c" if c: "validDate c" "dayNumber c = dayNumber (y, m, d) + guess (y, m, d) (y', m', d')" for c
  proof -
    obtain yc mc dc where e: "c = (yc, mc, dc)" by (cases c)
    have "365 * \<bar>y' - yc\<bar> \<le> \<bar>dayNumber (y', m', d') - dayNumber c\<bar> + 366" using years_apart [of yc mc dc y' m' d'] c(1) assms(1) e by simp
    moreover have "4 * \<bar>dayNumber (y', m', d') - dayNumber c\<bar> \<le> \<bar>y' - y\<bar> + 231" using guess_error [OF assms(2,1,3)] c(2) by simp
    ultimately show ?thesis using near [of yc mc dc] c(1) e by simp
  qed
  then show ?thesis by (rule reach_guess [OF assms(2,1)])
qed

lemma reach_10:
  assumes "validDate e" "validDate b"
  shows "reach 10 e b"
proof -
  obtain y m d y' m' d' where be: "b = (y, m, d)" "e = (y', m', d')" by (cases b, cases e)
  have v: "0 \<le> y" "y \<le> 0xffff" "0 \<le> y'" "y' \<le> 0xffff" using assms by (simp_all add: be validDate_def)
  have e: "validDate (y', m', d')" using assms(1) by (simp add: be)
  have r7: "reach 7 (y', m', d') (z, k, l)" if z: "validDate (z, k, l)" "\<bar>y' - z\<bar> \<le> 46" for z k l
  proof (cases "z = y'")
    case True
    then show ?thesis using reach_same_year [OF e] z(1) reach_mono [of 4 _ _ 7] by simp
  next
    case False
    have "reach (Suc 6) (y', m', d') (z, k, l)"
    proof (rule reach_closer [OF e z(1) False])
      fix yc mc dc assume "validDate (yc, mc, dc)" "1460 * \<bar>y' - yc\<bar> \<le> \<bar>y' - z\<bar> + 1695"
      then show "reach 6 (y', m', d') (yc, mc, dc)" using reach_neighbours [OF e] z(2) by simp
    qed
    then show ?thesis by simp
  qed
  have "reach 8 (y', m', d') (y, m, d)"
  proof (cases "y = y'")
    case True
    then show ?thesis using reach_same_year [OF e] assms(2) reach_mono [of 4 _ _ 8] by (simp add: be)
  next
    case False
    have "reach (Suc 7) (y', m', d') (y, m, d)"
    proof (rule reach_closer [OF e _ False])
      show "validDate (y, m, d)" using assms(2) by (simp add: be)
      fix yc mc dc assume "validDate (yc, mc, dc)" "1460 * \<bar>y' - yc\<bar> \<le> \<bar>y' - y\<bar> + 1695"
      moreover have "\<bar>y' - y\<bar> \<le> 0xffff" using v by linarith
      ultimately show "reach 7 (y', m', d') (yc, mc, dc)" using r7 by simp
    qed
    then show ?thesis by simp
  qed
  then show ?thesis using reach_mono [of 8 _ _ 10] by (simp add: be)
qed

section \<open>The search for the number of days\<close>

lemma guessDays_guess:
  assumes "dt_isValid b" "dt_isValid e"
  shows "guessDays b e = guess (dateOf b) (dateOf e)"
proof -
  obtain y m d y' m' d' where be: "dateOf b = (y, m, d)" "dateOf e = (y', m', d')" by (cases "dateOf b", cases "dateOf e")
  then have f: "uint (getYear b) = y" "uint (getMonth b) = m" "uint (getDay b) = d" "uint (getYear e) = y'" "uint (getMonth e) = m'" "uint (getDay e) = d'"
    by (simp_all add: dateOf_def)
  have r: "1 \<le> m" "m \<le> 12" "1 \<le> m'" "m' \<le> 12" using assms be by (simp_all add: dt_isValid_iff validDate_def)
  consider "y' \<le> y - 1" | "y' = y" | "y + 1 \<le> y'" by linarith
  then have "(y' - y) * 365 + (m' - m) * 28 = 0 \<longleftrightarrow> y = y' \<and> m = m'" using r by cases auto
  then show ?thesis unfolding guessDays_def be guess_def f Let_def by simp
qed

lemma same_day_same_value:
  assumes "dt_isValid v" "dt_isValid w" "unat v < 2 ^ 62" "unat w < 2 ^ 62" "timeOf v = timeOf w"
  shows "v = w \<longleftrightarrow> dateOf v = dateOf w"
  using micros_inject(2) [OF assms(1-4)] assms(5) by (auto simp: micros_def)

lemma countDays_reach:
  assumes "reach n (dateOf e) (dateOf b)" "dt_isValid b" "dt_isValid e" "unat b < 2 ^ 62" "unat e < 2 ^ 62" "timeOf b = timeOf e"
  shows "countDays n e b t = Some (e, t + (dayNumber (dateOf e) - dayNumber (dateOf b)))"
  using assms
proof (induction n arbitrary: b t)
  case 0
  then have "b = e" using same_day_same_value [of b e] by simp
  then show ?case by simp
next
  case (Suc n)
  show ?case
  proof (cases "b = e")
    case False
    define g where "g = guess (dateOf b) (dateOf e)"
    have valid: "validDate (dateOf b)" "validDate (dateOf e)" using Suc.prems(2,3) by (simp_all add: dt_isValid_iff)
    have differ: "dateOf b \<noteq> dateOf e" using same_day_same_value [of b e] Suc.prems False by simp
    then obtain c where c: "validDate c" "dayNumber c = dayNumber (dateOf b) + g" "reach n (dateOf e) c"
      using Suc.prems(1) unfolding reach.simps g_def by blast
    have r: "dayInRange (dayNumber (dateOf b) + g)" using guess_in_range [OF valid] by (simp add: g_def)
    have "daysBeforeYear 0x10000 < 2 ^ 63" by (simp add: daysBeforeYear_closed)
    then have "\<bar>g\<bar> \<le> 2 ^ 63" using dateRange_numbers [OF valid(1)] r unfolding dayInRange_def by linarith
    from addDate_days [OF Suc.prems(2) this] r obtain b' where b': "addDate 0 0 g b = Some (True, b')" "dt_isValid b'"
      "dayNumber (dateOf b') = dayNumber (dateOf b) + g" "timeOf b' = timeOf b" "unat b' < 2 ^ 62" by auto
    have "dateOf b' = c" using dayNumber_inject [OF _ c(1)] b'(2,3) c(2) by (simp add: dt_isValid_iff)
    then have "countDays n e b' (t + g) = Some (e, t + g + (dayNumber (dateOf e) - dayNumber (dateOf b')))"
      using Suc.IH [of b' "t + g"] Suc.prems b' c(3) by simp
    then show ?thesis using False b'(1,3) guessDays_guess [OF Suc.prems(2,3)] by (simp add: g_def)
  qed simp
qed

section \<open>Durations are differences of positions\<close>

lemma digits_eq:
  fixes a a' k r r' :: int
  assumes "a * k + r = a' * k + r'" "0 \<le> r" "r < k" "0 \<le> r'" "r' < k"
  shows "a = a'" "r = r'"
proof -
  have "a = (a * k + r) div k" "a' = (a' * k + r') div k" using assms(2-5) by simp_all
  then show "a = a'" using assms(1) by simp
  then show "r = r'" using assms(1) by simp
qed

lemma microsOfDay_inject:
  assumes "validTime t" "validTime t'" "microsOfDay t = microsOfDay t'"
  shows "t = t'"
proof -
  obtain h mi s ms us h' mi' s' ms' us' where t: "t = (h, mi, s, ms, us)" "t' = (h', mi', s', ms', us')" by (cases t, cases t')
  note d = digits_eq [where k = 1000] digits_eq [where k = 60]
  have r: "0 \<le> mi" "mi < 60" "0 \<le> mi'" "mi' < 60" "0 \<le> s" "s < 60" "0 \<le> s'" "s' < 60" "0 \<le> ms" "ms < 1000" "0 \<le> ms'" "ms' < 1000"
    "0 \<le> us" "us < 1000" "0 \<le> us'" "us' < 1000" using assms(1,2) unfolding t validTime_def prod.case by blast+
  have e: "(((h * 60 + mi) * 60 + s) * 1000 + ms) * 1000 + us = (((h' * 60 + mi') * 60 + s') * 1000 + ms') * 1000 + us'"
    using assms(3) unfolding t microsOfDay_def prod.case .
  note e1 = digits_eq [OF e r(13-16)]
  note e2 = digits_eq [OF e1(1) r(9-12)]
  note e3 = digits_eq [OF e2(1) r(5-8)]
  show ?thesis using digits_eq [OF e3(1) r(1-4)] e1(2) e2(2) e3(2) by (simp add: t)
qed

lemma timeDiffs_sum:
  assumes "timeDiffs b e = (h, mi, s, ms, us)" "validTime (timeOf b)" "validTime (timeOf e)"
  shows "microsOfDay (h, mi, s, ms, us) = microsOfDay (timeOf e) - microsOfDay (timeOf b)"
    "moderate h" "moderate mi" "moderate s" "moderate ms" "moderate us"
proof -
  obtain h1 mi1 s1 ms1 us1 h2 mi2 s2 ms2 us2 where t: "timeOf b = (h1, mi1, s1, ms1, us1)" "timeOf e = (h2, mi2, s2, ms2, us2)"
    by (cases "timeOf b", cases "timeOf e")
  then have d: "h = h2 - h1" "mi = mi2 - mi1" "s = s2 - s1" "ms = ms2 - ms1" "us = us2 - us1"
    using assms(1) by (auto simp: timeDiffs_def timeOf_def)
  show "microsOfDay (h, mi, s, ms, us) = microsOfDay (timeOf e) - microsOfDay (timeOf b)" by (simp add: t d microsOfDay_def)
  have "\<bar>h\<bar> < 24" "\<bar>mi\<bar> < 60" "\<bar>s\<bar> < 60" "\<bar>ms\<bar> < 1000" "\<bar>us\<bar> < 1000"
    using assms(2,3) unfolding t d validTime_def prod.case by linarith+
  then show "moderate h" "moderate mi" "moderate s" "moderate ms" "moderate us" by (simp_all add: moderate_def)
qed

lemma durationMicrosec_ordered:
  assumes "dt_isValid b" "dt_isValid e" "unat b < 2 ^ 62" "unat e < 2 ^ 62" "timeDiffs b e = (h, mi, s, ms, us)"
  shows "do {
      (okay, b1) \<leftarrow> dt_add 0 0 0 h mi s ms us b;
      if b1 \<noteq> e
      then do {
        (b2, totalDays) \<leftarrow> countDays 10 e b1 0;
        Some (if b2 \<noteq> e then 0xFFFFFFFFFFFFFFFF
              else of_int (microsOfDay (h, mi, s, ms, us)) + of_int totalDays * (24 * 60 * 60 * 1000 * 1000))
      }
      else Some (of_int (microsOfDay (h, mi, s, ms, us)))
    } = Some (of_int (micros e - micros b) :: u64)"
proof -
  have v: "validDate (dateOf b)" "validDate (dateOf e)" "validTime (timeOf b)" "validTime (timeOf e)"
    using assms(1,2) by (simp_all add: dt_isValid_iff)
  note td = timeDiffs_sum [OF assms(5) v(3,4)]
  define t where "t = dayNumber (dateOf b) * microsPerDay + microsOfDay (timeOf e)"
  have m0: "moderate 0" by (simp add: moderate_def)
  have t: "micros b + 0 * microsPerDay + microsOfDay (h, mi, s, ms, us) = t" unfolding td(1) by (simp add: micros_def t_def)
  have "inCalendar t" unfolding t_def inCalendar_day [OF microsOfDay_bounds [OF v(4)]] by (rule dateRange_numbers [OF v(1)])
  from dt_add_micros [OF assms(1) m0 td(2-6)] this obtain b1 where b1: "dt_add 0 0 0 h mi s ms us b = Some (True, b1)" "dt_isValid b1"
    "unat b1 < 2 ^ 62" "micros b1 = t" unfolding t by auto
  have v1: "validDate (dateOf b1)" "validTime (timeOf b1)" using b1(2) by (simp_all add: dt_isValid_iff)
  have eq: "dayNumber (dateOf b1) = dayNumber (dateOf b)" "microsOfDay (timeOf b1) = microsOfDay (timeOf e)"
    using b1(4) digits_eq [OF _ microsOfDay_bounds [OF v1(2)] microsOfDay_bounds [OF v(4)]] unfolding t_def micros_def by blast+
  have tm: "timeOf b1 = timeOf e" by (rule microsOfDay_inject [OF v1(2) v(4) eq(2)])
  have c: "countDays 10 e b1 0 = Some (e, dayNumber (dateOf e) - dayNumber (dateOf b))"
    using countDays_reach [OF reach_10 [OF v(2) v1(1)] b1(2) assms(2) b1(3) assms(4) tm, of 0] eq(1) by simp
  have d: "micros e - micros b = microsOfDay (h, mi, s, ms, us) + (dayNumber (dateOf e) - dayNumber (dateOf b)) * microsPerDay"
    unfolding td(1) by (simp add: micros_def algebra_simps)
  have "(of_int microsPerDay :: u64) = 24 * 60 * 60 * 1000 * 1000" by (simp add: microsPerDay_def)
  then have w: "(of_int (micros e - micros b) :: u64) =
      of_int (microsOfDay (h, mi, s, ms, us)) + of_int (dayNumber (dateOf e) - dayNumber (dateOf b)) * (24 * 60 * 60 * 1000 * 1000)"
    unfolding d by (simp only: of_int_add of_int_mult)
  have same: "b1 = e \<Longrightarrow> micros e - micros b = microsOfDay (h, mi, s, ms, us)" using eq(1) unfolding d by simp
  show ?thesis
  proof (cases "b1 = e")
    case True
    then show ?thesis unfolding b1(1) same [OF True] by simp
  next
    case False
    then show ?thesis unfolding b1(1) w using c by simp
  qed
qed

lemma micros_range:
  assumes "dt_isValid v"
  shows "0 \<le> micros v" "micros v < 2 ^ 62"
proof -
  have "inCalendar (micros v)"
    using assms inCalendar_day [OF microsOfDay_bounds, of "timeOf v"] dateRange_numbers by (simp add: dt_isValid_iff micros_def)
  moreover have "daysBeforeYear 0x10000 * microsPerDay < 2 ^ 62" by (simp add: daysBeforeYear_closed microsPerDay_def)
  ultimately show "0 \<le> micros v" "micros v < 2 ^ 62" unfolding inCalendar_def by linarith+
qed

lemma durationMicrosec_eq:
  assumes "dt_isValid v" "dt_isValid dt" "unat v < 2 ^ 62" "unat dt < 2 ^ 62"
  shows "durationMicrosec v dt = Some (of_int \<bar>micros v - micros dt\<bar>)"
proof -
  note order = micros_inject [OF assms(2,1,4,3)]
  obtain h mi s ms us h' mi' s' ms' us' where t: "timeDiffs v dt = (h, mi, s, ms, us)" "timeDiffs dt v = (h', mi', s', ms', us')"
    by (cases "timeDiffs v dt", cases "timeDiffs dt v")
  note up = durationMicrosec_ordered [OF assms t(1), unfolded microsOfDay_def prod.case]
    and down = durationMicrosec_ordered [OF assms(2,1,4,3) t(2), unfolded microsOfDay_def prod.case]
  consider "v = dt" | "dt < v" | "v \<noteq> dt" "\<not> dt < v" by auto
  then show ?thesis
  proof cases
    case 1
    then show ?thesis using assms(1) by (simp add: durationMicrosec_def)
  next
    case 2
    then have "\<bar>micros v - micros dt\<bar> = micros v - micros dt" "v \<noteq> dt" using order(1) by auto
    then show ?thesis using 2 assms(1,2) down
      by (simp only: durationMicrosec_def dt_greater_def t Let_def prod.case simp_thms if_True if_False)
  next
    case 3
    then have "\<bar>micros v - micros dt\<bar> = micros dt - micros v" using order(1) by simp
    then show ?thesis using 3 assms(1,2) up
      by (simp only: durationMicrosec_def dt_greater_def t Let_def prod.case simp_thms if_True if_False)
  qed
qed

end
