(* ===== verification/Date_And_Time.thy ===== *)
theory Date_And_Time
  imports Date_Time_Duration
begin

text \<open>
  What \<open>DateAndTime\<close> promises to contracts: valid values stay valid, the packed value is ordered like time, addition moves
  a value by exactly the given time, and a duration is the distance of two values.
\<close>

text \<open>The invariant: the fields are a date and time of the Gregorian calendar, the two reserved bits are clear.\<close>

definition dt_ok :: "DateAndTime \<Rightarrow> bool" where
  "dt_ok v \<longleftrightarrow> dt_isValid v \<and> unat v < 2 ^ 62"

lemma dt_okD: "dt_ok v \<Longrightarrow> dt_isValid v" "dt_ok v \<Longrightarrow> unat v < 2 ^ 62"
  by (simp_all add: dt_ok_def)

lemma uint_diff_u64:
  assumes "dt_ok v" "dt_ok w"
  shows "uint (of_int \<bar>micros v - micros w\<bar> :: u64) = \<bar>micros v - micros w\<bar>" "\<bar>micros v - micros w\<bar> < 2 ^ 62"
proof -
  show b: "\<bar>micros v - micros w\<bar> < 2 ^ 62"
    using micros_range [OF dt_okD(1) [OF assms(1)]] micros_range [OF dt_okD(1) [OF assms(2)]] by linarith
  then show "uint (of_int \<bar>micros v - micros w\<bar> :: u64) = \<bar>micros v - micros w\<bar>"
    by (simp add: uint_word_of_int_eq take_bit_int_eq_self)
qed

text \<open>
  C38: \<open>setIfValid\<close> accepts exactly the dates and times of the Gregorian calendar with years up to 65535, and then the fields
  read back are those that were set; otherwise it leaves the value alone. Whatever is added to a valid value (numbers of units up to \<open>2 ^ 62\<close>), \<open>add\<close> returns
  and leaves a valid value, with the reserved bits clear, whether it reports success or not. The comparisons of packed
  values compare their positions in time.
\<close>

theorem DateAndTime_valid:
  assumes "dt_ok v" "dt_ok w" and "moderate months" "moderate days" "moderate hours" "moderate minutes" "moderate seconds"
    "moderate millisecs" "moderate microsecs"
  shows "setIfValid y mo d h mi s ms us v =
      (if validDate (uint y, uint mo, uint d) \<and> validTime (uint h, uint mi, uint s, uint ms, uint us)
       then (True, dt_set y mo d h mi s ms us) else (False, v)) \<and>
    (case setIfValid y mo d h mi s ms us v of (ok, v') \<Rightarrow> dt_ok v' \<and>
      (if ok then dateOf v' = (uint y, uint mo, uint d) \<and> timeOf v' = (uint h, uint mi, uint s, uint ms, uint us) else v' = v)) \<and>
    (\<exists>ok v'. dt_add years months days hours minutes seconds millisecs microsecs v = Some (ok, v') \<and> dt_ok v') \<and>
    (dt_less v w \<longleftrightarrow> micros v < micros w) \<and> (dt_greater v w \<longleftrightarrow> micros v > micros w) \<and>
    (dt_lessEq v w \<longleftrightarrow> micros v \<le> micros w) \<and> (dt_greaterEq v w \<longleftrightarrow> micros v \<ge> micros w)"
proof (intro conjI)
  note V = dt_okD [OF assms(1)] and W = dt_okD [OF assms(2)]
  show "setIfValid y mo d h mi s ms us v =
      (if validDate (uint y, uint mo, uint d) \<and> validTime (uint h, uint mi, uint s, uint ms, uint us)
       then (True, dt_set y mo d h mi s ms us) else (False, v))"
    by (simp add: setIfValid_def isValidFields_iff)
  show "case setIfValid y mo d h mi s ms us v of (ok, v') \<Rightarrow> dt_ok v' \<and>
      (if ok then dateOf v' = (uint y, uint mo, uint d) \<and> timeOf v' = (uint h, uint mi, uint s, uint ms, uint us) else v' = v)"
    using dt_set_valid [of y mo d h mi s ms us] assms(1) by (simp add: setIfValid_def dt_ok_def)
  show "\<exists>ok v'. dt_add years months days hours minutes seconds millisecs microsecs v = Some (ok, v') \<and> dt_ok v'"
    unfolding dt_ok_def by (rule dt_add_valid [OF V assms(3-9)])
  note lt = micros_inject(1) [OF V(1) W(1) V(2) W(2)] and gt = micros_inject(1) [OF W(1) V(1) W(2) V(2)]
  show "dt_less v w \<longleftrightarrow> micros v < micros w" "dt_greater v w \<longleftrightarrow> micros v > micros w"
    using lt gt by (simp_all add: dt_less_def dt_greater_def)
  show "dt_lessEq v w \<longleftrightarrow> micros v \<le> micros w" "dt_greaterEq v w \<longleftrightarrow> micros v \<ge> micros w"
    using lt gt by (simp_all add: dt_lessEq_def dt_greaterEq_def flip: not_less)
qed

text \<open>The last microsecond of a leap day, and a day of the next year.\<close>

definition leapDay :: DateAndTime where
  "leapDay = dt_set 2020 2 29 23 59 59 999 999"

definition springDay :: DateAndTime where
  "springDay = dt_set 2021 3 1 0 0 0 0 0"

lemma sample_days:
  "dt_ok leapDay" "dateOf leapDay = (2020, 2, 29)" "timeOf leapDay = (23, 59, 59, 999, 999)"
  "dt_ok springDay" "dateOf springDay = (2021, 3, 1)" "timeOf springDay = (0, 0, 0, 0, 0)"
proof -
  have "isValidFields 2020 2 29 23 59 59 999 999" "isValidFields 2021 3 1 0 0 0 0 0" by code_simp+
  from this [THEN dt_set_valid] show "dt_ok leapDay" "dateOf leapDay = (2020, 2, 29)" "timeOf leapDay = (23, 59, 59, 999, 999)"
    "dt_ok springDay" "dateOf springDay = (2021, 3, 1)" "timeOf springDay = (0, 0, 0, 0, 0)"
    by (simp_all add: leapDay_def springDay_def dt_ok_def)
qed

lemma sample_distance: "micros springDay - micros leapDay = 365 * microsPerDay + 1"
  by (simp add: micros_def sample_days dayNumber_def daysBeforeYear_closed daysBeforeMonth_table leap_def microsOfDay_def microsPerDay_def)

lemma moderate_small: "moderate 0" "moderate 1" "moderate (- 1)" "moderate (- 365)"
  by (simp_all add: moderate_def)

theorem DateAndTime_valid_witness:
  "dt_ok leapDay \<and> dt_ok springDay \<and> dt_less leapDay springDay \<and> fst (setIfValid 2021 2 29 0 0 0 0 0 leapDay) = False \<and>
   (\<exists>ok v'. dt_add 1 (- 1) 0 0 0 0 0 1 leapDay = Some (ok, v') \<and> dt_ok v')"
proof -
  have d: "micros leapDay < micros springDay" using sample_distance by (simp add: microsPerDay_def)
  have n: "\<not> validDate (2021, 2, 29)" by (simp add: validDate_def monthLength_def leap_def)
  note t = DateAndTime_valid [OF sample_days(1,4) moderate_small(3) moderate_small(1) moderate_small(1) moderate_small(1) moderate_small(1)
      moderate_small(1) moderate_small(2), of 2021 2 29 0 0 0 0 0 1]
  have "dt_less leapDay springDay" using t d by blast
  moreover have "setIfValid 2021 2 29 0 0 0 0 0 leapDay = (False, leapDay)" using conjunct1 [OF t] n by simp
  moreover have "\<exists>ok v'. dt_add 1 (- 1) 0 0 0 0 0 1 leapDay = Some (ok, v') \<and> dt_ok v'" using t by blast
  ultimately show ?thesis using sample_days(1,4) by simp
qed

text \<open>
  C37: \<open>add\<close> without months and years moves a valid value by exactly the given days, hours, minutes, seconds, milliseconds and
  microseconds, of either sign and not confined to their ranges: it succeeds exactly if the target lies in the years 0 to
  65535, and the new value is the valid one at the target. On failure it reports so and the date is unchanged. \<open>addDays\<close> moves
  the date and keeps the time of day.
\<close>

theorem DateAndTime_add_exact:
  assumes "dt_ok v" "moderate days" "moderate hours" "moderate minutes" "moderate seconds" "moderate millisecs" "moderate microsecs"
  shows "(if inCalendar (micros v + days * microsPerDay + microsOfDay (hours, minutes, seconds, millisecs, microsecs))
      then \<exists>v'. dt_add 0 0 days hours minutes seconds millisecs microsecs v = Some (True, v') \<and> dt_ok v' \<and>
        micros v' = micros v + days * microsPerDay + microsOfDay (hours, minutes, seconds, millisecs, microsecs)
      else \<exists>v'. dt_add 0 0 days hours minutes seconds millisecs microsecs v = Some (False, v') \<and> dt_isValid v' \<and> dateOf v' = dateOf v) \<and>
    (if inCalendar (micros v + days * microsPerDay)
      then \<exists>v'. addDays days v = Some (True, v') \<and> dt_ok v' \<and> timeOf v' = timeOf v \<and> micros v' = micros v + days * microsPerDay
      else addDays days v = Some (False, v))"
proof
  note V = dt_okD [OF assms(1)]
  show "if inCalendar (micros v + days * microsPerDay + microsOfDay (hours, minutes, seconds, millisecs, microsecs))
      then \<exists>v'. dt_add 0 0 days hours minutes seconds millisecs microsecs v = Some (True, v') \<and> dt_ok v' \<and>
        micros v' = micros v + days * microsPerDay + microsOfDay (hours, minutes, seconds, millisecs, microsecs)
      else \<exists>v'. dt_add 0 0 days hours minutes seconds millisecs microsecs v = Some (False, v') \<and> dt_isValid v' \<and> dateOf v' = dateOf v"
    using dt_add_micros [OF V(1) assms(2-7)] unfolding dt_ok_def by meson
  have t: "validTime (timeOf v)" using V(1) by (simp add: dt_isValid_iff)
  have e: "micros v + days * microsPerDay = (dayNumber (dateOf v) + days) * microsPerDay + microsOfDay (timeOf v)"
    by (simp add: micros_def distrib_right)
  have r: "inCalendar (micros v + days * microsPerDay) \<longleftrightarrow> dayInRange (dayNumber (dateOf v) + days)"
    unfolding e by (rule inCalendar_day [OF microsOfDay_bounds [OF t]])
  have "\<bar>days\<bar> \<le> 2 ^ 63" using assms(2) by (simp add: moderate_def)
  from addDate_days [OF V(1) this] r e
  show "if inCalendar (micros v + days * microsPerDay)
      then \<exists>v'. addDays days v = Some (True, v') \<and> dt_ok v' \<and> timeOf v' = timeOf v \<and> micros v' = micros v + days * microsPerDay
      else addDays days v = Some (False, v)"
    by (auto simp: addDays_def dt_ok_def micros_def split: if_splits)
qed

theorem DateAndTime_add_exact_witness:
  "dt_ok leapDay \<and> (\<exists>v'. dt_add 0 0 365 0 0 0 0 1 leapDay = Some (True, v') \<and> dt_ok v' \<and> micros v' = micros springDay)"
proof -
  have m: "moderate 365" by (simp add: moderate_def)
  have t: "micros leapDay + 365 * microsPerDay + microsOfDay (0, 0, 0, 0, 1) = micros springDay"
    using sample_distance by (simp add: microsOfDay_def)
  have "inCalendar (micros springDay)"
    by (simp add: inCalendar_def micros_def sample_days dayNumber_def daysBeforeYear_closed daysBeforeMonth_table leap_def microsOfDay_def microsPerDay_def)
  then show ?thesis
    using conjunct1 [OF DateAndTime_add_exact [OF sample_days(1) m moderate_small(1) moderate_small(1) moderate_small(1) moderate_small(1) moderate_small(2)]]
      sample_days(1) unfolding t by simp
qed

text \<open>
  C36: the duration between two valid values is the distance of their positions in time, in microseconds or full days, in
  either order and for any two dates of the calendar: the ten rounds of guessing the number of days are always enough, and
  the loops end. For an invalid value the result is \<open>UINT64_MAX\<close>.
\<close>

theorem DateAndTime_duration_exact:
  assumes "unat v < 2 ^ 62" "unat w < 2 ^ 62"
  shows "if dt_isValid v \<and> dt_isValid w
    then \<exists>us days. durationMicrosec v w = Some us \<and> uint us = \<bar>micros v - micros w\<bar> \<and>
      durationDays v w = Some days \<and> uint days = \<bar>micros v - micros w\<bar> div microsPerDay
    else durationMicrosec v w = Some 0xFFFFFFFFFFFFFFFF \<and> durationDays v w = Some 0xFFFFFFFFFFFFFFFF"
proof (cases "dt_isValid v \<and> dt_isValid w")
  case False
  then show ?thesis by (auto simp: durationMicrosec_def durationDays_def)
next
  case True
  then have ok: "dt_ok v" "dt_ok w" using assms by (simp_all add: dt_ok_def)
  define n where "n = (of_int \<bar>micros v - micros w\<bar> :: u64)"
  have n: "durationMicrosec v w = Some n" "uint n = \<bar>micros v - micros w\<bar>" "uint n < 2 ^ 62"
    using durationMicrosec_eq [OF _ _ assms] True uint_diff_u64 [OF ok] by (simp_all add: n_def)
  have m: "uint (24 * 60 * 60 * 1000 * 1000 :: u64) = microsPerDay" by (simp add: microsPerDay_def)
  have "n \<noteq> 0xFFFFFFFFFFFFFFFF" using n(3) by auto
  then have "durationDays v w = Some (n div (24 * 60 * 60 * 1000 * 1000))" using n(1) by (simp add: durationDays_def)
  moreover have "uint (n div (24 * 60 * 60 * 1000 * 1000)) = \<bar>micros v - micros w\<bar> div microsPerDay"
    unfolding uint_div_distrib m n(2) ..
  ultimately show ?thesis using n(1,2) True by auto
qed

theorem DateAndTime_duration_exact_witness:
  "(\<exists>us. durationMicrosec springDay leapDay = Some us \<and> uint us = 31536000000001) \<and>
   (\<exists>days. durationDays leapDay springDay = Some days \<and> uint days = 365)"
proof -
  have d: "\<bar>micros springDay - micros leapDay\<bar> = 31536000000001" "\<bar>micros leapDay - micros springDay\<bar> div microsPerDay = 365"
    using sample_distance by (simp_all add: microsPerDay_def)
  show ?thesis
    using DateAndTime_duration_exact [of springDay leapDay] DateAndTime_duration_exact [of leapDay springDay] dt_okD [OF sample_days(1)] dt_okD [OF sample_days(4)]
    by (auto simp: d)
qed

end
