(* ===== verification/Spec2Isabelle.thy ===== *)
theory Spec2Isabelle
  imports Entity_Requests Hash_Map_Cleanup Linked_List Uint128 Math_Lib Assets_Requests Read_Write_Lock Vote_Counter Stable_Computor_Index Min_Heap Execution_Fee_Reports Date_And_Time
begin

text \<open>
  A verification development of the Qubic core node (\<open>src/src\<close>). The node keeps two ledgers, the spectrum (balances of
  entities) and the universe (shares of assets), each an open-addressing table with a Merkle tree over its slots. Ticks of
  transactions change the ledgers; contracts change them through the interface \<open>QPI\<close> and keep their own state in its
  containers. Computors vote on the digests, and the counts of their votes decide revenue and the order of the next epoch.

  \<^bold>\<open>Shared vocabulary.\<close> \<open>Prelude\<close> names the machine types: \<open>u64\<close>, \<open>i64\<close> are 64-bit words, read unsigned by \<open>unat\<close> and
  signed by \<open>sint\<close>; \<open>m256i\<close> is a 256-bit word, which stands for public keys, digests and the vector type of
  \<open>platform/m256.h\<close>. The hash function KangarooTwelve is the parameter \<open>k12\<close> of every definition that uses it. No
  theorem assumes anything of it. \<open>Bit_Flags\<close> and \<open>Slot_Flags\<close> hold the flag arrays: one bit per slot for change flags,
  two bits per slot for the containers of contracts. \<open>Linear_Probing\<close> holds the search loop of all tables; its locale
  \<open>probing_table\<close> states what a table owes the loop (a slot at the home index or reachable from it without a gap, no two
  slots for one key) and is interpreted for the spectrum, the hash map and the universe.

  \<^bold>\<open>Spectrum\<close> (\<open>spectrum/spectrum.h\<close>). \<open>Spectrum\<close> has the record of the state and one definition per function:
  \<open>spectrumIndex\<close>, \<open>energy\<close>, \<open>increaseEnergy\<close>, \<open>decreaseEnergy\<close>, \<open>reorganizeSpectrum\<close>, \<open>updateSpectrumInfo\<close>, the
  anti-dust block. \<open>Spectrum_AntiDust\<close> shows what the categories count, how the two thresholds are chosen and that the
  burn frees a quarter of the table. \<open>Spectrum_Ledger\<close> relates the operations to balances by key. \<open>Spectrum_Digest\<close> has
  \<open>getSpectrumDigest\<close> and the start-up digest of \<open>qubic.cpp\<close>; \<open>Merkle\<close> has the tree, the climb along the change flags and
  the sibling path. \<open>Entity_Requests\<close> has \<open>processRequestEntity\<close> of \<open>qubic.cpp\<close>, which runs beside the tick processor and
  holds the lock of the spectrum only for two of its three accesses: each access sees its own state, and the property says
  what other threads must leave alone for the reply to be verifiable. \<open>Network_Messages\<close> has the message header
  (\<open>network_messages/header.h\<close>) and the enqueued responses.

  \<^bold>\<open>Universe\<close> (\<open>assets/assets.h\<close>, \<open>assets/net_msg_impl.h\<close>). \<open>Assets\<close> has the records and the operations \<open>issueAsset\<close>,
  \<open>transferShareOwnershipAndPossession\<close>, \<open>transferShareManagementRights\<close>, \<open>numberOfPossessedShares\<close> and
  \<open>assetsEndEpoch\<close>; \<open>Assets_Table\<close> the invariant (every record is found from its key, links lead to the right kind of
  record, the shares of an issuance, its ownerships and its possessions add up); \<open>Assets_Transfer\<close>, \<open>Assets_Issue\<close> and
  \<open>Assets_Epoch\<close> that the operations keep it; \<open>Assets_Ledger\<close> what they do to the shares by position. \<open>Assets_Digest\<close> and
  \<open>Merkle_Chunked\<close> have the word-wise digest, \<open>Assets_Requests\<close> the replies to asset requests.

  \<^bold>\<open>Containers and arithmetic of contracts\<close> (\<open>qpi/impl\<close>, \<open>contracts/math_lib.h\<close>, \<open>platform/uint128.h\<close>). \<open>Hash_Map\<close>
  and \<open>Hash_Map_Cleanup\<close> refine \<open>HashMap\<close> and \<open>HashSet\<close> to finite maps of bounded size; \<open>Linked_List\<close> refines
  \<open>LinkedList\<close> to a sequence of indexed values; \<open>Uint128\<close> and \<open>Math_Lib\<close> relate the arithmetic to the integers.

  \<^bold>\<open>Concurrency and consensus.\<close> \<open>Read_Write_Lock\<close> (\<open>platform/read_write_lock.h\<close>) is a step relation of interleaved
  threads, one step per access to a shared variable. \<open>Vote_Counter\<close> (\<open>vote_counter.h\<close>) has the vote packets,
  \<open>Stable_Computor_Index\<close> (\<open>ticking/stable_computor_index.h\<close>) the order of the computors of the next epoch.

  \<^bold>\<open>Sorting and execution fees.\<close> \<open>Sorting\<close> and \<open>Min_Heap\<close> (\<open>lib/platform_common/sorting.h\<close>) relate quicksort to the sorted list
  and the binary heap to a bounded bag; the locale \<open>compare_order\<close> states what the heap needs of its comparison and is interpreted
  for both comparisons of the source. \<open>Quorum_Value\<close> (\<open>platform/quorum_value.h\<close>) has the value at two thirds of the sorted reports.
  \<open>Byte_Memory\<close> models memory as bytes for messages that are built through pointers. \<open>Execution_Fees\<close> has the accumulator of execution
  times, the report transactions, their collector and the fee reserves; \<open>Execution_Fee_Reports\<close> shows that a report is read back as it
  was built and that a contract is charged a fee between those of two honest computors.

  \<^bold>\<open>Date and time\<close> (\<open>qpi/qpi_date_time.h\<close>). \<open>Date_Time\<close> has every operation of \<open>DateAndTime\<close> on the packed 64-bit value.
  \<open>Date_Time_Fields\<close> shows how the fields lie in the value, \<open>Date_Time_Calendar\<close> defines the Gregorian calendar by counting
  days (\<open>dayNumber\<close>, \<open>micros\<close>), independently of the loops of the source. \<open>Date_Time_Add\<close> shows that the loops of \<open>add\<close> end at
  the right day, \<open>Date_Time_Order\<close> that packed values are ordered like time, \<open>Date_Time_Duration\<close> that the search of
  \<open>durationMicrosec\<close> meets the end date within its ten rounds. \<open>Date_And_Time\<close> has the properties. Numbers of units up to
  \<open>2 ^ 62\<close> are covered, which keeps the sums of the source in 64 bits.

  \<^bold>\<open>Bounds and fuel.\<close> The search loop \<open>probe\<close> takes the number of slots as fuel: it visits the slots in cyclic order, so
  after that many steps it has seen all of them. The source loops have no bound of their own, and running out of fuel is
  the result \<open>None\<close>; the properties show that the operations return, under the hypothesis that a slot is free, which is
  the condition the source relies on. Capacities are the constants of the sources (\<open>SPECTRUM_CAPACITY\<close>,
  \<open>ASSETS_CAPACITY\<close>, powers of two) or parameters where the source has a template parameter. Arithmetic on amounts is
  done on words; where a property is about sums it states the range in which they do not wrap. The number of contracts is a
  parameter of the fee reports, at most 82, the bound the source asserts for their size.

  \<^bold>\<open>Not modelled.\<close> Code whose effect is input or output: files, TCP, peers, the HTTP and RPC servers, logging, the
  console, snapshots. Memory and processor primitives: allocation, virtual memory, custom stacks, AVX paths of \<open>m256.h\<close>.
  Cryptographic primitives (\<open>kangaroo_twelve.h\<close>, \<open>four_q.h\<close>): \<open>k12\<close> is a parameter. The execution of contracts
  (\<open>contract_core\<close>, the WebAssembly runtime) and the contracts themselves: they run against the ledgers and
  containers modelled here, but the dispatcher is tied to locks, stacks and timers. The mining scores, oracles and the
  main loop of \<open>qubic.cpp\<close> apart from the routines named above. Spin locks around the ledgers: a routine that holds
  \<open>spectrumLock\<close> or \<open>universeLock\<close> throughout is modelled as atomic; \<open>processRequestEntity\<close>, which does not, is
  modelled access by access.
\<close>

end
